(* ===== verification/Qjs_Prelude.thy ===== *)
theory Qjs_Prelude
  imports Main "HOL-Library.Word" "HOL-Library.Monad_Syntax"
begin

text \<open>
  Shared vocabulary of the QuickJS development: names for the C integer types, the
  treatment of memory (a C object is the list of its elements, a pointer into it is an
  index, and an access outside the object is the value \<^term>\<open>None\<close>), \<open>size_t\<close>
  arithmetic with its wrap-around, and the list and word lemmas that the component
  theories share.
\<close>

unbundle bit_operations_syntax

section \<open>Integer types\<close>

type_synonym u8 = "8 word"
type_synonym u16 = "16 word"
type_synonym u32 = "32 word"
type_synonym u64 = "64 word"

type_synonym bytes = "u8 list"

named_theorems c_mem \<open>laws of the memory primitives\<close>
named_theorems word_bits \<open>bit-level rules for words\<close>

text \<open>\<open>size_t\<close> is 64 bits wide on the targets of the engine; sums and products wrap.\<close>

abbreviation size_max :: nat where
  "size_max \<equiv> 2 ^ 64"

definition add_sz :: "nat \<Rightarrow> nat \<Rightarrow> nat" where
  "add_sz a b = (a + b) mod size_max"

definition mul_sz :: "nat \<Rightarrow> nat \<Rightarrow> nat" where
  "mul_sz a b = (a * b) mod size_max"

section \<open>Memory\<close>

text \<open>\<open>None\<close> stands for undefined behaviour of the C program: an access outside an
  object, a failed \<open>assert\<close> or a call of \<open>abort\<close>.\<close>

definition rd :: "'a list \<Rightarrow> nat \<Rightarrow> 'a option" where
  "rd m i = (if i < length m then Some (m ! i) else None)"

definition wr :: "'a list \<Rightarrow> nat \<Rightarrow> 'a \<Rightarrow> 'a list option" where
  "wr m i v = (if i < length m then Some (m[i := v]) else None)"

definition assert_c :: "bool \<Rightarrow> unit option" where
  "assert_c b = (if b then Some () else None)"

text \<open>\<open>memcpy(dst + pos, src, len)\<close> where \<open>src\<close> holds exactly \<open>len\<close> elements.\<close>

definition blit :: "'a list \<Rightarrow> nat \<Rightarrow> 'a list \<Rightarrow> 'a list option" where
  "blit dst pos src =
     (if pos + length src \<le> length dst
      then Some (take pos dst @ src @ drop (pos + length src) dst) else None)"

text \<open>Reading \<open>len\<close> elements from \<open>src + pos\<close>.\<close>

definition rd_block :: "'a list \<Rightarrow> nat \<Rightarrow> nat \<Rightarrow> 'a list option" where
  "rd_block src pos len = (if pos + len \<le> length src then Some (take len (drop pos src)) else None)"

lemma rd_Some [c_mem]: "rd m i = Some v \<longleftrightarrow> i < length m \<and> v = m ! i"
  by (auto simp: rd_def)

lemma rd_None [c_mem]: "rd m i = None \<longleftrightarrow> length m \<le> i"
  by (auto simp: rd_def)

lemma rd_in [simp]: "i < length m \<Longrightarrow> rd m i = Some (m ! i)"
  by (simp add: rd_def)

lemma wr_Some [c_mem]: "wr m i v = Some m' \<longleftrightarrow> i < length m \<and> m' = m[i := v]"
  by (auto simp: wr_def)

lemma wr_in [simp]: "i < length m \<Longrightarrow> wr m i v = Some (m[i := v])"
  by (simp add: wr_def)

lemma assert_c_Some [c_mem, simp]: "assert_c b = Some u \<longleftrightarrow> b"
  by (simp add: assert_c_def)

lemma assert_c_True [simp]: "assert_c True = Some ()"
  by (simp add: assert_c_def)

lemma blit_Some [c_mem]:
  "blit dst pos src = Some m \<longleftrightarrow>
     pos + length src \<le> length dst \<and> m = take pos dst @ src @ drop (pos + length src) dst"
  by (auto simp: blit_def)

lemma blit_length: "blit dst pos src = Some m \<Longrightarrow> length m = length dst"
  by (auto simp: blit_def split: if_splits)

lemma rd_block_Some [c_mem]:
  "rd_block src pos len = Some m \<longleftrightarrow> pos + len \<le> length src \<and> m = take len (drop pos src)"
  by (auto simp: rd_block_def)

lemma add_sz_small [simp]: "a + b < size_max \<Longrightarrow> add_sz a b = a + b"
  by (simp add: add_sz_def)

lemma add_sz_less: "add_sz a b < size_max"
  by (simp add: add_sz_def)

lemma mul_sz_small: "a * b < size_max \<Longrightarrow> mul_sz a b = a * b"
  by (simp add: mul_sz_def)

section \<open>Lists\<close>

lemma take_drop_nth:
  assumes "pos + len \<le> length xs" "i < len"
  shows "take len (drop pos xs) ! i = xs ! (pos + i)"
  using assms by simp

lemma take_update_ge [simp]: "n \<le> i \<Longrightarrow> take n (xs[i := v]) = take n xs"
  by (simp add: take_update_swap list_update_beyond)

lemma take_Suc_update: "i < length xs \<Longrightarrow> take (Suc i) (xs[i := v]) = take i xs @ [v]"
  by (simp add: take_Suc_conv_app_nth)

lemma take_append_prefix: "take n (xs @ ys) = xs @ ys \<or> n < length (xs @ ys)"
  by auto

section \<open>Words\<close>

lemma word_eq_bitI:
  fixes v w :: "'a::len word"
  assumes "\<And>n. n < LENGTH('a) \<Longrightarrow> bit v n = bit w n"
  shows "v = w"
  using assms by (rule bit_word_eqI)

lemmas word_bit_rules [word_bits] =
  bit_or_iff bit_and_iff bit_xor_iff bit_not_iff_eq bit_push_bit_iff bit_drop_bit_eq
  bit_unsigned_iff bit_mask_iff bit_take_bit_iff

lemma and_less_mask:
  fixes x :: "'a::len word"
  shows "x AND mask n = take_bit n x"
  by (simp add: take_bit_eq_mask)

lemma unat_drop_bit: "unat (drop_bit n x) = unat x div 2 ^ n" for x :: "'a::len word"
proof -
  have "unat (drop_bit n x) = drop_bit n (unat x)"
    by (rule bit_eqI) (simp add: bit_simps)
  then show ?thesis by (simp only: drop_bit_eq_div)
qed

lemma unat_and_mask: "unat (x AND mask n) = unat x mod 2 ^ n" for x :: "'a::len word"
proof -
  have "unat (x AND mask n) = take_bit n (unat x)"
    by (rule bit_eqI) (auto simp: bit_simps dest: bit_imp_le_length)
  then show ?thesis by (simp only: take_bit_eq_mod)
qed

lemma unat_ucast_small:
  fixes w :: "'a::len word"
  assumes "unat w < 2 ^ LENGTH('b::len)"
  shows "unat (ucast w :: 'b word) = unat w"
  using assms by (simp add: unsigned_ucast_eq take_bit_nat_eq_self)

lemma bit_less_bound:
  fixes w :: "'a::len word"
  assumes "unat w < 2 ^ n" "bit w k"
  shows "k < n"
proof -
  have "w AND mask n = w" using assms(1) by (simp add: word_unat_eq_iff unat_and_mask)
  with assms(2) have "bit (w AND mask n) k" by simp
  then show ?thesis by (simp add: bit_and_iff bit_mask_iff)
qed

end
