(* ===== verification/Cutils_Bytes.thy ===== *)
theory Cutils_Bytes
  imports Qjs_Prelude
begin

text \<open>
  The byte-level helpers of \<open>cutils.h\<close>: unaligned loads and stores of 8, 16, 32 and
  64 bit integers through the packed structs (the engine's configuration undefines
  \<open>WORDS_BIGENDIAN\<close>, so the first byte is the least significant), byte swapping,
  hexadecimal digits, and the minimum and maximum functions.  The laws of a load after a
  store are stated once in the locale \<open>byte_cell\<close> and interpreted for every width.
\<close>

section \<open>Minimum and maximum\<close>

definition max_int :: "int \<Rightarrow> int \<Rightarrow> int" where
  "max_int a b = (if a > b then a else b)"

definition min_int :: "int \<Rightarrow> int \<Rightarrow> int" where
  "min_int a b = (if a < b then a else b)"

definition max_uint32 :: "u32 \<Rightarrow> u32 \<Rightarrow> u32" where
  "max_uint32 a b = (if a > b then a else b)"

definition min_uint32 :: "u32 \<Rightarrow> u32 \<Rightarrow> u32" where
  "min_uint32 a b = (if a < b then a else b)"

section \<open>Loads and stores\<close>

definition get_u8 :: "bytes \<Rightarrow> nat \<Rightarrow> u32 option" where
  "get_u8 tab p = map_option ucast (rd tab p)"

definition get_i8 :: "bytes \<Rightarrow> nat \<Rightarrow> u32 option" where
  "get_i8 tab p = map_option scast (rd tab p)"

definition put_u8 :: "bytes \<Rightarrow> nat \<Rightarrow> u8 \<Rightarrow> bytes option" where
  "put_u8 tab p v = wr tab p v"

text \<open>The value of a packed little-endian integer and the bytes of one.\<close>

fun le_value :: "bytes \<Rightarrow> 'a::len word" where
  "le_value [] = 0"
| "le_value (b # bs) = ucast b OR push_bit 8 (le_value bs)"

fun le_bytes :: "nat \<Rightarrow> 'a::len word \<Rightarrow> bytes" where
  "le_bytes 0 v = []"
| "le_bytes (Suc n) v = ucast v # le_bytes n (drop_bit 8 v)"

definition get_packed :: "nat \<Rightarrow> bytes \<Rightarrow> nat \<Rightarrow> 'a::len word option" where
  "get_packed n tab p = map_option le_value (rd_block tab p n)"

definition put_packed :: "nat \<Rightarrow> bytes \<Rightarrow> nat \<Rightarrow> 'a::len word \<Rightarrow> bytes option" where
  "put_packed n tab p v = blit tab p (le_bytes n v)"

definition get_u16 :: "bytes \<Rightarrow> nat \<Rightarrow> u32 option" where
  "get_u16 tab p = map_option ucast (get_packed 2 tab p :: u16 option)"

definition get_i16 :: "bytes \<Rightarrow> nat \<Rightarrow> u32 option" where
  "get_i16 tab p = map_option scast (get_packed 2 tab p :: u16 option)"

definition put_u16 :: "bytes \<Rightarrow> nat \<Rightarrow> u16 \<Rightarrow> bytes option" where
  "put_u16 tab p v = put_packed 2 tab p v"

definition get_u32 :: "bytes \<Rightarrow> nat \<Rightarrow> u32 option" where
  "get_u32 tab p = get_packed 4 tab p"

definition get_i32 :: "bytes \<Rightarrow> nat \<Rightarrow> int option" where
  "get_i32 tab p = map_option sint (get_packed 4 tab p :: u32 option)"

definition put_u32 :: "bytes \<Rightarrow> nat \<Rightarrow> u32 \<Rightarrow> bytes option" where
  "put_u32 tab p v = put_packed 4 tab p v"

definition get_u64 :: "bytes \<Rightarrow> nat \<Rightarrow> u64 option" where
  "get_u64 tab p = get_packed 8 tab p"

definition get_i64 :: "bytes \<Rightarrow> nat \<Rightarrow> int option" where
  "get_i64 tab p = map_option sint (get_packed 8 tab p :: u64 option)"

definition put_u64 :: "bytes \<Rightarrow> nat \<Rightarrow> u64 \<Rightarrow> bytes option" where
  "put_u64 tab p v = put_packed 8 tab p v"

section \<open>Byte swapping and hexadecimal digits\<close>

definition bswap16 :: "u16 \<Rightarrow> u16" where
  "bswap16 x = drop_bit 8 x OR push_bit 8 x"

definition bswap32 :: "u32 \<Rightarrow> u32" where
  "bswap32 v =
     drop_bit 24 (v AND 0xff000000) OR drop_bit 8 (v AND 0x00ff0000) OR
     push_bit 8 (v AND 0x0000ff00) OR push_bit 24 (v AND 0x000000ff)"

definition bswap64 :: "u64 \<Rightarrow> u64" where
  "bswap64 v =
     drop_bit 56 (v AND push_bit 56 0xff) OR
     drop_bit 40 (v AND push_bit 48 0xff) OR
     drop_bit 24 (v AND push_bit 40 0xff) OR
     drop_bit 8 (v AND push_bit 32 0xff) OR
     push_bit 8 (v AND push_bit 24 0xff) OR
     push_bit 24 (v AND push_bit 16 0xff) OR
     push_bit 40 (v AND push_bit 8 0xff) OR
     push_bit 56 (v AND push_bit 0 0xff)"

text \<open>\<open>from_hex\<close>: the value of a hexadecimal digit character, \<open>-1\<close> for any other
  character.\<close>

definition from_hex :: "int \<Rightarrow> int" where
  "from_hex c =
     (if c \<ge> 48 \<and> c \<le> 57 then c - 48
      else if c \<ge> 65 \<and> c \<le> 70 then c - 65 + 10
      else if c \<ge> 97 \<and> c \<le> 102 then c - 97 + 10
      else -1)"

section \<open>Little-endian encoding\<close>

lemma length_le_bytes [simp]: "length (le_bytes n v) = n"
  by (induction n arbitrary: v) simp_all

lemma le_bytes_nth: "i < n \<Longrightarrow> le_bytes n v ! i = ucast (drop_bit (8 * i) v)"
proof (induction n arbitrary: i v)
  case (Suc n)
  then show ?case
    by (cases i) (simp_all add: add.commute)
qed simp

lemma bit_le_value:
  "bit (le_value bs :: 'a::len word) k \<longleftrightarrow>
     k < LENGTH('a) \<and> k div 8 < length bs \<and> bit (bs ! (k div 8)) (k mod 8)"
proof (induction bs arbitrary: k)
  case (Cons b bs)
  show ?case
  proof (cases "k < 8")
    case True
    then show ?thesis by (auto simp: bit_simps)
  next
    case False
    then obtain j where k: "k = 8 + j" by (metis le_add_diff_inverse not_less)
    have nb: "\<not> bit b (8 + j)" by (auto dest: bit_imp_le_length)
    have d: "(8 + j) div 8 = Suc (j div 8)" "(8 + j) mod 8 = j mod 8" by simp_all
    show ?thesis
      by (auto simp: k d bit_simps Cons.IH nb simp del: div_add_self1)
  qed
qed simp

text \<open>Reading back the bytes of a value that fits gives the value.\<close>

lemma le_value_le_bytes:
  fixes v :: "'a::len word"
  assumes "LENGTH('a) \<le> 8 * n"
  shows "le_value (le_bytes n v) = v"
proof (rule word_eq_bitI)
  fix k assume k: "k < LENGTH('a)"
  have "k div 8 < n" using k assms by auto
  moreover have "k mod 8 + 8 * (k div 8) = k" "k mod 8 < LENGTH(8)" by simp_all
  ultimately show "bit (le_value (le_bytes n v) :: 'a word) k = bit v k"
    using k by (simp add: bit_le_value le_bytes_nth bit_unsigned_iff bit_drop_bit_eq add.commute del: len_num0 len_of_numeral_defs)
qed

lemma le_bytes_le_value:
  assumes "8 * n \<le> LENGTH('a)" "length bs = n"
  shows "le_bytes n (le_value bs :: 'a::len word) = bs"
proof (rule nth_equalityI)
  show "length (le_bytes n (le_value bs :: 'a word)) = length bs" using assms by simp
next
  fix i assume "i < length (le_bytes n (le_value bs :: 'a word))"
  then have i: "i < n" by simp
  show "le_bytes n (le_value bs :: 'a word) ! i = bs ! i"
  proof (rule word_eq_bitI)
    fix k assume "k < LENGTH(8)"
    then have k: "k < 8" by simp
    have "k + 8 * i < LENGTH('a)" using i k assms by auto
    with i k assms show "bit (le_bytes n (le_value bs :: 'a word) ! i) k = bit (bs ! i) k"
      by (simp add: le_bytes_nth bit_simps bit_le_value add.commute)
  qed
qed

section \<open>The contract of a memory cell\<close>

text \<open>
  A cell of \<open>width\<close> bytes with a load and a store: both succeed exactly inside the
  object, a load after a store returns the stored value, a store changes no byte outside
  the cell, and a load depends on the bytes of its cell only.
\<close>

locale byte_cell =
  fixes get :: "bytes \<Rightarrow> nat \<Rightarrow> 'v option"
    and put :: "bytes \<Rightarrow> nat \<Rightarrow> 'v \<Rightarrow> bytes option"
    and width :: nat
  assumes get_in: "get tab p \<noteq> None \<longleftrightarrow> p + width \<le> length tab"
    and put_in: "put tab p v \<noteq> None \<longleftrightarrow> p + width \<le> length tab"
    and get_put: "put tab p v = Some tab' \<Longrightarrow> get tab' p = Some v"
    and put_length: "put tab p v = Some tab' \<Longrightarrow> length tab' = length tab"
    and put_frame: "put tab p v = Some tab' \<Longrightarrow> i < p \<or> p + width \<le> i \<Longrightarrow> tab' ! i = tab ! i"
    and get_local: "length tab' = length tab \<Longrightarrow>
      (\<And>i. p \<le> i \<Longrightarrow> i < p + width \<Longrightarrow> tab' ! i = tab ! i) \<Longrightarrow> get tab' p = get tab p"
begin

lemma get_put_other:
  assumes "put tab p v = Some tab'" "q + width \<le> p \<or> p + width \<le> q"
  shows "get tab' q = get tab q"
proof (rule get_local)
  show "length tab' = length tab" using assms(1) by (rule put_length)
next
  fix i assume "q \<le> i" "i < q + width"
  with assms(2) have "i < p \<or> p + width \<le> i" by auto
  with assms(1) show "tab' ! i = tab ! i" by (rule put_frame)
qed

lemma store_load:
  assumes "put tab p v = Some tab'"
  shows "get tab' p = Some v \<and> length tab' = length tab \<and>
    (\<forall>q. q + width \<le> p \<or> p + width \<le> q \<longrightarrow> get tab' q = get tab q)"
  using assms by (auto intro: get_put put_length get_put_other)

end

lemma get_packed_in: "get_packed n tab p \<noteq> None \<longleftrightarrow> p + n \<le> length tab"
  by (simp add: get_packed_def rd_block_def)

lemma put_packed_Some:
  "put_packed n tab p v = Some tab' \<longleftrightarrow>
     p + n \<le> length tab \<and> tab' = take p tab @ le_bytes n v @ drop (p + n) tab"
  by (auto simp: put_packed_def blit_def)

lemma put_packed_in: "put_packed n tab p v \<noteq> None \<longleftrightarrow> p + n \<le> length tab"
  by (simp add: put_packed_def blit_def)

lemma put_packed_length: "put_packed n tab p v = Some tab' \<Longrightarrow> length tab' = length tab"
  by (auto simp: put_packed_Some)

lemma put_packed_frame:
  "put_packed n tab p v = Some tab' \<Longrightarrow> i < p \<or> p + n \<le> i \<Longrightarrow> tab' ! i = tab ! i"
  by (auto simp: put_packed_Some nth_append)

lemma get_packed_local:
  assumes "length tab' = length tab" "\<And>i. p \<le> i \<Longrightarrow> i < p + n \<Longrightarrow> tab' ! i = tab ! i"
  shows "get_packed n tab' p = get_packed n tab p"
proof -
  have "take n (drop p tab') = take n (drop p tab)" if "p + n \<le> length tab"
    using that assms by (intro nth_equalityI) auto
  then show ?thesis using assms(1) by (simp add: get_packed_def rd_block_def)
qed

lemma get_packed_put_packed:
  fixes v :: "'a::len word"
  assumes "put_packed n tab p v = Some tab'" "LENGTH('a) \<le> 8 * n"
  shows "get_packed n tab' p = Some v"
  using assms by (auto simp: put_packed_Some get_packed_def rd_block_def le_value_le_bytes)

lemmas packed_laws =
  get_packed_in put_packed_in put_packed_length put_packed_frame get_packed_local

interpretation cell8: byte_cell rd put_u8 1
  by unfold_locales (auto simp: put_u8_def rd_def wr_def split: if_splits)

lemma packed_cell:
  assumes "LENGTH('a) \<le> 8 * n"
  shows "byte_cell (get_packed n :: bytes \<Rightarrow> nat \<Rightarrow> 'a::len word option) (put_packed n) n"
proof (intro byte_cell.intro)
  fix tab tab' :: bytes and p and v :: "'a word"
  assume "put_packed n tab p v = Some tab'"
  then show "get_packed n tab' p = Some v" using assms by (rule get_packed_put_packed)
qed (fact get_packed_in put_packed_in put_packed_length put_packed_frame get_packed_local)+

interpretation cell16: byte_cell "get_packed 2 :: bytes \<Rightarrow> nat \<Rightarrow> u16 option" put_u16 2
  using packed_cell [where 'a = 16 and n = 2] by (simp add: put_u16_def [abs_def])

interpretation cell32: byte_cell get_u32 put_u32 4
  using packed_cell [where 'a = 32 and n = 4]
  by (simp add: get_u32_def [abs_def] put_u32_def [abs_def])

interpretation cell64: byte_cell get_u64 put_u64 8
  using packed_cell [where 'a = 64 and n = 8]
  by (simp add: get_u64_def [abs_def] put_u64_def [abs_def])

lemma get_u16_put_u16: "put_u16 tab p v = Some tab' \<Longrightarrow> get_u16 tab' p = Some (ucast v)"
  using cell16.get_put by (simp add: get_u16_def)

section \<open>Byte order\<close>

text \<open>Swapping is reading the bytes in the opposite order.\<close>

lemma byte_position: "k < 8 * n \<Longrightarrow> \<exists>i j. i < n \<and> j < 8 \<and> k = 8 * i + (j::nat)"
  by (intro exI [of _ "k div 8"] exI [of _ "k mod 8"]) auto

lemma byte_masks32:
  "(0xff000000 :: u32) = push_bit 24 (mask 8)" "(0x00ff0000 :: u32) = push_bit 16 (mask 8)"
  "(0x0000ff00 :: u32) = push_bit 8 (mask 8)" "(0x000000ff :: u32) = mask 8"
  by (simp_all add: mask_eq_exp_minus_1)

lemma bswap16_bytes: "bswap16 v = le_value (rev (le_bytes 2 v))"
proof (rule word_eq_bitI)
  fix k assume "k < LENGTH(16)"
  then obtain i j where ij: "i < 2" "j < 8" "k = 8 * i + j" using byte_position [of k 2] by auto
  then have "i = 0 \<or> i = 1" by auto
  with ij show "bit (bswap16 v) k = bit (le_value (rev (le_bytes 2 v)) :: u16) k"
    by (elim disjE) (auto simp: bswap16_def bit_simps numeral_2_eq_2 dest: bit_imp_le_length)
qed

lemma bswap32_bytes: "bswap32 v = le_value (rev (le_bytes 4 v))"
proof (rule word_eq_bitI)
  fix k assume "k < LENGTH(32)"
  then obtain i j where ij: "i < 4" "j < 8" "k = 8 * i + j" using byte_position [of k 4] by auto
  then have i: "i = 0 \<or> i = 1 \<or> i = 2 \<or> i = 3" by auto
  have l: "(le_bytes 4 v) = [ucast v, ucast (drop_bit 8 v), ucast (drop_bit 16 v), ucast (drop_bit 24 v)]"
    by (simp add: eval_nat_numeral)
  from i ij show "bit (bswap32 v) k = bit (le_value (rev (le_bytes 4 v)) :: u32) k"
    unfolding bswap32_def byte_masks32 l
    by (elim disjE) (simp_all add: bit_simps)
qed

lemma bswap64_bytes: "bswap64 v = le_value (rev (le_bytes 8 v))"
proof (rule word_eq_bitI)
  fix k assume "k < LENGTH(64)"
  then obtain i j where ij: "i < 8" "j < 8" "k = 8 * i + j" using byte_position [of k 8] by auto
  then have i: "i = 0 \<or> i = 1 \<or> i = 2 \<or> i = 3 \<or> i = 4 \<or> i = 5 \<or> i = 6 \<or> i = 7" by auto
  have l: "le_bytes 8 v = [ucast v, ucast (drop_bit 8 v), ucast (drop_bit 16 v),
      ucast (drop_bit 24 v), ucast (drop_bit 32 v), ucast (drop_bit 40 v),
      ucast (drop_bit 48 v), ucast (drop_bit 56 v)]"
    by (simp add: eval_nat_numeral)
  have ff: "(0xff :: u64) = mask 8" by (simp add: mask_eq_exp_minus_1)
  from i ij show "bit (bswap64 v) k = bit (le_value (rev (le_bytes 8 v)) :: u64) k"
    unfolding bswap64_def ff l
    by (elim disjE) (simp_all add: bit_simps)
qed

text \<open>Swapping twice is the identity at every width.\<close>

lemma rev_bytes_twice:
  fixes v :: "'a::len word"
  assumes "LENGTH('a) = 8 * n"
  shows "le_value (rev (le_bytes n (le_value (rev (le_bytes n v)) :: 'a word))) = v"
proof -
  have "le_bytes n (le_value (rev (le_bytes n v)) :: 'a word) = rev (le_bytes n v)"
    by (rule le_bytes_le_value) (simp_all add: assms)
  then show ?thesis by (simp add: le_value_le_bytes assms)
qed

lemma bswap_twice:
  "bswap16 (bswap16 x) = x" "bswap32 (bswap32 y) = y" "bswap64 (bswap64 z) = z"
  by (simp_all add: bswap16_bytes bswap32_bytes bswap64_bytes rev_bytes_twice)

section \<open>Hexadecimal digits\<close>

lemma from_hex_range: "- 1 \<le> from_hex c \<and> from_hex c \<le> 15"
  by (auto simp: from_hex_def)

lemma from_hex_digit:
  "0 \<le> from_hex c \<longleftrightarrow> (48 \<le> c \<and> c \<le> 57) \<or> (65 \<le> c \<and> c \<le> 70) \<or> (97 \<le> c \<and> c \<le> 102)"
  by (auto simp: from_hex_def)

section \<open>Properties\<close>

text \<open>A 32-bit store inside an object succeeds; the value stored is the value loaded
  from the same place, and a load from a place that does not overlap is unchanged.\<close>

theorem put_get_u32:
  assumes "p + 4 \<le> length tab"
  shows "\<exists>tab'. put_u32 tab p v = Some tab' \<and> length tab' = length tab \<and> get_u32 tab' p = Some v \<and>
    (\<forall>q. q + 4 \<le> p \<or> p + 4 \<le> q \<longrightarrow> get_u32 tab' q = get_u32 tab q)"
proof -
  obtain tab' where "put_u32 tab p v = Some tab'"
    using cell32.put_in [of tab p v] assms by auto
  with cell32.store_load [OF this] show ?thesis by simp
qed

theorem put_get_u32_witness:
  "\<exists>tab'. put_u32 [9, 9, 9, 9, 9, 9] 1 0x01020304 = Some tab' \<and> length tab' = length [9, 9, 9, 9, 9, 9 :: u8] \<and>
     get_u32 tab' 1 = Some 0x01020304 \<and>
     (\<forall>q. q + 4 \<le> 1 \<or> 1 + 4 \<le> q \<longrightarrow> get_u32 tab' q = get_u32 [9, 9, 9, 9, 9, 9] q)"
  by (rule put_get_u32) simp

text \<open>The byte-order functions read the bytes of their argument in the opposite order,
  at each of the three widths, and so undo themselves.\<close>

theorem bswap_reverses:
  "bswap16 x = le_value (rev (le_bytes 2 x)) \<and> bswap16 (bswap16 x) = x \<and>
   bswap32 y = le_value (rev (le_bytes 4 y)) \<and> bswap32 (bswap32 y) = y \<and>
   bswap64 z = le_value (rev (le_bytes 8 z)) \<and> bswap64 (bswap64 z) = z"
  by (simp add: bswap_twice) (simp add: bswap16_bytes bswap32_bytes bswap64_bytes)

end
