(* ===== verification/Cutils_Dbuf.thy ===== *)
theory Cutils_Dbuf
  imports Cutils_Bytes
begin

text \<open>
  The dynamic buffer package of \<open>cutils.c\<close>.  A \<open>DynBuf\<close> owns a block of
  \<open>allocated_size\<close> bytes whose first \<open>size\<close> bytes are in use; it grows by half its
  size through the \<open>realloc_func\<close> stored in it and remembers the first failed allocation
  in \<open>error\<close>.  \<open>size_t\<close> sums wrap, and a copy outside the block is \<open>None\<close>, so the
  theorems here show that no operation writes out of bounds.
\<close>

section \<open>State and operations\<close>

text \<open>\<open>DynBufReallocFunc\<close>: the opaque allocator state, the old block and the requested
  size give the new allocator state and the new block, or no block.\<close>

type_synonym 'o realloc_func = "'o \<Rightarrow> bytes \<Rightarrow> nat \<Rightarrow> 'o \<times> bytes option"

record 'o DynBuf =
  db_buf :: bytes
  db_size :: nat
  db_allocated_size :: nat
  db_error :: bool
  db_realloc_func :: "'o realloc_func"
  db_opaque :: 'o

text \<open>The C library's heap as far as \<open>realloc\<close> shows it: how many bytes it can still
  hand out, and the indeterminate byte that new memory holds.\<close>

record libc_heap =
  lh_avail :: nat
  lh_junk :: u8

definition libc_realloc :: "libc_heap realloc_func" where
  "libc_realloc h ptr n =
     (if n - length ptr \<le> lh_avail h
      then (h\<lparr>lh_avail := lh_avail h + length ptr - n\<rparr>,
            Some (take n ptr @ replicate (n - length ptr) (lh_junk h)))
      else (h, None))"

definition dbuf_default_realloc :: "libc_heap realloc_func" where
  "dbuf_default_realloc opaque ptr n = libc_realloc opaque ptr n"

definition dbuf_init2 :: "'o \<Rightarrow> 'o realloc_func \<Rightarrow> 'o DynBuf" where
  "dbuf_init2 opaque realloc_func =
     \<lparr>db_buf = [], db_size = 0, db_allocated_size = 0, db_error = False,
      db_realloc_func = realloc_func, db_opaque = opaque\<rparr>"

definition dbuf_init :: "libc_heap \<Rightarrow> libc_heap DynBuf" where
  "dbuf_init heap = dbuf_init2 heap dbuf_default_realloc"

definition dbuf_realloc :: "'o DynBuf \<Rightarrow> nat \<Rightarrow> int \<times> 'o DynBuf" where
  "dbuf_realloc s new_size =
     (if new_size > db_allocated_size s then
        (if db_error s then (-1, s)
         else
           (let size = mul_sz (db_allocated_size s) 3 div 2;
                new_size = (if size > new_size then size else new_size)
            in case db_realloc_func s (db_opaque s) (db_buf s) new_size of
                 (o', None) \<Rightarrow> (-1, s\<lparr>db_error := True, db_opaque := o'\<rparr>)
               | (o', Some new_buf) \<Rightarrow>
                   (0, s\<lparr>db_buf := new_buf, db_allocated_size := new_size, db_opaque := o'\<rparr>)))
      else (0, s))"

definition dbuf_write :: "'o DynBuf \<Rightarrow> nat \<Rightarrow> bytes \<Rightarrow> (int \<times> 'o DynBuf) option" where
  "dbuf_write s offset data =
     (let end' = add_sz offset (length data)
      in case dbuf_realloc s end' of
           (ret, s) \<Rightarrow>
             if ret \<noteq> 0 then Some (-1, s)
             else do {
               b \<leftarrow> blit (db_buf s) offset data;
               Some (0, s\<lparr>db_buf := b,
                          db_size := (if end' > db_size s then end' else db_size s)\<rparr>) })"

definition dbuf_put :: "'o DynBuf \<Rightarrow> bytes \<Rightarrow> (int \<times> 'o DynBuf) option" where
  "dbuf_put s data =
     (case (if add_sz (db_size s) (length data) > db_allocated_size s
            then dbuf_realloc s (add_sz (db_size s) (length data)) else (0, s)) of
        (ret, s) \<Rightarrow>
          if ret \<noteq> 0 then Some (-1, s)
          else do {
            b \<leftarrow> blit (db_buf s) (db_size s) data;
            Some (0, s\<lparr>db_buf := b, db_size := add_sz (db_size s) (length data)\<rparr>) })"

definition dbuf_put_self :: "'o DynBuf \<Rightarrow> nat \<Rightarrow> nat \<Rightarrow> (int \<times> 'o DynBuf) option" where
  "dbuf_put_self s offset len =
     (case (if add_sz (db_size s) len > db_allocated_size s
            then dbuf_realloc s (add_sz (db_size s) len) else (0, s)) of
        (ret, s) \<Rightarrow>
          if ret \<noteq> 0 then Some (-1, s)
          else do {
            src \<leftarrow> rd_block (db_buf s) offset len;
            b \<leftarrow> blit (db_buf s) (db_size s) src;
            Some (0, s\<lparr>db_buf := b, db_size := add_sz (db_size s) len\<rparr>) })"

definition dbuf_putc :: "'o DynBuf \<Rightarrow> u8 \<Rightarrow> (int \<times> 'o DynBuf) option" where
  "dbuf_putc s c = dbuf_put s [c]"

text \<open>A C string is its bytes without the terminating zero.\<close>

definition dbuf_putstr :: "'o DynBuf \<Rightarrow> bytes \<Rightarrow> (int \<times> 'o DynBuf) option" where
  "dbuf_putstr s str = dbuf_put s str"

definition dbuf_put_u16 :: "'o DynBuf \<Rightarrow> u16 \<Rightarrow> (int \<times> 'o DynBuf) option" where
  "dbuf_put_u16 s v = dbuf_put s (le_bytes 2 v)"

definition dbuf_put_u32 :: "'o DynBuf \<Rightarrow> u32 \<Rightarrow> (int \<times> 'o DynBuf) option" where
  "dbuf_put_u32 s v = dbuf_put s (le_bytes 4 v)"

definition dbuf_put_u64 :: "'o DynBuf \<Rightarrow> u64 \<Rightarrow> (int \<times> 'o DynBuf) option" where
  "dbuf_put_u64 s v = dbuf_put s (le_bytes 8 v)"

text \<open>\<open>dbuf_printf\<close>, given the text that \<open>vsnprintf\<close> formats.  The second call of
  \<open>vsnprintf\<close> writes at most \<open>room\<close> bytes, the last of them a zero.\<close>

definition dbuf_printf :: "'o DynBuf \<Rightarrow> bytes \<Rightarrow> (int \<times> 'o DynBuf) option" where
  "dbuf_printf s str =
     (if length str < 128 then dbuf_put s str
      else
        (case dbuf_realloc s (add_sz (add_sz (db_size s) (length str)) 1) of
           (ret, s) \<Rightarrow>
             if ret \<noteq> 0 then Some (-1, s)
             else
               (let room = db_allocated_size s - db_size s;
                    out = (if room = 0 then [] else take (room - 1) str @ [0])
                in do {
                  b \<leftarrow> blit (db_buf s) (db_size s) out;
                  Some (0, s\<lparr>db_buf := b, db_size := add_sz (db_size s) (length str)\<rparr>) })))"

text \<open>\<open>dbuf_free\<close> gives the block back and zeroes the struct, which is no buffer any
  more; what remains is the allocator.\<close>

definition dbuf_free :: "'o DynBuf \<Rightarrow> 'o" where
  "dbuf_free s =
     (if db_buf s \<noteq> [] then fst (db_realloc_func s (db_opaque s) (db_buf s) 0) else db_opaque s)"

definition dbuf_set_error :: "'o DynBuf \<Rightarrow> 'o DynBuf" where
  "dbuf_set_error s = s\<lparr>db_error := True\<rparr>"

text \<open>\<open>dbuf_insert\<close> of \<open>libregexp.c\<close>: open a gap of \<open>len\<close> bytes at \<open>pos\<close>.\<close>

definition dbuf_insert :: "'o DynBuf \<Rightarrow> nat \<Rightarrow> nat \<Rightarrow> (int \<times> 'o DynBuf) option" where
  "dbuf_insert s pos len =
     (case dbuf_realloc s (add_sz (db_size s) len) of
        (ret, s) \<Rightarrow>
          if ret \<noteq> 0 then Some (-1, s)
          else do {
            src \<leftarrow> rd_block (db_buf s) pos (db_size s - pos);
            b \<leftarrow> blit (db_buf s) (pos + len) src;
            Some (0, s\<lparr>db_buf := b, db_size := add_sz (db_size s) len\<rparr>) })"

section \<open>Specification\<close>

text \<open>The bytes in use, which is what a client sees of a buffer.\<close>

definition dbuf_bytes :: "'o DynBuf \<Rightarrow> bytes" where
  "dbuf_bytes s = take (db_size s) (db_buf s)"

text \<open>What a reallocation function promises, as the C standard words it for
  \<open>realloc\<close>: a returned block has the requested size and keeps the old contents up to the
  smaller of the two sizes.\<close>

definition realloc_ok :: "('o \<Rightarrow> 'a list \<Rightarrow> nat \<Rightarrow> 'o \<times> 'a list option) \<Rightarrow> bool" where
  "realloc_ok ra \<longleftrightarrow>
     (\<forall>o1 ptr n o2 b. ra o1 ptr n = (o2, Some b) \<longrightarrow>
        length b = n \<and> take (min n (length ptr)) b = take (min n (length ptr)) ptr)"

definition dbuf_ok :: "'o DynBuf \<Rightarrow> bool" where
  "dbuf_ok s \<longleftrightarrow>
     length (db_buf s) = db_allocated_size s \<and> db_size s \<le> db_allocated_size s \<and>
     db_allocated_size s < size_max \<and> realloc_ok (db_realloc_func s)"

section \<open>Growing\<close>

lemma realloc_okD:
  assumes "realloc_ok ra" "ra o1 ptr n = (o2, Some b)"
  shows "length b = n" "k \<le> n \<Longrightarrow> k \<le> length ptr \<Longrightarrow> take k b = take k ptr"
proof -
  from assms have l: "length b = n \<and> take (min n (length ptr)) b = take (min n (length ptr)) ptr"
    by (simp add: realloc_ok_def)
  then show "length b = n" by simp
  assume "k \<le> n" "k \<le> length ptr"
  then have "take k b = take k (take (min n (length ptr)) b)" by (simp add: min_def)
  also have "\<dots> = take k ptr" using l \<open>k \<le> n\<close> \<open>k \<le> length ptr\<close> by (simp add: min_def)
  finally show "take k b = take k ptr" .
qed

lemma dbuf_realloc_spec:
  assumes ok: "dbuf_ok s" and n: "n < size_max" and eq: "dbuf_realloc s n = (r, s')"
  shows "dbuf_ok s' \<and> db_size s' = db_size s \<and> dbuf_bytes s' = dbuf_bytes s \<and>
         (r = 0 \<and> n \<le> db_allocated_size s' \<and> db_error s' = db_error s \<or> r = -1 \<and> db_error s')"
proof (cases "n > db_allocated_size s \<and> \<not> db_error s")
  case False
  with assms show ?thesis by (auto simp: dbuf_realloc_def split: if_splits)
next
  case True
  define m where "m = (let z = mul_sz (db_allocated_size s) 3 div 2 in if z > n then z else n)"
  have m: "n \<le> m" "m < size_max" using n by (auto simp: m_def Let_def mul_sz_def)
  obtain o' res where ra: "db_realloc_func s (db_opaque s) (db_buf s) m = (o', res)"
    by (cases "db_realloc_func s (db_opaque s) (db_buf s) m")
  show ?thesis
  proof (cases res)
    case None
    with True ra eq ok show ?thesis
      by (auto simp: dbuf_realloc_def m_def Let_def dbuf_ok_def dbuf_bytes_def split: if_splits)
  next
    case (Some b)
    have ra': "realloc_ok (db_realloc_func s)" using ok by (simp add: dbuf_ok_def)
    note b = realloc_okD [OF ra' ra [unfolded Some]]
    have "take (db_size s) b = take (db_size s) (db_buf s)"
      using True m ok by (intro b) (auto simp: dbuf_ok_def)
    with True ra Some eq ok m b(1) show ?thesis
      by (auto simp: dbuf_realloc_def m_def Let_def dbuf_ok_def dbuf_bytes_def split: if_splits)
  qed
qed

text \<open>The test before the call is the test inside it.\<close>

lemma dbuf_realloc_guard [simp]:
  "(if n > db_allocated_size s then dbuf_realloc s n else (0, s)) = dbuf_realloc s n"
  by (simp add: dbuf_realloc_def)

lemmas dbuf_put_alt = dbuf_put_def [unfolded dbuf_realloc_guard]
lemmas dbuf_put_self_alt = dbuf_put_self_def [unfolded dbuf_realloc_guard]

text \<open>Every appending operation grows the buffer and then copies; what a caller sees.\<close>

definition put_result :: "'o DynBuf \<Rightarrow> bytes \<Rightarrow> int \<times> 'o DynBuf \<Rightarrow> bool" where
  "put_result s bs res \<longleftrightarrow>
     (case res of (r, s') \<Rightarrow>
        dbuf_ok s' \<and>
        (r = 0 \<and> dbuf_bytes s' = bs \<and> db_error s' = db_error s \<or>
         r = -1 \<and> db_error s' \<and> dbuf_bytes s' = dbuf_bytes s))"

lemma dbuf_bytes_length: "dbuf_ok s \<Longrightarrow> length (dbuf_bytes s) = db_size s"
  by (simp add: dbuf_bytes_def dbuf_ok_def)

lemma grown_cases:
  assumes "dbuf_ok s" "k < size_max" "dbuf_realloc s k = (r, t)"
  obtains (fail) "r = -1" "put_result s bs (-1, t)"
  | (grown) "r = 0" "dbuf_ok t" "db_size t = db_size s" "db_error t = db_error s"
      "k \<le> length (db_buf t)" "db_size s \<le> length (db_buf t)"
      "dbuf_bytes s = take (db_size s) (db_buf t)"
proof -
  from dbuf_realloc_spec [OF assms]
  consider "r = -1" "dbuf_ok t" "db_error t" "dbuf_bytes t = dbuf_bytes s"
    | "r = 0" "dbuf_ok t" "db_size t = db_size s" "db_error t = db_error s"
      "k \<le> db_allocated_size t" "dbuf_bytes t = dbuf_bytes s"
    by blast
  then show thesis
  proof cases
    case 1
    then show thesis by (intro fail) (simp_all add: put_result_def)
  next
    case 2
    then have "k \<le> length (db_buf t)" "db_size s \<le> length (db_buf t)"
      "dbuf_bytes s = take (db_size s) (db_buf t)"
      by (simp_all add: dbuf_ok_def dbuf_bytes_def)
    with 2 show thesis by (intro grown)
  qed
qed

lemma put_resultI:
  assumes "dbuf_ok t" "db_error t = db_error s" "length b = length (db_buf t)" "k \<le> length b"
    "take k b = bs"
  shows "put_result s bs (0, t\<lparr>db_buf := b, db_size := k\<rparr>)"
  using assms by (auto simp: put_result_def dbuf_ok_def dbuf_bytes_def)

lemma dbuf_put_spec:
  assumes ok: "dbuf_ok s" and n: "db_size s + length d < size_max"
  shows "\<exists>res. dbuf_put s d = Some res \<and> put_result s (dbuf_bytes s @ d) res"
proof -
  obtain r t where g: "dbuf_realloc s (db_size s + length d) = (r, t)"
    by (cases "dbuf_realloc s (db_size s + length d)")
  from ok n g show ?thesis
  proof (cases rule: grown_cases [where bs = "dbuf_bytes s @ d"])
    case fail
    then show ?thesis using g n by (simp add: dbuf_put_alt)
  next
    case grown
    let ?b = "take (db_size t) (db_buf t) @ d @ drop (db_size t + length d) (db_buf t)"
    have "put_result s (dbuf_bytes s @ d) (0, t\<lparr>db_buf := ?b, db_size := db_size s + length d\<rparr>)"
      using grown by (intro put_resultI) simp_all
    then show ?thesis using grown g n by (simp add: dbuf_put_alt blit_def)
  qed
qed

lemma dbuf_put_self_spec:
  assumes ok: "dbuf_ok s" and n: "db_size s + len < size_max" and off: "offset + len \<le> db_size s"
  shows "\<exists>res. dbuf_put_self s offset len = Some res \<and>
    put_result s (dbuf_bytes s @ take len (drop offset (dbuf_bytes s))) res"
proof -
  obtain r t where g: "dbuf_realloc s (db_size s + len) = (r, t)"
    by (cases "dbuf_realloc s (db_size s + len)")
  let ?bs = "dbuf_bytes s @ take len (drop offset (dbuf_bytes s))"
  from ok n g show ?thesis
  proof (cases rule: grown_cases [where bs = ?bs])
    case fail
    then show ?thesis using g n by (simp add: dbuf_put_self_alt)
  next
    case grown
    let ?d = "take len (drop offset (db_buf t))"
    let ?b = "take (db_size t) (db_buf t) @ ?d @ drop (db_size t + len) (db_buf t)"
    have d: "?d = take len (drop offset (dbuf_bytes s))"
      using grown(7) off by (simp add: drop_take)
    have l: "length ?d = len" using grown(6) off by simp
    have "put_result s ?bs (0, t\<lparr>db_buf := ?b, db_size := db_size s + len\<rparr>)"
      unfolding d [symmetric] using grown l by (intro put_resultI) simp_all
    then show ?thesis using grown g n l off by (simp add: dbuf_put_self_alt rd_block_def blit_def)
  qed
qed

lemma dbuf_write_spec:
  assumes ok: "dbuf_ok s" and n: "offset + length d < size_max" and off: "offset \<le> db_size s"
  shows "\<exists>res. dbuf_write s offset d = Some res \<and>
    put_result s (take offset (dbuf_bytes s) @ d @ drop (offset + length d) (dbuf_bytes s)) res"
proof -
  obtain r t where g: "dbuf_realloc s (offset + length d) = (r, t)"
    by (cases "dbuf_realloc s (offset + length d)")
  let ?bs = "take offset (dbuf_bytes s) @ d @ drop (offset + length d) (dbuf_bytes s)"
  from ok n g show ?thesis
  proof (cases rule: grown_cases [where bs = ?bs])
    case fail
    then show ?thesis using g n by (simp add: dbuf_write_def)
  next
    case grown
    let ?e = "offset + length d"
    let ?k = "if ?e > db_size s then ?e else db_size s"
    let ?b = "take offset (db_buf t) @ d @ drop ?e (db_buf t)"
    have "put_result s ?bs (0, t\<lparr>db_buf := ?b, db_size := ?k\<rparr>)"
      using grown off by (intro put_resultI) (auto simp: min_def drop_take)
    moreover have "dbuf_write s offset d = Some (0, t\<lparr>db_buf := ?b, db_size := ?k\<rparr>)"
      using grown(1-5) g n by (simp add: dbuf_write_def Let_def blit_def)
    ultimately show ?thesis by blast
  qed
qed

lemma dbuf_insert_spec:
  assumes ok: "dbuf_ok s" and n: "db_size s + len < size_max" and pos: "pos \<le> db_size s"
  shows "\<exists>r t. dbuf_insert s pos len = Some (r, t) \<and> dbuf_ok t \<and>
    (r = 0 \<and> db_size t = db_size s + len \<and> take pos (dbuf_bytes t) = take pos (dbuf_bytes s) \<and>
       drop (pos + len) (dbuf_bytes t) = drop pos (dbuf_bytes s) \<or>
     r = -1 \<and> dbuf_bytes t = dbuf_bytes s)"
proof -
  obtain r t where g: "dbuf_realloc s (db_size s + len) = (r, t)"
    by (cases "dbuf_realloc s (db_size s + len)")
  from ok n g show ?thesis
  proof (cases rule: grown_cases [where bs = "dbuf_bytes s"])
    case fail
    then show ?thesis using g n by (simp add: dbuf_insert_def put_result_def)
  next
    case grown
    let ?src = "take (db_size s - pos) (drop pos (db_buf t))"
    let ?b = "take (pos + len) (db_buf t) @ ?src @ drop (len + db_size s) (db_buf t)"
    let ?u = "t\<lparr>db_buf := ?b, db_size := db_size s + len\<rparr>"
    have "dbuf_insert s pos len = Some (0, ?u)"
      using grown(1-6) g n pos by (simp add: dbuf_insert_def rd_block_def blit_def ac_simps)
    moreover have "dbuf_ok ?u" using grown n pos by (simp add: dbuf_ok_def)
    moreover have "take pos (dbuf_bytes ?u) = take pos (dbuf_bytes s)"
      using grown(5-7) pos by (simp add: dbuf_bytes_def min_def)
    moreover have "drop (pos + len) (dbuf_bytes ?u) = drop pos (dbuf_bytes s)"
      using grown(5-7) pos by (simp add: dbuf_bytes_def drop_take)
    ultimately show ?thesis by auto
  qed
qed

lemma dbuf_printf_spec:
  assumes ok: "dbuf_ok s" and n: "db_size s + length str + 1 < size_max"
  shows "\<exists>res. dbuf_printf s str = Some res \<and> put_result s (dbuf_bytes s @ str) res"
proof (cases "length str < 128")
  case True
  then show ?thesis using dbuf_put_spec [OF ok, of str] n by (simp add: dbuf_printf_def)
next
  case False
  obtain r t where g: "dbuf_realloc s (db_size s + length str + 1) = (r, t)"
    by (cases "dbuf_realloc s (db_size s + length str + 1)")
  from ok n g show ?thesis
  proof (cases rule: grown_cases [where bs = "dbuf_bytes s @ str"])
    case fail
    then show ?thesis using False g n by (simp add: dbuf_printf_def)
  next
    case grown
    let ?z = "db_size s + length str + 1"
    let ?b = "take (db_size s) (db_buf t) @ (str @ [0]) @ drop ?z (db_buf t)"
    have len: "db_allocated_size t = length (db_buf t)" using grown(2) by (simp add: dbuf_ok_def)
    have room: "length str \<le> db_allocated_size t - db_size s - 1" "db_allocated_size t - db_size s \<noteq> 0"
      using grown(5) len by auto
    define out where
      "out = take (db_allocated_size t - db_size s - 1) str @ ([0] :: bytes)"
    have out: "out = str @ [0]" using room by (simp add: out_def)
    have "dbuf_printf s str = Some (0, t\<lparr>db_buf := ?b, db_size := db_size s + length str\<rparr>)"
      using False grown g n room out [unfolded out_def]
      by (simp add: dbuf_printf_def Let_def blit_def)
    moreover have "put_result s (dbuf_bytes s @ str) (0, t\<lparr>db_buf := ?b, db_size := db_size s + length str\<rparr>)"
      using grown by (intro put_resultI) simp_all
    ultimately show ?thesis by blast
  qed
qed

section \<open>The contract of a buffer\<close>

text \<open>
  What the writers of the engine (the regular expression compiler, the bytecode writer,
  the line-number table) rely on: appending either succeeds or sets a sticky error flag.
  They ignore the return codes and test the flag once at the end; \<open>puts_content\<close> shows
  that this is enough.
\<close>

locale append_buffer =
  fixes put :: "'b \<Rightarrow> bytes \<Rightarrow> (int \<times> 'b) option"
    and content :: "'b \<Rightarrow> bytes"
    and ok :: "'b \<Rightarrow> bool"
    and err :: "'b \<Rightarrow> bool"
  assumes put_spec: "ok b \<Longrightarrow> length (content b) + length d < size_max \<Longrightarrow>
    \<exists>r b'. put b d = Some (r, b') \<and> ok b' \<and>
      (r = 0 \<and> content b' = content b @ d \<and> err b' = err b \<or>
       r = -1 \<and> content b' = content b \<and> err b')"
begin

fun puts :: "'b \<Rightarrow> bytes list \<Rightarrow> 'b option" where
  "puts b [] = Some b"
| "puts b (d # ds) = do { (r, b') \<leftarrow> put b d; puts b' ds }"

lemma puts_content:
  assumes "ok b" "length (content b) + length (concat ds) < size_max"
  shows "\<exists>b'. puts b ds = Some b' \<and> ok b' \<and>
    length (content b') \<le> length (content b) + length (concat ds) \<and>
    (\<not> err b' \<longrightarrow> \<not> err b \<and> content b' = content b @ concat ds)"
  using assms
proof (induction ds arbitrary: b)
  case (Cons d ds)
  obtain r b1 where b1: "put b d = Some (r, b1)" "ok b1"
    "r = 0 \<and> content b1 = content b @ d \<and> err b1 = err b \<or> r = -1 \<and> content b1 = content b \<and> err b1"
    using put_spec [of b d] Cons.prems by auto
  have "length (content b1) + length (concat ds) < size_max" using b1(3) Cons.prems(2) by auto
  from Cons.IH [OF b1(2) this] b1 show ?case by auto
qed simp

lemma put_ok:
  assumes "ok b" "length (content b) + length d < size_max" "put b d = Some (r, b')"
  shows "ok b'" "length (content b') \<le> length (content b) + length d"
    "\<not> err b' \<Longrightarrow> \<not> err b \<and> content b' = content b @ d"
  using put_spec [OF assms(1,2)] assms(3) by auto

end

interpretation dbuf: append_buffer dbuf_put dbuf_bytes dbuf_ok db_error
proof
  fix b :: "'a DynBuf" and d :: bytes
  assume "dbuf_ok b" "length (dbuf_bytes b) + length d < size_max"
  then obtain res where "dbuf_put b d = Some res" "put_result b (dbuf_bytes b @ d) res"
    using dbuf_put_spec [of b d] by (auto simp: dbuf_bytes_length)
  then show "\<exists>r b'. dbuf_put b d = Some (r, b') \<and> dbuf_ok b' \<and>
      (r = 0 \<and> dbuf_bytes b' = dbuf_bytes b @ d \<and> db_error b' = db_error b \<or>
       r = -1 \<and> dbuf_bytes b' = dbuf_bytes b \<and> db_error b')"
    by (cases res) (auto simp: put_result_def)
qed

lemma libc_realloc_ok: "realloc_ok libc_realloc"
  by (auto simp: realloc_ok_def libc_realloc_def min_def split: if_splits)

lemma dbuf_init_ok: "dbuf_ok (dbuf_init heap)"
  using libc_realloc_ok
  by (simp add: dbuf_init_def dbuf_init2_def dbuf_ok_def dbuf_default_realloc_def [abs_def])

lemma dbuf_init_bytes [simp]: "dbuf_bytes (dbuf_init2 opq ra) = []"
  by (simp add: dbuf_init2_def dbuf_bytes_def)

section \<open>Properties\<close>

definition small_heap :: libc_heap where
  "small_heap = \<lparr>lh_avail = 64, lh_junk = 0xaa\<rparr>"

text \<open>C28: Appending to a well-formed buffer never writes outside its block.  It either
  appends exactly the given bytes and returns 0, or returns -1, leaves the contents alone
  and sets the sticky error flag; the buffer stays well formed in both cases.\<close>

theorem dbuf_put_appends:
  assumes "dbuf_ok s" "db_size s + length d < size_max"
  shows "\<exists>r s'. dbuf_put s d = Some (r, s') \<and> dbuf_ok s' \<and>
    (r = 0 \<and> dbuf_bytes s' = dbuf_bytes s @ d \<and> db_error s' = db_error s \<or>
     r = -1 \<and> dbuf_bytes s' = dbuf_bytes s \<and> db_error s')"
  using dbuf.put_spec [of s d] assms by (simp add: dbuf_bytes_length)

theorem dbuf_put_appends_witness:
  "\<exists>r s'. dbuf_put (dbuf_init small_heap) [1, 2, 3] = Some (r, s') \<and> dbuf_ok s' \<and>
    (r = 0 \<and> dbuf_bytes s' = dbuf_bytes (dbuf_init small_heap) @ [1, 2, 3] \<and>
       db_error s' = db_error (dbuf_init small_heap) \<or>
     r = -1 \<and> dbuf_bytes s' = dbuf_bytes (dbuf_init small_heap) \<and> db_error s')"
  by (rule dbuf_put_appends [OF dbuf_init_ok]) (simp add: dbuf_init_def dbuf_init2_def)


definition sample_dbuf :: "libc_heap DynBuf" where
  "sample_dbuf = \<lparr>db_buf = [1, 2, 3, 4], db_size = 3, db_allocated_size = 4, db_error = False,
     db_realloc_func = libc_realloc, db_opaque = small_heap\<rparr>"

lemma sample_dbuf_ok: "dbuf_ok sample_dbuf"
  using libc_realloc_ok by (simp add: dbuf_ok_def sample_dbuf_def)


text \<open>C31: Opening a gap in the middle of the buffer keeps what stands before the gap and moves
  what stands after it, unless the buffer cannot grow, when nothing changes.\<close>

theorem dbuf_insert_gap:
  assumes "dbuf_ok s" "db_size s + len < size_max" "pos \<le> db_size s"
  shows "\<exists>r t. dbuf_insert s pos len = Some (r, t) \<and> dbuf_ok t \<and>
    (r = 0 \<and> db_size t = db_size s + len \<and> take pos (dbuf_bytes t) = take pos (dbuf_bytes s) \<and>
       drop (pos + len) (dbuf_bytes t) = drop pos (dbuf_bytes s) \<or>
     r = -1 \<and> dbuf_bytes t = dbuf_bytes s)"
  by (rule dbuf_insert_spec [OF assms])

theorem dbuf_insert_gap_witness:
  "\<exists>r t. dbuf_insert sample_dbuf 1 5 = Some (r, t) \<and> dbuf_ok t \<and>
    (r = 0 \<and> db_size t = db_size sample_dbuf + 5 \<and>
       take 1 (dbuf_bytes t) = take 1 (dbuf_bytes sample_dbuf) \<and>
       drop (1 + 5) (dbuf_bytes t) = drop 1 (dbuf_bytes sample_dbuf) \<or>
     r = -1 \<and> dbuf_bytes t = dbuf_bytes sample_dbuf)"
  by (rule dbuf_insert_gap [OF sample_dbuf_ok]) (simp_all add: sample_dbuf_def)

end
