(* ===== verification/Leb128.thy ===== *)
theory Leb128
  imports Cutils_Dbuf
begin

text \<open>
  The variable-length integers of \<open>quickjs.c\<close>: \<open>dbuf_put_leb128\<close>,
  \<open>dbuf_put_sleb128\<close>, \<open>get_leb128\<close> and \<open>get_sleb128\<close>, used by the bytecode
  writer and reader and by the line-number table, with their round trips.
\<close>

section \<open>Encoding and decoding\<close>

lemma unat_drop_bit_less: "drop_bit 7 v \<noteq> 0 \<Longrightarrow> unat (drop_bit 7 v) < unat v" for v :: u32
  by (simp add: unat_drop_bit word_unat_eq_iff [of "drop_bit 7 v"] del: drop_bit_eq_div)

function dbuf_put_leb128 :: "'o DynBuf \<Rightarrow> u32 \<Rightarrow> 'o DynBuf option" where
  "dbuf_put_leb128 s v =
     (let a = v AND 0x7f; v' = drop_bit 7 v
      in if v' \<noteq> 0 then do { (_, s') \<leftarrow> dbuf_putc s (ucast (a OR 0x80)); dbuf_put_leb128 s' v' }
         else do { (_, s') \<leftarrow> dbuf_putc s (ucast a); Some s' })"
  by pat_completeness auto
termination
  by (relation "measure (\<lambda>(s, v). unat v)") (simp_all add: unat_drop_bit_less)

declare dbuf_put_leb128.simps [simp del]

definition dbuf_put_sleb128 :: "'o DynBuf \<Rightarrow> u32 \<Rightarrow> 'o DynBuf option" where
  "dbuf_put_sleb128 s v = dbuf_put_leb128 s ((2 * v) XOR - (drop_bit 31 v))"

text \<open>The loop of \<open>get_leb128\<close>: \<open>Some None\<close> when it ends without a last byte.\<close>

function get_leb128_loop ::
    "bytes \<Rightarrow> nat \<Rightarrow> nat \<Rightarrow> nat \<Rightarrow> u32 \<Rightarrow> (u32 \<times> nat) option option" where
  "get_leb128_loop buf ptr buf_end i v =
     (if i < 5 then
        (if ptr \<ge> buf_end then Some None
         else do {
           b \<leftarrow> rd buf ptr;
           let a = (ucast b :: u32);
               v = v OR push_bit (i * 7) (a AND 0x7f)
           in if a AND 0x80 = 0 then Some (Some (v, ptr + 1))
              else get_leb128_loop buf (ptr + 1) buf_end (i + 1) v })
      else Some None)"
  by pat_completeness auto
termination
  by (relation "measure (\<lambda>(buf, ptr, e, i, v). 5 - i)") auto

declare get_leb128_loop.simps [simp del]

definition get_leb128 :: "bytes \<Rightarrow> nat \<Rightarrow> nat \<Rightarrow> (int \<times> u32) option" where
  "get_leb128 buf p buf_end =
     map_option (\<lambda>r. case r of Some (v, ptr) \<Rightarrow> (int ptr - int p, v) | None \<Rightarrow> (-1, 0))
       (get_leb128_loop buf p buf_end 0 0)"

definition get_sleb128 :: "bytes \<Rightarrow> nat \<Rightarrow> nat \<Rightarrow> (int \<times> u32) option" where
  "get_sleb128 buf p buf_end =
     map_option (\<lambda>(ret, val). if ret < 0 then (-1, 0)
                              else (ret, drop_bit 1 val XOR - (val AND 1)))
       (get_leb128 buf p buf_end)"

section \<open>Specification\<close>

text \<open>The bytes of an encoded integer: groups of seven bits, the least significant
  first, each but the last with its top bit set.\<close>

function leb128_bytes :: "u32 \<Rightarrow> bytes" where
  "leb128_bytes v =
     (if drop_bit 7 v \<noteq> 0 then ucast ((v AND 0x7f) OR 0x80) # leb128_bytes (drop_bit 7 v)
      else [ucast (v AND 0x7f)])"
  by pat_completeness auto
termination
  by (relation "measure unat") (simp_all add: unat_drop_bit_less)

declare leb128_bytes.simps [simp del]

section \<open>Writing\<close>

lemma leb128_bytes_length_bound:
  "unat v < 2 ^ (7 * Suc n) \<Longrightarrow> length (leb128_bytes v) \<le> Suc n"
proof (induction n arbitrary: v)
  case 0
  then have "drop_bit 7 v = 0" by (simp add: word_unat_eq_iff unat_drop_bit del: drop_bit_eq_div)
  then show ?case by (simp add: leb128_bytes.simps)
next
  case (Suc n)
  have "unat (drop_bit 7 v) < 2 ^ (7 * Suc n)"
  proof -
    have "unat v < 2 ^ (7 * Suc n) * 2 ^ 7"
      using Suc.prems by (simp only: power_add [symmetric] mult_Suc_right add.commute)
    then show ?thesis by (simp only: unat_drop_bit less_mult_imp_div_less)
  qed
  from Suc.IH [OF this] show ?case by (simp add: leb128_bytes.simps [of v])
qed

lemma leb128_bytes_length: "length (leb128_bytes v) \<le> 5"
proof -
  have "unat v < 2 ^ 32" using unsigned_less [of v] by simp
  also have "(2::nat) ^ 32 \<le> 2 ^ (7 * Suc 4)" by simp
  finally show ?thesis using leb128_bytes_length_bound [of v 4] by simp
qed

lemma dbuf_put_leb128_spec:
  assumes "dbuf_ok s" "length (dbuf_bytes s) + length (leb128_bytes v) < size_max"
  shows "\<exists>s'. dbuf_put_leb128 s v = Some s' \<and> dbuf_ok s' \<and>
    length (dbuf_bytes s') \<le> length (dbuf_bytes s) + length (leb128_bytes v) \<and>
    (\<not> db_error s' \<longrightarrow> \<not> db_error s \<and> dbuf_bytes s' = dbuf_bytes s @ leb128_bytes v)"
  using assms
proof (induction s v rule: dbuf_put_leb128.induct)
  case (1 s v)
  let ?b = "ucast (if drop_bit 7 v \<noteq> 0 then (v AND 0x7f) OR 0x80 else v AND 0x7f) :: u8"
  have len: "length (dbuf_bytes s) + length [?b] < size_max"
    using "1.prems"(2) by (auto simp: leb128_bytes.simps [of v] split: if_splits)
  obtain r t where put: "dbuf_putc s ?b = Some (r, t)"
    using dbuf.put_spec [OF "1.prems"(1) len] by (auto simp: dbuf_putc_def)
  note t = dbuf.put_ok [OF "1.prems"(1) len put [unfolded dbuf_putc_def]]
  show ?case
  proof (cases "drop_bit 7 v = 0")
    case True
    with put t show ?thesis
      by (auto simp: dbuf_put_leb128.simps [of s v] leb128_bytes.simps [of v] Let_def)
  next
    case False
    have step: "dbuf_put_leb128 s v = dbuf_put_leb128 t (drop_bit 7 v)"
      using False put by (simp add: dbuf_put_leb128.simps [of s v] Let_def)
    have bytes: "leb128_bytes v = ?b # leb128_bytes (drop_bit 7 v)"
      using False by (simp add: leb128_bytes.simps [of v])
    have "\<exists>s'. dbuf_put_leb128 t (drop_bit 7 v) = Some s' \<and> dbuf_ok s' \<and>
      length (dbuf_bytes s') \<le> length (dbuf_bytes t) + length (leb128_bytes (drop_bit 7 v)) \<and>
      (\<not> db_error s' \<longrightarrow> \<not> db_error t \<and> dbuf_bytes s' = dbuf_bytes t @ leb128_bytes (drop_bit 7 v))"
      using "1.prems"(2) bytes t False put by (intro "1.IH" [of _ _ "(r, t)" r t]) simp_all
    with t show ?thesis unfolding step bytes by auto
  qed
qed

section \<open>Reading\<close>

lemma leb128_group:
  fixes v :: u32
  shows "ucast (ucast (v AND 0x7f) :: u8) AND 0x7f = (v AND 0x7f :: u32)"
  "ucast (ucast (v AND 0x7f) :: u8) AND 0x80 = (0 :: u32)"
  "ucast (ucast ((v AND 0x7f) OR 0x80) :: u8) AND 0x7f = (v AND 0x7f :: u32)"
  "ucast (ucast ((v AND 0x7f) OR 0x80) :: u8) AND 0x80 = (0x80 :: u32)"
proof -
  have m: "(0x7f :: u32) = mask 7" by (simp add: mask_eq_exp_minus_1)
  have h: "bit (0x80 :: u32) n \<longleftrightarrow> n = 7" for n
    using bit_exp_iff [of 7 n, where ?'a = u32] by auto
  show "ucast (ucast (v AND 0x7f) :: u8) AND 0x7f = (v AND 0x7f :: u32)"
    unfolding m by (rule word_eq_bitI) (auto simp: bit_simps)
  show "ucast (ucast (v AND 0x7f) :: u8) AND 0x80 = (0 :: u32)"
    unfolding m by (rule word_eq_bitI) (simp only: bit_and_iff bit_unsigned_iff bit_mask_iff h bit_0_eq, auto)
  show "ucast (ucast ((v AND 0x7f) OR 0x80) :: u8) AND 0x7f = (v AND 0x7f :: u32)"
    unfolding m by (rule word_eq_bitI)
      (simp only: bit_and_iff bit_or_iff bit_unsigned_iff bit_mask_iff h, auto simp: h)
  show "ucast (ucast ((v AND 0x7f) OR 0x80) :: u8) AND 0x80 = (0x80 :: u32)"
    unfolding m by (rule word_eq_bitI)
      (simp only: bit_and_iff bit_or_iff bit_unsigned_iff bit_mask_iff h, auto simp: h)
qed

lemma leb128_accumulate:
  fixes w acc :: u32
  shows "(acc OR push_bit k (w AND 0x7f)) OR push_bit (k + 7) (drop_bit 7 w) = acc OR push_bit k w"
proof -
  have m: "(0x7f :: u32) = mask 7" by (simp add: mask_eq_exp_minus_1)
  show ?thesis unfolding m
  proof (rule word_eq_bitI)
    fix n assume n: "n < LENGTH(32)"
    show "bit ((acc OR push_bit k (w AND mask 7)) OR push_bit (k + 7) (drop_bit 7 w)) n =
        bit (acc OR push_bit k w) n"
    proof (cases "n < k + 7")
      case True
      then show ?thesis using n by (auto simp: bit_simps)
    next
      case False
      then have "7 + (n - (k + 7)) = n - k" by simp
      then show ?thesis using n False by (auto simp: bit_simps)
    qed
  qed
qed

lemma get_leb128_loop_correct:
  assumes "i < 5" "unat w < 2 ^ (32 - 7 * i)"
    "length pre + length (leb128_bytes w) \<le> e"
  shows "get_leb128_loop (pre @ leb128_bytes w @ post) (length pre) e i acc =
     Some (Some (acc OR push_bit (7 * i) w, length pre + length (leb128_bytes w)))"
  using assms
proof (induction w arbitrary: i acc pre rule: leb128_bytes.induct)
  case (1 w)
  show ?case
  proof (cases "drop_bit 7 w = 0")
    case True
    have w: "w AND 0x7f = w"
    proof -
      have "unat w < 2 ^ 7" using True
        by (simp add: word_unat_eq_iff unat_drop_bit div_eq_0_iff del: drop_bit_eq_div)
      then have "unat (w AND mask 7) = unat w" by (simp add: unat_and_mask)
      then show ?thesis by (simp add: mask_eq_exp_minus_1 word_unat_eq_iff)
    qed
    have "get_leb128_loop (pre @ leb128_bytes w @ post) (length pre) e i acc =
        Some (Some (acc OR push_bit (i * 7) (w AND 0x7f), Suc (length pre)))"
      using True "1.prems"
      by (simp add: leb128_bytes.simps [of w] get_leb128_loop.simps [of _ _ _ i] leb128_group
          nth_append Let_def del: push_bit_and)
    then show ?thesis
      using True by (simp only: w leb128_bytes.simps [of w]) (simp add: mult.commute)
  next
    case False
    have i4: "i < 4"
    proof (rule ccontr)
      assume "\<not> i < 4"
      with "1.prems"(1) have "i = 4" by simp
      with "1.prems"(2) have "unat w < 2 ^ 7" by simp
      then have "drop_bit 7 w = 0" by (simp add: word_unat_eq_iff unat_drop_bit del: drop_bit_eq_div)
      with False show False by simp
    qed
    have bound: "unat (drop_bit 7 w) < 2 ^ (32 - 7 * Suc i)"
    proof -
      have "32 - 7 * i = (32 - 7 * Suc i) + 7" using i4 by simp
      then have "unat w < 2 ^ (32 - 7 * Suc i) * 2 ^ 7"
        using "1.prems"(2) by (simp only: power_add)
      then show ?thesis by (simp only: unat_drop_bit less_mult_imp_div_less)
    qed
    let ?b = "ucast ((w AND 0x7f) OR 0x80) :: u8"
    have bytes: "leb128_bytes w = ?b # leb128_bytes (drop_bit 7 w)"
      using False by (simp add: leb128_bytes.simps [of w])
    have "get_leb128_loop (pre @ leb128_bytes w @ post) (length pre) e i acc =
        get_leb128_loop ((pre @ [?b]) @ leb128_bytes (drop_bit 7 w) @ post) (length (pre @ [?b])) e
          (Suc i) (acc OR push_bit (7 * i) (w AND 0x7f))"
      using "1.prems" bytes
      by (simp add: get_leb128_loop.simps [of _ "length pre"] leb128_group nth_append mult.commute
          Let_def del: push_bit_and)
    also have "\<dots> = Some (Some ((acc OR push_bit (7 * i) (w AND 0x7f)) OR push_bit (7 * Suc i) (drop_bit 7 w),
        length (pre @ [?b]) + length (leb128_bytes (drop_bit 7 w))))"
      using "1.prems"(3) i4 bound bytes False
      by (intro "1.IH" [OF False]) simp_all
    also have "push_bit (7 * Suc i) (drop_bit 7 w) = push_bit (7 * i + 7) (drop_bit 7 w)"
      by (simp add: add.commute)
    finally show ?thesis unfolding leb128_accumulate bytes by simp
  qed
qed

lemma get_leb128_correct:
  assumes "length pre + length (leb128_bytes v) \<le> e"
  shows "get_leb128 (pre @ leb128_bytes v @ post) (length pre) e = Some (int (length (leb128_bytes v)), v)"
proof -
  have "unat v < 2 ^ (32 - 7 * 0)" using unsigned_less [of v, where ?'a = nat] by simp
  from get_leb128_loop_correct [OF _ this assms, of post 0] show ?thesis
    by (simp add: get_leb128_def)
qed

text \<open>The reader never leaves the buffer, and reports \<open>-1\<close> or the number of bytes read.\<close>

lemma get_leb128_loop_safe:
  assumes "e \<le> length buf"
  shows "\<exists>r. get_leb128_loop buf p e i v = Some r \<and>
    (case r of None \<Rightarrow> True | Some (v', q) \<Rightarrow> p < q \<and> q \<le> e \<and> q + i \<le> p + 5)"
  using assms
proof (induction buf p e i v rule: get_leb128_loop.induct)
  case (1 buf p e i v)
  show ?case
  proof (cases "i < 5 \<and> p < e")
    case False
    then show ?thesis by (auto simp: get_leb128_loop.simps [of buf p e i v])
  next
    case True
    let ?a = "ucast (buf ! p) :: u32"
    let ?v = "v OR push_bit (i * 7) (?a AND 0x7f)"
    show ?thesis
    proof (cases "?a AND 0x80 = 0")
      case True
      with \<open>i < 5 \<and> p < e\<close> "1.prems" show ?thesis
        by (simp add: get_leb128_loop.simps [of buf p e i v] Let_def)
    next
      case False
      have "\<exists>r. get_leb128_loop buf (p + 1) e (i + 1) ?v = Some r \<and>
          (case r of None \<Rightarrow> True | Some (v', q) \<Rightarrow> p + 1 < q \<and> q \<le> e \<and> q + (i + 1) \<le> p + 1 + 5)"
        using True False "1.prems" by (intro "1.IH" [of "buf ! p" ?a ?v]) auto
      moreover have "get_leb128_loop buf p e i v = get_leb128_loop buf (p + 1) e (i + 1) ?v"
        using True False "1.prems" by (simp add: get_leb128_loop.simps [of buf p e i v] Let_def)
      ultimately show ?thesis by (fastforce split: option.splits)
    qed
  qed
qed

lemma get_leb128_safe:
  assumes "e \<le> length buf" "p \<le> e"
  obtains ret val where "get_leb128 buf p e = Some (ret, val)"
    "ret = -1 \<and> val = 0 \<or> 1 \<le> ret \<and> ret \<le> 5 \<and> int p + ret \<le> int e"
proof -
  obtain r where r: "get_leb128_loop buf p e 0 0 = Some r"
    "case r of None \<Rightarrow> True | Some (v', q) \<Rightarrow> p < q \<and> q \<le> e \<and> q + 0 \<le> p + 5"
    using get_leb128_loop_safe [OF assms(1), of p 0 0] by blast
  show thesis
  proof (cases r)
    case None
    with r that [of "-1" 0] show thesis by (simp add: get_leb128_def)
  next
    case (Some vq)
    with r that [of "int (snd vq) - int p" "fst vq"] show thesis
      by (cases vq) (auto simp: get_leb128_def)
  qed
qed

section \<open>Signed integers\<close>

lemma drop_bit_31: "drop_bit 31 v = (if bit v 31 then 1 else 0)" for v :: u32
proof (rule word_eq_bitI)
  fix n assume "n < LENGTH(32)"
  have "bit v (31 + n) \<Longrightarrow> n = 0" using bit_imp_le_length [of v "31 + n"] by auto
  then show "bit (drop_bit 31 v) n = bit (if bit v 31 then 1 else (0 :: u32)) n"
    by (auto simp: bit_simps)
qed

text \<open>The zigzag mapping: \<open>get_sleb128\<close> undoes the mapping of \<open>dbuf_put_sleb128\<close>.\<close>

lemma zigzag:
  fixes v :: u32
  defines "z \<equiv> (2 * v) XOR - (drop_bit 31 v)"
  shows "drop_bit 1 z XOR - (z AND 1) = v"
proof -
  define p where "p = 2 * v"
  have "bit (push_bit 1 v) n \<longleftrightarrow> 1 \<le> n \<and> n < 32 \<and> bit v (n - 1)" for n
    by (auto simp only: bit_simps) (auto simp: bit_imp_le_length)
  then have p: "bit p n \<longleftrightarrow> 1 \<le> n \<and> n < 32 \<and> bit v (n - 1)" for n
    by (simp add: p_def push_bit_eq_mult mult.commute)
  have low: "bit (w AND 1) n \<longleftrightarrow> n = 0 \<and> bit w 0" for w :: u32 and n
    by (auto simp: bit_simps)
  show ?thesis
  proof (cases "bit v 31")
    case True
    then have z: "z = NOT p" unfolding z_def p_def drop_bit_31 by simp
    have "z AND 1 = 1" by (rule word_eq_bitI) (auto simp: low z p bit_simps)
    then have "drop_bit 1 z XOR - (z AND 1) = NOT (drop_bit 1 z)" by simp
    also have "\<dots> = v"
    proof (rule word_eq_bitI)
      fix n assume n: "n < LENGTH(32)"
      have "\<not> bit (NOT p) 32" by (auto dest: bit_imp_le_length)
      with True n show "bit (NOT (drop_bit 1 z)) n = bit v n"
        unfolding z by (cases "n = 31") (auto simp: bit_not_iff bit_drop_bit_eq p)
    qed
    finally show ?thesis .
  next
    case False
    then have z: "z = p" unfolding z_def p_def drop_bit_31 by simp
    have "z AND 1 = 0" by (rule word_eq_bitI) (auto simp: low z p)
    then have "drop_bit 1 z XOR - (z AND 1) = drop_bit 1 z" by simp
    also have "\<dots> = v"
    proof (rule word_eq_bitI)
      fix n assume n: "n < LENGTH(32)"
      with False show "bit (drop_bit 1 z) n = bit v n"
        unfolding z by (cases "n = 31") (auto simp: bit_drop_bit_eq p)
    qed
    finally show ?thesis .
  qed
qed

definition sleb128_bytes :: "u32 \<Rightarrow> bytes" where
  "sleb128_bytes v = leb128_bytes ((2 * v) XOR - (drop_bit 31 v))"

lemma get_sleb128_correct:
  assumes "length pre + length (sleb128_bytes v) \<le> e"
  shows "get_sleb128 (pre @ sleb128_bytes v @ post) (length pre) e =
    Some (int (length (sleb128_bytes v)), v)"
  using assms zigzag [of v] unfolding sleb128_bytes_def get_sleb128_def
  by (simp only: get_leb128_correct) simp

section \<open>Properties\<close>

text \<open>C27: Reading back what \<open>dbuf_put_leb128\<close> wrote gives the value and the number of bytes
  written, whatever stands before and after it in the buffer.\<close>

theorem leb128_roundtrip:
  assumes "dbuf_ok s" "db_size s + 5 < size_max"
  shows "\<exists>s'. dbuf_put_leb128 s v = Some s' \<and> dbuf_ok s' \<and>
    (\<not> db_error s' \<longrightarrow>
      get_leb128 (dbuf_bytes s' @ post) (db_size s) (db_size s') = Some (int (db_size s') - int (db_size s), v))"
proof -
  have "length (dbuf_bytes s) + length (leb128_bytes v) < size_max"
    using assms leb128_bytes_length [of v] by (simp add: dbuf_bytes_length)
  from dbuf_put_leb128_spec [OF assms(1) this] obtain s' where s': "dbuf_put_leb128 s v = Some s'"
    "dbuf_ok s'" "\<not> db_error s' \<longrightarrow> \<not> db_error s \<and> dbuf_bytes s' = dbuf_bytes s @ leb128_bytes v"
    by auto
  have len: "length (dbuf_bytes s) = db_size s" "length (dbuf_bytes s') = db_size s'"
    using assms(1) s'(2) by (simp_all add: dbuf_bytes_length)
  have "get_leb128 (dbuf_bytes s' @ post) (db_size s) (db_size s') =
      Some (int (db_size s') - int (db_size s), v)" if "\<not> db_error s'"
  proof -
    from that s'(3) have b: "dbuf_bytes s' = dbuf_bytes s @ leb128_bytes v" by blast
    have sz: "db_size s' = db_size s + length (leb128_bytes v)" using b len by (metis length_append)
    have "get_leb128 (dbuf_bytes s @ leb128_bytes v @ post) (length (dbuf_bytes s)) (db_size s') =
        Some (int (length (leb128_bytes v)), v)"
      by (rule get_leb128_correct) (simp add: sz len(1))
    then show ?thesis by (simp add: b sz len(1))
  qed
  with s' show ?thesis by blast
qed

theorem leb128_roundtrip_witness:
  "\<exists>s'. dbuf_put_leb128 sample_dbuf 300 = Some s' \<and> dbuf_ok s' \<and>
    (\<not> db_error s' \<longrightarrow>
      get_leb128 (dbuf_bytes s' @ [7]) (db_size sample_dbuf) (db_size s') =
        Some (int (db_size s') - int (db_size sample_dbuf), 300))"
  by (rule leb128_roundtrip [OF sample_dbuf_ok]) (simp add: sample_dbuf_def)


text \<open>On any bytes the decoder stays inside the buffer; it either reports -1 or has consumed
  between one and five bytes of it.\<close>

theorem get_leb128_total:
  assumes "p \<le> e" "e \<le> length buf"
  shows "\<exists>ret val. get_leb128 buf p e = Some (ret, val) \<and>
    (ret = -1 \<and> val = 0 \<or> 1 \<le> ret \<and> ret \<le> 5 \<and> int p + ret \<le> int e)"
  using get_leb128_safe [OF assms(2,1)] by metis

theorem get_leb128_total_witness:
  "\<exists>ret val. get_leb128 [0x80, 0x80] 0 2 = Some (ret, val) \<and>
    (ret = -1 \<and> val = 0 \<or> 1 \<le> ret \<and> ret \<le> 5 \<and> int 0 + ret \<le> int 2)"
  by (rule get_leb128_total) simp_all

end
