(* ===== verification/Pc2line.thy ===== *)
theory Pc2line
  imports Leb128
begin

text \<open>
  The line-number table of compiled functions (\<open>quickjs.c\<close>): the slots that code
  generation records (\<open>add_pc2line_info\<close>), their compact encoding
  (\<open>compute_pc2line_info\<close>) and the lookup a backtrace makes (\<open>find_line_num\<close>).  The
  main result is that looking an instruction up in the encoded table gives the line of
  the last slot at or before it.
\<close>

section \<open>Recording\<close>

text \<open>The fields of \<open>JSFunctionDef\<close> that hold line numbers; \<open>fd_slots\<close> is \<open>None\<close>
  for a null \<open>line_number_slots\<close>, and its length is \<open>line_number_count\<close>.\<close>

record line_def =
  fd_line_num :: int
  fd_strip :: bool
  fd_slots :: "(u32 \<times> int) list option"
  fd_size :: nat
  fd_last_pc :: u32
  fd_last :: int

definition add_pc2line_info :: "line_def \<Rightarrow> u32 \<Rightarrow> int \<Rightarrow> line_def" where
  "add_pc2line_info s pc line_num =
     (case fd_slots s of
        None \<Rightarrow> s
      | Some slots \<Rightarrow>
          if length slots < fd_size s \<and> pc \<ge> fd_last_pc s \<and> line_num \<noteq> fd_last s
          then s\<lparr>fd_slots := Some (slots @ [(pc, line_num)]), fd_last_pc := pc, fd_last := line_num\<rparr>
          else s)"

section \<open>Encoding\<close>

abbreviation PC2LINE_BASE :: int where "PC2LINE_BASE \<equiv> -1"
abbreviation PC2LINE_RANGE :: int where "PC2LINE_RANGE \<equiv> 5"
abbreviation PC2LINE_OP_FIRST :: int where "PC2LINE_OP_FIRST \<equiv> 1"
abbreviation PC2LINE_DIFF_PC_MAX :: int where
  "PC2LINE_DIFF_PC_MAX \<equiv> (255 - PC2LINE_OP_FIRST) div PC2LINE_RANGE"

text \<open>One entry: a single byte when both differences are small, else a zero byte and two
  variable-length integers.\<close>

definition put_pc2line_entry :: "'o DynBuf \<Rightarrow> int \<Rightarrow> int \<Rightarrow> 'o DynBuf option" where
  "put_pc2line_entry b diff_pc diff_line =
     (if diff_line \<ge> PC2LINE_BASE \<and> diff_line < PC2LINE_BASE + PC2LINE_RANGE \<and>
         diff_pc \<le> PC2LINE_DIFF_PC_MAX
      then do {
        (_, b) \<leftarrow> dbuf_putc b
          (word_of_int ((diff_line - PC2LINE_BASE) + diff_pc * PC2LINE_RANGE + PC2LINE_OP_FIRST));
        Some b }
      else do {
        (_, b) \<leftarrow> dbuf_putc b 0;
        b \<leftarrow> dbuf_put_leb128 b (word_of_int diff_pc);
        dbuf_put_sleb128 b (word_of_int diff_line) })"

fun compute_pc2line_loop ::
    "'o DynBuf \<Rightarrow> (u32 \<times> int) list \<Rightarrow> u32 \<Rightarrow> int \<Rightarrow> 'o DynBuf option" where
  "compute_pc2line_loop b [] last_pc last_line_num = Some b"
| "compute_pc2line_loop b ((pc, line_num) # slots) last_pc last_line_num =
     (if line_num < 0 then compute_pc2line_loop b slots last_pc last_line_num
      else
        (let diff_pc = sint (pc - last_pc);
             diff_line = line_num - last_line_num
         in if diff_line = 0 \<or> diff_pc < 0 then compute_pc2line_loop b slots last_pc last_line_num
            else do {
              b \<leftarrow> put_pc2line_entry b diff_pc diff_line;
              compute_pc2line_loop b slots pc line_num }))"

text \<open>The table of a function, \<open>None\<close> inside \<open>Some\<close> when it has none;
  \<open>b\<close> is the freshly initialised buffer.\<close>

definition compute_pc2line_info :: "line_def \<Rightarrow> 'o DynBuf \<Rightarrow> 'o DynBuf option option" where
  "compute_pc2line_info s b =
     (case fd_slots s of
        Some slots \<Rightarrow>
          if \<not> fd_strip s then map_option Some (compute_pc2line_loop b slots 0 (fd_line_num s))
          else Some None
      | None \<Rightarrow> Some None)"

section \<open>Lookup\<close>

text \<open>\<open>debug.line_num\<close> is \<open>l0\<close>; the counters are those of the C loop, \<open>pc\<close> as the
  unsigned value it is compared as; line numbers are mathematical integers.  \<open>None\<close>
  is a read outside the table.\<close>

function find_line_loop :: "bytes \<Rightarrow> int \<Rightarrow> u32 \<Rightarrow> nat \<Rightarrow> u32 \<Rightarrow> int \<Rightarrow> int option" where
  "find_line_loop buf l0 pc_value p pc line_num =
     (if p < length buf then
        (let opb = buf ! p; p = p + 1
         in if opb = 0 then
              (case get_leb128 buf p (length buf) of
                 None \<Rightarrow> None
               | Some (ret, val) \<Rightarrow>
                   if ret < 0 then Some l0
                   else
                     (let pc = pc + val; p = p + nat ret
                      in case get_sleb128 buf p (length buf) of
                           None \<Rightarrow> None
                         | Some (ret, v) \<Rightarrow>
                             if ret < 0 then Some l0
                             else
                               (let p = p + nat ret; new_line_num = line_num + sint v
                                in if pc_value < pc then Some line_num
                                   else find_line_loop buf l0 pc_value p pc new_line_num)))
            else
              (let opv = uint opb - PC2LINE_OP_FIRST;
                   pc = pc + word_of_int (opv div PC2LINE_RANGE);
                   new_line_num = line_num + opv mod PC2LINE_RANGE + PC2LINE_BASE
               in if pc_value < pc then Some line_num
                  else find_line_loop buf l0 pc_value p pc new_line_num))
      else Some line_num)"
  by pat_completeness auto
termination
  by (relation "measure (\<lambda>(buf, l0, pcv, p, pc, l). length buf - p)") auto

declare find_line_loop.simps [simp del]

definition find_line_num :: "bytes option \<Rightarrow> int \<Rightarrow> u32 \<Rightarrow> int option" where
  "find_line_num pc2line_buf line_num pc_value =
     (case pc2line_buf of
        None \<Rightarrow> Some (-1)
      | Some buf \<Rightarrow> find_line_loop buf line_num pc_value 0 0 line_num)"

section \<open>Specification\<close>

text \<open>The line of the last slot at or before an instruction.\<close>

fun line_at :: "int \<Rightarrow> (u32 \<times> int) list \<Rightarrow> u32 \<Rightarrow> int" where
  "line_at l [] pc_value = l"
| "line_at l ((pc, line_num) # slots) pc_value =
     (if pc_value < pc then l else line_at line_num slots pc_value)"

text \<open>Slots as code generation records them: positions that do not decrease and stay
  below \<open>2^31\<close>, and line numbers of source files.\<close>

fun slots_ok :: "u32 \<Rightarrow> (u32 \<times> int) list \<Rightarrow> bool" where
  "slots_ok last_pc [] = True"
| "slots_ok last_pc ((pc, line_num) # slots) =
     (last_pc \<le> pc \<and> pc < 2 ^ 31 \<and> 0 \<le> line_num \<and> line_num < 2 ^ 31 \<and> slots_ok pc slots)"

text \<open>The encoded bytes.\<close>

definition entry_bytes :: "int \<Rightarrow> int \<Rightarrow> bytes" where
  "entry_bytes diff_pc diff_line =
     (if diff_line \<ge> PC2LINE_BASE \<and> diff_line < PC2LINE_BASE + PC2LINE_RANGE \<and>
         diff_pc \<le> PC2LINE_DIFF_PC_MAX
      then [word_of_int ((diff_line - PC2LINE_BASE) + diff_pc * PC2LINE_RANGE + PC2LINE_OP_FIRST)]
      else [0] @ leb128_bytes (word_of_int diff_pc) @ sleb128_bytes (word_of_int diff_line))"

fun table_bytes :: "(u32 \<times> int) list \<Rightarrow> u32 \<Rightarrow> int \<Rightarrow> bytes" where
  "table_bytes [] last_pc last_line = []"
| "table_bytes ((pc, line_num) # slots) last_pc last_line =
     (if line_num < 0 \<or> line_num - last_line = 0 \<or> sint (pc - last_pc) < 0
      then table_bytes slots last_pc last_line
      else entry_bytes (sint (pc - last_pc)) (line_num - last_line) @ table_bytes slots pc line_num)"

section \<open>What is recorded\<close>

lemma slots_ok_weaken: "slots_ok b slots \<Longrightarrow> a \<le> b \<Longrightarrow> slots_ok a slots"
  by (cases slots) auto

lemma slots_ok_append:
  "slots_ok a (xs @ [(pc, l)]) \<longleftrightarrow>
     slots_ok a xs \<and> (if xs = [] then a else fst (last xs)) \<le> pc \<and> pc < 2 ^ 31 \<and> 0 \<le> l \<and> l < 2 ^ 31"
  by (induction a xs rule: slots_ok.induct) auto

definition line_def_ok :: "line_def \<Rightarrow> bool" where
  "line_def_ok s \<longleftrightarrow>
     (case fd_slots s of
        None \<Rightarrow> True
      | Some slots \<Rightarrow> length slots \<le> fd_size s \<and> slots_ok 0 slots \<and>
          fd_last_pc s = (if slots = [] then 0 else fst (last slots)))"

lemma add_pc2line_info_ok:
  assumes "line_def_ok s" "pc < 2 ^ 31" "0 \<le> line_num" "line_num < 2 ^ 31"
  shows "line_def_ok (add_pc2line_info s pc line_num)"
  using assms
  by (auto simp: line_def_ok_def add_pc2line_info_def slots_ok_append split: option.splits)

section \<open>What is written\<close>

lemma sleb128_bytes_length: "length (sleb128_bytes v) \<le> 5"
  by (simp add: sleb128_bytes_def leb128_bytes_length)

lemma entry_bytes_length: "length (entry_bytes d l) \<le> 11"
  using leb128_bytes_length [of "word_of_int d"] sleb128_bytes_length [of "word_of_int l"]
  by (simp add: entry_bytes_def)

text \<open>Every writing step either appends its bytes or leaves the error flag set.\<close>

definition wrote :: "'o DynBuf \<Rightarrow> bytes \<Rightarrow> nat \<Rightarrow> 'o DynBuf option \<Rightarrow> bool" where
  "wrote b bs n res \<longleftrightarrow>
     (\<exists>b'. res = Some b' \<and> dbuf_ok b' \<and> length (dbuf_bytes b') \<le> length (dbuf_bytes b) + n \<and>
        (\<not> db_error b' \<longrightarrow> \<not> db_error b \<and> dbuf_bytes b' = dbuf_bytes b @ bs))"

lemma wrote_putc:
  assumes "dbuf_ok b" "length (dbuf_bytes b) + 1 < size_max"
  shows "wrote b [c] 1 (do { (_, b') \<leftarrow> dbuf_putc b c; Some b' })"
  using dbuf.put_spec [of b "[c]"] assms by (auto simp: wrote_def dbuf_putc_def)

lemma wrote_leb128:
  assumes "dbuf_ok b" "length (dbuf_bytes b) + 5 < size_max"
  shows "wrote b (leb128_bytes v) 5 (dbuf_put_leb128 b v)"
  using dbuf_put_leb128_spec [of b v] leb128_bytes_length [of v] assms
  by (fastforce simp: wrote_def)

lemma wrote_bind:
  assumes "wrote b bs n res"
    and "\<And>b'. dbuf_ok b' \<Longrightarrow> length (dbuf_bytes b') \<le> length (dbuf_bytes b) + n \<Longrightarrow> wrote b' bs' m (f b')"
  shows "wrote b (bs @ bs') (n + m) (do { b' \<leftarrow> res; f b' })"
  using assms by (fastforce simp: wrote_def)

lemma wrote_entry:
  assumes "dbuf_ok b" "length (dbuf_bytes b) + 11 < size_max"
  shows "wrote b (entry_bytes d l) 11 (put_pc2line_entry b d l)"
proof (cases "l \<ge> PC2LINE_BASE \<and> l < PC2LINE_BASE + PC2LINE_RANGE \<and> d \<le> PC2LINE_DIFF_PC_MAX")
  case True
  then show ?thesis
    using wrote_putc [OF assms(1), of "word_of_int ((l - PC2LINE_BASE) + d * PC2LINE_RANGE + PC2LINE_OP_FIRST)"]
      assms(2)
    by (auto simp: put_pc2line_entry_def entry_bytes_def wrote_def)
next
  case False
  let ?w = "do { b' \<leftarrow> do { (_, b') \<leftarrow> dbuf_putc b 0; Some b' };
      do { b'' \<leftarrow> dbuf_put_leb128 b' (word_of_int d); dbuf_put_sleb128 b'' (word_of_int l) } }"
  have "wrote b ([0] @ (leb128_bytes (word_of_int d) @ sleb128_bytes (word_of_int l))) (1 + (5 + 5)) ?w"
    unfolding sleb128_bytes_def dbuf_put_sleb128_def
    using assms by (intro wrote_bind wrote_putc wrote_leb128) auto
  moreover have "put_pc2line_entry b d l = ?w"
    using False by (cases "dbuf_putc b 0") (auto simp: put_pc2line_entry_def)
  moreover have "entry_bytes d l = [0] @ (leb128_bytes (word_of_int d) @ sleb128_bytes (word_of_int l))"
    by (simp only: entry_bytes_def if_not_P [OF False])
  ultimately show ?thesis by simp
qed

lemma wrote_table:
  assumes "dbuf_ok b" "length (dbuf_bytes b) + 11 * length slots < size_max"
  shows "wrote b (table_bytes slots lp ll) (11 * length slots) (compute_pc2line_loop b slots lp ll)"
  using assms
proof (induction slots lp ll arbitrary: b rule: table_bytes.induct)
  case (1 lp ll)
  then show ?case by (simp add: wrote_def)
next
  case (2 pc line slots lp ll)
  show ?case
  proof (cases "line < 0 \<or> line - ll = 0 \<or> sint (pc - lp) < 0")
    case True
    then have "wrote b (table_bytes slots lp ll) (11 * length slots) (compute_pc2line_loop b slots lp ll)"
      using 2 by simp
    with True show ?thesis by (auto simp: wrote_def)
  next
    case False
    have "wrote b (entry_bytes (sint (pc - lp)) (line - ll) @ table_bytes slots pc line)
      (11 + 11 * length slots)
      (do { b' \<leftarrow> put_pc2line_entry b (sint (pc - lp)) (line - ll); compute_pc2line_loop b' slots pc line })"
    proof (rule wrote_bind)
      show "wrote b (entry_bytes (sint (pc - lp)) (line - ll)) 11 (put_pc2line_entry b (sint (pc - lp)) (line - ll))"
        using "2.prems" by (intro wrote_entry) auto
    next
      fix b' :: "'a DynBuf"
      assume "dbuf_ok b'" "length (dbuf_bytes b') \<le> length (dbuf_bytes b) + 11"
      then show "wrote b' (table_bytes slots pc line) (11 * length slots) (compute_pc2line_loop b' slots pc line)"
        using "2.prems" False by (intro "2.IH"(2)) auto
    qed
    with False show ?thesis by (simp add: Let_def)
  qed
qed

section \<open>What is read\<close>

lemma sint_word_of_int_32: "- (2 ^ 31) \<le> i \<Longrightarrow> i < 2 ^ 31 \<Longrightarrow> sint (word_of_int i :: u32) = i"
  using signed_take_bit_int_eq_self_iff [of 31 i] by (simp add: signed_of_int)

lemma sint_small: "uint w < 2 ^ 31 \<Longrightarrow> sint w = uint w" for w :: u32
  using signed_take_bit_int_eq_self_iff [of 31 "uint w"] uint_ge_0 [of w] by (simp add: sint_uint)

lemma sint_diff_pos:
  fixes a b :: u32
  assumes "a \<le> b" "b < 2 ^ 31"
  shows "sint (b - a) = uint b - uint a" "0 \<le> sint (b - a)" "sint (b - a) < 2 ^ 31"
proof -
  have le: "uint a \<le> uint b" using assms(1) by (simp add: word_le_def)
  then have u: "uint (b - a) = uint b - uint a" by (simp add: uint_sub_lem)
  have lt: "uint b < 2 ^ 31" using assms(2) by (simp add: word_less_def)
  from sint_small [of "b - a"] u lt uint_ge_0 [of a] have "sint (b - a) = uint b - uint a"
    by linarith
  with le lt uint_ge_0 [of a]
  show "sint (b - a) = uint b - uint a" "0 \<le> sint (b - a)" "sint (b - a) < 2 ^ 31"
    by linarith+
qed

text \<open>The short form: one byte holds both differences.\<close>

lemma short_entry:
  fixes d l :: int
  assumes "0 \<le> d" "d \<le> 50" "-1 \<le> l" "l < 4"
  defines "w \<equiv> word_of_int ((l + 1) + d * 5 + 1) :: u8"
  shows "w \<noteq> 0" "(uint w - 1) div 5 = d" "(uint w - 1) mod 5 = l + 1"
proof -
  have "uint w = ((l + 1) + d * 5 + 1) mod 2 ^ 8"
    unfolding w_def by (simp only: uint_word_of_int) simp
  also have "\<dots> = (l + 1) + d * 5 + 1"
    using assms(1-4) by (intro mod_pos_pos_trivial) auto
  finally have w: "uint w = (l + 1) + d * 5 + 1" .
  with assms(1,3) show "w \<noteq> 0" by (auto simp: word_uint_eq_iff)
  have e: "uint w - 1 = (l + 1) + d * 5" using w by simp
  show "(uint w - 1) div 5 = d" "(uint w - 1) mod 5 = l + 1"
    unfolding e using assms(3,4) by (simp_all only: div_mult_self1 mod_mult_self1) simp_all
qed

lemma find_line_entry:
  assumes "0 \<le> d" "d < 2 ^ 31" "- (2 ^ 31) \<le> l" "l < 2 ^ 31"
  shows "find_line_loop (pre @ entry_bytes d l @ post) l0 pcv (length pre) pc line =
    (if pcv < pc + word_of_int d then Some line
     else find_line_loop (pre @ entry_bytes d l @ post) l0 pcv
       (length pre + length (entry_bytes d l)) (pc + word_of_int d) (line + l))"
proof (cases "l \<ge> PC2LINE_BASE \<and> l < PC2LINE_BASE + PC2LINE_RANGE \<and> d \<le> PC2LINE_DIFF_PC_MAX")
  case True
  let ?w = "word_of_int ((l + 1) + d * 5 + 1) :: u8"
  have w: "?w \<noteq> 0" "(uint ?w - 1) div 5 = d" "(uint ?w - 1) mod 5 = l + 1"
    using True assms(1) by (intro short_entry; simp)+
  have e: "entry_bytes d l = [?w]" using True by (simp add: entry_bytes_def)
  show ?thesis
    unfolding e find_line_loop.simps [of "pre @ [?w] @ post" l0 pcv "length pre"]
    using w by (simp add: nth_append Let_def add.assoc)
next
  case False
  let ?D = "word_of_int d :: u32" and ?L = "word_of_int l :: u32"
  have e: "entry_bytes d l = [0] @ leb128_bytes ?D @ sleb128_bytes ?L"
    by (simp only: entry_bytes_def if_not_P [OF False])
  define buf where "buf = pre @ entry_bytes d l @ post"
  have buf1: "buf = (pre @ [0]) @ leb128_bytes ?D @ (sleb128_bytes ?L @ post)"
    and buf2: "buf = (pre @ [0] @ leb128_bytes ?D) @ sleb128_bytes ?L @ post"
    by (simp_all add: buf_def e)
  have len: "length (pre @ [0]) + length (leb128_bytes ?D) \<le> length buf"
    "length (pre @ [0] @ leb128_bytes ?D) + length (sleb128_bytes ?L) \<le> length buf"
    by (simp_all add: buf_def e)
  have r1: "get_leb128 buf (Suc (length pre)) (length buf) = Some (int (length (leb128_bytes ?D)), ?D)"
    using get_leb128_correct [OF len(1), of "sleb128_bytes ?L @ post"] buf1 by simp
  have r2: "get_sleb128 buf (Suc (length pre + length (leb128_bytes ?D))) (length buf) =
      Some (int (length (sleb128_bytes ?L)), ?L)"
    using get_sleb128_correct [OF len(2), of post] buf2 by simp
  have hd: "length pre < length buf" "buf ! length pre = 0" by (simp_all add: buf_def e nth_append)
  have elen: "length (entry_bytes d l) = Suc (length (leb128_bytes ?D) + length (sleb128_bytes ?L))"
    by (simp add: e)
  show ?thesis
    unfolding buf_def [symmetric] elen find_line_loop.simps [of buf l0 pcv "length pre"]
    using hd r1 r2 sint_word_of_int_32 [OF assms(3,4)]
    by (simp add: Let_def add.assoc)
qed

lemma line_at_before: "slots_ok pc slots \<Longrightarrow> pcv < pc \<Longrightarrow> line_at l slots pcv = l"
  by (cases slots) auto

lemma find_line_table:
  assumes "slots_ok lp slots" "lp < 2 ^ 31" "0 \<le> ll" "ll < 2 ^ 31"
  shows "find_line_loop (pre @ table_bytes slots lp ll) l0 pcv (length pre) lp ll =
    Some (line_at ll slots pcv)"
  using assms
proof (induction slots arbitrary: pre lp ll)
  case Nil
  then show ?case by (simp add: find_line_loop.simps)
next
  case (Cons slot slots)
  obtain pc line where slot: "slot = (pc, line)" by (cases slot)
  from Cons.prems slot have ok: "lp \<le> pc" "pc < 2 ^ 31" "0 \<le> line" "line < 2 ^ 31" "slots_ok pc slots"
    by auto
  note d = sint_diff_pos [OF ok(1,2)]
  show ?case
  proof (cases "line = ll")
    case True
    have "slots_ok lp slots" using ok(5,1) by (rule slots_ok_weaken)
    from Cons.IH [OF this Cons.prems(2-4)] True ok d(2) show ?thesis
      by (auto simp: slot line_at_before)
  next
    case False
    let ?e = "entry_bytes (sint (pc - lp)) (line - ll)"
    have pc: "lp + word_of_int (sint (pc - lp)) = pc" by simp
    have tb: "table_bytes (slot # slots) lp ll = ?e @ table_bytes slots pc line"
      using False ok(3) d(2) by (simp add: slot)
    have "find_line_loop (pre @ ?e @ table_bytes slots pc line) l0 pcv (length pre) lp ll =
        (if pcv < pc then Some ll
         else find_line_loop ((pre @ ?e) @ table_bytes slots pc line) l0 pcv (length (pre @ ?e)) pc line)"
      using find_line_entry [OF d(2,3), of "line - ll" pre "table_bytes slots pc line" l0 pcv lp ll]
        pc Cons.prems(3,4) ok(3,4) by simp
    also have "\<dots> = Some (line_at ll (slot # slots) pcv)"
      using Cons.IH [OF ok(5,2,3,4), of "pre @ ?e"] by (simp add: slot)
    finally show ?thesis unfolding tb .
  qed
qed

text \<open>A table cut short or damaged never makes the lookup read outside it.\<close>

lemma find_line_loop_safe: "find_line_loop buf l0 pcv p pc line \<noteq> None"
proof (induction buf l0 pcv p pc line rule: find_line_loop.induct)
  case (1 buf l0 pcv p pc line)
  show ?case
  proof (cases "p < length buf")
    case False
    then show ?thesis by (simp add: find_line_loop.simps [of buf l0 pcv p])
  next
    case True
    obtain r v where lv: "get_leb128 buf (p + 1) (length buf) = Some (r, v)"
      "r = -1 \<and> v = 0 \<or> 1 \<le> r \<and> r \<le> 5 \<and> int (p + 1) + r \<le> int (length buf)"
      using True get_leb128_safe [of "length buf" buf "p + 1"] by auto
    show ?thesis
    proof (cases "buf ! p = 0 \<and> 0 \<le> r")
      case False
      then show ?thesis
        using True lv(1) "1.IH"(2) [OF True refl refl]
        by (auto simp: find_line_loop.simps [of buf l0 pcv p] Let_def)
    next
      case r: True
      then have "p + 1 + nat r \<le> length buf" using lv(2) by auto
      then obtain r' v' where sv: "get_sleb128 buf (p + 1 + nat r) (length buf) = Some (r', v')"
        by (rule get_leb128_safe [OF order_refl]) (auto simp: get_sleb128_def split: if_splits)
      show ?thesis
        using True r lv(1) sv "1.IH"(1) [OF True refl refl _ lv(1) refl _ refl refl sv refl]
        by (auto simp: find_line_loop.simps [of buf l0 pcv p] Let_def)
    qed
  qed
qed

section \<open>Properties\<close>


definition sample_fd :: line_def where
  "sample_fd = add_pc2line_info (add_pc2line_info (add_pc2line_info
     \<lparr>fd_line_num = 10, fd_strip = False, fd_slots = Some [], fd_size = 8, fd_last_pc = 0, fd_last = 0\<rparr>
     0 10) 4 12) 300 9"

lemma sample_fd_ok: "line_def_ok sample_fd"
  unfolding sample_fd_def by (intro add_pc2line_info_ok) (simp_all add: line_def_ok_def)



text \<open>C33: Recording a position keeps the slots of a function sorted by position and within their
  allocated size.\<close>

theorem add_pc2line_info_sorted:
  assumes "line_def_ok s" "pc < 2 ^ 31" "0 \<le> line_num" "line_num < 2 ^ 31"
  shows "line_def_ok (add_pc2line_info s pc line_num)"
  using assms by (rule add_pc2line_info_ok)

theorem add_pc2line_info_sorted_witness: "line_def_ok (add_pc2line_info sample_fd 301 20)"
  by (rule add_pc2line_info_sorted [OF sample_fd_ok]) simp_all

end
