(* ===== verification/Unicode_Char_Range.thy ===== *)
theory Unicode_Char_Range
  imports Cutils_Dbuf
begin

text \<open>
  Character ranges (\<open>libunicode.c\<close>, \<open>libunicode.h\<close> and their users in
  \<open>libregexp.c\<close>): a set of code points kept as the sorted list of the points where
  membership changes.  The operations are modelled with their buffer, its growth and the
  in-place compaction; the theorems say which set each of them computes and that the
  result is in canonical form.
\<close>

section \<open>State\<close>

text \<open>A reallocation function for points; sizes count points, not bytes, and an empty
  block is the null pointer.\<close>

type_synonym 'o pt_realloc = "'o \<Rightarrow> u32 list \<Rightarrow> nat \<Rightarrow> 'o \<times> u32 list option"

record 'o CharRange =
  cr_len :: nat
  cr_size :: nat
  cr_points :: "u32 list"
  cr_opaque :: 'o
  cr_realloc_func :: "'o pt_realloc"

datatype CharRangeOpEnum = CR_OP_UNION | CR_OP_INTER | CR_OP_XOR

text \<open>Every caller of \<open>cr_init\<close> in the engine passes a function.\<close>

definition cr_init :: "'o \<Rightarrow> 'o pt_realloc \<Rightarrow> 'o CharRange" where
  "cr_init mem_opaque realloc_func =
     \<lparr>cr_len = 0, cr_size = 0, cr_points = [], cr_opaque = mem_opaque, cr_realloc_func = realloc_func\<rparr>"

definition cr_free :: "'o CharRange \<Rightarrow> 'o" where
  "cr_free cr = fst (cr_realloc_func cr (cr_opaque cr) (cr_points cr) 0)"

definition cr_realloc :: "'o CharRange \<Rightarrow> nat \<Rightarrow> int \<times> 'o CharRange" where
  "cr_realloc cr req =
     (if req > cr_size cr then
        (let new_size = max req (cr_size cr * 3 div 2)
         in case cr_realloc_func cr (cr_opaque cr) (cr_points cr) new_size of
              (o', None) \<Rightarrow> (-1, cr\<lparr>cr_opaque := o'\<rparr>)
            | (o', Some new_buf) \<Rightarrow>
                (0, cr\<lparr>cr_points := new_buf, cr_size := new_size, cr_opaque := o'\<rparr>))
      else (0, cr))"

definition cr_copy :: "'o CharRange \<Rightarrow> 'o CharRange \<Rightarrow> (int \<times> 'o CharRange) option" where
  "cr_copy cr cr1 =
     (case cr_realloc cr (cr_len cr1) of
        (ret, cr) \<Rightarrow>
          if ret \<noteq> 0 then Some (-1, cr)
          else do {
            src \<leftarrow> rd_block (cr_points cr1) 0 (cr_len cr1);
            pts \<leftarrow> blit (cr_points cr) 0 src;
            Some (0, cr\<lparr>cr_points := pts, cr_len := cr_len cr1\<rparr>) })"

definition cr_add_point :: "'o CharRange \<Rightarrow> u32 \<Rightarrow> (int \<times> 'o CharRange) option" where
  "cr_add_point cr v =
     (case (if cr_len cr \<ge> cr_size cr then cr_realloc cr (cr_len cr + 1) else (0, cr)) of
        (ret, cr) \<Rightarrow>
          if ret \<noteq> 0 then Some (-1, cr)
          else do {
            pts \<leftarrow> wr (cr_points cr) (cr_len cr) v;
            Some (0, cr\<lparr>cr_points := pts, cr_len := cr_len cr + 1\<rparr>) })"

definition cr_add_interval :: "'o CharRange \<Rightarrow> u32 \<Rightarrow> u32 \<Rightarrow> (int \<times> 'o CharRange) option" where
  "cr_add_interval cr c1 c2 =
     (case (if cr_len cr + 2 > cr_size cr then cr_realloc cr (cr_len cr + 2) else (0, cr)) of
        (ret, cr) \<Rightarrow>
          if ret \<noteq> 0 then Some (-1, cr)
          else do {
            pts \<leftarrow> wr (cr_points cr) (cr_len cr) c1;
            pts \<leftarrow> wr pts (cr_len cr + 1) c2;
            Some (0, cr\<lparr>cr_points := pts, cr_len := cr_len cr + 2\<rparr>) })"

section \<open>Compaction\<close>

text \<open>The inner loop: skip the pairs that continue the interval.\<close>

function cr_compress_skip :: "u32 list \<Rightarrow> nat \<Rightarrow> nat \<Rightarrow> nat option" where
  "cr_compress_skip pt len j =
     (if j + 3 < len then do {
        a \<leftarrow> rd pt (j + 1);
        b \<leftarrow> rd pt (j + 2);
        if a = b then cr_compress_skip pt len (j + 2) else Some j }
      else Some j)"
  by pat_completeness auto
termination
  by (relation "measure (\<lambda>(pt, len, j). len - j)") auto

declare cr_compress_skip.simps [simp del]

lemma cr_compress_skip_ge: "cr_compress_skip pt len j = Some j' \<Longrightarrow> j \<le> j'"
proof (induction pt len j rule: cr_compress_skip.induct)
  case (1 pt len j)
  show ?case
    using 1 by (auto simp: cr_compress_skip.simps [of pt len j] c_mem split: if_splits Option.bind_splits)
qed

text \<open>The outer loop; \<open>k\<close> points are in place.\<close>

function cr_compress_loop :: "u32 list \<Rightarrow> nat \<Rightarrow> nat \<Rightarrow> nat \<Rightarrow> (u32 list \<times> nat) option" where
  "cr_compress_loop pt len i k =
     (if i + 1 < len then do {
        a \<leftarrow> rd pt i;
        b \<leftarrow> rd pt (i + 1);
        if a = b then cr_compress_loop pt len (i + 2) k
        else case cr_compress_skip pt len i of
            None \<Rightarrow> None
          | Some j \<Rightarrow> do {
              pt1 \<leftarrow> wr pt k a;
              e \<leftarrow> rd pt1 (j + 1);
              pt2 \<leftarrow> wr pt1 (k + 1) e;
              cr_compress_loop pt2 len (j + 2) (k + 2) } }
      else Some (pt, k))"
  by pat_completeness auto
termination
  by (relation "measure (\<lambda>(pt, len, i, k). len - i)") (auto dest: cr_compress_skip_ge)

declare cr_compress_loop.simps [simp del]

definition cr_compress :: "'o CharRange \<Rightarrow> 'o CharRange option" where
  "cr_compress cr = do {
     (pt, k) \<leftarrow> cr_compress_loop (cr_points cr) (cr_len cr) 0 0;
     Some (cr\<lparr>cr_points := pt, cr_len := k\<rparr>) }"

section \<open>Union, intersection and symmetric difference\<close>

definition op_bits :: "CharRangeOpEnum \<Rightarrow> nat \<Rightarrow> nat \<Rightarrow> bool" where
  "op_bits opr a_idx b_idx =
     (case opr of
        CR_OP_UNION \<Rightarrow> odd a_idx \<or> odd b_idx
      | CR_OP_INTER \<Rightarrow> odd a_idx \<and> odd b_idx
      | CR_OP_XOR \<Rightarrow> odd a_idx \<noteq> odd b_idx)"

text \<open>Take the next point of the two lists: its value and the advanced indices.\<close>

definition cr_op_next ::
    "u32 list \<Rightarrow> nat \<Rightarrow> u32 list \<Rightarrow> nat \<Rightarrow> nat \<Rightarrow> nat \<Rightarrow> (u32 \<times> nat \<times> nat) option option" where
  "cr_op_next a_pt a_len b_pt b_len a_idx b_idx =
     (if a_idx < a_len \<and> b_idx < b_len then do {
        a \<leftarrow> rd a_pt a_idx;
        b \<leftarrow> rd b_pt b_idx;
        Some (Some (if a < b then (a, a_idx + 1, b_idx)
                    else if a = b then (a, a_idx + 1, b_idx + 1)
                    else (b, a_idx, b_idx + 1))) }
      else if a_idx < a_len then do {
        a \<leftarrow> rd a_pt a_idx;
        Some (Some (a, a_idx + 1, b_idx)) }
      else if b_idx < b_len then do {
        b \<leftarrow> rd b_pt b_idx;
        Some (Some (b, a_idx, b_idx + 1)) }
      else Some None)"

lemma cr_op_next_less:
  "cr_op_next a_pt a_len b_pt b_len a_idx b_idx = Some (Some (v, a', b')) \<Longrightarrow>
     (a_len - a') + (b_len - b') < (a_len - a_idx) + (b_len - b_idx)"
  by (auto simp: cr_op_next_def c_mem split: if_splits Option.bind_splits)

function cr_op_loop ::
    "'o CharRange \<Rightarrow> u32 list \<Rightarrow> nat \<Rightarrow> u32 list \<Rightarrow> nat \<Rightarrow> CharRangeOpEnum \<Rightarrow> nat \<Rightarrow> nat \<Rightarrow>
     (int \<times> 'o CharRange) option" where
  "cr_op_loop cr a_pt a_len b_pt b_len opr a_idx b_idx =
     (case cr_op_next a_pt a_len b_pt b_len a_idx b_idx of
        None \<Rightarrow> None
      | Some None \<Rightarrow> Some (0, cr)
      | Some (Some (v, a_idx', b_idx')) \<Rightarrow>
          if op_bits opr a_idx' b_idx' \<noteq> odd (cr_len cr) then do {
            (ret, cr') \<leftarrow> cr_add_point cr v;
            if ret \<noteq> 0 then Some (-1, cr')
            else cr_op_loop cr' a_pt a_len b_pt b_len opr a_idx' b_idx' }
          else cr_op_loop cr a_pt a_len b_pt b_len opr a_idx' b_idx')"
  by pat_completeness auto
termination
  by (relation "measure (\<lambda>(cr, a_pt, a_len, b_pt, b_len, opr, a_idx, b_idx).
        (a_len - a_idx) + (b_len - b_idx))") (auto dest: cr_op_next_less)

declare cr_op_loop.simps [simp del]

definition cr_op ::
    "'o CharRange \<Rightarrow> u32 list \<Rightarrow> nat \<Rightarrow> u32 list \<Rightarrow> nat \<Rightarrow> CharRangeOpEnum \<Rightarrow>
     (int \<times> 'o CharRange) option" where
  "cr_op cr a_pt a_len b_pt b_len opr = do {
     (ret, cr) \<leftarrow> cr_op_loop cr a_pt a_len b_pt b_len opr 0 0;
     if ret \<noteq> 0 then Some (-1, cr)
     else do {
       cr \<leftarrow> cr_compress cr;
       Some (0, cr) } }"

definition cr_union1 :: "'o CharRange \<Rightarrow> u32 list \<Rightarrow> nat \<Rightarrow> (int \<times> 'o CharRange) option" where
  "cr_union1 cr b_pt b_len =
     (let a = cr
      in do {
        (ret, cr) \<leftarrow> cr_op (cr\<lparr>cr_len := 0, cr_size := 0, cr_points := []\<rparr>)
                        (cr_points a) (cr_len a) b_pt b_len CR_OP_UNION;
        Some (ret, cr\<lparr>cr_opaque := cr_free (a\<lparr>cr_opaque := cr_opaque cr\<rparr>)\<rparr>) })"

definition cr_union_interval :: "'o CharRange \<Rightarrow> u32 \<Rightarrow> u32 \<Rightarrow> (int \<times> 'o CharRange) option" where
  "cr_union_interval cr c1 c2 = cr_union1 cr [c1, c2 + 1] 2"

definition cr_invert :: "'o CharRange \<Rightarrow> (int \<times> 'o CharRange) option" where
  "cr_invert cr =
     (let len = cr_len cr
      in case cr_realloc cr (len + 2) of
           (ret, cr) \<Rightarrow>
             if ret \<noteq> 0 then Some (-1, cr)
             else do {
               src \<leftarrow> rd_block (cr_points cr) 0 len;
               pts \<leftarrow> blit (cr_points cr) 1 src;
               pts \<leftarrow> wr pts 0 0;
               pts \<leftarrow> wr pts (len + 1) 0xffffffff;
               cr \<leftarrow> cr_compress (cr\<lparr>cr_points := pts, cr_len := len + 2\<rparr>);
               Some (0, cr) })"

section \<open>Users in the regular expression compiler\<close>

definition char_range_d :: "u32 list" where
  "char_range_d = [1, 0x0030, 0x0039 + 1]"

definition char_range_s :: "u32 list" where
  "char_range_s =
     [10, 0x0009, 0x000D + 1, 0x0020, 0x0020 + 1, 0x00A0, 0x00A0 + 1, 0x1680, 0x1680 + 1,
      0x2000, 0x200A + 1, 0x2028, 0x2029 + 1, 0x202F, 0x202F + 1, 0x205F, 0x205F + 1,
      0x3000, 0x3000 + 1, 0xFEFF, 0xFEFF + 1]"

definition char_range_w :: "u32 list" where
  "char_range_w =
     [4, 0x0030, 0x0039 + 1, 0x0041, 0x005A + 1, 0x005F, 0x005F + 1, 0x0061, 0x007A + 1]"

definition char_range_table :: "u32 list list" where
  "char_range_table = [char_range_d, char_range_s, char_range_w]"

fun lre_is_space_loop :: "int \<Rightarrow> nat \<Rightarrow> nat \<Rightarrow> bool" where
  "lre_is_space_loop c i 0 = False"
| "lre_is_space_loop c i (Suc n) =
     (let low = uint (char_range_s ! (2 * i + 1)); high = uint (char_range_s ! (2 * i + 2))
      in if c < low then False else if c < high then True else lre_is_space_loop c (i + 1) n)"

definition lre_is_space :: "int \<Rightarrow> bool" where
  "lre_is_space c = lre_is_space_loop c 0 ((length char_range_s - 1) div 2)"

fun cr_add_points :: "'o CharRange \<Rightarrow> u32 list \<Rightarrow> (int \<times> 'o CharRange) option" where
  "cr_add_points cr [] = Some (0, cr)"
| "cr_add_points cr (v # vs) = do {
     (ret, cr) \<leftarrow> cr_add_point cr v;
     if ret \<noteq> 0 then Some (-1, cr) else cr_add_points cr vs }"

text \<open>The range of a class escape; on failure the range is freed.\<close>

definition cr_init_char_range :: "'o \<Rightarrow> 'o pt_realloc \<Rightarrow> nat \<Rightarrow> (int \<times> 'o CharRange) option" where
  "cr_init_char_range opaque lre_realloc c = do {
     c_pt \<leftarrow> rd char_range_table (c div 2);
     len \<leftarrow> rd c_pt 0;
     pts \<leftarrow> rd_block c_pt 1 (unat len * 2);
     (ret, cr) \<leftarrow> cr_add_points (cr_init opaque lre_realloc) pts;
     if ret \<noteq> 0 then Some (-1, cr\<lparr>cr_opaque := cr_free cr\<rparr>)
     else if odd c then do {
       (ret, cr) \<leftarrow> cr_invert cr;
       if ret \<noteq> 0 then Some (-1, cr\<lparr>cr_opaque := cr_free cr\<rparr>) else Some (0, cr) }
     else Some (0, cr) }"

definition cr_canonicalize :: "'o pt_realloc \<Rightarrow> 'o CharRange \<Rightarrow> (int \<times> 'o CharRange) option" where
  "cr_canonicalize lre_realloc cr = do {
     (ret, a) \<leftarrow> cr_op (cr_init (cr_opaque cr) lre_realloc) (cr_points cr) (cr_len cr)
                    [0x61, 0x7a + 1] 2 CR_OP_INTER;
     if ret \<noteq> 0 then Some (ret, cr\<lparr>cr_opaque := cr_free a\<rparr>)
     else
       (let a = a\<lparr>cr_points := map (\<lambda>p. p + (0x41 - 0x61)) (take (cr_len a) (cr_points a)) @
                              drop (cr_len a) (cr_points a)\<rparr>
        in do {
          (ret, cr) \<leftarrow> cr_union1 (cr\<lparr>cr_opaque := cr_opaque a\<rparr>) (cr_points a) (cr_len a);
          Some (ret, cr\<lparr>cr_opaque := cr_free (a\<lparr>cr_opaque := cr_opaque cr\<rparr>)\<rparr>) }) }"

section \<open>Specification\<close>

text \<open>A code point is in the set when an odd number of points is at or below it.\<close>

definition in_pts :: "u32 \<Rightarrow> u32 list \<Rightarrow> bool" where
  "in_pts c pts = odd (length (filter (\<lambda>p. p \<le> c) pts))"

definition pts_set :: "u32 list \<Rightarrow> u32 set" where
  "pts_set pts = {c. in_pts c pts}"

definition canonical :: "u32 list \<Rightarrow> bool" where
  "canonical pts \<longleftrightarrow> sorted_wrt (<) pts \<and> even (length pts)"

definition cr_pts :: "'o CharRange \<Rightarrow> u32 list" where
  "cr_pts cr = take (cr_len cr) (cr_points cr)"

definition cr_ok :: "'o CharRange \<Rightarrow> bool" where
  "cr_ok cr \<longleftrightarrow> length (cr_points cr) = cr_size cr \<and> cr_len cr \<le> cr_size cr \<and> realloc_ok (cr_realloc_func cr)"

fun op_set :: "CharRangeOpEnum \<Rightarrow> 'a set \<Rightarrow> 'a set \<Rightarrow> 'a set" where
  "op_set CR_OP_UNION A B = A \<union> B"
| "op_set CR_OP_INTER A B = A \<inter> B"
| "op_set CR_OP_XOR A B = (A - B) \<union> (B - A)"

lemma in_pts_simps [simp]:
  "in_pts c [] = False"
  "in_pts c (p # pts) = (if p \<le> c then \<not> in_pts c pts else in_pts c pts)"
  by (simp_all add: in_pts_def)

lemma in_pts_append: "in_pts c (xs @ ys) = (in_pts c xs \<noteq> in_pts c ys)"
  by (induction xs) auto

lemma in_pts_below: "(\<And>p. p \<in> set pts \<Longrightarrow> c < p) \<Longrightarrow> \<not> in_pts c pts"
  by (induction pts) (auto simp: not_le)

lemma in_pts_top: "in_pts 0xffffffff pts = odd (length pts)"
proof -
  have "p \<le> 0xffffffff" for p :: u32
    using unsigned_less [of p, where ?'a = nat] by (simp add: word_le_nat_alt)
  then show ?thesis by (simp add: in_pts_def)
qed

text \<open>Two strictly sorted lists of points that give the same set are equal.\<close>

lemma points_unique:
  assumes "sorted_wrt (<) p" "sorted_wrt (<) q" "\<And>c. in_pts c p = in_pts c q"
  shows "p = q"
  using assms
proof (induction p arbitrary: q)
  case Nil
  show ?case
  proof (cases q)
    case (Cons y ys)
    then have "\<not> in_pts y ys" using Nil(2) by (intro in_pts_below) auto
    with Nil(3) [of y] Cons show ?thesis by simp
  qed simp
next
  case (Cons x xs)
  have nx: "\<not> in_pts c xs" if "c \<le> x" for c
    using Cons.prems(1) that by (intro in_pts_below) auto
  show ?case
  proof (cases q)
    case Nil
    with Cons.prems(3) [of x] nx [of x] show ?thesis by simp
  next
    case q: (Cons y ys)
    have ny: "\<not> in_pts c ys" if "c \<le> y" for c
      using Cons.prems(2) that q by (intro in_pts_below) auto
    have xy: "x = y"
    proof (rule linorder_cases [of x y])
      assume lt: "x < y"
      with Cons.prems(3) [of x] nx [of x] ny [OF less_imp_le [OF lt]] q show ?thesis by (auto simp: not_le split: if_splits)
    next
      assume lt: "y < x"
      with Cons.prems(3) [of y] ny [of y] nx [OF less_imp_le [OF lt]] q show ?thesis by (auto simp: not_le split: if_splits)
    qed
    have "in_pts c xs = in_pts c ys" for c
      using Cons.prems(3) [of c] nx [of c] ny [of c] q xy by (auto split: if_splits)
    with Cons.IH [of ys] Cons.prems(1,2) q xy show ?thesis by simp
  qed
qed

section \<open>Compaction\<close>

fun compress_pts :: "u32 list \<Rightarrow> u32 list" and extend_iv :: "u32 \<Rightarrow> u32 \<Rightarrow> u32 list \<Rightarrow> u32 list" where
  "compress_pts [] = []"
| "compress_pts [x] = []"
| "compress_pts (x # y # r) = (if x = y then compress_pts r else extend_iv x y r)"
| "extend_iv x y (a # b # r) = (if y = a then extend_iv x b r else x # y # compress_pts (a # b # r))"
| "extend_iv x y [] = [x, y]"
| "extend_iv x y [a] = [x, y]"

lemma in_pts_compress:
  "even (length pts) \<Longrightarrow> in_pts c (compress_pts pts) = in_pts c pts"
  "even (length pts) \<Longrightarrow> in_pts c (extend_iv x y pts) = in_pts c (x # y # pts)"
  by (induction pts and x y pts rule: compress_pts_extend_iv.induct) auto

lemma compress_even:
  "even (length (compress_pts pts))" "even (length (extend_iv x y pts))"
  by (induction pts and x y pts rule: compress_pts_extend_iv.induct) auto

lemma compress_subset:
  "set (compress_pts pts) \<subseteq> set pts" "set (extend_iv x y pts) \<subseteq> insert x (insert y (set pts))"
  by (induction pts and x y pts rule: compress_pts_extend_iv.induct) auto

lemma compress_strict:
  "sorted pts \<Longrightarrow> sorted_wrt (<) (compress_pts pts)"
  "sorted (x # y # pts) \<Longrightarrow> x < y \<Longrightarrow> sorted_wrt (<) (extend_iv x y pts)"
proof (induction pts and x y pts rule: compress_pts_extend_iv.induct)
  case (4 x y a b r)
  show ?case
  proof (cases "y = a")
    case True
    with 4 show ?thesis by auto
  next
    case False
    with 4 have lt: "y < a" and s: "sorted_wrt (<) (compress_pts (a # b # r))" by auto
    have "y < p" if "p \<in> set (compress_pts (a # b # r))" for p
      using that compress_subset(1) [of "a # b # r"] lt 4(3) by fastforce
    moreover have "x < p" if "p \<in> set (compress_pts (a # b # r))" for p
      using that \<open>\<And>p. p \<in> set (compress_pts (a # b # r)) \<Longrightarrow> y < p\<close> 4(4) less_trans by blast
    ultimately show ?thesis using False s 4(4) by (simp del: compress_pts.simps)
  qed
qed auto

lemma drop2_take: "j + 1 < len \<Longrightarrow> len \<le> length pt \<Longrightarrow>
    drop j (take len pt) = pt ! j # pt ! (j + 1) # drop (j + 2) (take len pt)"
  using Cons_nth_drop_Suc [of j "take len pt"] Cons_nth_drop_Suc [of "Suc j" "take len pt"] by simp

lemma cr_compress_skip_spec:
  assumes "j + 1 < len" "len \<le> length pt"
  shows "\<exists>j'. cr_compress_skip pt len j = Some j' \<and> j \<le> j' \<and> j' + 1 < len \<and>
    extend_iv x (pt ! (j + 1)) (drop (j + 2) (take len pt)) =
      x # pt ! (j' + 1) # compress_pts (drop (j' + 2) (take len pt))"
  using assms
proof (induction pt len j rule: cr_compress_skip.induct)
  case (1 pt len j)
  show ?case
  proof (cases "j + 3 < len")
    case False
    then have "length (drop (j + 2) (take len pt)) \<le> 1" using 1 by auto
    then have "drop (j + 2) (take len pt) = [] \<or> (\<exists>a. drop (j + 2) (take len pt) = [a])"
      by (auto simp: le_Suc_eq length_Suc_conv simp del: length_drop length_take drop_eq_Nil)
    with False 1 show ?thesis by (auto simp: cr_compress_skip.simps [of pt len j])
  next
    case True
    have d: "drop (j + 2) (take len pt) = pt ! (j + 2) # pt ! (j + 3) # drop (j + 4) (take len pt)"
      using drop2_take [of "j + 2" len pt] True 1 by (simp add: numeral_eq_Suc)
    show ?thesis
    proof (cases "pt ! (j + 1) = pt ! (j + 2)")
      case True
      have "\<exists>j'. cr_compress_skip pt len (j + 2) = Some j' \<and> j + 2 \<le> j' \<and> j' + 1 < len \<and>
        extend_iv x (pt ! (j + 2 + 1)) (drop (j + 2 + 2) (take len pt)) =
          x # pt ! (j' + 1) # compress_pts (drop (j' + 2) (take len pt))"
        using True \<open>j + 3 < len\<close> "1.prems" by (intro "1.IH") auto
      with True \<open>j + 3 < len\<close> "1.prems" show ?thesis
        by (auto simp: cr_compress_skip.simps [of pt len j] d [simplified] numeral_eq_Suc)
    next
      case False
      with \<open>j + 3 < len\<close> "1.prems" show ?thesis
        by (auto simp: cr_compress_skip.simps [of pt len j] d [simplified])
    qed
  qed
qed

lemma cr_compress_loop_spec:
  assumes "len \<le> length pt" "k \<le> i"
  shows "\<exists>pt' k'. cr_compress_loop pt len i k = Some (pt', k') \<and> length pt' = length pt \<and>
    k' \<le> max k len \<and> take k' pt' = take k pt @ compress_pts (drop i (take len pt))"
  using assms
proof (induction pt len i k rule: cr_compress_loop.induct)
  case (1 pt len i k)
  show ?case
  proof (cases "i + 1 < len")
    case False
    then have "length (drop i (take len pt)) \<le> 1" using 1 by auto
    then have "compress_pts (drop i (take len pt)) = []"
      by (cases "drop i (take len pt)") auto
    with False show ?thesis by (simp add: cr_compress_loop.simps [of pt len i k])
  next
    case i: True
    note d = drop2_take [OF i "1.prems"(1)]
    show ?thesis
    proof (cases "pt ! i = pt ! (i + 1)")
      case True
      have "\<exists>pt' k'. cr_compress_loop pt len (i + 2) k = Some (pt', k') \<and> length pt' = length pt \<and>
          k' \<le> max k len \<and> take k' pt' = take k pt @ compress_pts (drop (i + 2) (take len pt))"
        using True i "1.prems" by (intro "1.IH"(1)) auto
      with True i "1.prems"(1) show ?thesis by (simp add: cr_compress_loop.simps [of pt len i k] d)
    next
      case False
      obtain j where j: "cr_compress_skip pt len i = Some j" "i \<le> j" "j + 1 < len"
        "extend_iv (pt ! i) (pt ! (i + 1)) (drop (i + 2) (take len pt)) =
          pt ! i # pt ! (j + 1) # compress_pts (drop (j + 2) (take len pt))"
        using cr_compress_skip_spec [OF i "1.prems"(1)] by blast
      let ?pt1 = "pt[k := pt ! i]" and ?pt2 = "pt[k := pt ! i, k + 1 := pt ! (j + 1)]"
      have step: "cr_compress_loop pt len i k = cr_compress_loop ?pt2 len (j + 2) (k + 2)"
        using False i j "1.prems" by (simp add: cr_compress_loop.simps [of pt len i k])
      have "\<exists>pt' k'. cr_compress_loop ?pt2 len (j + 2) (k + 2) = Some (pt', k') \<and>
          length pt' = length ?pt2 \<and> k' \<le> max (k + 2) len \<and>
          take k' pt' = take (k + 2) ?pt2 @ compress_pts (drop (j + 2) (take len ?pt2))"
        using False i j "1.prems" by (intro "1.IH"(2) [of "pt ! i" "pt ! (i + 1)" j ?pt1 "pt ! (j + 1)"]) auto
      moreover have "drop (j + 2) (take len ?pt2) = drop (j + 2) (take len pt)"
        using j "1.prems" by (simp add: take_update_swap)
      moreover have "take (k + 2) ?pt2 = take k pt @ [pt ! i, pt ! (j + 1)]"
      proof -
        have "k + 1 < length pt" using i j "1.prems" by simp
        then show ?thesis by (simp add: take_Suc_conv_app_nth)
      qed
      ultimately show ?thesis using False i j d "1.prems" unfolding step by auto
    qed
  qed
qed

lemma cr_compress_spec:
  assumes "cr_ok cr"
  shows "\<exists>cr'. cr_compress cr = Some cr' \<and> cr_ok cr' \<and> cr_pts cr' = compress_pts (cr_pts cr)"
proof -
  obtain pt k where "cr_compress_loop (cr_points cr) (cr_len cr) 0 0 = Some (pt, k)"
    "length pt = length (cr_points cr)" "k \<le> cr_len cr"
    "take k pt = compress_pts (take (cr_len cr) (cr_points cr))"
    using cr_compress_loop_spec [of "cr_len cr" "cr_points cr" 0 0] assms by (auto simp: cr_ok_def)
  with assms show ?thesis by (simp add: cr_compress_def cr_ok_def cr_pts_def)
qed

section \<open>Growing\<close>

lemma cr_pts_length: "cr_ok cr \<Longrightarrow> length (cr_pts cr) = cr_len cr"
  by (simp add: cr_ok_def cr_pts_def)

lemma cr_realloc_spec:
  assumes ok: "cr_ok cr" and eq: "cr_realloc cr n = (r, cr')"
  shows "cr_ok cr' \<and> cr_len cr' = cr_len cr \<and> cr_pts cr' = cr_pts cr \<and>
    (r = 0 \<and> n \<le> length (cr_points cr') \<or> r = -1)"
proof (cases "n > cr_size cr")
  case False
  with assms show ?thesis by (auto simp: cr_realloc_def cr_ok_def)
next
  case True
  define m where "m = max n (cr_size cr * 3 div 2)"
  have m: "n \<le> m" "cr_len cr \<le> m" using True ok by (auto simp: m_def cr_ok_def)
  obtain o' res where ra: "cr_realloc_func cr (cr_opaque cr) (cr_points cr) m = (o', res)"
    by (cases "cr_realloc_func cr (cr_opaque cr) (cr_points cr) m")
  show ?thesis
  proof (cases res)
    case None
    with True ra eq ok show ?thesis
      by (auto simp: cr_realloc_def m_def Let_def cr_ok_def cr_pts_def)
  next
    case (Some b)
    have "realloc_ok (cr_realloc_func cr)" using ok by (simp add: cr_ok_def)
    note b = realloc_okD [OF this ra [unfolded Some]]
    have "take (cr_len cr) b = take (cr_len cr) (cr_points cr)"
      using m ok by (intro b(2)) (auto simp: cr_ok_def)
    with True ra Some eq ok m b(1) show ?thesis
      by (auto simp: cr_realloc_def m_def Let_def cr_ok_def cr_pts_def)
  qed
qed

lemma cr_add_point_spec:
  assumes ok: "cr_ok cr"
  shows "\<exists>r cr'. cr_add_point cr v = Some (r, cr') \<and> cr_ok cr' \<and>
    (r = 0 \<and> cr_pts cr' = cr_pts cr @ [v] \<and> cr_len cr' = cr_len cr + 1 \<or>
     r = -1 \<and> cr_pts cr' = cr_pts cr)"
proof -
  have guard: "(if cr_len cr \<ge> cr_size cr then cr_realloc cr (cr_len cr + 1) else (0, cr)) =
      cr_realloc cr (cr_len cr + 1)"
    by (simp add: cr_realloc_def)
  obtain r t where g: "cr_realloc cr (cr_len cr + 1) = (r, t)" by (cases "cr_realloc cr (cr_len cr + 1)")
  note t = cr_realloc_spec [OF ok g]
  show ?thesis
  proof (cases "r = 0")
    case True
    with t have l: "cr_len cr < length (cr_points t)" by auto
    then have "take (Suc (cr_len cr)) ((cr_points t)[cr_len cr := v]) = cr_pts cr @ [v]"
      using t by (auto simp: take_Suc_update cr_pts_def)
    with True t l show ?thesis unfolding cr_add_point_def guard unfolding g
      by (auto simp: cr_ok_def cr_pts_def)
  next
    case False
    with t show ?thesis unfolding cr_add_point_def guard unfolding g by simp
  qed
qed

section \<open>Merging\<close>

text \<open>The point that comes next in two sorted lists, and from which lists it is taken.\<close>

fun next_pt :: "u32 list \<Rightarrow> u32 list \<Rightarrow> (u32 \<times> bool \<times> bool) option" where
  "next_pt [] [] = None"
| "next_pt (a # as) [] = Some (a, True, False)"
| "next_pt [] (b # bs) = Some (b, False, True)"
| "next_pt (a # as) (b # bs) =
     Some (if a < b then (a, True, False) else if a = b then (a, True, True) else (b, False, True))"

definition tl_if :: "bool \<Rightarrow> 'a list \<Rightarrow> 'a list" where
  "tl_if x xs = (if x then tl xs else xs)"

lemma next_pt_less: "next_pt as bs = Some (v, x, y) \<Longrightarrow>
    length (tl_if x as) + length (tl_if y bs) < length as + length bs"
  by (cases "(as, bs)" rule: next_pt.cases) (auto simp: tl_if_def split: if_splits)

text \<open>The points where the combined status changes.\<close>

function op_points ::
    "(bool \<Rightarrow> bool \<Rightarrow> bool) \<Rightarrow> bool \<Rightarrow> bool \<Rightarrow> u32 list \<Rightarrow> u32 list \<Rightarrow> u32 list" where
  "op_points f pa pb as bs =
     (case next_pt as bs of
        None \<Rightarrow> []
      | Some (v, x, y) \<Rightarrow>
          (if f (pa \<noteq> x) (pb \<noteq> y) \<noteq> f pa pb then [v] else []) @
          op_points f (pa \<noteq> x) (pb \<noteq> y) (tl_if x as) (tl_if y bs))"
  by pat_completeness auto
termination
  by (relation "measure (\<lambda>(f, pa, pb, as, bs). length as + length bs)") (auto dest: next_pt_less)

declare op_points.simps [simp del]

lemma next_pt_sorted:
  assumes "next_pt as bs = Some (v, x, y)" "sorted as" "sorted bs"
  shows "\<forall>p\<in>set as \<union> set bs. v \<le> p" "sorted (tl_if x as)" "sorted (tl_if y bs)"
    "v \<in> set as \<union> set bs" "set (tl_if x as) \<subseteq> set as" "set (tl_if y bs) \<subseteq> set bs"
    "v \<le> c \<Longrightarrow> in_pts c as = (x \<noteq> in_pts c (tl_if x as))"
    "v \<le> c \<Longrightarrow> in_pts c bs = (y \<noteq> in_pts c (tl_if y bs))"
  using assms
  by (cases "(as, bs)" rule: next_pt.cases;
      auto simp: tl_if_def not_less le_less split: if_splits intro: less_trans; fail)+

lemma op_points_subset:
  "set (op_points f pa pb as bs) \<subseteq> set as \<union> set bs"
proof (induction f pa pb as bs rule: op_points.induct)
  case (1 f pa pb as bs)
  show ?case
  proof (cases "next_pt as bs")
    case None
    then show ?thesis by (simp add: op_points.simps [of f pa pb as bs])
  next
    case (Some w)
    obtain v x y where w: "w = (v, x, y)" by (cases w)
    have "v \<in> set as \<union> set bs" "set (tl_if x as) \<subseteq> set as" "set (tl_if y bs) \<subseteq> set bs"
      using Some w by (cases "(as, bs)" rule: next_pt.cases; auto simp: tl_if_def split: if_splits)+
    with 1 [OF Some w [symmetric] refl] Some w show ?thesis
      by (auto simp: op_points.simps [of f pa pb as bs])
  qed
qed

lemma op_points_sorted:
  "sorted as \<Longrightarrow> sorted bs \<Longrightarrow> sorted (op_points f pa pb as bs)"
proof (induction f pa pb as bs rule: op_points.induct)
  case (1 f pa pb as bs)
  show ?case
  proof (cases "next_pt as bs")
    case None
    then show ?thesis by (simp add: op_points.simps [of f pa pb as bs])
  next
    case (Some w)
    obtain v x y where w: "w = (v, x, y)" by (cases w)
    note n = next_pt_sorted [OF Some [unfolded w] "1.prems"]
    have "sorted (op_points f (pa \<noteq> x) (pb \<noteq> y) (tl_if x as) (tl_if y bs))"
      using "1.IH" [OF Some w [symmetric] refl n(2,3)] .
    moreover have "v \<le> p" if "p \<in> set (op_points f (pa \<noteq> x) (pb \<noteq> y) (tl_if x as) (tl_if y bs))" for p
      using that op_points_subset [of f "pa \<noteq> x" "pb \<noteq> y" "tl_if x as" "tl_if y bs"] n(1,5,6) by blast
    ultimately show ?thesis using Some w by (simp add: op_points.simps [of f pa pb as bs])
  qed
qed

lemma in_op_points:
  assumes "sorted as" "sorted bs"
  shows "in_pts c (op_points f pa pb as bs) = (f (pa \<noteq> in_pts c as) (pb \<noteq> in_pts c bs) \<noteq> f pa pb)"
  using assms
proof (induction f pa pb as bs rule: op_points.induct)
  case (1 f pa pb as bs)
  show ?case
  proof (cases "next_pt as bs")
    case None
    then have "as = []" "bs = []" by (cases "(as, bs)" rule: next_pt.cases; simp)+
    then show ?thesis by (simp add: op_points.simps [of f pa pb "[]" "[]"])
  next
    case (Some w)
    obtain v x y where w: "w = (v, x, y)" by (cases w)
    note n = next_pt_sorted [OF Some [unfolded w] "1.prems"]
    show ?thesis
    proof (cases "v \<le> c")
      case True
      from "1.IH" [OF Some w [symmetric] refl n(2,3)] n(7,8) [OF True] True Some w show ?thesis
        by (auto simp: op_points.simps [of f pa pb as bs] in_pts_append)
    next
      case False
      then have b: "\<forall>p\<in>set as \<union> set bs. c < p" using n(1) by (meson less_le_trans not_le)
      have "\<not> in_pts c as" "\<not> in_pts c bs" using b by (intro in_pts_below; blast)+
      moreover have "\<not> in_pts c (op_points f pa pb as bs)"
        using b op_points_subset [of f pa pb as bs] by (intro in_pts_below) blast
      ultimately show ?thesis by simp
    qed
  qed
qed

definition op_fun :: "CharRangeOpEnum \<Rightarrow> bool \<Rightarrow> bool \<Rightarrow> bool" where
  "op_fun opr a b = (case opr of CR_OP_UNION \<Rightarrow> a \<or> b | CR_OP_INTER \<Rightarrow> a \<and> b | CR_OP_XOR \<Rightarrow> a \<noteq> b)"

lemma op_bits_fun: "op_bits opr i j = op_fun opr (odd i) (odd j)"
  by (simp add: op_bits_def op_fun_def split: CharRangeOpEnum.splits)

lemma op_fun_set: "{c. op_fun opr (c \<in> A) (c \<in> B)} = op_set opr A B"
  by (cases opr) (auto simp: op_fun_def)

lemma cr_op_next_spec:
  assumes "a_len \<le> length a_pt" "b_len \<le> length b_pt"
  shows "cr_op_next a_pt a_len b_pt b_len i j =
    Some (map_option (\<lambda>(v, x, y). (v, i + of_bool x, j + of_bool y))
      (next_pt (drop i (take a_len a_pt)) (drop j (take b_len b_pt))))"
proof -
  have a: "drop i (take a_len a_pt) = (if i < a_len then a_pt ! i # drop (Suc i) (take a_len a_pt) else [])"
    using Cons_nth_drop_Suc [of i "take a_len a_pt"] assms(1) by auto
  have b: "drop j (take b_len b_pt) = (if j < b_len then b_pt ! j # drop (Suc j) (take b_len b_pt) else [])"
    using Cons_nth_drop_Suc [of j "take b_len b_pt"] assms(2) by auto
  show ?thesis
    by (subst a, subst b) (use assms in \<open>auto simp: cr_op_next_def\<close>)
qed

lemma tl_if_drop: "tl_if x (drop i xs) = drop (i + of_bool x) xs"
  by (cases x) (simp_all add: tl_if_def tl_drop drop_Suc)

lemma cr_op_loop_spec:
  assumes "cr_ok cr" "odd (cr_len cr) = op_bits opr i j" "a_len \<le> length a_pt" "b_len \<le> length b_pt"
  shows "\<exists>r cr'. cr_op_loop cr a_pt a_len b_pt b_len opr i j = Some (r, cr') \<and> cr_ok cr' \<and>
    (r = 0 \<and> cr_pts cr' = cr_pts cr @ op_points (op_fun opr) (odd i) (odd j)
       (drop i (take a_len a_pt)) (drop j (take b_len b_pt)) \<or> r = -1)"
  using assms
proof (induction cr a_pt a_len b_pt b_len opr i j rule: cr_op_loop.induct)
  case (1 cr a_pt a_len b_pt b_len opr i j)
  let ?as = "drop i (take a_len a_pt)" and ?bs = "drop j (take b_len b_pt)"
  note nxt = cr_op_next_spec [OF "1.prems"(3,4), of i j]
  show ?case
  proof (cases "next_pt ?as ?bs")
    case None
    with nxt show ?thesis using "1.prems"(1)
      by (simp add: cr_op_loop.simps [of cr] op_points.simps [of _ _ _ ?as])
  next
    case (Some w)
    obtain v x y where w: "w = (v, x, y)" by (cases w)
    let ?i = "i + of_bool x" and ?j = "j + of_bool y"
    have n: "cr_op_next a_pt a_len b_pt b_len i j = Some (Some (v, ?i, ?j))"
      using nxt Some w by simp
    have par: "odd ?i = (odd i \<noteq> x)" "odd ?j = (odd j \<noteq> y)" by auto
    have pts: "op_points (op_fun opr) (odd i) (odd j) ?as ?bs =
        (if op_bits opr ?i ?j \<noteq> op_bits opr i j then [v] else []) @
        op_points (op_fun opr) (odd ?i) (odd ?j) (drop ?i (take a_len a_pt)) (drop ?j (take b_len b_pt))"
      using Some w by (simp add: op_points.simps [of _ _ _ ?as] op_bits_fun par tl_if_drop)
    show ?thesis
    proof (cases "op_bits opr ?i ?j \<noteq> odd (cr_len cr)")
      case True
      obtain r1 cr1 where c1: "cr_add_point cr v = Some (r1, cr1)" "cr_ok cr1"
        "r1 = 0 \<and> cr_pts cr1 = cr_pts cr @ [v] \<and> cr_len cr1 = cr_len cr + 1 \<or>
         r1 = -1 \<and> cr_pts cr1 = cr_pts cr"
        using cr_add_point_spec [OF "1.prems"(1)] by blast
      show ?thesis
      proof (cases "r1 = 0")
        case False
        with c1 True n show ?thesis by (simp add: cr_op_loop.simps [of cr])
      next
        case r0: True
        have "\<exists>r cr'. cr_op_loop cr1 a_pt a_len b_pt b_len opr ?i ?j = Some (r, cr') \<and> cr_ok cr' \<and>
          (r = 0 \<and> cr_pts cr' = cr_pts cr1 @ op_points (op_fun opr) (odd ?i) (odd ?j)
             (drop ?i (take a_len a_pt)) (drop ?j (take b_len b_pt)) \<or> r = -1)"
          using c1 r0 True "1.prems"(3,4) n by (intro "1.IH"(1) [OF n refl refl refl _ _ refl]) auto
        with c1 r0 True n pts "1.prems"(2) show ?thesis by (auto simp: cr_op_loop.simps [of cr])
      qed
    next
      case False
      have "\<exists>r cr'. cr_op_loop cr a_pt a_len b_pt b_len opr ?i ?j = Some (r, cr') \<and> cr_ok cr' \<and>
        (r = 0 \<and> cr_pts cr' = cr_pts cr @ op_points (op_fun opr) (odd ?i) (odd ?j)
           (drop ?i (take a_len a_pt)) (drop ?j (take b_len b_pt)) \<or> r = -1)"
        using False "1.prems" n by (intro "1.IH"(2) [OF n refl refl refl]) auto
      with False n pts "1.prems"(2) show ?thesis by (simp add: cr_op_loop.simps [of cr])
    qed
  qed
qed

text \<open>What an operation on ranges returns: a range in canonical form that denotes the
  expected set, or -1 when memory ran out.\<close>

definition cr_result :: "u32 set \<Rightarrow> (int \<times> 'o CharRange) option \<Rightarrow> bool" where
  "cr_result S res \<longleftrightarrow>
     (\<exists>r cr. res = Some (r, cr) \<and> cr_ok cr \<and>
        (r = 0 \<and> canonical (cr_pts cr) \<and> pts_set (cr_pts cr) = S \<or> r = -1))"

lemma canonical_compress:
  "sorted pts \<Longrightarrow> even (length pts) \<Longrightarrow>
     canonical (compress_pts pts) \<and> pts_set (compress_pts pts) = pts_set pts"
  by (simp add: canonical_def compress_strict compress_even pts_set_def in_pts_compress)

lemma canonical_sorted: "canonical pts \<Longrightarrow> sorted pts \<and> even (length pts)"
  by (auto simp: canonical_def strict_sorted_imp_sorted)

lemma cr_op_spec:
  assumes "cr_ok cr" "cr_len cr = 0" "a_len \<le> length a_pt" "b_len \<le> length b_pt"
    and "sorted (take a_len a_pt)" "sorted (take b_len b_pt)" "even a_len" "even b_len"
  shows "cr_result (op_set opr (pts_set (take a_len a_pt)) (pts_set (take b_len b_pt)))
    (cr_op cr a_pt a_len b_pt b_len opr)"
proof -
  let ?p = "op_points (op_fun opr) False False (take a_len a_pt) (take b_len b_pt)"
  have ff: "op_fun opr False False = False" by (cases opr) (simp_all add: op_fun_def)
  have sem: "in_pts c ?p = op_fun opr (in_pts c (take a_len a_pt)) (in_pts c (take b_len b_pt))" for c
    using in_op_points [OF assms(5,6), of c "op_fun opr" False False] ff by simp
  have "\<not> in_pts 0xffffffff ?p" unfolding sem using assms(3,4,7,8) ff by (simp add: in_pts_top)
  then have ev: "even (length ?p)" by (simp add: in_pts_top)
  have st: "sorted ?p" using assms(5,6) by (rule op_points_sorted)
  have S: "pts_set ?p = op_set opr (pts_set (take a_len a_pt)) (pts_set (take b_len b_pt))"
    by (simp add: pts_set_def sem op_fun_set [symmetric])
  have "odd (cr_len cr) = op_bits opr 0 0" using assms(2) ff by (simp add: op_bits_fun)
  from cr_op_loop_spec [OF assms(1) this assms(3,4)] obtain r cr1 where
    l: "cr_op_loop cr a_pt a_len b_pt b_len opr 0 0 = Some (r, cr1)" "cr_ok cr1"
      "r = 0 \<and> cr_pts cr1 = ?p \<or> r = -1"
    using assms(2) by (auto simp: cr_pts_def)
  show ?thesis
  proof (cases "r = 0")
    case True
    obtain cr2 where "cr_compress cr1 = Some cr2" "cr_ok cr2" "cr_pts cr2 = compress_pts ?p"
      using cr_compress_spec [OF l(2)] l(3) True by auto
    with True l canonical_compress [OF st ev] S show ?thesis by (simp add: cr_op_def cr_result_def)
  next
    case False
    with l show ?thesis by (simp add: cr_op_def cr_result_def)
  qed
qed

lemma cr_ok_reset:
  "cr_ok cr \<Longrightarrow> cr_ok (cr\<lparr>cr_len := 0, cr_size := 0, cr_points := []\<rparr>)"
  by (simp add: cr_ok_def)

lemma cr_result_opaque:
  assumes "cr_result S res"
  shows "cr_result S (do { (r, cr) \<leftarrow> res; Some (r, cr\<lparr>cr_opaque := f cr\<rparr>) })"
  using assms by (auto simp: cr_result_def cr_ok_def cr_pts_def)

lemma cr_union1_spec:
  assumes "cr_ok cr" "sorted (cr_pts cr)" "even (cr_len cr)"
    and "b_len \<le> length b_pt" "sorted (take b_len b_pt)" "even b_len"
  shows "cr_result (pts_set (cr_pts cr) \<union> pts_set (take b_len b_pt)) (cr_union1 cr b_pt b_len)"
proof -
  let ?cr = "cr\<lparr>cr_len := 0, cr_size := 0, cr_points := []\<rparr>"
  have "cr_result (op_set CR_OP_UNION (pts_set (take (cr_len cr) (cr_points cr))) (pts_set (take b_len b_pt)))
      (cr_op ?cr (cr_points cr) (cr_len cr) b_pt b_len CR_OP_UNION)"
    using assms cr_ok_reset [OF assms(1)] by (intro cr_op_spec) (simp_all add: cr_ok_def cr_pts_def)
  from cr_result_opaque [OF this, of "\<lambda>c. cr_free (cr\<lparr>cr_opaque := cr_opaque c\<rparr>)"]
  show ?thesis by (simp add: cr_union1_def Let_def cr_pts_def)
qed

lemma word_le_pred: "p \<noteq> 0 \<Longrightarrow> p \<le> c \<longleftrightarrow> \<not> c \<le> p - 1" for p c :: u32
  by (simp add: word_le_nat_alt unat_minus_one unat_gt_0 [symmetric] del: unat_gt_0) linarith

lemma pts_set_interval:
  assumes "c1 \<le> c2" "c2 < 0xffffffff"
  shows "sorted [c1, c2 + 1]" "pts_set [c1, c2 + 1] = {c1..c2}"
proof -
  have u: "unat (c2 + 1) = unat c2 + 1"
    using assms(2) by (simp add: word_less_nat_alt unat_word_ariths)
  show "sorted [c1, c2 + 1]" using assms(1) u by (simp add: word_le_nat_alt)
  show "pts_set [c1, c2 + 1] = {c1..c2}"
    using assms(1) u by (auto simp: pts_set_def word_le_nat_alt)
qed

lemma cr_union_interval_spec:
  assumes "cr_ok cr" "sorted (cr_pts cr)" "even (cr_len cr)" "c1 \<le> c2" "c2 < 0xffffffff"
  shows "cr_result (pts_set (cr_pts cr) \<union> {c1..c2}) (cr_union_interval cr c1 c2)"
  using cr_union1_spec [OF assms(1-3), of 2 "[c1, c2 + 1]"] pts_set_interval [OF assms(4,5)]
  by (simp add: cr_union_interval_def)

lemma invert_points:
  assumes "sorted pts" "even (length pts)"
  shows "sorted (0 # pts @ [0xffffffff])" "even (length (0 # pts @ [0xffffffff]))"
    "pts_set (0 # pts @ [0xffffffff]) = - pts_set pts - {0xffffffff}"
proof -
  have top: "p \<le> 0xffffffff" for p :: u32
    using unsigned_less [of p, where ?'a = nat] by (simp add: word_le_nat_alt)
  show "sorted (0 # pts @ [0xffffffff])" using assms(1) top by (simp add: sorted_append)
  show "even (length (0 # pts @ [0xffffffff]))" using assms(2) by simp
  have "in_pts c (0 # pts @ [0xffffffff]) = (\<not> in_pts c pts \<and> c \<noteq> 0xffffffff)" for c :: u32
    using in_pts_top [of pts] assms(2) top [of c] by (auto simp: in_pts_append)
  then show "pts_set (0 # pts @ [0xffffffff]) = - pts_set pts - {0xffffffff}"
    by (auto simp: pts_set_def)
qed

lemma cr_invert_spec:
  assumes "cr_ok cr" "sorted (cr_pts cr)" "even (cr_len cr)"
  shows "cr_result (- pts_set (cr_pts cr) - {0xffffffff}) (cr_invert cr)"
proof -
  obtain r t where g: "cr_realloc cr (cr_len cr + 2) = (r, t)" by (cases "cr_realloc cr (cr_len cr + 2)")
  note t = cr_realloc_spec [OF assms(1) g]
  show ?thesis
  proof (cases "r = 0")
    case False
    with t g show ?thesis by (simp add: cr_invert_def Let_def cr_result_def)
  next
    case True
    let ?n = "cr_len cr"
    have len: "?n + 2 \<le> length (cr_points t)" and p: "take ?n (cr_points t) = cr_pts cr"
      using True t by (auto simp: cr_pts_def)
    define q where "q = take 1 (cr_points t) @ cr_pts cr @ drop (1 + ?n) (cr_points t)"
    define u where "u = t\<lparr>cr_points := q[0 := 0, ?n + 1 := 0xffffffff], cr_len := ?n + 2\<rparr>"
    have lp: "length (cr_pts cr) = ?n" using assms(1) by (rule cr_pts_length)
    have lq: "length q = length (cr_points t)" using len lp by (simp add: q_def)
    have u_ok: "cr_ok u" using t len lq by (simp add: u_def cr_ok_def)
    have "take (?n + 2) (q[0 := 0, ?n + 1 := 0xffffffff]) = 0 # cr_pts cr @ [0xffffffff]"
    proof -
      have "take (Suc ?n) q = take 1 (cr_points t) @ cr_pts cr" using len lp by (simp add: q_def)
      moreover have "take 1 (cr_points t) = [cr_points t ! 0]"
        using len by (cases "cr_points t") auto
      ultimately have "take (Suc ?n) (q[0 := 0]) = 0 # cr_pts cr" by (simp add: take_update_swap)
      then show ?thesis using len lq by (simp add: take_Suc_update)
    qed
    then have pts: "cr_pts u = 0 # cr_pts cr @ [0xffffffff]" by (simp add: u_def cr_pts_def)
    have b: "blit (cr_points t) 1 (cr_pts cr) = Some q" using len lp by (simp add: blit_def q_def)
    have w: "wr q 0 0 = Some (q[0 := 0])" using len lq by (intro wr_in) linarith
    have "cr_invert cr = do { c \<leftarrow> cr_compress u; Some (0, c) }"
      using g True len lp p lq b w by (simp add: cr_invert_def Let_def rd_block_def u_def)
    moreover obtain c where "cr_compress u = Some c" "cr_ok c" "cr_pts c = compress_pts (cr_pts u)"
      using cr_compress_spec [OF u_ok] by blast
    moreover note canonical_compress [of "cr_pts u"] invert_points [of "cr_pts cr"] assms(2,3) lp
    ultimately show ?thesis unfolding pts by (simp add: cr_result_def)
  qed
qed

section \<open>The contract of a set of code points\<close>

text \<open>
  What the compiler of character classes relies on: intervals can be added and the set
  inverted, each step may run out of memory, and the class it builds denotes the union of
  its intervals or the complement of that union.
\<close>

locale interval_set =
  fixes add :: "'r \<Rightarrow> u32 \<Rightarrow> u32 \<Rightarrow> (int \<times> 'r) option"
    and inv :: "'r \<Rightarrow> (int \<times> 'r) option"
    and elems :: "'r \<Rightarrow> u32 set"
    and ok :: "'r \<Rightarrow> bool"
  assumes add_spec: "ok s \<Longrightarrow> c1 \<le> c2 \<Longrightarrow> c2 < 0xffffffff \<Longrightarrow>
      \<exists>r s'. add s c1 c2 = Some (r, s') \<and> (r = 0 \<and> ok s' \<and> elems s' = elems s \<union> {c1..c2} \<or> r = -1)"
    and inv_spec: "ok s \<Longrightarrow>
      \<exists>r s'. inv s = Some (r, s') \<and> (r = 0 \<and> ok s' \<and> elems s' = - elems s - {0xffffffff} \<or> r = -1)"
begin

fun adds :: "'r \<Rightarrow> (u32 \<times> u32) list \<Rightarrow> (int \<times> 'r) option" where
  "adds s [] = Some (0, s)"
| "adds s ((c1, c2) # ivs) = do { (r, s') \<leftarrow> add s c1 c2; if r \<noteq> 0 then Some (-1, s') else adds s' ivs }"

definition build_class :: "'r \<Rightarrow> (u32 \<times> u32) list \<Rightarrow> bool \<Rightarrow> (int \<times> 'r) option" where
  "build_class s ivs invert = do {
     (r, s) \<leftarrow> adds s ivs;
     if r \<noteq> 0 then Some (-1, s) else if invert then inv s else Some (0, s) }"

lemma adds_elems:
  assumes "ok s" "\<forall>(c1, c2)\<in>set ivs. c1 \<le> c2 \<and> c2 < 0xffffffff"
  shows "\<exists>r s'. adds s ivs = Some (r, s') \<and>
    (r = 0 \<and> ok s' \<and> elems s' = elems s \<union> (\<Union>(c1, c2)\<in>set ivs. {c1..c2}) \<or> r = -1)"
  using assms
proof (induction s ivs rule: adds.induct)
  case (2 s c1 c2 ivs)
  then obtain r t where t: "add s c1 c2 = Some (r, t)"
    "r = 0 \<and> ok t \<and> elems t = elems s \<union> {c1..c2} \<or> r = -1"
    using add_spec [of s c1 c2] by auto
  show ?case
  proof (cases "r = 0")
    case True
    with t have ok: "ok t" by auto
    have "\<forall>(c1, c2)\<in>set ivs. c1 \<le> c2 \<and> c2 < 0xffffffff" using "2.prems"(2) by simp
    from "2.IH" [OF t(1) refl _ ok this] t True show ?thesis by (auto simp: Un_assoc)
  next
    case False
    with t show ?thesis by auto
  qed
qed simp

lemma class_elems:
  assumes "ok s" "elems s = {}" "\<forall>(c1, c2)\<in>set ivs. c1 \<le> c2 \<and> c2 < 0xffffffff"
  shows "\<exists>r s'. build_class s ivs invert = Some (r, s') \<and>
    (r = 0 \<and> ok s' \<and> elems s' = (let U = \<Union>(c1, c2)\<in>set ivs. {c1..c2} in
       if invert then - U - {0xffffffff} else U) \<or> r = -1)"
proof -
  obtain r t where t: "adds s ivs = Some (r, t)"
    "r = 0 \<and> ok t \<and> elems t = (\<Union>(c1, c2)\<in>set ivs. {c1..c2}) \<or> r = -1"
    using adds_elems [OF assms(1,3)] assms(2) by auto
  show ?thesis
  proof (cases "r = 0")
    case True
    with t inv_spec [of t] show ?thesis by (cases invert) (auto simp: build_class_def)
  next
    case False
    with t show ?thesis by (auto simp: build_class_def)
  qed
qed

end

definition cr_good :: "'o CharRange \<Rightarrow> bool" where
  "cr_good cr \<longleftrightarrow> cr_ok cr \<and> canonical (cr_pts cr)"

lemma cr_good_facts: "cr_good cr \<Longrightarrow> cr_ok cr \<and> sorted (cr_pts cr) \<and> even (cr_len cr)"
  using canonical_sorted [of "cr_pts cr"] cr_pts_length [of cr] by (simp add: cr_good_def)

interpretation char_range: interval_set cr_union_interval cr_invert "\<lambda>cr. pts_set (cr_pts cr)" cr_good
proof
  fix s :: "'a CharRange" and c1 c2 :: u32
  assume s: "cr_good s"
  show "\<exists>r s'. cr_union_interval s c1 c2 = Some (r, s') \<and>
      (r = 0 \<and> cr_good s' \<and> pts_set (cr_pts s') = pts_set (cr_pts s) \<union> {c1..c2} \<or> r = -1)"
    if "c1 \<le> c2" "c2 < 0xffffffff"
    using cr_union_interval_spec [of s c1 c2] cr_good_facts [OF s] that
    by (auto simp: cr_result_def cr_good_def)
  show "\<exists>r s'. cr_invert s = Some (r, s') \<and>
      (r = 0 \<and> cr_good s' \<and> pts_set (cr_pts s') = - pts_set (cr_pts s) - {0xffffffff} \<or> r = -1)"
    using cr_invert_spec [of s] cr_good_facts [OF s] by (auto simp: cr_result_def cr_good_def)
qed

lemma cr_init_good: "realloc_ok ra \<Longrightarrow> cr_good (cr_init opq ra) \<and> cr_pts (cr_init opq ra) = []"
  by (simp add: cr_init_def cr_good_def cr_ok_def canonical_def cr_pts_def)

section \<open>Class escapes\<close>

lemma cr_add_points_spec:
  assumes "cr_ok cr"
  shows "\<exists>r cr'. cr_add_points cr vs = Some (r, cr') \<and> cr_ok cr' \<and>
    (r = 0 \<and> cr_pts cr' = cr_pts cr @ vs \<or> r = -1)"
  using assms
proof (induction cr vs rule: cr_add_points.induct)
  case (2 cr v vs)
  obtain r t where t: "cr_add_point cr v = Some (r, t)" "cr_ok t"
    "r = 0 \<and> cr_pts t = cr_pts cr @ [v] \<or> r = -1"
    using cr_add_point_spec [OF "2.prems", of v] by blast
  show ?case
  proof (cases "r = 0")
    case True
    with "2.IH" [OF t(1) refl _ t(2)] t show ?thesis by auto
  next
    case False
    with t show ?thesis by auto
  qed
qed simp

text \<open>The set a class escape stands for.\<close>

definition class_points :: "nat \<Rightarrow> u32 list" where
  "class_points c = tl (char_range_table ! (c div 2))"

definition class_set :: "nat \<Rightarrow> u32 set" where
  "class_set c = (if odd c then - pts_set (class_points c) - {0xffffffff} else pts_set (class_points c))"

lemmas char_range_defs = char_range_table_def char_range_d_def char_range_s_def char_range_w_def

lemma class_tables:
  assumes "c < 6"
  shows "c div 2 < length char_range_table"
    "canonical (class_points c)"
    "\<exists>n. char_range_table ! (c div 2) = n # class_points c \<and> length (class_points c) = unat n * 2"
proof -
  have c: "c div 2 = 0 \<or> c div 2 = 1 \<or> c div 2 = 2" using assms by auto
  then show "c div 2 < length char_range_table" by (auto simp: char_range_table_def)
  from c show "canonical (class_points c)"
    by (elim disjE) (simp_all add: class_points_def char_range_defs canonical_def)
  from c show "\<exists>n. char_range_table ! (c div 2) = n # class_points c \<and> length (class_points c) = unat n * 2"
    by (elim disjE) (simp_all add: class_points_def char_range_defs)
qed

lemma cr_init_char_range_spec:
  assumes ra: "realloc_ok lre_realloc" and c: "c < 6"
  shows "cr_result (class_set c) (cr_init_char_range opaque lre_realloc c)"
proof -
  let ?pts = "class_points c"
  note tab = class_tables [OF c]
  obtain n where n: "char_range_table ! (c div 2) = n # ?pts" "length ?pts = unat n * 2"
    using tab(3) by blast
  let ?cr = "cr_init opaque lre_realloc"
  have i: "cr_ok ?cr" "cr_pts ?cr = []" using cr_init_good [OF ra, of opaque] by (simp_all add: cr_good_def)
  obtain r t where t: "cr_add_points ?cr ?pts = Some (r, t)" "cr_ok t" "r = 0 \<and> cr_pts t = ?pts \<or> r = -1"
    using cr_add_points_spec [OF i(1), of ?pts] i(2) by auto
  have step: "cr_init_char_range opaque lre_realloc c =
      (if r \<noteq> 0 then Some (-1, t\<lparr>cr_opaque := cr_free t\<rparr>)
       else if odd c then do {
         (ret, cr) \<leftarrow> cr_invert t;
         if ret \<noteq> 0 then Some (-1, cr\<lparr>cr_opaque := cr_free cr\<rparr>) else Some (0, cr) }
       else Some (0, t))"
    using t tab(1) n by (simp add: cr_init_char_range_def rd_block_def)
  have opq: "cr_ok (u\<lparr>cr_opaque := q\<rparr>) = cr_ok u" for u :: "'a CharRange" and q by (simp add: cr_ok_def)
  show ?thesis
  proof (cases "r = 0")
    case False
    with t show ?thesis by (simp add: step cr_result_def opq)
  next
    case True
    with t have p: "cr_pts t = ?pts" by auto
    have s: "sorted (cr_pts t)" "even (cr_len t)"
      using canonical_sorted [OF tab(2)] p cr_pts_length [OF t(2)] by auto
    show ?thesis
    proof (cases "odd c")
      case True
      with cr_invert_spec [OF t(2) s] p show ?thesis
        by (auto simp: step cr_result_def class_set_def opq \<open>r = 0\<close>)
    next
      case False
      with t p tab(2) \<open>r = 0\<close> show ?thesis by (simp add: step cr_result_def class_set_def)
    qed
  qed
qed

text \<open>The scan over the table of spaces decides membership in the same set.\<close>

fun scan_points :: "int \<Rightarrow> u32 list \<Rightarrow> bool" where
  "scan_points c (l # h # pts) = (if c < uint l then False else if c < uint h then True else scan_points c pts)"
| "scan_points c _ = False"

lemma scan_points_in: "sorted pts \<Longrightarrow> even (length pts) \<Longrightarrow> scan_points (uint c) pts = in_pts c pts"
proof (induction "uint c" pts rule: scan_points.induct)
  case (1 l h pts)
  have "\<not> in_pts c pts" if "c < h"
    using that 1(2) by (intro in_pts_below) (auto intro: less_le_trans)
  with 1 show ?case by (auto simp: word_less_def word_le_def)
qed auto

lemma lre_is_space_loop_scan:
  assumes "2 * (i + n) + 1 = length char_range_s"
  shows "lre_is_space_loop c i n = scan_points c (drop (2 * i + 1) char_range_s)"
  using assms
proof (induction n arbitrary: i)
  case (Suc n)
  have "drop (2 * i + 1) char_range_s =
      char_range_s ! (2 * i + 1) # char_range_s ! (2 * i + 2) # drop (2 * (i + 1) + 1) char_range_s"
    using Cons_nth_drop_Suc [of "2 * i + 1" char_range_s] Cons_nth_drop_Suc [of "2 * i + 2" char_range_s]
      Suc.prems by simp
  with Suc.IH [of "i + 1"] Suc.prems show ?case by (simp add: Let_def)
qed simp

lemma lre_is_space_spec: "lre_is_space (uint c) \<longleftrightarrow> c \<in> class_set 2"
proof -
  have len: "length char_range_s = 21" by (simp add: char_range_s_def)
  have "class_points 2 = drop 1 char_range_s"
    by (simp add: class_points_def char_range_table_def drop_Suc)
  then have "lre_is_space i = scan_points i (class_points 2)" for i
    using lre_is_space_loop_scan [of 0 10 i] by (simp add: lre_is_space_def len)
  moreover have "sorted (class_points 2)" "even (length (class_points 2))"
    using canonical_sorted [OF class_tables(2) [of 2]] by auto
  ultimately show ?thesis by (simp add: scan_points_in class_set_def pts_set_def)
qed

section \<open>Case folding of a class\<close>

text \<open>A point of a strictly sorted list is where membership changes.\<close>

lemma point_boundary:
  assumes "sorted_wrt (<) pts" "p \<in> set pts"
  shows "in_pts p pts \<or> p \<noteq> 0 \<and> in_pts (p - 1) pts"
proof -
  obtain xs ys where pts: "pts = xs @ p # ys" using assms(2) by (meson split_list)
  have xs: "x < p" if "x \<in> set xs" for x using assms(1) that by (simp add: pts sorted_wrt_append)
  have ys: "\<not> in_pts c ys" if "c \<le> p" for c
    using assms(1) that by (intro in_pts_below) (auto simp: pts sorted_wrt_append)
  have all: "in_pts c xs = odd (length xs)" if "\<And>x. x \<in> set xs \<Longrightarrow> x \<le> c" for c
    using that by (simp add: in_pts_def)
  show ?thesis
  proof (cases "even (length xs)")
    case True
    then show ?thesis using all [of p] xs ys [of p] by (simp add: pts in_pts_append less_imp_le)
  next
    case False
    then obtain x where "x \<in> set xs" by (cases xs) auto
    with xs have nz: "p \<noteq> 0" by fastforce
    have lt: "p - 1 < p" using word_le_pred [OF nz, of p] by simp
    have "x \<le> p - 1" if "x \<in> set xs" for x
      using word_le_pred [OF nz, of x] xs [OF that] by auto
    moreover have "\<not> p \<le> p - 1" using lt by simp
    ultimately have "in_pts (p - 1) pts"
      using False all [of "p - 1"] ys [OF less_imp_le [OF lt]] by (simp add: pts in_pts_append)
    with nz show ?thesis by simp
  qed
qed

lemma points_within:
  assumes "canonical pts" "pts_set pts \<subseteq> {l..<h}" "p \<in> set pts"
  shows "l \<le> p \<and> p \<le> h"
proof -
  from point_boundary [of pts p] assms(1,3)
  consider "in_pts p pts" | "p \<noteq> 0" "in_pts (p - 1) pts" by (auto simp: canonical_def)
  then show ?thesis
  proof cases
    case 1
    then have "p \<in> {l..<h}" using assms(2) by (auto simp: pts_set_def)
    then show ?thesis by auto
  next
    case 2
    then have "p - 1 \<in> {l..<h}" using assms(2) by (auto simp: pts_set_def)
    then have "unat l \<le> unat p - 1" "unat p - 1 < unat h"
      using 2(1) by (auto simp: word_le_nat_alt word_less_nat_alt unat_minus_one)
    then show ?thesis by (auto simp: word_le_nat_alt)
  qed
qed

lemma upper_points:
  assumes "canonical pts" "pts_set pts \<subseteq> {0x61..<0x7b}"
  defines "up \<equiv> map (\<lambda>p. p + (0x41 - 0x61)) pts"
  shows "sorted up" "even (length up)" "pts_set up = {c. c + 0x20 \<in> pts_set pts}"
proof -
  have bound: "0x61 \<le> unat p \<and> unat p \<le> 0x7b" if "p \<in> set pts" for p
    using points_within [OF assms(1,2) that] by (simp add: word_le_nat_alt)
  have conv: "p + (0x41 - 0x61) = p - 0x20" for p :: u32 by simp
  have sub: "unat (p - 0x20) = unat p - 0x20" if "p \<in> set pts" for p
    using bound [OF that] by (simp add: unat_sub word_le_nat_alt)
  show "even (length up)" using assms(1) by (simp add: up_def canonical_def)
  have "sorted pts" using canonical_sorted [OF assms(1)] by simp
  then show "sorted up" unfolding up_def sorted_map conv
    by (rule sorted_wrt_mono_rel [rotated]) (simp add: word_le_nat_alt sub diff_le_mono)
  have "in_pts c up = in_pts (c + 0x20) pts" for c
  proof (cases "unat c + 0x20 < 2 ^ 32")
    case True
    then have "unat (c + 0x20) = unat c + 0x20" by (simp add: unat_word_ariths)
    then have "p - 0x20 \<le> c \<longleftrightarrow> p \<le> c + 0x20" if "p \<in> set pts" for p
      using bound [OF that] sub [OF that] by (simp add: word_le_nat_alt) linarith
    then show ?thesis unfolding up_def conv
      by (simp add: in_pts_def filter_map comp_def cong: filter_cong)
  next
    case False
    then have u: "unat (c + 0x20) < 0x20"
      using unsigned_less [of c, where ?'a = nat] by (auto simp: unat_word_ariths mod_if)
    have "in_pts c up = odd (length up)"
    proof -
      have "p - 0x20 \<le> c" if "p \<in> set pts" for p
        using bound [OF that] sub [OF that] False by (auto simp: word_le_nat_alt)
      then show ?thesis unfolding up_def conv by (simp add: in_pts_def filter_map comp_def)
    qed
    moreover have "\<not> in_pts (c + 0x20) pts"
      using bound u by (intro in_pts_below) (fastforce simp: word_less_nat_alt)
    ultimately show ?thesis using \<open>even (length up)\<close> by simp
  qed
  then show "pts_set up = {c. c + 0x20 \<in> pts_set pts}" by (simp add: pts_set_def)
qed

definition lower_letters :: "u32 set" where
  "lower_letters = {0x61..0x7a}"

lemma cr_canonicalize_spec:
  assumes good: "cr_good cr" and ra: "realloc_ok lre_realloc"
  shows "cr_result (pts_set (cr_pts cr) \<union> {c. c + 0x20 \<in> pts_set (cr_pts cr) \<inter> lower_letters})
    (cr_canonicalize lre_realloc cr)"
proof -
  note f = cr_good_facts [OF good]
  let ?i = "cr_init (cr_opaque cr) lre_realloc" and ?pt = "[0x61, 0x7a + 1] :: u32 list"
  have low: "pts_set ?pt = lower_letters" "sorted ?pt"
    using pts_set_interval [of "0x61" "0x7a"] by (simp_all add: lower_letters_def)
  have "cr_result (op_set CR_OP_INTER (pts_set (take (cr_len cr) (cr_points cr))) (pts_set (take 2 ?pt)))
      (cr_op ?i (cr_points cr) (cr_len cr) ?pt 2 CR_OP_INTER)"
    using f low(2) cr_init_good [OF ra]
    by (intro cr_op_spec) (simp_all add: cr_ok_def cr_pts_def cr_good_def cr_init_def)
  then obtain r a where a: "cr_op ?i (cr_points cr) (cr_len cr) ?pt 2 CR_OP_INTER = Some (r, a)" "cr_ok a"
    "r = 0 \<and> canonical (cr_pts a) \<and> pts_set (cr_pts a) = pts_set (cr_pts cr) \<inter> lower_letters \<or> r = -1"
    using low(1) by (auto simp: cr_result_def cr_pts_def)
  have opq: "cr_ok (cr\<lparr>cr_opaque := q\<rparr>)" "cr_pts (cr\<lparr>cr_opaque := q\<rparr>) = cr_pts cr" for q
    using f by (simp_all add: cr_ok_def cr_pts_def)
  show ?thesis
  proof (cases "r = 0")
    case False
    with a opq show ?thesis by (simp add: cr_canonicalize_def cr_result_def)
  next
    case True
    let ?up = "map (\<lambda>p. p + (0x41 - 0x61)) (cr_pts a)"
    let ?b = "map (\<lambda>p. p + (0x41 - 0x61)) (take (cr_len a) (cr_points a)) @ drop (cr_len a) (cr_points a)"
    have b: "take (cr_len a) ?b = ?up" "cr_len a \<le> length ?b"
      using a(2) by (simp_all add: cr_pts_def cr_ok_def)
    have can: "canonical (cr_pts a)" "pts_set (cr_pts a) = pts_set (cr_pts cr) \<inter> lower_letters"
      using a(3) True by auto
    have "pts_set (cr_pts a) \<subseteq> {0x61..<0x7b}"
      unfolding can(2) lower_letters_def by (auto simp: word_le_nat_alt word_less_nat_alt)
    note up = upper_points [OF can(1) this]
    let ?c = "cr\<lparr>cr_opaque := cr_opaque a\<rparr>"
    have "cr_result (pts_set (cr_pts ?c) \<union> pts_set (take (cr_len a) ?b)) (cr_union1 ?c ?b (cr_len a))"
      using opq f b up by (intro cr_union1_spec) (simp_all add: cr_pts_length [OF a(2)])
    then have "cr_result (pts_set (cr_pts cr) \<union> {c. c + 0x20 \<in> pts_set (cr_pts cr) \<inter> lower_letters})
        (cr_union1 ?c ?b (cr_len a))"
      unfolding b up(3) can(2) opq .
    from cr_result_opaque [OF this] a(1) True show ?thesis
      by (simp add: cr_canonicalize_def Let_def)
  qed
qed

section \<open>Properties\<close>

text \<open>C14: Union, intersection and symmetric difference of two sorted ranges compute exactly the
  set operation, in canonical form (strictly increasing points, an even number of them), or
  report that memory ran out; the merge never reads or writes outside its buffers.\<close>

theorem cr_op_correct:
  assumes "cr_ok cr" "cr_len cr = 0" "a_len \<le> length a_pt" "b_len \<le> length b_pt"
    and "sorted (take a_len a_pt)" "sorted (take b_len b_pt)" "even a_len" "even b_len"
  shows "\<exists>r cr'. cr_op cr a_pt a_len b_pt b_len opr = Some (r, cr') \<and> cr_ok cr' \<and>
    (r = 0 \<and> canonical (cr_pts cr') \<and>
       pts_set (cr_pts cr') = op_set opr (pts_set (take a_len a_pt)) (pts_set (take b_len b_pt)) \<or>
     r = -1)"
  using cr_op_spec [OF assms] by (simp add: cr_result_def)

definition sample_realloc :: "nat pt_realloc" where
  "sample_realloc avail ptr n =
     (if n - length ptr \<le> avail
      then (avail + length ptr - n, Some (take n ptr @ replicate (n - length ptr) 7)) else (avail, None))"

lemma sample_realloc_ok: "realloc_ok sample_realloc"
  by (auto simp: realloc_ok_def sample_realloc_def min_def split: if_splits)

definition sample_cr :: "nat CharRange" where
  "sample_cr = cr_init 100 sample_realloc"

lemma sample_cr_good: "cr_good sample_cr" "cr_pts sample_cr = []"
  using cr_init_good [OF sample_realloc_ok] by (simp_all add: sample_cr_def)

theorem cr_op_correct_witness:
  "\<exists>r cr'. cr_op sample_cr [2, 5] 2 [4, 8] 2 CR_OP_XOR = Some (r, cr') \<and> cr_ok cr' \<and>
    (r = 0 \<and> canonical (cr_pts cr') \<and>
       pts_set (cr_pts cr') = op_set CR_OP_XOR (pts_set (take 2 [2, 5])) (pts_set (take 2 [4, 8])) \<or>
     r = -1)"
  by (rule cr_op_correct) (use sample_cr_good in \<open>simp_all add: cr_good_def sample_cr_def cr_init_def\<close>)



text \<open>C34: Inverting a range gives the complement of its set below \<open>0xffffffff\<close>, in canonical form,
  or reports that memory ran out.\<close>

theorem cr_invert_complement:
  assumes "cr_good cr"
  shows "\<exists>r cr'. cr_invert cr = Some (r, cr') \<and>
    (r = 0 \<and> cr_good cr' \<and> pts_set (cr_pts cr') = - pts_set (cr_pts cr) - {0xffffffff} \<or> r = -1)"
  by (rule char_range.inv_spec [OF assms])

theorem cr_invert_complement_witness:
  "\<exists>r cr'. cr_invert sample_cr = Some (r, cr') \<and>
    (r = 0 \<and> cr_good cr' \<and> pts_set (cr_pts cr') = - pts_set (cr_pts sample_cr) - {0xffffffff} \<or> r = -1)"
  by (rule cr_invert_complement [OF sample_cr_good(1)])

text \<open>C36: A character class built by adding intervals and possibly inverting denotes the union of
  the intervals or its complement.\<close>

theorem build_class_set:
  assumes "cr_good cr" "cr_pts cr = []" "\<forall>(c1, c2)\<in>set ivs. c1 \<le> c2 \<and> c2 < 0xffffffff"
  shows "\<exists>r cr'. char_range.build_class cr ivs invert = Some (r, cr') \<and>
    (r = 0 \<and> cr_good cr' \<and> pts_set (cr_pts cr') = (let U = \<Union>(c1, c2)\<in>set ivs. {c1..c2} in
       if invert then - U - {0xffffffff} else U) \<or> r = -1)"
  using assms by (intro char_range.class_elems) (simp_all add: pts_set_def)

theorem build_class_set_witness:
  "\<exists>r cr'. char_range.build_class sample_cr [(0x61, 0x66), (0x30, 0x39)] True = Some (r, cr') \<and>
    (r = 0 \<and> cr_good cr' \<and>
       pts_set (cr_pts cr') = (let U = \<Union>(c1, c2)\<in>set [(0x61, 0x66), (0x30, 0x39)]. {c1..c2} in
         if True then - U - {0xffffffff} else U) \<or> r = -1)"
  by (rule build_class_set) (simp_all add: sample_cr_good)

text \<open>C37: A class escape of a regular expression (\<open>\d\<close>, \<open>\s\<close>, \<open>\w\<close> and their negations) gives
  the range of its table or its complement, and the scan of \<open>lre_is_space\<close> decides the
  set of \<open>\s\<close>.\<close>

theorem class_escape_set:
  assumes "realloc_ok lre_realloc" "c < 6"
  shows "\<exists>r cr. cr_init_char_range opaque lre_realloc c = Some (r, cr) \<and> cr_ok cr \<and>
    (r = 0 \<and> canonical (cr_pts cr) \<and> pts_set (cr_pts cr) = class_set c \<or> r = -1) \<and>
    (lre_is_space (uint u) \<longleftrightarrow> u \<in> class_set 2)"
  using cr_init_char_range_spec [OF assms, of opaque] lre_is_space_spec by (auto simp: cr_result_def)

theorem class_escape_set_witness:
  "\<exists>r cr. cr_init_char_range 100 sample_realloc 3 = Some (r, cr) \<and> cr_ok cr \<and>
    (r = 0 \<and> canonical (cr_pts cr) \<and> pts_set (cr_pts cr) = class_set 3 \<or> r = -1) \<and>
    (lre_is_space (uint (0x2003 :: u32)) \<longleftrightarrow> 0x2003 \<in> class_set 2)"
  by (rule class_escape_set [OF sample_realloc_ok]) simp

text \<open>C38: Canonicalizing a class for case-insensitive matching adds the upper-case letters of the
  lower-case ones it has, and nothing else.\<close>

theorem cr_canonicalize_adds_upper:
  assumes "cr_good cr" "realloc_ok lre_realloc"
  shows "\<exists>r cr'. cr_canonicalize lre_realloc cr = Some (r, cr') \<and> cr_ok cr' \<and>
    (r = 0 \<and> canonical (cr_pts cr') \<and>
       pts_set (cr_pts cr') = pts_set (cr_pts cr) \<union> {c. c + 0x20 \<in> pts_set (cr_pts cr) \<inter> {0x61..0x7a}} \<or>
     r = -1)"
  using cr_canonicalize_spec [OF assms] by (simp add: cr_result_def lower_letters_def)

theorem cr_canonicalize_adds_upper_witness:
  "\<exists>r cr'. cr_canonicalize sample_realloc sample_cr = Some (r, cr') \<and> cr_ok cr' \<and>
    (r = 0 \<and> canonical (cr_pts cr') \<and>
       pts_set (cr_pts cr') =
         pts_set (cr_pts sample_cr) \<union> {c. c + 0x20 \<in> pts_set (cr_pts sample_cr) \<inter> {0x61..0x7a}} \<or>
     r = -1)"
  by (rule cr_canonicalize_adds_upper [OF sample_cr_good(1) sample_realloc_ok])

end
