(* ===== verification/Cutils_Utf8.thy ===== *)
theory Cutils_Utf8
  imports Qjs_Prelude
begin

text \<open>
  The UTF-8 encoder and decoder of \<open>cutils.c\<close> in their extended form (up to six bytes,
  31 bits).  The theorems: decoding undoes encoding, the decoder accepts the shortest
  encoding of a value only, and it never reads past the length it is given.
\<close>

section \<open>Encoder\<close>

text \<open>The bytes stored from \<open>buf\<close> on; the empty list is the return value 0 of the error
  branch.\<close>

definition unicode_to_utf8 :: "u32 \<Rightarrow> bytes" where
  "unicode_to_utf8 c =
     (if c < 0x80 then [ucast c]
      else if c < 0x800 then
        [ucast (drop_bit 6 c OR 0xc0), ucast ((c AND 0x3f) OR 0x80)]
      else if c < 0x10000 then
        [ucast (drop_bit 12 c OR 0xe0), ucast ((drop_bit 6 c AND 0x3f) OR 0x80),
         ucast ((c AND 0x3f) OR 0x80)]
      else if c < 0x00200000 then
        [ucast (drop_bit 18 c OR 0xf0), ucast ((drop_bit 12 c AND 0x3f) OR 0x80),
         ucast ((drop_bit 6 c AND 0x3f) OR 0x80), ucast ((c AND 0x3f) OR 0x80)]
      else if c < 0x04000000 then
        [ucast (drop_bit 24 c OR 0xf8), ucast ((drop_bit 18 c AND 0x3f) OR 0x80),
         ucast ((drop_bit 12 c AND 0x3f) OR 0x80), ucast ((drop_bit 6 c AND 0x3f) OR 0x80),
         ucast ((c AND 0x3f) OR 0x80)]
      else if c < 0x80000000 then
        [ucast (drop_bit 30 c OR 0xfc), ucast ((drop_bit 24 c AND 0x3f) OR 0x80),
         ucast ((drop_bit 18 c AND 0x3f) OR 0x80), ucast ((drop_bit 12 c AND 0x3f) OR 0x80),
         ucast ((drop_bit 6 c AND 0x3f) OR 0x80), ucast ((c AND 0x3f) OR 0x80)]
      else [])"

section \<open>Decoder\<close>

definition utf8_min_code :: "u32 list" where
  "utf8_min_code = [0x80, 0x800, 0x10000, 0x00200000, 0x04000000]"

definition utf8_first_code_mask :: "u32 list" where
  "utf8_first_code_mask = [0x1f, 0xf, 0x7, 0x3, 0x1]"

text \<open>The \<open>switch\<close> on the first byte.\<close>

definition utf8_tail_len :: "u8 \<Rightarrow> nat option" where
  "utf8_tail_len c =
     (if 0xc0 \<le> c \<and> c \<le> 0xdf then Some 1
      else if 0xe0 \<le> c \<and> c \<le> 0xef then Some 2
      else if 0xf0 \<le> c \<and> c \<le> 0xf7 then Some 3
      else if 0xf8 \<le> c \<and> c \<le> 0xfb then Some 4
      else if 0xfc \<le> c \<and> c \<le> 0xfd then Some 5
      else None)"

text \<open>The loop over \<open>n\<close> continuation bytes: \<open>Some None\<close> is the error return.\<close>

fun utf8_tail :: "bytes \<Rightarrow> nat \<Rightarrow> nat \<Rightarrow> u32 \<Rightarrow> (u32 \<times> nat) option option" where
  "utf8_tail m p 0 c = Some (Some (c, p))"
| "utf8_tail m p (Suc n) c = do {
     b \<leftarrow> rd m p;
     if b < 0x80 \<or> b \<ge> 0xc0 then Some None
     else utf8_tail m (p + 1) n (push_bit 6 c OR (ucast b AND 0x3f)) }"

text \<open>\<open>Some None\<close> is the return value -1, \<open>Some (Some (c, pp))\<close> the code point and the
  updated pointer.\<close>

definition unicode_from_utf8 :: "bytes \<Rightarrow> nat \<Rightarrow> nat \<Rightarrow> (u32 \<times> nat) option option" where
  "unicode_from_utf8 m p max_len = do {
     c \<leftarrow> rd m p;
     if c < 0x80 then Some (Some (ucast c, p + 1))
     else case utf8_tail_len c of
         None \<Rightarrow> Some None
       | Some l \<Rightarrow>
           if int l > int max_len - 1 then Some None
           else do {
             r \<leftarrow> utf8_tail m (p + 1) l (ucast c AND utf8_first_code_mask ! (l - 1));
             case r of
               None \<Rightarrow> Some None
             | Some (c, p') \<Rightarrow>
                 if c < utf8_min_code ! (l - 1) then Some None else Some (Some (c, p')) } }"

section \<open>Bytes\<close>

lemma u8_exhaust: "(\<forall>b::u8. P b) \<longleftrightarrow> (\<forall>n\<in>set [0..<256]. P (word_of_nat n))"
proof
  assume "\<forall>n\<in>set [0..<256]. P (word_of_nat n)"
  moreover have "unat b \<in> set [0..<256]" for b :: u8
    using unsigned_less [of b, where ?'a = nat] by simp
  ultimately have "P (word_of_nat (unat b))" for b :: u8 by blast
  then show "\<forall>b. P b" by simp
qed simp

text \<open>Marker of the first byte of a sequence with \<open>l\<close> continuation bytes.\<close>

definition utf8_mark :: "nat \<Rightarrow> u32" where
  "utf8_mark l = [0, 0xc0, 0xe0, 0xf0, 0xf8, 0xfc] ! l"

definition lead_ok :: "u8 \<Rightarrow> bool" where
  "lead_ok b \<longleftrightarrow>
     (case utf8_tail_len b of
        None \<Rightarrow> True
      | Some l \<Rightarrow>
          (let v = ucast b AND utf8_first_code_mask ! (l - 1)
           in l \<in> {1..5} \<and> \<not> b < 0x80 \<and> v < 2 ^ (6 - l) \<and> ucast (v OR utf8_mark l) = b))"

lemma lead_ok_all: "lead_ok b"
proof -
  have "list_all (\<lambda>n. lead_ok (word_of_nat n)) [0..<256]" by code_simp
  then show ?thesis using u8_exhaust [of lead_ok] by (simp add: list_all_iff del: set_upt)
qed

lemma lead_byte:
  assumes "1 \<le> l" "l \<le> 5" "v < 2 ^ (6 - l)"
  shows "\<not> (ucast (v OR utf8_mark l) :: u8) < 0x80"
    "utf8_tail_len (ucast (v OR utf8_mark l)) = Some l"
    "ucast (ucast (v OR utf8_mark l) :: u8) AND utf8_first_code_mask ! (l - 1) = v"
proof -
  have "list_all (\<lambda>l. list_all (\<lambda>n. let v = word_of_nat n :: u32; b = ucast (v OR utf8_mark l) :: u8 in
      \<not> b < 0x80 \<and> utf8_tail_len b = Some l \<and> ucast b AND utf8_first_code_mask ! (l - 1) = v)
      [0..<2 ^ (6 - l)]) [1,2,3,4,5]"
    by code_simp
  moreover have "l \<in> set [1,2,3,4,5]" using assms(1,2) by auto
  moreover have "unat v \<in> set [0..<2 ^ (6 - l)]"
  proof -
    have "l = 1 \<or> l = 2 \<or> l = 3 \<or> l = 4 \<or> l = 5" using assms(1,2) by auto
    then have "unat (2 ^ (6 - l) :: u32) = 2 ^ (6 - l)" by auto
    then show ?thesis using assms(3) by (simp add: word_less_nat_alt)
  qed
  ultimately have "let v' = word_of_nat (unat v) :: u32; b = ucast (v' OR utf8_mark l) :: u8 in
      \<not> b < 0x80 \<and> utf8_tail_len b = Some l \<and> ucast b AND utf8_first_code_mask ! (l - 1) = v'"
    unfolding list_all_iff by blast
  then show "\<not> (ucast (v OR utf8_mark l) :: u8) < 0x80"
    "utf8_tail_len (ucast (v OR utf8_mark l)) = Some l"
    "ucast (ucast (v OR utf8_mark l) :: u8) AND utf8_first_code_mask ! (l - 1) = v"
    by (simp_all add: Let_def)
qed

lemma tail_byte:
  assumes "\<not> (b < 0x80 \<or> b \<ge> 0xc0)"
  shows "ucast ((ucast b AND 0x3f :: u32) OR 0x80) = (b :: u8)"
proof -
  have "list_all (\<lambda>n. let b = word_of_nat n :: u8 in
      b < 0x80 \<or> b \<ge> 0xc0 \<or> ucast ((ucast b AND 0x3f :: u32) OR 0x80) = b) [0..<256]"
    by code_simp
  then have "\<forall>b :: u8. b < 0x80 \<or> b \<ge> 0xc0 \<or> ucast ((ucast b AND 0x3f :: u32) OR 0x80) = b"
    unfolding u8_exhaust by (simp add: list_all_iff Let_def del: set_upt)
  with assms show ?thesis by blast
qed

lemma tail_group:
  fixes v :: u32
  defines "b \<equiv> ucast ((v AND 0x3f) OR 0x80) :: u8"
  shows "\<not> (b < 0x80 \<or> b \<ge> 0xc0)" "ucast b AND 0x3f = v AND 0x3f"
proof -
  have m: "(0x3f :: u32) = mask 6" by (simp add: mask_eq_exp_minus_1)
  have "unat (v AND 0x3f) < 64" unfolding m unat_and_mask by simp
  then have "unat (v AND 0x3f) \<in> set [0..<64]" by simp
  moreover have "list_all (\<lambda>n. let w = word_of_nat n :: u32; b = ucast (w OR 0x80) :: u8 in
      \<not> (b < 0x80 \<or> b \<ge> 0xc0) \<and> ucast b AND 0x3f = w) [0..<64]"
    by code_simp
  ultimately have "let w = word_of_nat (unat (v AND 0x3f)) :: u32; b = ucast (w OR 0x80) :: u8 in
      \<not> (b < 0x80 \<or> b \<ge> 0xc0) \<and> ucast b AND 0x3f = w"
    unfolding list_all_iff by blast
  then show "\<not> (b < 0x80 \<or> b \<ge> 0xc0)" "ucast b AND 0x3f = v AND 0x3f"
    unfolding b_def by (simp_all add: Let_def)
qed

section \<open>Decoding what was encoded\<close>

fun utf8_cont :: "nat \<Rightarrow> u32 \<Rightarrow> bytes" where
  "utf8_cont 0 c = []"
| "utf8_cont (Suc n) c = ucast ((drop_bit (6 * n) c AND 0x3f) OR 0x80) # utf8_cont n c"

lemma length_utf8_cont [simp]: "length (utf8_cont n c) = n"
  by (induction n) auto

lemma utf8_group:
  fixes c :: u32
  shows "push_bit 6 (drop_bit (6 * Suc n) c) OR (drop_bit (6 * n) c AND 0x3f) = drop_bit (6 * n) c"
proof -
  have m: "(0x3f :: u32) = mask 6" by (simp add: mask_eq_exp_minus_1)
  show ?thesis unfolding m
  proof (rule word_eq_bitI)
    fix k assume k: "k < LENGTH(32)"
    show "bit (push_bit 6 (drop_bit (6 * Suc n) c) OR (drop_bit (6 * n) c AND mask 6)) k =
        bit (drop_bit (6 * n) c) k"
    proof (cases "k < 6")
      case True
      then show ?thesis by (simp add: bit_simps)
    next
      case False
      then have "6 * Suc n + (k - 6) = 6 * n + k" by simp
      then show ?thesis using False k by (simp add: bit_simps del: mult_Suc_right)
    qed
  qed
qed

lemma utf8_tail_cont:
  "utf8_tail (pre @ utf8_cont n c @ post) (length pre) n (drop_bit (6 * n) c) =
     Some (Some (c, length pre + n))"
proof (induction n arbitrary: pre)
  case (Suc n)
  let ?b = "ucast ((drop_bit (6 * n) c AND 0x3f) OR 0x80) :: u8"
  have "rd (pre @ utf8_cont (Suc n) c @ post) (length pre) = Some ?b"
    by (simp add: rd_def nth_append)
  then have "utf8_tail (pre @ utf8_cont (Suc n) c @ post) (length pre) (Suc n) (drop_bit (6 * Suc n) c) =
      utf8_tail (pre @ utf8_cont (Suc n) c @ post) (Suc (length pre)) n
        (push_bit 6 (drop_bit (6 * Suc n) c) OR (drop_bit (6 * n) c AND 0x3f))"
    using tail_group [of "drop_bit (6 * n) c"] by (simp only: utf8_tail.simps) simp
  also have "\<dots> = utf8_tail ((pre @ [?b]) @ utf8_cont n c @ post) (length (pre @ [?b])) n (drop_bit (6 * n) c)"
    unfolding utf8_group by simp
  finally show ?case using Suc [of "pre @ [?b]"] by simp
qed simp

text \<open>The number of continuation bytes of a code point.\<close>

definition utf8_extra :: "u32 \<Rightarrow> nat" where
  "utf8_extra c =
     (if c < 0x80 then 0 else if c < 0x800 then 1 else if c < 0x10000 then 2
      else if c < 0x00200000 then 3 else if c < 0x04000000 then 4 else 5)"

lemma unicode_to_utf8_alt:
  assumes "c < 0x80000000" "\<not> c < 0x80"
  shows "unicode_to_utf8 c =
    ucast (drop_bit (6 * utf8_extra c) c OR utf8_mark (utf8_extra c)) # utf8_cont (utf8_extra c) c"
  using assms by (simp add: unicode_to_utf8_def utf8_extra_def utf8_mark_def eval_nat_numeral)

text \<open>The values that have \<open>l\<close> continuation bytes.\<close>

lemma utf8_extra_iff:
  assumes "1 \<le> l" "l \<le> 5"
  shows "c < 0x80000000 \<and> \<not> c < 0x80 \<and> utf8_extra c = l \<longleftrightarrow>
    \<not> c < utf8_min_code ! (l - 1) \<and> drop_bit (6 * l) c < 2 ^ (6 - l)"
proof -
  have "l = 1 \<or> l = 2 \<or> l = 3 \<or> l = 4 \<or> l = 5" using assms by auto
  then show ?thesis
    unfolding utf8_extra_def utf8_min_code_def word_less_nat_alt unat_drop_bit
    by (elim disjE) (simp_all add: div_less_iff_less_mult)
qed

lemma unicode_from_utf8_encoded:
  assumes c: "c < 0x80000000" and len: "length (unicode_to_utf8 c) \<le> max_len"
  shows "unicode_from_utf8 (pre @ unicode_to_utf8 c @ post) (length pre) max_len =
    Some (Some (c, length pre + length (unicode_to_utf8 c)))"
proof (cases "c < 0x80")
  case True
  have u: "unat c < 2 ^ 7" using True by (simp add: word_less_nat_alt)
  then have u8: "unat (ucast c :: u8) = unat c" by (intro unat_ucast_small) simp
  have "ucast (ucast c :: u8) = c"
    using u u8 by (simp add: word_unat_eq_iff unat_ucast_small)
  moreover have "(ucast c :: u8) < 0x80" using u u8 by (simp add: word_less_nat_alt)
  ultimately show ?thesis
    using True by (simp add: unicode_to_utf8_def unicode_from_utf8_def nth_append)
next
  case False
  define l where "l = utf8_extra c"
  let ?v = "drop_bit (6 * l) c" and ?b = "ucast (drop_bit (6 * l) c OR utf8_mark l) :: u8"
  have l: "1 \<le> l" "l \<le> 5" using False by (auto simp: l_def utf8_extra_def)
  have r: "\<not> c < utf8_min_code ! (l - 1)" "?v < 2 ^ (6 - l)"
    using utf8_extra_iff [OF l, of c] False c l_def by auto
  note lead = lead_byte [OF l r(2)]
  have enc: "unicode_to_utf8 c = ?b # utf8_cont l c"
    unfolding l_def by (rule unicode_to_utf8_alt [OF c False])
  have "utf8_tail ((pre @ [?b]) @ utf8_cont l c @ post) (length (pre @ [?b])) l ?v =
      Some (Some (c, length (pre @ [?b]) + l))"
    by (rule utf8_tail_cont)
  with lead r(1) len l show ?thesis
    unfolding enc by (simp add: unicode_from_utf8_def nth_append)
qed

section \<open>Only shortest encodings are accepted\<close>

lemma utf8_tail_inv:
  assumes "utf8_tail m p n a = Some (Some (c, p'))" "unat a < 2 ^ (32 - 6 * n)" "n \<le> 5"
  shows "p' = p + n \<and> p' \<le> max p (length m) \<and> drop_bit (6 * n) c = a \<and> take n (drop p m) = utf8_cont n c"
  using assms
proof (induction n arbitrary: p a)
  case (Suc n)
  have m6: "(0x3f :: u32) = mask 6" by (simp add: mask_eq_exp_minus_1)
  from Suc.prems(1) have p: "p < length m" and b: "\<not> (m ! p < 0x80 \<or> m ! p \<ge> 0xc0)"
    and rest: "utf8_tail m (p + 1) n (push_bit 6 a OR (ucast (m ! p) AND 0x3f)) = Some (Some (c, p'))"
    by (auto simp: rd_def split: if_splits)
  let ?a = "push_bit 6 a OR (ucast (m ! p) AND 0x3f)"
  note ab = bit_less_bound [OF Suc.prems(2)]
  have low: "drop_bit 6 ?a = a"
  proof (rule word_eq_bitI)
    fix k assume k: "k < LENGTH(32)"
    show "bit (drop_bit 6 ?a) k = bit a k"
    proof (cases "k + 6 < 32")
      case True
      then show ?thesis unfolding m6 by (simp add: bit_simps)
    next
      case False
      then have "\<not> bit a k" using ab [of k] Suc.prems(3) by auto
      with False show ?thesis unfolding m6 by (auto simp: bit_simps)
    qed
  qed
  have grp: "?a AND 0x3f = ucast (m ! p) AND 0x3f"
    unfolding m6 by (rule word_eq_bitI) (auto simp: bit_simps)
  have "unat ?a < 2 ^ (32 - 6 * n)"
  proof -
    have "unat ?a div 2 ^ 6 = unat a" using low by (metis unat_drop_bit)
    then have "unat ?a div 2 ^ 6 < 2 ^ (32 - 6 * Suc n)" using Suc.prems(2) by simp
    then have "unat ?a < 2 ^ (32 - 6 * Suc n) * 2 ^ 6" by (simp only: div_less_iff_less_mult zero_less_power zero_less_numeral)
    also have "\<dots> = 2 ^ (32 - 6 * n)"
      using Suc.prems(3) by (simp only: power_add [symmetric]) (rule arg_cong [of _ _ "power 2"], simp)
    finally show ?thesis .
  qed
  from Suc.IH [OF rest this] Suc.prems(3)
  have ih: "p' = p + 1 + n" "p' \<le> max (p + 1) (length m)" "drop_bit (6 * n) c = ?a"
    "take n (drop (p + 1) m) = utf8_cont n c" by auto
  have "drop_bit (6 * Suc n) c = drop_bit 6 (drop_bit (6 * n) c)" by simp
  then have d: "drop_bit (6 * Suc n) c = a" using ih(3) low by simp
  have "take (Suc n) (drop p m) = m ! p # utf8_cont n c"
    using p ih(4) by (simp add: Cons_nth_drop_Suc [symmetric])
  moreover have "ucast ((drop_bit (6 * n) c AND 0x3f) OR 0x80) = m ! p"
    unfolding ih(3) grp using b by (rule tail_byte)
  ultimately show ?case using ih(1,2) d p by simp
qed simp

lemma unicode_from_utf8_shortest:
  assumes "unicode_from_utf8 m p max_len = Some (Some (c, p'))"
  shows "c < 0x80000000 \<and> p < p' \<and> p' \<le> p + max 1 max_len \<and> p' \<le> length m \<and>
    take (p' - p) (drop p m) = unicode_to_utf8 c"
proof -
  from assms have p: "p < length m" by (auto simp: unicode_from_utf8_def rd_def split: if_splits)
  show ?thesis
  proof (cases "m ! p < 0x80")
    case True
    then have c: "c = ucast (m ! p)" "p' = p + 1" using assms p by (auto simp: unicode_from_utf8_def)
    have "unat c < 0x80" using True by (simp add: c word_less_nat_alt unat_ucast_small)
    then have "c < 0x80" by (simp add: word_less_nat_alt)
    moreover have "take 1 (drop p m) = [m ! p]" using p by (simp add: take_Suc_conv_app_nth take_Suc hd_drop_conv_nth)
    moreover have "ucast (ucast (m ! p) :: u32) = m ! p"
      by (rule word_eq_bitI) (auto simp: bit_simps)
    ultimately show ?thesis using p by (simp add: unicode_to_utf8_def c) (simp add: word_less_nat_alt)
  next
    case False
    then obtain l a where l: "utf8_tail_len (m ! p) = Some l" "int l \<le> int max_len - 1"
      "a = ucast (m ! p) AND utf8_first_code_mask ! (l - 1)"
      "utf8_tail m (p + 1) l a = Some (Some (c, p'))" "\<not> c < utf8_min_code ! (l - 1)"
      using assms p by (auto simp: unicode_from_utf8_def split: option.splits if_splits Option.bind_splits)
    from lead_ok_all [of "m ! p"] l(1,3) have a: "1 \<le> l" "l \<le> 5" "a < 2 ^ (6 - l)" "ucast (a OR utf8_mark l) = m ! p"
      by (auto simp: lead_ok_def Let_def)
    have "unat a < 2 ^ (32 - 6 * l)"
    proof -
      have "l = 1 \<or> l = 2 \<or> l = 3 \<or> l = 4 \<or> l = 5" using a(1,2) by auto
      then show ?thesis using a(3) by (elim disjE) (simp_all add: word_less_nat_alt)
    qed
    note t = utf8_tail_inv [OF l(4) this a(2)]
    have e: "c < 0x80000000 \<and> \<not> c < 0x80 \<and> utf8_extra c = l"
      using utf8_extra_iff [OF a(1,2), of c] l(5) a(3) t by simp
    have "unicode_to_utf8 c = m ! p # utf8_cont l c"
      using unicode_to_utf8_alt [of c] e t a(4) by simp
    moreover have "take (Suc l) (drop p m) = m ! p # take l (drop (p + 1) m)"
      using p by (simp add: Cons_nth_drop_Suc [symmetric])
    ultimately show ?thesis using t e p l(2) by auto
  qed
qed

section \<open>Safety\<close>

lemma utf8_tail_safe: "p + n \<le> length m \<Longrightarrow> utf8_tail m p n c \<noteq> None"
  by (induction n arbitrary: p c) (auto simp: rd_def)

lemma utf8_tail_len_le: "utf8_tail_len b = Some l \<Longrightarrow> 1 \<le> l \<and> l \<le> 5"
  by (auto simp: utf8_tail_len_def split: if_splits)

lemma unicode_from_utf8_safe:
  assumes "1 \<le> max_len" "p + max_len \<le> length m"
  shows "unicode_from_utf8 m p max_len \<noteq> None"
proof -
  have t: "utf8_tail m (p + 1) l a \<noteq> None" if "\<not> int l > int max_len - 1" for l a
    using that assms by (intro utf8_tail_safe) auto
  show ?thesis
  proof (cases "utf8_tail_len (m ! p)")
    case (Some l)
    show ?thesis
    proof (cases "int l > int max_len - 1")
      case False
      then obtain r where "utf8_tail m (p + 1) l (ucast (m ! p) AND utf8_first_code_mask ! (l - 1)) = Some r"
        using t [of l] by blast
      with Some False assms show ?thesis by (auto simp: unicode_from_utf8_def split: option.splits)
    qed (use assms Some in \<open>auto simp: unicode_from_utf8_def\<close>)
  qed (use assms in \<open>auto simp: unicode_from_utf8_def\<close>)
qed

section \<open>Properties\<close>

text \<open>C15: Decoding the bytes that \<open>unicode_to_utf8\<close> writes for a code point below \<open>2^31\<close> gives
  the code point back and advances by exactly those bytes.\<close>

theorem utf8_roundtrip:
  assumes "c < 0x80000000" "length (unicode_to_utf8 c) \<le> max_len"
  shows "unicode_from_utf8 (pre @ unicode_to_utf8 c @ post) (length pre) max_len =
    Some (Some (c, length pre + length (unicode_to_utf8 c)))"
  using assms by (rule unicode_from_utf8_encoded)

theorem utf8_roundtrip_witness:
  "unicode_from_utf8 ([1] @ unicode_to_utf8 0x1f600 @ [2]) (length [1 :: u8]) 6 =
    Some (Some (0x1f600, length [1 :: u8] + length (unicode_to_utf8 0x1f600)))"
  by (rule utf8_roundtrip) (simp_all add: unicode_to_utf8_def)

text \<open>C16: Whatever the decoder accepts is the one encoding the encoder produces: overlong forms
  are rejected, and at most \<open>max_len\<close> bytes are consumed.\<close>

theorem utf8_shortest_only:
  assumes "unicode_from_utf8 m p max_len = Some (Some (c, p'))"
  shows "c < 0x80000000 \<and> p < p' \<and> p' \<le> p + max 1 max_len \<and> p' \<le> length m \<and>
    take (p' - p) (drop p m) = unicode_to_utf8 c"
  using assms by (rule unicode_from_utf8_shortest)

theorem utf8_shortest_only_witness:
  "(0x20ac :: u32) < 0x80000000 \<and> (0 :: nat) < 3 \<and> 3 \<le> 0 + max 1 (4 :: nat) \<and>
   3 \<le> length [0xe2, 0x82, 0xac, 0x21 :: u8] \<and>
   take (3 - 0) (drop 0 [0xe2, 0x82, 0xac, 0x21]) = unicode_to_utf8 0x20ac"
  by (rule utf8_shortest_only) code_simp

text \<open>The decoder never reads outside the first \<open>max_len\<close> bytes it is given.\<close>

theorem utf8_decode_safe:
  assumes "1 \<le> max_len" "p + max_len \<le> length m"
  shows "unicode_from_utf8 m p max_len \<noteq> None"
  using assms by (rule unicode_from_utf8_safe)

theorem utf8_decode_safe_witness: "unicode_from_utf8 [0xf0, 0x9f] 0 2 \<noteq> None"
  by (rule utf8_decode_safe) simp_all

end
