(* ===== verification/Cutils_Exchange.thy ===== *)
theory Cutils_Exchange
  imports Qjs_Prelude
begin

text \<open>
  The exchange functions that \<open>rqsort\<close> and \<open>heapsortx\<close> of \<open>cutils.c\<close> use to swap
  array elements.  Memory is the list of its bytes.  Whatever function
  \<open>exchange_func\<close> picks for the alignment of the base address and the element size, it
  exchanges exactly \<open>size\<close> bytes at two places that are equal or do not overlap; on
  arrays of elements this is the exchange of two elements.
\<close>

section \<open>Operations\<close>

text \<open>\<open>t = *a; *a = *b; *b = t\<close> for a value of \<open>w\<close> bytes.\<close>

definition exchange_unit :: "nat \<Rightarrow> 'b list \<Rightarrow> nat \<Rightarrow> nat \<Rightarrow> 'b list option" where
  "exchange_unit w m a b = do {
     t \<leftarrow> rd_block m a w;
     u \<leftarrow> rd_block m b w;
     m \<leftarrow> blit m a u;
     blit m b t }"

fun exchange_units :: "nat \<Rightarrow> nat \<Rightarrow> 'b list \<Rightarrow> nat \<Rightarrow> nat \<Rightarrow> 'b list option" where
  "exchange_units w 0 m a b = Some m"
| "exchange_units w (Suc n) m a b = do {
     m \<leftarrow> exchange_unit w m a b;
     exchange_units w n m (a + w) (b + w) }"

definition exchange_bytes :: "'b list \<Rightarrow> nat \<Rightarrow> nat \<Rightarrow> nat \<Rightarrow> 'b list option" where
  "exchange_bytes m a b sz = exchange_units 1 sz m a b"

definition exchange_one_byte :: "'b list \<Rightarrow> nat \<Rightarrow> nat \<Rightarrow> nat \<Rightarrow> 'b list option" where
  "exchange_one_byte m a b sz = exchange_unit 1 m a b"

definition exchange_int16s :: "'b list \<Rightarrow> nat \<Rightarrow> nat \<Rightarrow> nat \<Rightarrow> 'b list option" where
  "exchange_int16s m a b sz = exchange_units 2 (sz div 2) m a b"

definition exchange_one_int16 :: "'b list \<Rightarrow> nat \<Rightarrow> nat \<Rightarrow> nat \<Rightarrow> 'b list option" where
  "exchange_one_int16 m a b sz = exchange_unit 2 m a b"

definition exchange_int32s :: "'b list \<Rightarrow> nat \<Rightarrow> nat \<Rightarrow> nat \<Rightarrow> 'b list option" where
  "exchange_int32s m a b sz = exchange_units 4 (sz div 4) m a b"

definition exchange_one_int32 :: "'b list \<Rightarrow> nat \<Rightarrow> nat \<Rightarrow> nat \<Rightarrow> 'b list option" where
  "exchange_one_int32 m a b sz = exchange_unit 4 m a b"

definition exchange_int64s :: "'b list \<Rightarrow> nat \<Rightarrow> nat \<Rightarrow> nat \<Rightarrow> 'b list option" where
  "exchange_int64s m a b sz = exchange_units 8 (sz div 8) m a b"

definition exchange_one_int64 :: "'b list \<Rightarrow> nat \<Rightarrow> nat \<Rightarrow> nat \<Rightarrow> 'b list option" where
  "exchange_one_int64 m a b sz = exchange_unit 8 m a b"

text \<open>The 128-bit step moves two 64-bit halves one after the other.\<close>

definition exchange_pair :: "'b list \<Rightarrow> nat \<Rightarrow> nat \<Rightarrow> 'b list option" where
  "exchange_pair m a b = do {
     t \<leftarrow> rd_block m a 8;
     u \<leftarrow> rd_block m (a + 8) 8;
     v \<leftarrow> rd_block m b 8;
     m \<leftarrow> blit m a v;
     v \<leftarrow> rd_block m (b + 8) 8;
     m \<leftarrow> blit m (a + 8) v;
     m \<leftarrow> blit m b t;
     blit m (b + 8) u }"

fun exchange_pairs :: "nat \<Rightarrow> 'b list \<Rightarrow> nat \<Rightarrow> nat \<Rightarrow> 'b list option" where
  "exchange_pairs 0 m a b = Some m"
| "exchange_pairs (Suc n) m a b = do {
     m \<leftarrow> exchange_pair m a b;
     exchange_pairs n m (a + 16) (b + 16) }"

definition exchange_int128s :: "'b list \<Rightarrow> nat \<Rightarrow> nat \<Rightarrow> nat \<Rightarrow> 'b list option" where
  "exchange_int128s m a b sz = exchange_pairs (sz div 16) m a b"

definition exchange_one_int128 :: "'b list \<Rightarrow> nat \<Rightarrow> nat \<Rightarrow> nat \<Rightarrow> 'b list option" where
  "exchange_one_int128 m a b sz = exchange_pair m a b"

text \<open>\<open>base\<close> is the address of the array.\<close>

definition exchange_func :: "nat \<Rightarrow> nat \<Rightarrow> 'b list \<Rightarrow> nat \<Rightarrow> nat \<Rightarrow> nat \<Rightarrow> 'b list option" where
  "exchange_func base sz =
     (let k = (base OR sz) AND 15
      in if k = 0 then (if sz = 16 then exchange_one_int128 else exchange_int128s)
         else if k = 8 then (if sz = 8 then exchange_one_int64 else exchange_int64s)
         else if k = 4 \<or> k = 12 then (if sz = 4 then exchange_one_int32 else exchange_int32s)
         else if k = 2 \<or> k = 6 \<or> k = 10 \<or> k = 14 then
           (if sz = 2 then exchange_one_int16 else exchange_int16s)
         else (if sz = 1 then exchange_one_byte else exchange_bytes))"

section \<open>Specification\<close>

text \<open>The memory with the blocks of \<open>n\<close> elements at \<open>a\<close> and \<open>b\<close> exchanged.\<close>

definition block_swap :: "nat \<Rightarrow> 'b list \<Rightarrow> nat \<Rightarrow> nat \<Rightarrow> 'b list" where
  "block_swap n m a b =
     map (\<lambda>i. if a \<le> i \<and> i < a + n then m ! (b + (i - a))
              else if b \<le> i \<and> i < b + n then m ! (a + (i - b)) else m ! i) [0..<length m]"

definition apart :: "nat \<Rightarrow> nat \<Rightarrow> nat \<Rightarrow> bool" where
  "apart n a b \<longleftrightarrow> a = b \<or> a + n \<le> b \<or> b + n \<le> a"

lemma length_block_swap [simp]: "length (block_swap n m a b) = length m"
  by (simp add: block_swap_def)

lemma block_swap_nth:
  "i < length m \<Longrightarrow> block_swap n m a b ! i =
     (if a \<le> i \<and> i < a + n then m ! (b + (i - a))
      else if b \<le> i \<and> i < b + n then m ! (a + (i - b)) else m ! i)"
  by (simp add: block_swap_def)

lemma blit_spec:
  assumes "pos + length src \<le> length m"
  obtains m' where "blit m pos src = Some m'" "length m' = length m"
    "\<And>k. k < length src \<Longrightarrow> m' ! (pos + k) = src ! k"
    "\<And>i. i < length m \<Longrightarrow> i < pos \<or> pos + length src \<le> i \<Longrightarrow> m' ! i = m ! i"
proof (rule that)
  show "blit m pos src = Some (take pos m @ src @ drop (pos + length src) m)"
    using assms by (simp add: blit_def)
qed (use assms in \<open>auto simp: nth_append\<close>)

lemma rd_block_spec:
  assumes "pos + w \<le> length m"
  obtains t where "rd_block m pos w = Some t" "length t = w" "\<And>k. k < w \<Longrightarrow> t ! k = m ! (pos + k)"
proof (rule that)
  show "rd_block m pos w = Some (take w (drop pos m))" using assms by (simp add: rd_block_def)
qed (use assms in auto)

text \<open>A memory that has the two blocks exchanged and is otherwise unchanged.\<close>

lemma block_swapI:
  assumes "length m' = length m" "a + n \<le> length m" "b + n \<le> length m" "apart n a b"
    and "\<And>k. k < n \<Longrightarrow> m' ! (a + k) = m ! (b + k)" "\<And>k. k < n \<Longrightarrow> m' ! (b + k) = m ! (a + k)"
    and "\<And>i. i < length m \<Longrightarrow> i < a \<or> a + n \<le> i \<Longrightarrow> i < b \<or> b + n \<le> i \<Longrightarrow> m' ! i = m ! i"
  shows "m' = block_swap n m a b"
proof (rule nth_equalityI)
  fix i assume "i < length m'"
  then have i: "i < length m" using assms(1) by simp
  consider (a) k where "k < n" "i = a + k" | (b) k where "k < n" "i = b + k" "\<not> (a \<le> i \<and> i < a + n)"
    | (c) "\<not> (a \<le> i \<and> i < a + n)" "\<not> (b \<le> i \<and> i < b + n)"
  proof (cases "a \<le> i \<and> i < a + n")
    case True
    then show thesis using a [of "i - a"] by auto
  next
    case False
    then show thesis using b [of "i - b"] c by (cases "b \<le> i \<and> i < b + n") auto
  qed
  then show "m' ! i = block_swap n m a b ! i"
  proof cases
    case (a k)
    then show ?thesis using i assms(5) by (simp add: block_swap_nth)
  next
    case (b k)
    then show ?thesis using i assms(6) by (auto simp: block_swap_nth)
  next
    case c
    then show ?thesis using i assms(7) [of i] by (simp add: block_swap_nth not_less not_le) linarith
  qed
qed (simp add: assms(1))

lemma exchange_unit_spec:
  assumes "a + w \<le> length m" "b + w \<le> length m" "apart w a b"
  shows "exchange_unit w m a b = Some (block_swap w m a b)"
proof -
  obtain t where t: "rd_block m a w = Some t" "length t = w" "\<And>k. k < w \<Longrightarrow> t ! k = m ! (a + k)"
    using rd_block_spec [OF assms(1)] by blast
  obtain u where u: "rd_block m b w = Some u" "length u = w" "\<And>k. k < w \<Longrightarrow> u ! k = m ! (b + k)"
    using rd_block_spec [OF assms(2)] by blast
  obtain m1 where m1: "blit m a u = Some m1" "length m1 = length m"
    "\<And>k. k < w \<Longrightarrow> m1 ! (a + k) = u ! k" "\<And>i. i < length m \<Longrightarrow> i < a \<or> a + w \<le> i \<Longrightarrow> m1 ! i = m ! i"
    using blit_spec [of a u m] assms(1) u(2) by auto
  obtain m2 where m2: "blit m1 b t = Some m2" "length m2 = length m1"
    "\<And>k. k < w \<Longrightarrow> m2 ! (b + k) = t ! k" "\<And>i. i < length m1 \<Longrightarrow> i < b \<or> b + w \<le> i \<Longrightarrow> m2 ! i = m1 ! i"
    using blit_spec [of b t m1] assms(2) t(2) m1(2) by auto
  have "m2 = block_swap w m a b"
  proof (rule block_swapI)
    fix k assume k: "k < w"
    show "m2 ! (b + k) = m ! (a + k)" using k m2(3) t(3) by simp
    show "m2 ! (a + k) = m ! (b + k)"
    proof (cases "a = b")
      case True
      then show ?thesis using k m2(3) t(3) by simp
    next
      case False
      then have "a + k < b \<or> b + w \<le> a + k" using assms(3) k by (auto simp: apart_def)
      then show ?thesis using k assms(1) m1 m2 u by simp
    qed
  qed (use assms m1 m2 in auto)
  with t u m1 m2 show ?thesis by (simp add: exchange_unit_def)
qed

lemma block_swap_0 [simp]: "block_swap 0 m a b = m"
  by (rule nth_equalityI) (auto simp: block_swap_nth)

lemma apart_split: "apart (w + n) a b \<Longrightarrow> apart w a b \<and> apart n (a + w) (b + w)"
  by (auto simp: apart_def)

lemma block_swap_blocks:
  assumes "a + n \<le> length m" "b + n \<le> length m" "apart n a b"
  shows "k < n \<Longrightarrow> block_swap n m a b ! (a + k) = m ! (b + k)"
    "k < n \<Longrightarrow> block_swap n m a b ! (b + k) = m ! (a + k)"
    "i < length m \<Longrightarrow> i < a \<or> a + n \<le> i \<Longrightarrow> i < b \<or> b + n \<le> i \<Longrightarrow> block_swap n m a b ! i = m ! i"
proof -
  assume k: "k < n"
  show "block_swap n m a b ! (a + k) = m ! (b + k)" using k assms(1) by (simp add: block_swap_nth)
  show "block_swap n m a b ! (b + k) = m ! (a + k)"
  proof (cases "a = b")
    case False
    then have "\<not> (a \<le> b + k \<and> b + k < a + n)" using k assms(3) by (auto simp: apart_def)
    then show ?thesis using k assms(2) by (auto simp: block_swap_nth)
  qed (use k assms(1) in \<open>simp add: block_swap_nth\<close>)
next
  assume "i < length m" "i < a \<or> a + n \<le> i" "i < b \<or> b + n \<le> i"
  then show "block_swap n m a b ! i = m ! i" by (auto simp: block_swap_nth)
qed

text \<open>Exchanging in two parts.\<close>

lemma block_swap_step:
  assumes "a + (w + n) \<le> length m" "b + (w + n) \<le> length m" "apart (w + n) a b"
  shows "block_swap n (block_swap w m a b) (a + w) (b + w) = block_swap (w + n) m a b"
proof (rule block_swapI [OF _ assms])
  note ap = apart_split [OF assms(3)]
  have b1: "a + w \<le> length m" "b + w \<le> length m" using assms by auto
  have b2: "a + w + n \<le> length (block_swap w m a b)" "b + w + n \<le> length (block_swap w m a b)"
    using assms by auto
  note s1 = block_swap_blocks [OF b1 conjunct1 [OF ap]]
  note s2 = block_swap_blocks [OF b2 conjunct2 [OF ap]]
  let ?m = "block_swap n (block_swap w m a b) (a + w) (b + w)"
  have apart_k: "a + k < b + w \<or> b + w + n \<le> a + k" "b + k < a + w \<or> a + w + n \<le> b + k"
    if "k < w" for k using that assms(3) unfolding apart_def by linarith+
  have apart_j: "b + w + j < a \<or> a + w \<le> b + w + j" "a + w + j < b \<or> b + w \<le> a + w + j"
    if "j < n" for j using that assms(3) unfolding apart_def by linarith+
  show "?m ! (a + k) = m ! (b + k)" if "k < w + n" for k
  proof (cases "k < w")
    case True
    then have "?m ! (a + k) = block_swap w m a b ! (a + k)"
      using assms apart_k [OF True] by (intro s2(3)) auto
    with True s1(1) show ?thesis by simp
  next
    case False
    define j where "j = k - w"
    have j: "k = w + j" "j < n" using False that by (simp_all add: j_def)
    have "?m ! (a + w + j) = block_swap w m a b ! (b + w + j)" by (rule s2(1) [OF j(2)])
    also have "\<dots> = m ! (b + w + j)"
      using assms j(2) apart_j [OF j(2)] by (intro s1(3)) auto
    finally show ?thesis by (simp add: j add.assoc)
  qed
  show "?m ! (b + k) = m ! (a + k)" if "k < w + n" for k
  proof (cases "k < w")
    case True
    then have "?m ! (b + k) = block_swap w m a b ! (b + k)"
      using assms apart_k [OF True] by (intro s2(3)) auto
    with True s1(2) show ?thesis by simp
  next
    case False
    define j where "j = k - w"
    have j: "k = w + j" "j < n" using False that by (simp_all add: j_def)
    have "?m ! (b + w + j) = block_swap w m a b ! (a + w + j)" by (rule s2(2) [OF j(2)])
    also have "\<dots> = m ! (a + w + j)"
      using assms j(2) apart_j [OF j(2)] by (intro s1(3)) auto
    finally show ?thesis by (simp add: j add.assoc)
  qed
  show "?m ! i = m ! i" if "i < length m" "i < a \<or> a + (w + n) \<le> i" "i < b \<or> b + (w + n) \<le> i" for i
  proof -
    have "?m ! i = block_swap w m a b ! i" using that by (intro s2(3)) auto
    also have "\<dots> = m ! i" using that by (intro s1(3)) auto
    finally show ?thesis .
  qed
qed simp

lemma exchange_units_spec:
  assumes "a + w * n \<le> length m" "b + w * n \<le> length m" "apart (w * n) a b"
  shows "exchange_units w n m a b = Some (block_swap (w * n) m a b)"
  using assms
proof (induction n arbitrary: m a b)
  case (Suc n)
  then have ap: "apart w a b" "apart (w * n) (a + w) (b + w)"
    using apart_split [of w "w * n" a b] by simp_all
  have u: "exchange_unit w m a b = Some (block_swap w m a b)"
    using Suc.prems ap(1) by (intro exchange_unit_spec) auto
  have "exchange_units w n (block_swap w m a b) (a + w) (b + w) =
      Some (block_swap (w * n) (block_swap w m a b) (a + w) (b + w))"
    using Suc.prems ap(2) by (intro Suc.IH) auto
  also have "\<dots> = Some (block_swap (w + w * n) m a b)"
    using Suc.prems by (subst block_swap_step) simp_all
  finally show ?case using u by simp
qed simp

lemma exchange_pair_spec:
  assumes "a + 16 \<le> length m" "b + 16 \<le> length m" "apart 16 a b"
  shows "exchange_pair m a b = Some (block_swap 16 m a b)"
proof -
  obtain t where t: "rd_block m a 8 = Some t" "length t = 8" "\<And>k. k < 8 \<Longrightarrow> t ! k = m ! (a + k)"
    using rd_block_spec [of a 8 m] assms(1) by auto
  obtain u where u: "rd_block m (a + 8) 8 = Some u" "length u = 8" "\<And>k. k < 8 \<Longrightarrow> u ! k = m ! (a + 8 + k)"
    using rd_block_spec [of "a + 8" 8 m] assms(1) by auto
  obtain v where v: "rd_block m b 8 = Some v" "length v = 8" "\<And>k. k < 8 \<Longrightarrow> v ! k = m ! (b + k)"
    using rd_block_spec [of b 8 m] assms(2) by auto
  obtain m1 where m1: "blit m a v = Some m1" "length m1 = length m"
    "\<And>k. k < 8 \<Longrightarrow> m1 ! (a + k) = v ! k" "\<And>i. i < length m \<Longrightarrow> i < a \<or> a + 8 \<le> i \<Longrightarrow> m1 ! i = m ! i"
    using blit_spec [of a v m] assms(1) v(2) by auto
  obtain v' where v': "rd_block m1 (b + 8) 8 = Some v'" "length v' = 8"
    "\<And>k. k < 8 \<Longrightarrow> v' ! k = m1 ! (b + 8 + k)"
    using rd_block_spec [of "b + 8" 8 m1] assms(2) m1(2) by auto
  obtain m2 where m2: "blit m1 (a + 8) v' = Some m2" "length m2 = length m"
    "\<And>k. k < 8 \<Longrightarrow> m2 ! (a + 8 + k) = v' ! k"
    "\<And>i. i < length m \<Longrightarrow> i < a + 8 \<or> 16 + a \<le> i \<Longrightarrow> m2 ! i = m1 ! i"
    using blit_spec [of "a + 8" v' m1] assms(1) v'(2) m1(2) by auto
  obtain m3 where m3: "blit m2 b t = Some m3" "length m3 = length m"
    "\<And>k. k < 8 \<Longrightarrow> m3 ! (b + k) = t ! k"
    "\<And>i. i < length m \<Longrightarrow> i < b \<or> b + 8 \<le> i \<Longrightarrow> m3 ! i = m2 ! i"
    using blit_spec [of b t m2] assms(2) t(2) m2(2) by auto
  obtain m4 where m4: "blit m3 (b + 8) u = Some m4" "length m4 = length m"
    "\<And>k. k < 8 \<Longrightarrow> m4 ! (b + 8 + k) = u ! k"
    "\<And>i. i < length m \<Longrightarrow> i < b + 8 \<or> 16 + b \<le> i \<Longrightarrow> m4 ! i = m3 ! i"
    using blit_spec [of "b + 8" u m3] assms(2) u(2) m3(2) by auto
  have low_b: "m4 ! (b + k) = m ! (a + k)" if "k < 8" for k
    using that assms m4 m3 t by simp
  have high_b: "m4 ! (b + 8 + k) = m ! (a + 8 + k)" if "k < 8" for k
    using that m4 u by simp
  have out: "m4 ! i = m2 ! i" if "i < length m" "i < b \<or> b + 16 \<le> i" for i
    using that m4(4) [of i] m3(4) [of i] by auto
  have low_a: "m2 ! (a + k) = m ! (b + k)" if "k < 8" for k
    using that assms m2 m1 v by simp
  have high_a: "m2 ! (a + 8 + k) = m ! (b + 8 + k)" if "k < 8" "a \<noteq> b" for k
  proof -
    have "b + 8 + k < a \<or> a + 8 \<le> b + 8 + k" using that assms(3) unfolding apart_def by linarith
    then show ?thesis using that assms m2 v' m1 by simp
  qed
  have half: "k < 8 \<or> (\<exists>j. k = 8 + j \<and> j < 8)" if "k < 16" for k :: nat
    using that by (auto intro!: exI [of _ "k - 8"])
  have to_b: "m4 ! (b + k) = m ! (a + k)" if "k < 16" for k
    using half [OF that] low_b high_b by (auto simp: add.assoc)
  have "m4 = block_swap 16 m a b"
  proof (rule block_swapI)
    fix k :: nat assume k: "k < 16"
    show "m4 ! (b + k) = m ! (a + k)" by (rule to_b [OF k])
    show "m4 ! (a + k) = m ! (b + k)"
    proof (cases "a = b")
      case True
      then show ?thesis using to_b [OF k] by simp
    next
      case False
      then have "a + k < b \<or> b + 16 \<le> a + k" using k assms(3) unfolding apart_def by linarith
      then have "m4 ! (a + k) = m2 ! (a + k)" using k assms(1) by (intro out) auto
      with half [OF k] low_a high_a False show ?thesis by (auto simp: add.assoc)
    qed
  next
    fix i assume i: "i < length m" "i < a \<or> a + 16 \<le> i" "i < b \<or> b + 16 \<le> i"
    then show "m4 ! i = m ! i" using out [of i] m2(4) [of i] m1(4) [of i] by auto
  qed (use assms m4 in auto)
  with t u v m1 v' m2 m3 m4 show ?thesis by (simp add: exchange_pair_def)
qed

lemma exchange_pairs_spec:
  assumes "a + 16 * n \<le> length m" "b + 16 * n \<le> length m" "apart (16 * n) a b"
  shows "exchange_pairs n m a b = Some (block_swap (16 * n) m a b)"
  using assms
proof (induction n arbitrary: m a b)
  case (Suc n)
  then have ap: "apart 16 a b" "apart (16 * n) (a + 16) (b + 16)"
    using apart_split [of 16 "16 * n" a b] by simp_all
  have u: "exchange_pair m a b = Some (block_swap 16 m a b)"
    using Suc.prems ap(1) by (intro exchange_pair_spec) auto
  have "exchange_pairs n (block_swap 16 m a b) (a + 16) (b + 16) =
      Some (block_swap (16 * n) (block_swap 16 m a b) (a + 16) (b + 16))"
    using Suc.prems ap(2) by (intro Suc.IH) auto
  also have "\<dots> = Some (block_swap (16 + 16 * n) m a b)"
    using Suc.prems by (subst block_swap_step) simp_all
  finally show ?case using u by simp
qed simp

section \<open>Choosing the function\<close>

lemma aligned_dvd:
  fixes base sz :: nat
  assumes "(base OR sz) AND 15 = k" "2 ^ j dvd k" "j \<le> 4"
  shows "2 ^ j dvd sz"
proof -
  have "take_bit j ((base OR sz) AND 15) = take_bit j (base OR sz)"
  proof (rule bit_eqI)
    fix n
    have m: "(15 :: nat) = mask 4" by (simp add: mask_eq_exp_minus_1)
    show "bit (take_bit j ((base OR sz) AND 15)) n = bit (take_bit j (base OR sz)) n"
      unfolding m using assms(3) by (auto simp: bit_simps)
  qed
  moreover have "take_bit j k = 0" using assms(2) by (simp add: take_bit_eq_0_iff)
  ultimately have "take_bit j (base OR sz) = 0" using assms(1) by simp
  then have z: "\<not> bit (take_bit j (base OR sz)) n" for n by simp
  have "take_bit j sz = 0"
  proof (rule bit_eqI)
    fix n show "bit (take_bit j sz) n = bit 0 n" using z [of n] by (auto simp: bit_simps)
  qed
  then show ?thesis by (simp add: take_bit_eq_0_iff)
qed

lemma exchange_units_dvd:
  assumes "w dvd n" "a + n \<le> length m" "b + n \<le> length m" "apart n a b"
  shows "exchange_units w (n div w) m a b = Some (block_swap n m a b)"
  using exchange_units_spec [of a w "n div w" m b] assms by simp

lemma exchange_pairs_dvd:
  assumes "16 dvd n" "a + n \<le> length m" "b + n \<le> length m" "apart n a b"
  shows "exchange_pairs (n div 16) m a b = Some (block_swap n m a b)"
  using exchange_pairs_spec [of a "n div 16" m b] assms by simp

lemmas exchange_defs =
  exchange_bytes_def exchange_one_byte_def exchange_int16s_def exchange_one_int16_def
  exchange_int32s_def exchange_one_int32_def exchange_int64s_def exchange_one_int64_def
  exchange_int128s_def exchange_one_int128_def

text \<open>The function for one size exchanges that size, and, unless it is one of the
  single-element variants, every multiple of the alignment.\<close>

lemma exchange_func_spec:
  assumes "sz = n \<or> sz \<noteq> 1 \<and> sz \<noteq> 2 \<and> sz \<noteq> 4 \<and> sz \<noteq> 8 \<and> sz \<noteq> 16"
    and "\<And>j. j \<le> 4 \<Longrightarrow> 2 ^ j dvd sz \<Longrightarrow> 2 ^ j dvd n"
    and "a + n \<le> length m" "b + n \<le> length m" "apart n a b"
  shows "exchange_func base sz m a b n = Some (block_swap n m a b)"
proof -
  let ?k = "(base OR sz) AND 15"
  have d: "2 ^ j dvd n" if "2 ^ j dvd ?k" "j \<le> 4" for j
    using aligned_dvd [OF refl that] assms(2) that(2) by blast
  note u = exchange_units_dvd [OF _ assms(3-5)] and p = exchange_pairs_dvd [OF _ assms(3-5)]
    and one = exchange_unit_spec [OF assms(3-5)]
  consider "?k = 0" | "?k = 8" | "?k = 4 \<or> ?k = 12" | "?k = 2 \<or> ?k = 6 \<or> ?k = 10 \<or> ?k = 14"
    | "?k \<notin> {0, 8, 4, 12, 2, 6, 10, 14}" by auto
  then show ?thesis
  proof cases
    case 1
    then have "16 dvd n" using d [of 4] by simp
    with 1 p assms(1) exchange_pair_spec [of a m b] assms(3-5) show ?thesis
      by (auto simp: exchange_func_def exchange_defs)
  next
    case 2
    then have "8 dvd n" using d [of 3] by simp
    with 2 u [of 8] one assms(1) show ?thesis by (auto simp: exchange_func_def exchange_defs)
  next
    case 3
    then have "4 dvd n" using d [of 2] by auto
    with 3 u [of 4] one assms(1) show ?thesis by (auto simp: exchange_func_def exchange_defs)
  next
    case 4
    then have "2 dvd n" using d [of 1] by auto
    with 4 u [of 2] one assms(1) show ?thesis by (auto simp: exchange_func_def exchange_defs)
  next
    case 5
    with u [of 1] one assms(1) show ?thesis by (auto simp: exchange_func_def exchange_defs Let_def)
  qed
qed

section \<open>Elements\<close>

text \<open>An array of elements of \<open>sz\<close> bytes.\<close>

definition elements :: "nat \<Rightarrow> 'b list \<Rightarrow> 'b list list" where
  "elements sz m = map (\<lambda>i. take sz (drop (i * sz) m)) [0..<length m div sz]"

lemma length_elements [simp]: "length (elements sz m) = length m div sz"
  by (simp add: elements_def)

lemma elements_nth_nth:
  assumes "i < length m div sz" "k < sz"
  shows "length (elements sz m ! i) = sz" "elements sz m ! i ! k = m ! (i * sz + k)"
    "i * sz + k < length m"
proof -
  have "Suc i * sz \<le> (length m div sz) * sz" using assms(1) by (intro mult_le_mono1) simp
  also have "\<dots> \<le> length m" by simp
  finally have "i * sz + sz \<le> length m" by simp
  with assms show "length (elements sz m ! i) = sz" "elements sz m ! i ! k = m ! (i * sz + k)"
    "i * sz + k < length m" by (simp_all add: elements_def)
qed

lemma in_block:
  fixes i a n sz k :: nat
  assumes "k < sz"
  shows "a * sz \<le> i * sz + k \<and> i * sz + k < a * sz + n * sz \<longleftrightarrow> a \<le> i \<and> i < a + n"
proof -
  have "a * sz \<le> i * sz + k \<longleftrightarrow> a \<le> i"
    using assms by (metis Suc_leI add_less_cancel_left leD leI le_add1 le_trans less_le_trans
        mult_Suc mult_le_mono1 add.commute)
  moreover have "i * sz + k < a * sz + n * sz \<longleftrightarrow> i < a + n"
    using assms by (metis add_mult_distrib Suc_leI add_less_cancel_left leD leI le_add1 le_trans
        less_le_trans mult_Suc mult_le_mono1 add.commute)
  ultimately show ?thesis by blast
qed

lemma elements_block_swap:
  assumes "0 < sz" "a + n \<le> length m div sz" "b + n \<le> length m div sz"
  shows "elements sz (block_swap (n * sz) m (a * sz) (b * sz)) = block_swap n (elements sz m) a b"
proof (rule nth_equalityI)
  let ?m = "block_swap (n * sz) m (a * sz) (b * sz)"
  fix i assume "i < length (elements sz ?m)"
  then have i: "i < length m div sz" by simp
  have l: "length (elements sz m ! j) = sz" if "j < length m div sz" for j
    using elements_nth_nth(1) [OF that assms(1)] .
  have i': "i < length ?m div sz" using i by simp
  show "elements sz ?m ! i = block_swap n (elements sz m) a b ! i"
  proof (rule nth_equalityI)
    show "length (elements sz ?m ! i) = length (block_swap n (elements sz m) a b ! i)"
      using i i' assms elements_nth_nth(1) [OF i' assms(1)] by (auto simp: block_swap_nth intro!: l [symmetric])
  next
    fix k assume "k < length (elements sz ?m ! i)"
    then have k: "k < sz" using elements_nth_nth(1) [OF i' assms(1)] by simp
    have "elements sz ?m ! i ! k = ?m ! (i * sz + k)" by (rule elements_nth_nth(2) [OF i' k])
    also have "\<dots> = block_swap n (elements sz m) a b ! i ! k"
    proof -
      have e: "elements sz m ! j ! k = m ! (j * sz + k)" if "j < length m div sz" for j
        by (rule elements_nth_nth(2) [OF that k])
      have shift: "c * sz + (i * sz + k - d * sz) = (c + (i - d)) * sz + k" if "d \<le> i" for c d
      proof -
        obtain e where "i = d + e" using \<open>d \<le> i\<close> le_Suc_ex by blast
        then show ?thesis by (simp add: add_mult_distrib)
      qed
      show ?thesis
        using i assms k elements_nth_nth(3) [OF i k]
        by (auto simp: block_swap_nth in_block shift e intro!: e [symmetric])
    qed
    finally show "elements sz ?m ! i ! k = block_swap n (elements sz m) a b ! i ! k" .
  qed
qed simp

section \<open>Properties\<close>

text \<open>C40: Whichever exchange function is picked for an array address and an element size, it
  exchanges two whole elements of the array, possibly the same one, and nothing else.\<close>

theorem exchange_func_elements:
  assumes "0 < sz" "i < length m div sz" "j < length m div sz"
  shows "\<exists>m'. exchange_func base sz m (i * sz) (j * sz) sz = Some m' \<and> length m' = length m \<and>
    elements sz m' = (elements sz m)[i := elements sz m ! j, j := elements sz m ! i]"
proof -
  have le: "i * sz + sz \<le> length m" "j * sz + sz \<le> length m"
    using elements_nth_nth(3) [OF assms(2), of "sz - 1"] elements_nth_nth(3) [OF assms(3), of "sz - 1"]
      assms(1) by auto
  have ap: "apart sz (i * sz) (j * sz)"
  proof -
    consider "i = j" | "Suc i \<le> j" | "Suc j \<le> i" by linarith
    then show ?thesis
    proof cases
      case 2
      from mult_le_mono1 [OF this, of sz] show ?thesis by (simp add: apart_def add.commute)
    next
      case 3
      from mult_le_mono1 [OF this, of sz] show ?thesis by (simp add: apart_def add.commute)
    qed (simp add: apart_def)
  qed
  have "exchange_func base sz m (i * sz) (j * sz) sz = Some (block_swap sz m (i * sz) (j * sz))"
    using le ap by (intro exchange_func_spec) auto
  moreover have "elements sz (block_swap (1 * sz) m (i * sz) (j * sz)) = block_swap 1 (elements sz m) i j"
    using assms by (intro elements_block_swap) auto
  moreover have "block_swap 1 xs i j = xs[i := xs ! j, j := xs ! i]" if "i < length xs" "j < length xs" for xs :: "'a list list"
    by (rule nth_equalityI) (use that in \<open>auto simp: block_swap_nth nth_list_update\<close>)
  ultimately show ?thesis using assms(2,3) by simp
qed

theorem exchange_func_elements_witness:
  "\<exists>m'. exchange_func 4096 2 [1, 2, 3, 4, 5, 6 :: nat] (0 * 2) (2 * 2) 2 = Some m' \<and>
     length m' = length [1, 2, 3, 4, 5, 6 :: nat] \<and>
     elements 2 m' = (elements 2 [1, 2, 3, 4, 5, 6])
       [0 := elements 2 [1, 2, 3, 4, 5, 6] ! 2, 2 := elements 2 [1, 2, 3, 4, 5, 6] ! 0]"
  by (rule exchange_func_elements) simp_all

text \<open>The block exchange that \<open>rqsort\<close> obtains with \<open>size | 128\<close> exchanges two runs of
  elements that do not overlap, whatever the element size.\<close>

theorem exchange_block_elements:
  assumes "0 < sz" "i + n \<le> length m div sz" "j + n \<le> length m div sz" "i + n \<le> j \<or> j + n \<le> i"
  shows "\<exists>m'. exchange_func base (sz OR 128) m (i * sz) (j * sz) (n * sz) = Some m' \<and>
    elements sz m' = block_swap n (elements sz m) i j"
proof -
  have big: "(128 :: nat) \<le> sz OR 128" 
  proof (rule ccontr)
    assume "\<not> 128 \<le> sz OR 128"
    then have t: "take_bit 7 (sz OR 128) = sz OR 128" by (intro take_bit_nat_eq_self) simp
    have "bit (128 :: nat) 7" using bit_exp_iff [of 7 7, where ?'a = nat] by simp
    then have "bit (sz OR 128) 7" by (simp add: bit_or_iff)
    then have "bit (take_bit 7 (sz OR 128)) 7" unfolding t .
    then show False by (simp add: bit_take_bit_iff)
  qed
  have le: "k * sz + n * sz \<le> length m" if "k + n \<le> length m div sz" for k
  proof -
    have "(k + n) * sz \<le> (length m div sz) * sz" using that by (rule mult_le_mono1)
    also have "\<dots> \<le> length m" by simp
    finally show ?thesis by (simp add: add_mult_distrib)
  qed
  have ap: "apart (n * sz) (i * sz) (j * sz)"
    using assms(4) mult_le_mono1 [of "i + n" j sz] mult_le_mono1 [of "j + n" i sz]
    by (auto simp: apart_def add_mult_distrib)
  have dvd: "2 ^ e dvd n * sz" if "e \<le> 4" "2 ^ e dvd sz OR 128" for e
  proof -
    have "take_bit e (sz OR 128) = 0" using that(2) unfolding take_bit_eq_0_iff .
    then have z: "\<not> bit (take_bit e (sz OR 128)) k" for k by (simp only: bit_0_eq) simp
    have "take_bit e sz = 0"
    proof (rule bit_eqI)
      fix k show "bit (take_bit e sz) k = bit 0 k" using z [of k] by (auto simp: bit_simps)
    qed
    then show ?thesis by (simp add: take_bit_eq_0_iff)
  qed
  have "exchange_func base (sz OR 128) m (i * sz) (j * sz) (n * sz) =
      Some (block_swap (n * sz) m (i * sz) (j * sz))"
    using big le assms(2,3) ap dvd by (intro exchange_func_spec) auto
  with elements_block_swap [OF assms(1-3)] show ?thesis by simp
qed

theorem exchange_block_elements_witness:
  "\<exists>m'. exchange_func 4099 (3 OR 128) [1, 2, 3, 4, 5, 6, 7, 8, 9, 10, 11, 12 :: nat] (0 * 3) (2 * 3) (2 * 3) = Some m' \<and>
     elements 3 m' = block_swap 2 (elements 3 [1, 2, 3, 4, 5, 6, 7, 8, 9, 10, 11, 12]) 0 2"
  by (rule exchange_block_elements) simp_all

end
