(* ===== verification/Cutils_Sort.thy ===== *)
theory Cutils_Sort
  imports Cutils_Exchange "HOL-Library.Multiset"
begin

text \<open>
  \<open>rqsort\<close> and \<open>heapsortx\<close> of \<open>cutils.c\<close>, the sort behind \<open>Array.prototype.sort\<close>:
  a quicksort with a median of three, a three-way partition, an explicit stack of 50
  entries, a depth limit after which it falls back to heapsort, and insertion sort for
  short runs.

  The array is the list of its elements and a pointer an index into it, so the counters
  \<open>i\<close>, \<open>lt\<close> and \<open>gt\<close> of the code, which repeat \<open>pi\<close>, \<open>plt\<close> and \<open>pgt\<close> in units
  of elements, are the pointers counted from \<open>ptr\<close>.  That exchanging elements is what the
  byte-wise exchange functions do is shown in \<open>Cutils_Exchange\<close>.  An access outside the
  array and a push on the full stack are \<open>None\<close>.
\<close>

section \<open>Primitives\<close>

type_synonym 'a cmp_f = "'a \<Rightarrow> 'a \<Rightarrow> int"

definition cmp_at :: "'a cmp_f \<Rightarrow> 'a list \<Rightarrow> nat \<Rightarrow> nat \<Rightarrow> int option" where
  "cmp_at cmp xs i j = (if i < length xs \<and> j < length xs then Some (cmp (xs ! i) (xs ! j)) else None)"

definition swap_el :: "'a list \<Rightarrow> nat \<Rightarrow> nat \<Rightarrow> 'a list option" where
  "swap_el xs i j =
     (if i < length xs \<and> j < length xs then Some (xs[i := xs ! j, j := xs ! i]) else None)"

definition swap_block :: "'a list \<Rightarrow> nat \<Rightarrow> nat \<Rightarrow> nat \<Rightarrow> 'a list option" where
  "swap_block xs i j n = exchange_units 1 n xs i j"

section \<open>Heapsort\<close>

function heap_sift :: "'a cmp_f \<Rightarrow> nat \<Rightarrow> nat \<Rightarrow> nat \<Rightarrow> 'a list \<Rightarrow> 'a list option" where
  "heap_sift cmp base n r xs =
     (let c = r * 2 + 1
      in if c < n then do {
           c \<leftarrow> (if c < n - 1
                then map_option (\<lambda>d. if d \<le> 0 then c + 1 else c) (cmp_at cmp xs (base + c) (base + c + 1))
                else Some c);
           d \<leftarrow> cmp_at cmp xs (base + r) (base + c);
           if d > 0 then Some xs
           else do {
             xs \<leftarrow> swap_el xs (base + r) (base + c);
             heap_sift cmp base n c xs } }
         else Some xs)"
  by pat_completeness auto
termination
  by (relation "measure (\<lambda>(cmp, base, n, r, xs). n - r)") (auto simp: cmp_at_def split: if_splits)

declare heap_sift.simps [simp del]

fun heap_build :: "'a cmp_f \<Rightarrow> nat \<Rightarrow> nat \<Rightarrow> nat \<Rightarrow> 'a list \<Rightarrow> 'a list option" where
  "heap_build cmp base n 0 xs = Some xs"
| "heap_build cmp base n (Suc i) xs = do {
     xs \<leftarrow> heap_sift cmp base n i xs;
     heap_build cmp base n i xs }"

fun heap_extract :: "'a cmp_f \<Rightarrow> nat \<Rightarrow> nat \<Rightarrow> 'a list \<Rightarrow> 'a list option" where
  "heap_extract cmp base 0 xs = Some xs"
| "heap_extract cmp base (Suc i) xs = do {
     xs \<leftarrow> swap_el xs base (base + Suc i);
     xs \<leftarrow> heap_sift cmp base (Suc i) 0 xs;
     heap_extract cmp base i xs }"

definition heapsortx :: "'a cmp_f \<Rightarrow> nat \<Rightarrow> nat \<Rightarrow> 'a list \<Rightarrow> 'a list option" where
  "heapsortx cmp base nmemb xs =
     (if nmemb > 1 then do {
        xs \<leftarrow> heap_build cmp base nmemb (nmemb div 2) xs;
        heap_extract cmp base (nmemb - 1) xs }
      else Some xs)"

section \<open>Partition\<close>

definition med3 :: "'a cmp_f \<Rightarrow> 'a list \<Rightarrow> nat \<Rightarrow> nat \<Rightarrow> nat \<Rightarrow> nat option" where
  "med3 cmp xs a b c = do {
     ab \<leftarrow> cmp_at cmp xs a b;
     bc \<leftarrow> cmp_at cmp xs b c;
     if ab < 0 then
       (if bc < 0 then Some b
        else do { ac \<leftarrow> cmp_at cmp xs a c; Some (if ac < 0 then c else a) })
     else
       (if bc > 0 then Some b
        else do { ac \<leftarrow> cmp_at cmp xs a c; Some (if ac < 0 then a else c) }) }"

text \<open>The loop over \<open>pi\<close>; elements equal to the pivot go to the front.\<close>

function part_up :: "'a cmp_f \<Rightarrow> nat \<Rightarrow> nat \<Rightarrow> nat \<Rightarrow> nat \<Rightarrow> 'a list \<Rightarrow> ('a list \<times> nat \<times> nat) option" where
  "part_up cmp ptr plt pi pj xs =
     (if pi < pj then do {
        c \<leftarrow> cmp_at cmp xs ptr pi;
        if c \<ge> 0 then
          (if c = 0 then do {
             xs \<leftarrow> swap_el xs plt pi;
             part_up cmp ptr (plt + 1) (pi + 1) pj xs }
           else part_up cmp ptr plt (pi + 1) pj xs)
        else Some (xs, plt, pi) }
      else Some (xs, plt, pi))"
  by pat_completeness auto
termination
  by (relation "measure (\<lambda>(cmp, ptr, plt, pi, pj, xs). pj - pi)") auto

declare part_up.simps [simp del]

text \<open>The loop over \<open>pj\<close>; elements equal to the pivot go to the end.\<close>

function part_down :: "'a cmp_f \<Rightarrow> nat \<Rightarrow> nat \<Rightarrow> nat \<Rightarrow> nat \<Rightarrow> 'a list \<Rightarrow> ('a list \<times> nat \<times> nat) option" where
  "part_down cmp ptr pi pj pgt xs = do {
     assert_c (0 < pj);
     let pj = pj - 1
     in if pi < pj then do {
          c \<leftarrow> cmp_at cmp xs ptr pj;
          if c \<le> 0 then
            (if c = 0 then do {
               xs \<leftarrow> swap_el xs (pgt - 1) pj;
               part_down cmp ptr pi pj (pgt - 1) xs }
             else part_down cmp ptr pi pj pgt xs)
          else Some (xs, pj, pgt) }
        else Some (xs, pj, pgt) }"
  by pat_completeness auto
termination
  by (relation "measure (\<lambda>(cmp, ptr, pi, pj, pgt, xs). pj)") auto

declare part_down.simps [simp del]

lemma part_up_bounds:
  "part_up cmp ptr plt pi pj xs = Some (xs', plt', pi') \<Longrightarrow> plt \<le> pi \<Longrightarrow>
     plt \<le> plt' \<and> plt' \<le> pi' \<and> pi \<le> pi' \<and> pi' \<le> max pi pj"
proof (induction cmp ptr plt pi pj xs rule: part_up.induct)
  case (1 cmp ptr plt pi pj xs)
  show ?case
  proof (cases "pi < pj")
    case False
    with 1 show ?thesis by (auto simp: part_up.simps [of cmp ptr plt pi])
  next
    case True
    with 1(3) obtain c where c: "cmp_at cmp xs ptr pi = Some c"
      by (auto simp: part_up.simps [of cmp ptr plt pi] split: Option.bind_splits)
    show ?thesis
    proof (cases "c \<ge> 0")
      case False
      with 1 True c show ?thesis by (auto simp: part_up.simps [of cmp ptr plt pi])
    next
      case c0: True
      show ?thesis
      proof (cases "c = 0")
        case True
        with 1(3) c \<open>pi < pj\<close> obtain ys where ys: "swap_el xs plt pi = Some ys"
          "part_up cmp ptr (plt + 1) (pi + 1) pj ys = Some (xs', plt', pi')"
          by (auto simp: part_up.simps [of cmp ptr plt pi] split: Option.bind_splits)
        from 1(1) [OF \<open>pi < pj\<close> c c0 True ys] 1(4) \<open>pi < pj\<close> show ?thesis by auto
      next
        case False
        then have "part_up cmp ptr plt (pi + 1) pj xs = Some (xs', plt', pi')"
          using 1(3) c c0 \<open>pi < pj\<close> by (simp add: part_up.simps [of cmp ptr plt pi])
        from 1(2) [OF \<open>pi < pj\<close> c c0 False this] 1(4) \<open>pi < pj\<close> show ?thesis by auto
      qed
    qed
  qed
qed

lemma part_down_less: "part_down cmp ptr pi pj pgt xs = Some (xs', pj', pgt') \<Longrightarrow> pj' < pj"
proof (induction cmp ptr pi pj pgt xs rule: part_down.induct)
  case (1 cmp ptr pi pj pgt xs)
  then have pj: "0 < pj"
    by (auto simp: part_down.simps [of cmp ptr pi pj] split: Option.bind_splits)
  show ?case
  proof (cases "pi < pj - 1")
    case False
    with 1(3) pj show ?thesis by (auto simp: part_down.simps [of cmp ptr pi pj])
  next
    case True
    with 1(3) pj obtain c where c: "cmp_at cmp xs ptr (pj - 1) = Some c"
      by (auto simp: part_down.simps [of cmp ptr pi pj] Let_def split: Option.bind_splits)
    have u: "assert_c (0 < pj) = Some ()" using pj by simp
    show ?thesis
    proof (cases "c \<le> 0")
      case False
      with 1(3) True c pj show ?thesis by (auto simp: part_down.simps [of cmp ptr pi pj] Let_def)
    next
      case c0: True
      show ?thesis
      proof (cases "c = 0")
        case z: True
        with 1(3) c True pj obtain ys where ys: "swap_el xs (pgt - 1) (pj - 1) = Some ys"
          "part_down cmp ptr pi (pj - 1) (pgt - 1) ys = Some (xs', pj', pgt')"
          by (auto simp: part_down.simps [of cmp ptr pi pj] Let_def split: Option.bind_splits)
        from 1(1) [OF u refl True c c0 z ys] show ?thesis by simp
      next
        case False
        then have "part_down cmp ptr pi (pj - 1) pgt xs = Some (xs', pj', pgt')"
          using 1(3) c c0 True pj by (simp add: part_down.simps [of cmp ptr pi pj] Let_def)
        from 1(2) [OF u refl True c c0 False this] show ?thesis by simp
      qed
    qed
  qed
qed

function part_loop ::
    "'a cmp_f \<Rightarrow> nat \<Rightarrow> nat \<Rightarrow> nat \<Rightarrow> nat \<Rightarrow> nat \<Rightarrow> 'a list \<Rightarrow> ('a list \<times> nat \<times> nat \<times> nat) option" where
  "part_loop cmp ptr plt pi pj pgt xs =
     (case part_up cmp ptr plt pi pj xs of
        None \<Rightarrow> None
      | Some (xs1, plt1, pi1) \<Rightarrow>
          (case part_down cmp ptr pi1 pj pgt xs1 of
             None \<Rightarrow> None
           | Some (xs2, pj1, pgt1) \<Rightarrow>
               if pi1 \<ge> pj1 then Some (xs2, plt1, pi1, pgt1)
               else do {
                 xs3 \<leftarrow> swap_el xs2 pi1 pj1;
                 part_loop cmp ptr plt1 (pi1 + 1) pj1 pgt1 xs3 }))"
  by pat_completeness auto
termination
  by (relation "measure (\<lambda>(cmp, ptr, plt, pi, pj, pgt, xs). pj)") (auto dest: part_down_less)

declare part_loop.simps [simp del]

text \<open>One partition: the array, the length of the smaller part and the start of the
  greater part, both counted from \<open>ptr\<close>.\<close>

definition rq_split :: "'a cmp_f \<Rightarrow> nat \<Rightarrow> nat \<Rightarrow> 'a list \<Rightarrow> ('a list \<times> nat \<times> nat) option" where
  "rq_split cmp ptr nmemb xs =
     (let m4 = nmemb div 4; top = ptr + nmemb
      in do {
        m \<leftarrow> med3 cmp xs (ptr + m4) (ptr + 2 * m4) (ptr + 3 * m4);
        xs \<leftarrow> swap_el xs ptr m;
        (xs, plt, pi, pgt) \<leftarrow> part_loop cmp ptr (ptr + 1) (ptr + 1) top top xs;
        let span = plt - ptr;
            span2 = pi - plt;
            lt = (pi - ptr) - (plt - ptr);
            span = (if span > span2 then span2 else span)
        in do {
          xs \<leftarrow> swap_block xs ptr (pi - span) span;
          let span = top - pgt;
              span2 = pgt - pi;
              gt = nmemb - ((pgt - ptr) - (pi - ptr));
              span = (if span > span2 then span2 else span)
          in do {
            xs \<leftarrow> swap_block xs pi (top - span) span;
            Some (xs, lt, gt) } } })"

section \<open>Insertion sort\<close>

function ins_inner :: "'a cmp_f \<Rightarrow> nat \<Rightarrow> nat \<Rightarrow> 'a list \<Rightarrow> 'a list option" where
  "ins_inner cmp ptr pj xs =
     (if pj > ptr then do {
        c \<leftarrow> cmp_at cmp xs (pj - 1) pj;
        if c > 0 then do {
          xs \<leftarrow> swap_el xs pj (pj - 1);
          ins_inner cmp ptr (pj - 1) xs }
        else Some xs }
      else Some xs)"
  by pat_completeness auto
termination
  by (relation "measure (\<lambda>(cmp, ptr, pj, xs). pj)") auto

declare ins_inner.simps [simp del]

function ins_outer :: "'a cmp_f \<Rightarrow> nat \<Rightarrow> nat \<Rightarrow> nat \<Rightarrow> 'a list \<Rightarrow> 'a list option" where
  "ins_outer cmp ptr pi ptop xs =
     (if pi < ptop then do {
        xs \<leftarrow> ins_inner cmp ptr pi xs;
        ins_outer cmp ptr (pi + 1) ptop xs }
      else Some xs)"
  by pat_completeness auto
termination
  by (relation "measure (\<lambda>(cmp, ptr, pi, ptop, xs). ptop - pi)") auto

declare ins_outer.simps [simp del]

section \<open>Permutations within a segment\<close>

text \<open>\<open>ys\<close> has the elements of \<open>xs\<close>, rearranged between \<open>p\<close> and \<open>p + n\<close> only.\<close>

definition seg_perm :: "nat \<Rightarrow> nat \<Rightarrow> 'a list \<Rightarrow> 'a list \<Rightarrow> bool" where
  "seg_perm p n xs ys \<longleftrightarrow>
     length ys = length xs \<and> mset ys = mset xs \<and>
     (\<forall>i<length xs. i < p \<or> p + n \<le> i \<longrightarrow> ys ! i = xs ! i)"

lemma seg_perm_refl [simp]: "seg_perm p n xs xs"
  by (simp add: seg_perm_def)

lemma seg_perm_trans [trans]: "seg_perm p n xs ys \<Longrightarrow> seg_perm p n ys zs \<Longrightarrow> seg_perm p n xs zs"
  by (simp add: seg_perm_def)

lemma seg_perm_mono: "seg_perm p n xs ys \<Longrightarrow> q \<le> p \<Longrightarrow> p + n \<le> q + m \<Longrightarrow> seg_perm q m xs ys"
  by (auto simp: seg_perm_def)

lemma seg_perm_length: "seg_perm p n xs ys \<Longrightarrow> length ys = length xs"
  by (simp add: seg_perm_def)

lemma seg_perm_out: "seg_perm p n xs ys \<Longrightarrow> i < length xs \<Longrightarrow> i < p \<or> p + n \<le> i \<Longrightarrow> ys ! i = xs ! i"
  by (auto simp: seg_perm_def)

lemma seg_perm_elem:
  assumes s: "seg_perm p n xs ys" and pn: "p + n \<le> length xs" and i: "p \<le> i" "i < p + n"
  obtains j where "p \<le> j" "j < p + n" "ys ! i = xs ! j"
proof -
  let ?s = "\<lambda>zs. take n (drop p zs)"
  have split: "zs = take p zs @ ?s zs @ drop (p + n) zs" for zs :: "'a list"
    by (metis append_take_drop_id drop_drop add.commute)
  have "take p ys = take p xs" "drop (p + n) ys = drop (p + n) xs"
    using s pn by (auto intro!: nth_equalityI simp: seg_perm_def)
  moreover have "mset ys = mset xs" using s by (simp add: seg_perm_def)
  ultimately have "mset (?s ys) = mset (?s xs)"
    using arg_cong [OF split [of ys], of mset] arg_cong [OF split [of xs], of mset] by simp
  then have "set (?s ys) = set (?s xs)" by (metis set_mset_mset)
  moreover have "ys ! i \<in> set (?s ys)"
    using i pn seg_perm_length [OF s] by (auto simp: in_set_conv_nth intro!: exI [of _ "i - p"])
  ultimately obtain k where "k < n" "ys ! i = xs ! (p + k)"
    using pn by (auto simp: in_set_conv_nth)
  then show thesis using that [of "p + k"] by simp
qed

lemma swap_el_perm:
  assumes "p \<le> i" "i < p + n" "p \<le> j" "j < p + n" "p + n \<le> length xs"
  shows "swap_el xs i j = Some (xs[i := xs ! j, j := xs ! i])"
    "seg_perm p n xs (xs[i := xs ! j, j := xs ! i])"
proof -
  have "mset (xs[i := xs ! j, j := xs ! i]) = mset xs"
    using assms by (intro mset_swap) auto
  then show "swap_el xs i j = Some (xs[i := xs ! j, j := xs ! i])"
    "seg_perm p n xs (xs[i := xs ! j, j := xs ! i])"
    using assms by (auto simp: swap_el_def seg_perm_def)
qed

lemma cmp_at_in: "i < length xs \<Longrightarrow> j < length xs \<Longrightarrow> cmp_at cmp xs i j = Some (cmp (xs ! i) (xs ! j))"
  by (simp add: cmp_at_def)

lemma exchange_unit_swap:
  assumes "i < length xs" "j < length xs"
  shows "exchange_unit 1 xs i j = swap_el xs i j"
proof -
  have "block_swap 1 xs i j = xs[i := xs ! j, j := xs ! i]"
    by (rule nth_equalityI) (use assms in \<open>auto simp: block_swap_nth nth_list_update\<close>)
  moreover have "exchange_unit 1 xs i j = Some (block_swap 1 xs i j)"
    using assms by (intro exchange_unit_spec) (auto simp: apart_def)
  ultimately show ?thesis using assms by (simp add: swap_el_def)
qed

lemma swap_block_perm:
  assumes "p \<le> i" "i + k \<le> p + n" "p \<le> j" "j + k \<le> p + n" "p + n \<le> length xs"
  shows "\<exists>ys. swap_block xs i j k = Some ys \<and> seg_perm p n xs ys"
  using assms unfolding swap_block_def
proof (induction k arbitrary: xs i j)
  case (Suc k)
  let ?ys = "xs[i := xs ! j, j := xs ! i]"
  have s: "swap_el xs i j = Some ?ys" "seg_perm p n xs ?ys"
    using Suc.prems by (intro swap_el_perm [where p = p and n = n]; simp)+
  have "exchange_unit 1 xs i j = Some ?ys" using s(1) Suc.prems by (subst exchange_unit_swap) auto
  moreover have "\<exists>zs. exchange_units 1 k ?ys (i + 1) (j + 1) = Some zs \<and> seg_perm p n ?ys zs"
    using Suc.prems by (intro Suc.IH) auto
  ultimately show ?case using s(2) by (auto intro: seg_perm_trans)
qed simp

lemma swap_block_spec:
  assumes "i + k \<le> length xs" "j + k \<le> length xs" "apart k i j"
  shows "swap_block xs i j k = Some (block_swap k xs i j)"
  using exchange_units_spec [of i 1 k xs j] assms by (simp add: swap_block_def)

section \<open>The partition\<close>

text \<open>The parts of the segment while it is being partitioned around the value \<open>v\<close> at
  \<open>ptr\<close>: equal, smaller, not yet seen, greater, equal.\<close>

definition part_inv :: "'a cmp_f \<Rightarrow> 'a \<Rightarrow> nat \<Rightarrow> nat \<Rightarrow> nat \<Rightarrow> nat \<Rightarrow> nat \<Rightarrow> nat \<Rightarrow> 'a list \<Rightarrow> bool" where
  "part_inv cmp v ptr plt pi pj pgt ptop xs \<longleftrightarrow>
     ptr < plt \<and> plt \<le> pi \<and> pi \<le> pj \<and> pj \<le> pgt \<and> pgt \<le> ptop \<and> ptop \<le> length xs \<and> xs ! ptr = v \<and>
     (\<forall>k. ptr < k \<and> k < plt \<longrightarrow> cmp v (xs ! k) = 0) \<and>
     (\<forall>k. plt \<le> k \<and> k < pi \<longrightarrow> cmp v (xs ! k) > 0) \<and>
     (\<forall>k. pj \<le> k \<and> k < pgt \<longrightarrow> cmp v (xs ! k) < 0) \<and>
     (\<forall>k. pgt \<le> k \<and> k < ptop \<longrightarrow> cmp v (xs ! k) = 0)"

lemma part_inv_facts:
  assumes "part_inv cmp v ptr plt pi pj pgt ptop xs"
  shows "ptr < plt" "plt \<le> pi" "pi \<le> pj" "pj \<le> pgt" "pgt \<le> ptop" "ptop \<le> length xs" "xs ! ptr = v"
  using assms by (simp_all add: part_inv_def)

lemma part_inv_cmp:
  assumes "part_inv cmp v ptr plt pi pj pgt ptop xs"
  shows "ptr < k \<Longrightarrow> k < plt \<Longrightarrow> cmp v (xs ! k) = 0" "plt \<le> k \<Longrightarrow> k < pi \<Longrightarrow> cmp v (xs ! k) > 0"
    "pj \<le> k \<Longrightarrow> k < pgt \<Longrightarrow> cmp v (xs ! k) < 0" "pgt \<le> k \<Longrightarrow> k < ptop \<Longrightarrow> cmp v (xs ! k) = 0"
  using assms by (simp_all add: part_inv_def)

lemma part_up_spec:
  assumes "part_inv cmp v ptr plt pi pj pgt ptop xs"
  shows "\<exists>ys plt' pi'. part_up cmp ptr plt pi pj xs = Some (ys, plt', pi') \<and>
    seg_perm ptr (ptop - ptr) xs ys \<and> part_inv cmp v ptr plt' pi' pj pgt ptop ys \<and>
    (pi' < pj \<longrightarrow> cmp v (ys ! pi') < 0)"
  using assms
proof (induction cmp ptr plt pi pj xs rule: part_up.induct)
  case (1 cmp ptr plt pi pj xs)
  note f = part_inv_facts [OF 1(3)]
  show ?case
  proof (cases "pi < pj")
    case False
    with 1(3) show ?thesis by (simp add: part_up.simps [of cmp ptr plt pi])
  next
    case lt: True
    have c: "cmp_at cmp xs ptr pi = Some (cmp v (xs ! pi))"
      using f lt by (subst cmp_at_in) auto
    consider "cmp v (xs ! pi) < 0" | "cmp v (xs ! pi) = 0" | "cmp v (xs ! pi) > 0" by linarith
    then show ?thesis
    proof cases
      case 1
      with \<open>part_inv cmp v ptr plt pi pj pgt ptop xs\<close> lt c show ?thesis
        by (simp add: part_up.simps [of cmp ptr plt pi])
    next
      case z: 2
      let ?ys = "xs[plt := xs ! pi, pi := xs ! plt]"
      have sw: "swap_el xs plt pi = Some ?ys" "seg_perm ptr (ptop - ptr) xs ?ys"
        using f lt by (intro swap_el_perm [where p = ptr and n = "ptop - ptr"]; simp)+
      have "part_inv cmp v ptr (plt + 1) (pi + 1) pj pgt ptop ?ys"
        using 1(3) lt z unfolding part_inv_def by (auto simp: nth_list_update less_Suc_eq)
      from 1(1) [OF lt c _ z sw(1) this] z
      obtain zs plt' pi' where "part_up cmp ptr (plt + 1) (pi + 1) pj ?ys = Some (zs, plt', pi')"
        "seg_perm ptr (ptop - ptr) ?ys zs" "part_inv cmp v ptr plt' pi' pj pgt ptop zs"
        "pi' < pj \<longrightarrow> cmp v (zs ! pi') < 0" by auto
      with lt c z sw show ?thesis
        by (auto simp: part_up.simps [of cmp ptr plt pi pj xs] intro: seg_perm_trans)
    next
      case p: 3
      have "part_inv cmp v ptr plt (pi + 1) pj pgt ptop xs"
        using 1(3) lt p unfolding part_inv_def by (auto simp: less_Suc_eq)
      from 1(2) [OF lt c _ _ this] p lt c show ?thesis
        by (simp add: part_up.simps [of cmp ptr plt pi])
    qed
  qed
qed

lemma part_down_spec:
  assumes "part_inv cmp v ptr plt pi pj pgt ptop xs" "pi < pj \<longrightarrow> cmp v (xs ! pi) < 0"
  shows "\<exists>ys pj' pgt'. part_down cmp ptr pi pj pgt xs = Some (ys, pj', pgt') \<and>
    seg_perm ptr (ptop - ptr) xs ys \<and> part_inv cmp v ptr plt pi (pj' + 1) pgt' ptop ys \<and>
    (pi < pj' + 1 \<longrightarrow> cmp v (ys ! pi) < 0) \<and> (pi < pj' \<longrightarrow> cmp v (ys ! pj') > 0)"
  using assms
proof (induction cmp ptr pi pj pgt xs rule: part_down.induct)
  case (1 cmp ptr pi pj pgt xs)
  note inv = 1(3) and f = part_inv_facts [OF 1(3)]
  have pj: "0 < pj" using f by simp
  have u: "assert_c (0 < pj) = Some ()" using pj by simp
  show ?case
  proof (cases "pi < pj - 1")
    case False
    then show ?thesis using 1(3,4) pj f by (auto simp: part_down.simps [of cmp ptr pi pj])
  next
    case lt: True
    have c: "cmp_at cmp xs ptr (pj - 1) = Some (cmp v (xs ! (pj - 1)))"
      using f lt by (subst cmp_at_in) auto
    have pi0: "cmp v (xs ! pi) < 0" using 1(4) lt by auto
    consider "cmp v (xs ! (pj - 1)) > 0" | "cmp v (xs ! (pj - 1)) = 0" | "cmp v (xs ! (pj - 1)) < 0"
      by linarith
    then show ?thesis
    proof cases
      case p: 1
      with inv lt c pj pi0 show ?thesis by (auto simp: part_down.simps [of cmp ptr pi pj] Let_def)
    next
      case z: 2
      let ?ys = "xs[pgt - 1 := xs ! (pj - 1), pj - 1 := xs ! (pgt - 1)]"
      have sw: "swap_el xs (pgt - 1) (pj - 1) = Some ?ys" "seg_perm ptr (ptop - ptr) xs ?ys"
        using f lt by (intro swap_el_perm [where p = ptr and n = "ptop - ptr"]; simp)+
      have inv': "part_inv cmp v ptr plt pi (pj - 1) (pgt - 1) ptop ?ys"
      proof -
        have g: "cmp v (?ys ! k) < 0" if k: "pj - 1 \<le> k" "k < pgt - 1" for k
        proof (cases "k = pj - 1")
          case True
          then have "?ys ! k = xs ! (pgt - 1)" using f k by simp
          moreover have "pj \<le> pgt - 1" using True k by simp
          ultimately show ?thesis using inv k unfolding part_inv_def by auto
        next
          case False
          then have "?ys ! k = xs ! k" using k by simp
          then show ?thesis using part_inv_cmp(3) [OF inv, of k] False k by simp
        qed
        have e: "cmp v (?ys ! k) = 0" if k: "pgt - 1 \<le> k" "k < ptop" for k
        proof (cases "k = pgt - 1")
          case True
          have "?ys ! k = xs ! (pj - 1)"
            using True k f lt by (cases "pgt - 1 = pj - 1") simp_all
          then show ?thesis using z by simp
        next
          case False
          then have "?ys ! k = xs ! k" using k f lt by simp
          then show ?thesis using part_inv_cmp(4) [OF inv, of k] False k by simp
        qed
        have low: "?ys ! k = xs ! k" if "k \<le> pi" for k using that f lt by simp
        show ?thesis using inv lt g e f low unfolding part_inv_def by auto
      qed
      have pi': "pi < pj - 1 \<longrightarrow> cmp v (?ys ! pi) < 0" using pi0 lt f by simp
      from 1(1) [OF u refl lt c _ z sw(1) inv' pi'] z
      obtain zs pj' pgt' where "part_down cmp ptr pi (pj - 1) (pgt - 1) ?ys = Some (zs, pj', pgt')"
        "seg_perm ptr (ptop - ptr) ?ys zs" "part_inv cmp v ptr plt pi (pj' + 1) pgt' ptop zs"
        "pi < pj' + 1 \<longrightarrow> cmp v (zs ! pi) < 0" "pi < pj' \<longrightarrow> cmp v (zs ! pj') > 0" by auto
      moreover from this have "part_down cmp ptr pi pj pgt xs = Some (zs, pj', pgt')"
        using lt c z sw(1) pj by (simp add: part_down.simps [of cmp ptr pi pj] Let_def)
      ultimately show ?thesis using seg_perm_trans [OF sw(2)] by blast
    next
      case n: 3
      have inv': "part_inv cmp v ptr plt pi (pj - 1) pgt ptop xs"
      proof -
        have "cmp v (xs ! k) < 0" if "pj - 1 \<le> k" "k < pgt" for k
          using that n inv unfolding part_inv_def by (cases "k = pj - 1") auto
        then show ?thesis using inv lt f unfolding part_inv_def by auto
      qed
      have "part_down cmp ptr pi pj pgt xs = part_down cmp ptr pi (pj - 1) pgt xs"
        using lt c n pj by (simp add: part_down.simps [of cmp ptr pi pj] Let_def)
      with 1(2) [OF u refl lt c _ _ inv'] n pi0 show ?thesis by simp
    qed
  qed
qed

lemma part_loop_spec:
  assumes "part_inv cmp v ptr plt pi pj pgt ptop xs"
  shows "\<exists>ys plt' pi' pgt'. part_loop cmp ptr plt pi pj pgt xs = Some (ys, plt', pi', pgt') \<and>
    seg_perm ptr (ptop - ptr) xs ys \<and> part_inv cmp v ptr plt' pi' pi' pgt' ptop ys"
  using assms
proof (induction cmp ptr plt pi pj pgt xs rule: part_loop.induct)
  case (1 cmp ptr plt pi pj pgt xs)
  obtain ys plt1 pi1 where up: "part_up cmp ptr plt pi pj xs = Some (ys, plt1, pi1)"
    "seg_perm ptr (ptop - ptr) xs ys" "part_inv cmp v ptr plt1 pi1 pj pgt ptop ys"
    "pi1 < pj \<longrightarrow> cmp v (ys ! pi1) < 0"
    using part_up_spec [OF 1(2)] by blast
  obtain zs pj1 pgt1 where dn: "part_down cmp ptr pi1 pj pgt ys = Some (zs, pj1, pgt1)"
    "seg_perm ptr (ptop - ptr) ys zs" "part_inv cmp v ptr plt1 pi1 (pj1 + 1) pgt1 ptop zs"
    "pi1 < pj1 + 1 \<longrightarrow> cmp v (zs ! pi1) < 0" "pi1 < pj1 \<longrightarrow> cmp v (zs ! pj1) > 0"
    using part_down_spec [OF up(3,4)] by blast
  have xz: "seg_perm ptr (ptop - ptr) xs zs" using up(2) dn(2) by (rule seg_perm_trans)
  note f = part_inv_facts [OF dn(3)]
  show ?case
  proof (cases "pi1 \<ge> pj1")
    case True
    have "cmp v (zs ! k) < 0" if "pi1 \<le> k" "k < pgt1" for k
      using that True dn(3,4) unfolding part_inv_def by (cases "k = pi1") auto
    then have "part_inv cmp v ptr plt1 pi1 pi1 pgt1 ptop zs"
      using dn(3) True unfolding part_inv_def by auto
    with True up(1) dn(1) xz show ?thesis by (simp add: part_loop.simps [of cmp ptr plt pi])
  next
    case False
    let ?ws = "zs[pi1 := zs ! pj1, pj1 := zs ! pi1]"
    have sw: "swap_el zs pi1 pj1 = Some ?ws" "seg_perm ptr (ptop - ptr) zs ?ws"
      using f False by (intro swap_el_perm [where p = ptr and n = "ptop - ptr"]; simp)+
    have "part_inv cmp v ptr plt1 (pi1 + 1) pj1 pgt1 ptop ?ws"
      using dn(3-5) False unfolding part_inv_def by (auto simp: nth_list_update less_Suc_eq)
    from 1(1) [OF up(1) refl refl dn(1) refl refl _ sw(1) this] False
    obtain us plt' pi' pgt' where "part_loop cmp ptr plt1 (pi1 + 1) pj1 pgt1 ?ws = Some (us, plt', pi', pgt')"
      "seg_perm ptr (ptop - ptr) ?ws us" "part_inv cmp v ptr plt' pi' pi' pgt' ptop us" by auto
    moreover from this have "part_loop cmp ptr plt pi pj pgt xs = Some (us, plt', pi', pgt')"
      using up(1) dn(1) sw(1) False by (simp add: part_loop.simps [of cmp ptr plt pi])
    ultimately show ?thesis using seg_perm_trans [OF xz seg_perm_trans [OF sw(2)]] by blast
  qed
qed

section \<open>One partition\<close>

lemma part_down_pgt: "part_down cmp ptr pi pj pgt xs = Some (xs', pj', pgt') \<Longrightarrow> pgt' \<le> pgt"
proof (induction cmp ptr pi pj pgt xs rule: part_down.induct)
  case (1 cmp ptr pi pj pgt xs)
  then have pj: "0 < pj"
    by (auto simp: part_down.simps [of cmp ptr pi pj] split: Option.bind_splits)
  have u: "assert_c (0 < pj) = Some ()" using pj by simp
  show ?case
  proof (cases "pi < pj - 1 \<and> (\<exists>c\<le>0. cmp_at cmp xs ptr (pj - 1) = Some c)")
    case False
    with 1(3) pj show ?thesis
      by (auto simp: part_down.simps [of cmp ptr pi pj] Let_def split: if_splits Option.bind_splits)
  next
    case True
    then obtain c where c: "pi < pj - 1" "cmp_at cmp xs ptr (pj - 1) = Some c" "c \<le> 0" by blast
    show ?thesis
    proof (cases "c = 0")
      case z: True
      with 1(3) c pj obtain ys where ys: "swap_el xs (pgt - 1) (pj - 1) = Some ys"
        "part_down cmp ptr pi (pj - 1) (pgt - 1) ys = Some (xs', pj', pgt')"
        by (auto simp: part_down.simps [of cmp ptr pi pj] Let_def split: Option.bind_splits)
      from 1(1) [OF u refl c z ys] show ?thesis by simp
    next
      case False
      then have "part_down cmp ptr pi (pj - 1) pgt xs = Some (xs', pj', pgt')"
        using 1(3) c pj by (simp add: part_down.simps [of cmp ptr pi pj] Let_def)
      from 1(2) [OF u refl c False this] show ?thesis by simp
    qed
  qed
qed

lemma part_loop_bounds:
  assumes "part_loop cmp ptr plt pi pj pgt xs = Some (ys, plt', pi', pgt')"
    and "plt \<le> pi" "pi \<le> ptop" "pj \<le> ptop" "pgt \<le> ptop"
  shows "plt \<le> plt' \<and> plt' \<le> pi' \<and> pi' \<le> ptop \<and> pgt' \<le> ptop"
  using assms
proof (induction cmp ptr plt pi pj pgt xs rule: part_loop.induct)
  case (1 cmp ptr plt pi pj pgt xs)
  from 1(2) obtain xs1 plt1 pi1 where up: "part_up cmp ptr plt pi pj xs = Some (xs1, plt1, pi1)"
    by (auto simp: part_loop.simps [of cmp ptr plt pi] split: option.splits)
  with 1(2) obtain xs2 pj1 pgt1 where dn: "part_down cmp ptr pi1 pj pgt xs1 = Some (xs2, pj1, pgt1)"
    by (auto simp: part_loop.simps [of cmp ptr plt pi] split: option.splits)
  have b: "plt \<le> plt1" "plt1 \<le> pi1" "pi1 \<le> ptop" "pj1 < pj" "pgt1 \<le> ptop"
    using part_up_bounds [OF up 1(3)] part_down_less [OF dn] part_down_pgt [OF dn] 1(4-6) by auto
  show ?case
  proof (cases "pi1 \<ge> pj1")
    case True
    with 1(2) up dn b show ?thesis by (auto simp: part_loop.simps [of cmp ptr plt pi])
  next
    case False
    with 1(2) up dn obtain xs3 where sw: "swap_el xs2 pi1 pj1 = Some xs3"
      "part_loop cmp ptr plt1 (pi1 + 1) pj1 pgt1 xs3 = Some (ys, plt', pi', pgt')"
      by (auto simp: part_loop.simps [of cmp ptr plt pi] split: Option.bind_splits)
    from 1(1) [OF up refl refl dn refl refl False sw] b False 1(5) show ?thesis by auto
  qed
qed

lemma rq_split_less:
  assumes "rq_split cmp ptr nmemb xs = Some (ys, lt, gt)" "0 < nmemb"
  shows "lt + (nmemb - gt) < nmemb"
proof -
  from assms(1) obtain zs us plt pi pgt where
    l: "part_loop cmp ptr (ptr + 1) (ptr + 1) (ptr + nmemb) (ptr + nmemb) zs = Some (us, plt, pi, pgt)"
    and lt: "lt = (pi - ptr) - (plt - ptr)" and gt: "gt = nmemb - ((pgt - ptr) - (pi - ptr))"
    by (auto simp: rq_split_def Let_def split: Option.bind_splits)
  have "ptr + 1 \<le> plt \<and> plt \<le> pi \<and> pi \<le> ptr + nmemb \<and> pgt \<le> ptr + nmemb"
    by (rule part_loop_bounds [OF l]) (use assms(2) in auto)
  then show ?thesis unfolding lt gt using assms(2) by auto
qed

lemma med3_range:
  assumes "a < length xs" "b < length xs" "c < length xs"
  shows "\<exists>m. med3 cmp xs a b c = Some m \<and> m \<in> {a, b, c}"
  using assms by (auto simp: med3_def cmp_at_in)

text \<open>Moving a run at the front behind the run that follows it, by exchanging only the
  shorter of the two: what stood in the second run now stands first.\<close>

lemma rotate_runs:
  assumes "p \<le> q" "q \<le> r" "r \<le> length xs"
  defines "k \<equiv> (if q - p > r - q then r - q else q - p)"
  shows "\<exists>ys. swap_block xs p (r - k) k = Some ys \<and> seg_perm p (r - p) xs ys \<and>
    (\<forall>i. p \<le> i \<and> i < p + (r - q) \<longrightarrow> (\<exists>j. q \<le> j \<and> j < r \<and> ys ! i = xs ! j)) \<and>
    (\<forall>i. p + (r - q) \<le> i \<and> i < r \<longrightarrow> (\<exists>j. p \<le> j \<and> j < q \<and> ys ! i = xs ! j))"
proof -
  let ?ys = "block_swap k xs p (r - k)"
  have k: "p + k \<le> r - k" "k \<le> q - p" "k \<le> r - q" "k = q - p \<or> k = r - q" "k \<le> r"
    using assms unfolding k_def by (auto split: if_splits)
  note le3 = assms(1-3)
  have s: "swap_block xs p (r - k) k = Some ?ys"
    using k le3 by (intro swap_block_spec) (simp_all add: apart_def)
  obtain zs where "swap_block xs p (r - k) k = Some zs" "seg_perm p (r - p) xs zs"
    using swap_block_perm [of p p k "r - p" "r - k" xs] k le3 by auto
  with s have perm: "seg_perm p (r - p) xs ?ys" by simp
  have ap: "apart k p (r - k)" using k by (auto simp: apart_def)
  have le: "p + k \<le> length xs" "r - k + k \<le> length xs" using k le3 by auto
  note b = block_swap_blocks [OF le ap]
  have front: "\<exists>j. q \<le> j \<and> j < r \<and> ?ys ! i = xs ! j" if "p \<le> i" "i < p + (r - q)" for i
  proof (cases "i < p + k")
    case True
    then have "?ys ! i = xs ! (r - k + (i - p))" using b(1) [of "i - p"] that(1) by simp
    then show ?thesis using True that k le3 by (intro exI [of _ "r - k + (i - p)"]) auto
  next
    case False
    then have "?ys ! i = xs ! i" using that k le3 by (intro b(3)) auto
    then show ?thesis using False that k le3 by (intro exI [of _ i]) auto
  qed
  have rear: "\<exists>j. p \<le> j \<and> j < q \<and> ?ys ! i = xs ! j" if "p + (r - q) \<le> i" "i < r" for i
  proof (cases "r - k \<le> i")
    case True
    then have "?ys ! i = xs ! (p + (i - (r - k)))" using b(2) [of "i - (r - k)"] that(2) k(5) by simp
    then show ?thesis using True that k by (intro exI [of _ "p + (i - (r - k))"]) auto
  next
    case False
    then have "?ys ! i = xs ! i" using that k le3 by (intro b(3)) auto
    then show ?thesis using False that k le3 by (intro exI [of _ i]) auto
  qed
  show ?thesis using s perm front rear by blast
qed

text \<open>The result of one partition around some value \<open>v\<close>.\<close>

definition split_ok :: "'a cmp_f \<Rightarrow> 'a \<Rightarrow> nat \<Rightarrow> nat \<Rightarrow> nat \<Rightarrow> nat \<Rightarrow> 'a list \<Rightarrow> bool" where
  "split_ok cmp v ptr nmemb lt gt ys \<longleftrightarrow>
     lt \<le> gt \<and> gt \<le> nmemb \<and>
     (\<forall>i. ptr \<le> i \<and> i < ptr + lt \<longrightarrow> cmp v (ys ! i) > 0) \<and>
     (\<forall>i. ptr + lt \<le> i \<and> i < ptr + gt \<longrightarrow> cmp v (ys ! i) = 0 \<or> ys ! i = v) \<and>
     (\<forall>i. ptr + gt \<le> i \<and> i < ptr + nmemb \<longrightarrow> cmp v (ys ! i) < 0)"

lemma rq_split_spec:
  assumes n: "0 < nmemb" and len: "ptr + nmemb \<le> length xs"
  shows "\<exists>ys lt gt v. rq_split cmp ptr nmemb xs = Some (ys, lt, gt) \<and>
    seg_perm ptr nmemb xs ys \<and> split_ok cmp v ptr nmemb lt gt ys"
proof -
  let ?m4 = "nmemb div 4" and ?top = "ptr + nmemb"
  have q: "3 * ?m4 < nmemb" using n by (cases "?m4 = 0") auto
  obtain m where m: "med3 cmp xs (ptr + ?m4) (ptr + 2 * ?m4) (ptr + 3 * ?m4) = Some m"
    "ptr \<le> m" "m < ?top"
    using q med3_range [of "ptr + ?m4" xs "ptr + 2 * ?m4" "ptr + 3 * ?m4" cmp] n len by auto
  let ?x1 = "xs[ptr := xs ! m, m := xs ! ptr]"
  have x1: "swap_el xs ptr m = Some ?x1" "seg_perm ptr nmemb xs ?x1"
    using m n len by (intro swap_el_perm [where p = ptr and n = nmemb]; simp)+
  define v where "v = ?x1 ! ptr"
  have "part_inv cmp v ptr (ptr + 1) (ptr + 1) ?top ?top ?top ?x1"
    using n len by (auto simp: part_inv_def v_def)
  from part_loop_spec [OF this] obtain x2 plt pi pgt where
    x2: "part_loop cmp ptr (ptr + 1) (ptr + 1) ?top ?top ?x1 = Some (x2, plt, pi, pgt)"
      "seg_perm ptr nmemb ?x1 x2" "part_inv cmp v ptr plt pi pi pgt ?top x2"
    by auto
  note f = part_inv_facts [OF x2(3)] and c = part_inv_cmp [OF x2(3)]
  let ?k = "if plt - ptr > pi - plt then pi - plt else plt - ptr"
  obtain x3 where x3: "swap_block x2 ptr (pi - ?k) ?k = Some x3" "seg_perm ptr (pi - ptr) x2 x3"
    "\<And>i. ptr \<le> i \<Longrightarrow> i < ptr + (pi - plt) \<Longrightarrow> \<exists>j. plt \<le> j \<and> j < pi \<and> x3 ! i = x2 ! j"
    "\<And>i. ptr + (pi - plt) \<le> i \<Longrightarrow> i < pi \<Longrightarrow> \<exists>j. ptr \<le> j \<and> j < plt \<and> x3 ! i = x2 ! j"
    using rotate_runs [of ptr plt pi x2] f by auto
  let ?l = "if ?top - pgt > pgt - pi then pgt - pi else ?top - pgt"
  let ?l' = "if pgt - pi > ?top - pgt then ?top - pgt else pgt - pi"
  have l: "?l = ?l'" by auto
  have len3: "length x3 = length x2" using x3(2) by (rule seg_perm_length)
  obtain x4 where x4: "swap_block x3 pi (?top - ?l) ?l = Some x4" "seg_perm pi (?top - pi) x3 x4"
    "\<And>i. pi \<le> i \<Longrightarrow> i < pi + (?top - pgt) \<Longrightarrow> \<exists>j. pgt \<le> j \<and> j < ?top \<and> x4 ! i = x3 ! j"
    "\<And>i. pi + (?top - pgt) \<le> i \<Longrightarrow> i < ?top \<Longrightarrow> \<exists>j. pi \<le> j \<and> j < pgt \<and> x4 ! i = x3 ! j"
    using rotate_runs [of pi pgt ?top x3] f len3 unfolding l by auto
  have out3: "x3 ! j = x2 ! j" if "pi \<le> j" "j < ?top" for j
    using that f by (intro seg_perm_out [OF x3(2)]) auto
  have out4: "x4 ! j = x3 ! j" if "j < pi" for j
    using that f len3 by (intro seg_perm_out [OF x4(2)]) auto
  let ?lt = "(pi - ptr) - (plt - ptr)" and ?gt = "nmemb - ((pgt - ptr) - (pi - ptr))"
  have lt: "?lt = pi - plt" "ptr + ?gt = pi + (?top - pgt)" using f by auto
  have run: "rq_split cmp ptr nmemb xs = Some (x4, ?lt, ?gt)"
    using m x1 x2 x3(1) x4(1) by (simp add: rq_split_def Let_def)
  have perm: "seg_perm ptr nmemb xs x4"
    using x1(2) x2(2) seg_perm_mono [OF x3(2), of ptr nmemb] seg_perm_mono [OF x4(2), of ptr nmemb] f
    by (auto intro: seg_perm_trans)
  have less: "cmp v (x4 ! i) > 0" if i: "ptr \<le> i" "i < ptr + ?lt" for i
  proof -
    obtain j where "plt \<le> j" "j < pi" "x3 ! i = x2 ! j" using x3(3) [OF i(1) i(2) [unfolded lt(1)]] by auto
    moreover have "x4 ! i = x3 ! i" using i f by (intro out4) auto
    ultimately show ?thesis using c(2) by simp
  qed
  have eq: "cmp v (x4 ! i) = 0 \<or> x4 ! i = v" if i: "ptr + ?lt \<le> i" "i < ptr + ?gt" for i
  proof (cases "i < pi")
    case True
    then obtain j where "ptr \<le> j" "j < plt" "x3 ! i = x2 ! j" using x3(4) [OF i(1) [unfolded lt(1)] True] by auto
    then show ?thesis using out4 [OF True] c(1) [of j] f(7) by (cases "j = ptr") auto
  next
    case False
    then obtain j where "pgt \<le> j" "j < ?top" "x4 ! i = x3 ! j" using x4(3) [OF _ i(2) [unfolded lt(2)]] False by auto
    then show ?thesis using out3 [of j] c(4) [of j] f by auto
  qed
  have greater: "cmp v (x4 ! i) < 0" if i: "ptr + ?gt \<le> i" "i < ?top" for i
  proof -
    obtain j where "pi \<le> j" "j < pgt" "x4 ! i = x3 ! j" using x4(4) [OF i(1) [unfolded lt(2)] i(2)] by auto
    then show ?thesis using out3 [of j] c(3) [of j] f by auto
  qed
  have "split_ok cmp v ptr nmemb ?lt ?gt x4"
    unfolding split_ok_def using less eq greater f by auto
  with run perm show ?thesis by blast
qed

section \<open>The sort\<close>

text \<open>\<open>stack\<close> is the list of pending segments, the last one pushed first; its capacity is
  50.  \<open>rq_pop\<close> is the outer loop, \<open>rq_seg\<close> the inner one.\<close>

definition rq_push :: "(nat \<times> nat \<times> nat) \<Rightarrow> (nat \<times> nat \<times> nat) list \<Rightarrow> (nat \<times> nat \<times> nat) list option" where
  "rq_push e st = (if length st < 50 then Some (e # st) else None)"

definition pending :: "(nat \<times> nat \<times> nat) list \<Rightarrow> nat" where
  "pending st = sum_list (map (\<lambda>(ptr, nmemb, depth). 2 * nmemb + 1) st)"

function rq_pop :: "'a cmp_f \<Rightarrow> (nat \<times> nat \<times> nat) list \<Rightarrow> 'a list \<Rightarrow> 'a list option"
  and rq_seg :: "'a cmp_f \<Rightarrow> (nat \<times> nat \<times> nat) list \<Rightarrow> nat \<Rightarrow> nat \<Rightarrow> nat \<Rightarrow> 'a list \<Rightarrow> 'a list option" where
  "rq_pop cmp st xs =
     (case st of
        [] \<Rightarrow> Some xs
      | (ptr, nmemb, depth) # st \<Rightarrow> rq_seg cmp st ptr nmemb depth xs)"
| "rq_seg cmp st ptr nmemb depth xs =
     (if nmemb > 6 then
        (if depth + 1 > 50 then do {
           xs \<leftarrow> heapsortx cmp ptr nmemb xs;
           xs \<leftarrow> ins_outer cmp ptr (ptr + 1) ptr xs;
           rq_pop cmp st xs }
         else (case rq_split cmp ptr nmemb xs of
             None \<Rightarrow> None
           | Some (xs, lt, gt) \<Rightarrow>
               if lt > nmemb - gt then do {
                 st \<leftarrow> rq_push (ptr, lt, depth + 1) st;
                 rq_seg cmp st (ptr + gt) (nmemb - gt) (depth + 1) xs }
               else do {
                 st \<leftarrow> rq_push (ptr + gt, nmemb - gt, depth + 1) st;
                 rq_seg cmp st ptr lt (depth + 1) xs }))
      else do {
        xs \<leftarrow> ins_outer cmp ptr (ptr + 1) (ptr + nmemb) xs;
        rq_pop cmp st xs })"
  by pat_completeness auto

termination
proof (relation "measure (case_sum (\<lambda>(cmp, st, xs). 2 * pending st + 1)
    (\<lambda>(cmp, st, ptr, nmemb, depth, xs). 2 * (pending st + 2 * nmemb + 1)))", goal_cases)
  case (4 cmp st ptr nmemb depth xs x2 ys y lt gt st')
  from rq_split_less [of cmp ptr nmemb xs ys lt gt] 4 show ?case
    by (auto simp: pending_def rq_push_def split: if_splits)
next
  case (5 cmp st ptr nmemb depth xs x2 ys y lt gt st')
  from rq_split_less [of cmp ptr nmemb xs ys lt gt] 5 show ?case
    by (auto simp: pending_def rq_push_def split: if_splits)
qed (auto simp: pending_def)

declare rq_pop.simps [simp del] rq_seg.simps [simp del]

definition rqsort :: "'a cmp_f \<Rightarrow> nat \<Rightarrow> nat \<Rightarrow> 'a list \<Rightarrow> 'a list option" where
  "rqsort cmp base nmemb xs =
     (if nmemb < 2 then Some xs else rq_pop cmp [(base, nmemb, 0)] xs)"

section \<open>Heapsort and insertion sort rearrange their segment\<close>

lemma heap_child:
  assumes "base + n \<le> length xs" "l < n"
  obtains c where "c = l \<or> c = l + 1" "c < n"
    "(if l < n - 1
      then map_option (\<lambda>d. if d \<le> 0 then l + 1 else l) (cmp_at cmp xs (base + l) (base + l + 1))
      else Some l) = Some c"
    "c = l \<Longrightarrow> l + 1 < n \<Longrightarrow> cmp (xs ! (base + l)) (xs ! (base + (l + 1))) > 0"
    "c = l + 1 \<Longrightarrow> cmp (xs ! (base + l)) (xs ! (base + (l + 1))) \<le> 0"
proof (cases "l < n - 1 \<and> cmp (xs ! (base + l)) (xs ! (base + (l + 1))) \<le> 0")
  case True
  then have "l + 1 < n" by linarith
  with True show thesis using assms that [of "l + 1"] by (simp add: cmp_at_def)
next
  case False
  then show thesis using assms that [of l] by (cases "l < n - 1") (auto simp: cmp_at_def)
qed

text \<open>One step of the sift: it stops, or it moves down to a child \<open>c\<close> that is at least as
  great as its sibling.\<close>

lemma heap_sift_cases:
  assumes "base + n \<le> length xs"
  obtains (leaf) "n \<le> r * 2 + 1" "heap_sift cmp base n r xs = Some xs"
  | (stop) c where "c = r * 2 + 1 \<or> c = r * 2 + 2" "c < n"
      "\<forall>d. (d = r * 2 + 1 \<or> d = r * 2 + 2) \<and> d < n \<and> d \<noteq> c \<longrightarrow>
        cmp (xs ! (base + c)) (xs ! (base + d)) > 0 \<or> cmp (xs ! (base + d)) (xs ! (base + c)) \<le> 0"
      "cmp (xs ! (base + r)) (xs ! (base + c)) > 0" "heap_sift cmp base n r xs = Some xs"
  | (down) c where "c = r * 2 + 1 \<or> c = r * 2 + 2" "c < n"
      "\<forall>d. (d = r * 2 + 1 \<or> d = r * 2 + 2) \<and> d < n \<and> d \<noteq> c \<longrightarrow>
        cmp (xs ! (base + c)) (xs ! (base + d)) > 0 \<or> cmp (xs ! (base + d)) (xs ! (base + c)) \<le> 0"
      "cmp (xs ! (base + r)) (xs ! (base + c)) \<le> 0"
      "heap_sift cmp base n r xs = heap_sift cmp base n c (xs[base + r := xs ! (base + c), base + c := xs ! (base + r)])"
proof (cases "r * 2 + 1 < n")
  case False
  then show thesis by (intro leaf) (simp_all add: heap_sift.simps [of cmp base n r])
next
  case True
  obtain c where c: "c = r * 2 + 1 \<or> c = r * 2 + 1 + 1" "c < n"
    "(if r * 2 + 1 < n - 1
      then map_option (\<lambda>d. if d \<le> 0 then r * 2 + 1 + 1 else r * 2 + 1)
        (cmp_at cmp xs (base + (r * 2 + 1)) (base + (r * 2 + 1) + 1))
      else Some (r * 2 + 1)) = Some c"
    "c = r * 2 + 1 \<Longrightarrow> r * 2 + 1 + 1 < n \<Longrightarrow> cmp (xs ! (base + (r * 2 + 1))) (xs ! (base + (r * 2 + 1 + 1))) > 0"
    "c = r * 2 + 1 + 1 \<Longrightarrow> cmp (xs ! (base + (r * 2 + 1))) (xs ! (base + (r * 2 + 1 + 1))) \<le> 0"
    using heap_child [OF assms True] by blast
  have c12: "c = r * 2 + 1 \<or> c = r * 2 + 2" "r < c" using c(1) by auto
  have sib: "\<forall>d. (d = r * 2 + 1 \<or> d = r * 2 + 2) \<and> d < n \<and> d \<noteq> c \<longrightarrow>
      cmp (xs ! (base + c)) (xs ! (base + d)) > 0 \<or> cmp (xs ! (base + d)) (xs ! (base + c)) \<le> 0"
    using c(1,4,5) by auto
  have at: "cmp_at cmp xs (base + r) (base + c) = Some (cmp (xs ! (base + r)) (xs ! (base + c)))"
    using assms c(2) c12(2) by (intro cmp_at_in) auto
  have sw: "swap_el xs (base + r) (base + c) = Some (xs[base + r := xs ! (base + c), base + c := xs ! (base + r)])"
    using assms c(2) c12(2) by (simp add: swap_el_def)
  have step: "heap_sift cmp base n r xs =
      (if cmp (xs ! (base + r)) (xs ! (base + c)) > 0 then Some xs
       else heap_sift cmp base n c (xs[base + r := xs ! (base + c), base + c := xs ! (base + r)]))"
    unfolding heap_sift.simps [of cmp base n r] Let_def c(3) using True at sw by simp
  show thesis
  proof (cases "cmp (xs ! (base + r)) (xs ! (base + c)) > 0")
    case True
    then show thesis using c12(1) c(2) sib step by (intro stop [of c]) auto
  next
    case False
    then show thesis using c12(1) c(2) sib step by (intro down [of c]) auto
  qed
qed

lemma heap_sift_perm:
  assumes "base + n \<le> length xs"
  shows "\<exists>ys. heap_sift cmp base n r xs = Some ys \<and> seg_perm base n xs ys"
  using assms
proof (induction "n - r" arbitrary: r xs rule: less_induct)
  case less
  from less.prems show ?case
  proof (cases rule: heap_sift_cases [of base n xs r cmp])
    case (down c)
    let ?ys = "xs[base + r := xs ! (base + c), base + c := xs ! (base + r)]"
    have lt: "r < c" using down(1) by auto
    have p: "seg_perm base n xs ?ys"
      using lt down(2) less.prems by (intro swap_el_perm(2) [where p = base and n = n]) auto
    have "\<exists>zs. heap_sift cmp base n c ?ys = Some zs \<and> seg_perm base n ?ys zs"
      using lt down(2) less.prems by (intro less.hyps) auto
    with down(5) p show ?thesis by (auto intro: seg_perm_trans)
  qed auto
qed

lemma heap_build_perm:
  "base + n \<le> length xs \<Longrightarrow> \<exists>ys. heap_build cmp base n i xs = Some ys \<and> seg_perm base n xs ys"
proof (induction i arbitrary: xs)
  case (Suc i)
  obtain ys where ys: "heap_sift cmp base n i xs = Some ys" "seg_perm base n xs ys"
    using heap_sift_perm [OF Suc.prems] by blast
  have "base + n \<le> length ys" using seg_perm_length [OF ys(2)] Suc.prems by simp
  from Suc.IH [OF this] ys show ?case by (auto intro: seg_perm_trans)
qed simp

lemma heap_extract_perm:
  "base + Suc i \<le> length xs \<Longrightarrow> \<exists>ys. heap_extract cmp base i xs = Some ys \<and> seg_perm base (Suc i) xs ys"
proof (induction i arbitrary: xs)
  case (Suc i)
  let ?ys = "xs[base := xs ! (base + Suc i), base + Suc i := xs ! base]"
  have y: "swap_el xs base (base + Suc i) = Some ?ys" "seg_perm base (Suc (Suc i)) xs ?ys"
    using Suc.prems by (intro swap_el_perm [where p = base and n = "Suc (Suc i)"]; simp)+
  obtain zs where z: "heap_sift cmp base (Suc i) 0 ?ys = Some zs" "seg_perm base (Suc i) ?ys zs"
    using heap_sift_perm [of base "Suc i" ?ys cmp 0] Suc.prems by auto
  have "base + Suc i \<le> length zs" using seg_perm_length [OF z(2)] Suc.prems by simp
  from Suc.IH [OF this] obtain us where u: "heap_extract cmp base i zs = Some us" "seg_perm base (Suc i) zs us"
    by blast
  have "seg_perm base (Suc (Suc i)) ?ys us"
    using seg_perm_trans [OF z(2) u(2)] by (rule seg_perm_mono) simp_all
  then show ?case using y z(1) u(1) by (auto intro: seg_perm_trans)
qed simp

lemma heapsortx_perm:
  assumes "base + n \<le> length xs"
  shows "\<exists>ys. heapsortx cmp base n xs = Some ys \<and> seg_perm base n xs ys"
proof (cases "n > 1")
  case True
  obtain ys where y: "heap_build cmp base n (n div 2) xs = Some ys" "seg_perm base n xs ys"
    using heap_build_perm [OF assms] by blast
  have "base + Suc (n - 1) \<le> length ys" using seg_perm_length [OF y(2)] assms True by simp
  from heap_extract_perm [OF this, of cmp] y True show ?thesis
    by (auto simp: heapsortx_def intro: seg_perm_trans)
qed (simp add: heapsortx_def)

lemma ins_inner_perm:
  assumes "p \<le> ptr" "pj < p + n" "p + n \<le> length xs"
  shows "\<exists>ys. ins_inner cmp ptr pj xs = Some ys \<and> seg_perm p n xs ys"
  using assms
proof (induction pj arbitrary: xs)
  case (Suc pj)
  show ?case
  proof (cases "Suc pj > ptr \<and> cmp (xs ! pj) (xs ! Suc pj) > 0")
    case True
    let ?ys = "xs[Suc pj := xs ! pj, pj := xs ! Suc pj]"
    have y: "swap_el xs (Suc pj) pj = Some ?ys" "seg_perm p n xs ?ys"
      using Suc.prems True by (intro swap_el_perm [where p = p and n = n]; simp)+
    have "\<exists>zs. ins_inner cmp ptr pj ?ys = Some zs \<and> seg_perm p n ?ys zs"
      using Suc.prems by (intro Suc.IH) auto
    with y True Suc.prems show ?thesis
      by (auto simp: ins_inner.simps [of cmp ptr "Suc pj"] cmp_at_def intro: seg_perm_trans)
  next
    case False
    with Suc.prems show ?thesis
      by (auto simp: ins_inner.simps [of cmp ptr "Suc pj"] cmp_at_def)
  qed
qed (simp add: ins_inner.simps [of _ _ 0])

lemma ins_outer_perm:
  assumes "p \<le> ptr" "ptop \<le> p + n" "p + n \<le> length xs"
  shows "\<exists>ys. ins_outer cmp ptr pi ptop xs = Some ys \<and> seg_perm p n xs ys"
  using assms
proof (induction cmp ptr pi ptop xs rule: ins_outer.induct)
  case (1 cmp ptr pi ptop xs)
  show ?case
  proof (cases "pi < ptop")
    case True
    obtain ys where y: "ins_inner cmp ptr pi xs = Some ys" "seg_perm p n xs ys"
      using ins_inner_perm [of p ptr pi n xs cmp] 1(2-4) True by auto
    have "p + n \<le> length ys" using seg_perm_length [OF y(2)] 1(4) by simp
    from 1(1) [OF True y(1) 1(2,3) this] y True show ?thesis
      by (auto simp: ins_outer.simps [of cmp ptr pi] intro: seg_perm_trans)
  qed (simp add: ins_outer.simps [of cmp ptr pi])
qed

section \<open>The contract of a comparison function\<close>

definition seg_sorted :: "'a cmp_f \<Rightarrow> nat \<Rightarrow> nat \<Rightarrow> 'a list \<Rightarrow> bool" where
  "seg_sorted cmp p n xs \<longleftrightarrow> (\<forall>i j. p \<le> i \<and> i < j \<and> j < p + n \<longrightarrow> cmp (xs ! i) (xs ! j) \<le> 0)"

text \<open>While segments are pending, two elements that are not in the same pending segment
  are in order.\<close>

definition rq_inv :: "'a cmp_f \<Rightarrow> nat \<Rightarrow> nat \<Rightarrow> (nat \<times> nat \<times> nat) list \<Rightarrow> 'a list \<Rightarrow> bool" where
  "rq_inv cmp base n segs xs \<longleftrightarrow>
     (\<forall>i j. base \<le> i \<and> i < j \<and> j < base + n \<longrightarrow>
        (\<exists>(p, m, d)\<in>set segs. p \<le> i \<and> j < p + m) \<or> cmp (xs ! i) (xs ! j) \<le> 0)"

text \<open>
  What the C standard asks of the function passed to a sort: its sign is that of a total
  preorder.  The facts inside the locale are about arrays sorted with such a function.
\<close>

locale cmp_order =
  fixes cmp :: "'a cmp_f"
  assumes cmp_sym: "cmp a b < 0 \<longleftrightarrow> cmp b a > 0"
    and cmp_trans: "cmp a b \<le> 0 \<Longrightarrow> cmp b c \<le> 0 \<Longrightarrow> cmp a c \<le> 0"
begin

lemma cmp_flip: "cmp a b > 0 \<Longrightarrow> cmp b a \<le> 0"
  using cmp_sym [of b a] by simp

lemma cmp_flip_ge: "cmp a b \<ge> 0 \<Longrightarrow> cmp b a \<le> 0"
  using cmp_sym [of a b] by simp

lemma cmp_refl: "cmp a a = 0"
  using cmp_sym [of a a] by linarith

text \<open>Heaps: every parent from \<open>s\<close> on is at least as great as its children below \<open>n\<close>.\<close>

definition heap_from :: "nat \<Rightarrow> nat \<Rightarrow> nat \<Rightarrow> 'a list \<Rightarrow> bool" where
  "heap_from base s n xs \<longleftrightarrow>
     (\<forall>p c. s \<le> p \<and> (c = p * 2 + 1 \<or> c = p * 2 + 2) \<and> c < n \<longrightarrow> cmp (xs ! (base + c)) (xs ! (base + p)) \<le> 0)"

text \<open>A heap but for the element at \<open>r\<close>, whose children are below its parent.\<close>

definition heap_hole :: "nat \<Rightarrow> nat \<Rightarrow> nat \<Rightarrow> nat \<Rightarrow> 'a list \<Rightarrow> bool" where
  "heap_hole base s n r xs \<longleftrightarrow>
     (\<forall>p c. s \<le> p \<and> p \<noteq> r \<and> (c = p * 2 + 1 \<or> c = p * 2 + 2) \<and> c < n \<longrightarrow>
        cmp (xs ! (base + c)) (xs ! (base + p)) \<le> 0) \<and>
     (\<forall>p c. s \<le> p \<and> (r = p * 2 + 1 \<or> r = p * 2 + 2) \<and> (c = r * 2 + 1 \<or> c = r * 2 + 2) \<and> c < n \<longrightarrow>
        cmp (xs ! (base + c)) (xs ! (base + p)) \<le> 0)"

lemma heap_holeD:
  assumes "heap_hole base s n r xs"
  shows "s \<le> p \<Longrightarrow> p \<noteq> r \<Longrightarrow> c = p * 2 + 1 \<or> c = p * 2 + 2 \<Longrightarrow> c < n \<Longrightarrow>
      cmp (xs ! (base + c)) (xs ! (base + p)) \<le> 0"
    "s \<le> p \<Longrightarrow> r = p * 2 + 1 \<or> r = p * 2 + 2 \<Longrightarrow> c = r * 2 + 1 \<or> c = r * 2 + 2 \<Longrightarrow> c < n \<Longrightarrow>
      cmp (xs ! (base + c)) (xs ! (base + p)) \<le> 0"
  using assms unfolding heap_hole_def by blast+

lemma heap_hole_down:
  assumes h: "heap_hole base s n r xs" and s: "s \<le> r" and len: "base + n \<le> length xs"
    and c: "c = r * 2 + 1 \<or> c = r * 2 + 2" "c < n"
    and sib: "\<And>d. d = r * 2 + 1 \<or> d = r * 2 + 2 \<Longrightarrow> d < n \<Longrightarrow> cmp (xs ! (base + d)) (xs ! (base + c)) \<le> 0"
    and le: "cmp (xs ! (base + r)) (xs ! (base + c)) \<le> 0"
  shows "heap_hole base s n c (xs[base + r := xs ! (base + c), base + c := xs ! (base + r)])"
proof -
  let ?ys = "xs[base + r := xs ! (base + c), base + c := xs ! (base + r)]"
  have rc: "r < c" using c(1) by auto
  have y: "?ys ! (base + r) = xs ! (base + c)" "?ys ! (base + c) = xs ! (base + r)"
    "k \<noteq> r \<Longrightarrow> k \<noteq> c \<Longrightarrow> ?ys ! (base + k) = xs ! (base + k)" for k
    using rc c(2) len by auto
  have 1: "cmp (?ys ! (base + d)) (?ys ! (base + p)) \<le> 0"
    if p: "s \<le> p" "p \<noteq> c" "d = p * 2 + 1 \<or> d = p * 2 + 2" "d < n" for p d
  proof (cases "p = r")
    case True
    show ?thesis
    proof (cases "d = c")
      case True
      with \<open>p = r\<close> le show ?thesis by (simp add: y(1,2))
    next
      case False
      then have "d \<noteq> r" using p(3) True by auto
      with False sib [of d] p(3,4) True show ?thesis by (simp add: y)
    qed
  next
    case False
    then have "d \<noteq> c" using p(3) c(1) by auto
    show ?thesis
    proof (cases "d = r")
      case True
      then show ?thesis using heap_holeD(2) [OF h p(1) _ c] p(3) False p(2) by (simp add: y)
    next
      case d: False
      then show ?thesis using heap_holeD(1) [OF h p(1) False p(3,4)] False p(2) \<open>d \<noteq> c\<close> by (simp add: y)
    qed
  qed
  have 2: "cmp (?ys ! (base + d)) (?ys ! (base + p)) \<le> 0"
    if p: "s \<le> p" "c = p * 2 + 1 \<or> c = p * 2 + 2" "d = c * 2 + 1 \<or> d = c * 2 + 2" "d < n" for p d
  proof -
    have "p = r" using p(2) c(1) by auto
    moreover have "d \<noteq> r" "d \<noteq> c" using p(3) rc by auto
    moreover have "cmp (xs ! (base + d)) (xs ! (base + c)) \<le> 0"
      using heap_holeD(1) [OF h _ _ p(3,4)] s rc by auto
    ultimately show ?thesis by (simp add: y)
  qed
  show ?thesis unfolding heap_hole_def using 1 2 by blast
qed

lemma heap_sift_heap:
  assumes "heap_hole base s n r xs" "s \<le> r" "base + n \<le> length xs" "heap_sift cmp base n r xs = Some ys"
  shows "heap_from base s n ys"
  using assms
proof (induction "n - r" arbitrary: r xs rule: less_induct)
  case less
  have sib: "cmp (xs ! (base + d)) (xs ! (base + c)) \<le> 0"
    if "\<forall>d. (d = r * 2 + 1 \<or> d = r * 2 + 2) \<and> d < n \<and> d \<noteq> c \<longrightarrow>
        cmp (xs ! (base + c)) (xs ! (base + d)) > 0 \<or> cmp (xs ! (base + d)) (xs ! (base + c)) \<le> 0"
      "d = r * 2 + 1 \<or> d = r * 2 + 2" "d < n" for c d
    using that cmp_flip cmp_refl [of "xs ! (base + c)"] by (cases "d = c") auto
  from less.prems(3) show ?case
  proof (cases rule: heap_sift_cases [of base n xs r cmp])
    case leaf
    then have "ys = xs" using less.prems(4) by simp
    then show ?thesis unfolding heap_from_def
    proof (intro allI impI)
      fix p c assume a: "s \<le> p \<and> (c = p * 2 + 1 \<or> c = p * 2 + 2) \<and> c < n"
      then have "p \<noteq> r" using leaf(1) by auto
      then show "cmp (ys ! (base + c)) (ys ! (base + p)) \<le> 0"
        using a heap_holeD(1) [OF less.prems(1)] \<open>ys = xs\<close> by simp
    qed
  next
    case (stop c)
    then have ys: "ys = xs" using less.prems(4) by simp
    have r: "cmp (xs ! (base + d)) (xs ! (base + r)) \<le> 0" if "d = r * 2 + 1 \<or> d = r * 2 + 2" "d < n" for d
      using sib [OF stop(3) that] cmp_flip [OF stop(4)] cmp_trans by blast
    show ?thesis unfolding heap_from_def ys
    proof (intro allI impI)
      fix p c assume a: "s \<le> p \<and> (c = p * 2 + 1 \<or> c = p * 2 + 2) \<and> c < n"
      then show "cmp (xs ! (base + c)) (xs ! (base + p)) \<le> 0"
        using r [of c] heap_holeD(1) [OF less.prems(1), of p c] by (cases "p = r") simp_all
    qed
  next
    case (down c)
    let ?zs = "xs[base + r := xs ! (base + c), base + c := xs ! (base + r)]"
    have rc: "r < c" using down(1) by auto
    have "heap_hole base s n c ?zs"
      by (rule heap_hole_down [OF less.prems(1-3) down(1,2) sib [OF down(3)] down(4)])
    then show ?thesis
      using rc down(2,5) less.prems by (intro less.hyps [of c ?zs]) auto
  qed
qed

lemma heap_build_heap:
  assumes "heap_from base i n xs" "base + n \<le> length xs" "heap_build cmp base n i xs = Some ys"
  shows "heap_from base 0 n ys"
  using assms
proof (induction i arbitrary: xs)
  case (Suc i)
  obtain zs where z: "heap_sift cmp base n i xs = Some zs" "seg_perm base n xs zs"
    using heap_sift_perm [OF Suc.prems(2)] by blast
  have "heap_hole base i n i xs"
    using Suc.prems(1) unfolding heap_hole_def heap_from_def by (auto simp: Suc_le_eq)
  then have "heap_from base i n zs"
    using Suc.prems(2) z(1) by (rule heap_sift_heap [OF _ order_refl])
  then show ?case
    using Suc.prems(2,3) z seg_perm_length [OF z(2)] by (intro Suc.IH [of zs]) auto
qed simp

lemma heap_root:
  assumes "heap_from base 0 n xs" "k < n"
  shows "cmp (xs ! (base + k)) (xs ! base) \<le> 0"
  using assms(2)
proof (induction k rule: less_induct)
  case (less k)
  show ?case
  proof (cases k)
    case 0
    then show ?thesis by (simp add: cmp_refl)
  next
    case (Suc m)
    let ?p = "m div 2"
    have k: "k = ?p * 2 + 1 \<or> k = ?p * 2 + 2" using Suc by auto
    have p: "?p < k" using Suc by auto
    from k assms(1) less.prems have "cmp (xs ! (base + k)) (xs ! (base + ?p)) \<le> 0"
      unfolding heap_from_def by blast
    moreover have "cmp (xs ! (base + ?p)) (xs ! base) \<le> 0" using p less by auto
    ultimately show ?thesis by (rule cmp_trans)
  qed
qed

text \<open>While the heap shrinks, what has left it is in its final place.\<close>

definition extract_inv :: "nat \<Rightarrow> nat \<Rightarrow> nat \<Rightarrow> 'a list \<Rightarrow> bool" where
  "extract_inv base i n xs \<longleftrightarrow>
     heap_from base 0 (Suc i) xs \<and>
     (\<forall>j k. j < k \<and> i < k \<and> k < n \<longrightarrow> cmp (xs ! (base + j)) (xs ! (base + k)) \<le> 0)"

lemma extract_step:
  assumes inv: "extract_inv base (Suc i) n xs" and n: "Suc i < n" "base + n \<le> length xs"
    and z: "heap_sift cmp base (Suc i) 0 (xs[base := xs ! (base + Suc i), base + Suc i := xs ! base]) = Some zs"
  shows "extract_inv base i n zs"
proof -
  let ?ys = "xs[base := xs ! (base + Suc i), base + Suc i := xs ! base]"
  have h: "heap_from base 0 (Suc (Suc i)) xs" using inv by (simp add: extract_inv_def)
  have tail: "cmp (xs ! (base + j)) (xs ! (base + k)) \<le> 0" if "j < k" "Suc i < k" "k < n" for j k
    using inv that unfolding extract_inv_def by blast
  have y: "?ys ! (base + k) = xs ! (base + k)" if "k \<noteq> 0" "k \<noteq> Suc i" for k using that by simp
  have "heap_hole base 0 (Suc i) 0 ?ys"
    unfolding heap_hole_def
  proof (intro conjI allI impI)
    fix p c assume a: "0 \<le> p \<and> p \<noteq> 0 \<and> (c = p * 2 + 1 \<or> c = p * 2 + 2) \<and> c < Suc i"
    then have "cmp (xs ! (base + c)) (xs ! (base + p)) \<le> 0"
      using h unfolding heap_from_def by (metis less_Suc_eq)
    moreover have "c \<noteq> 0" "c \<noteq> Suc i" "p \<noteq> Suc i" using a by auto
    ultimately show "cmp (?ys ! (base + c)) (?ys ! (base + p)) \<le> 0" using a by (simp add: y)
  qed auto
  then have h': "heap_from base 0 (Suc i) zs"
    using n z by (intro heap_sift_heap [of base 0 "Suc i" 0 ?ys]) auto
  obtain zs' where "heap_sift cmp base (Suc i) 0 ?ys = Some zs'" "seg_perm base (Suc i) ?ys zs'"
    using heap_sift_perm [of base "Suc i" ?ys cmp 0] n by auto
  with z have perm: "seg_perm base (Suc i) ?ys zs" by simp
  have elem: "\<exists>j'. j' \<le> Suc i \<and> zs ! (base + j) = xs ! (base + j')" if ji: "j \<le> i" for j
  proof -
    obtain m where m: "base \<le> m" "m < base + Suc i" "zs ! (base + j) = ?ys ! m"
      by (rule seg_perm_elem [OF perm, of "base + j"]) (use n ji in auto)
    show ?thesis
    proof (cases "m = base")
      case True
      then have "zs ! (base + j) = xs ! (base + Suc i)" using m n by simp
      then show ?thesis by blast
    next
      case False
      then have "zs ! (base + j) = xs ! m" using m by simp
      then show ?thesis using m by (intro exI [of _ "m - base"]) auto
    qed
  qed
  have out: "zs ! (base + k) = (if k = Suc i then xs ! base else xs ! (base + k))" if "i < k" "k < n" for k
    using seg_perm_out [OF perm, of "base + k"] that n by (auto simp: nth_list_update)
  have "cmp (zs ! (base + j)) (zs ! (base + k)) \<le> 0" if jk: "j < k" "i < k" "k < n" for j k
  proof (cases "k = Suc i")
    case True
    then have "j \<le> i" using jk by simp
    then obtain j' where "j' \<le> Suc i" "zs ! (base + j) = xs ! (base + j')" using elem by blast
    then show ?thesis using True out [of k] jk heap_root [OF h, of j'] by simp
  next
    case False
    have k: "zs ! (base + k) = xs ! (base + k)" using out [of k] jk False by simp
    have "\<exists>j'<k. zs ! (base + j) = xs ! (base + j')"
    proof (cases "j \<le> i")
      case True
      then obtain j' where "j' \<le> Suc i" "zs ! (base + j) = xs ! (base + j')" using elem by blast
      then show ?thesis using jk False by (intro exI [of _ j']) auto
    next
      case False
      then show ?thesis using out [of j] jk \<open>k \<noteq> Suc i\<close>
        by (cases "j = Suc i") (auto intro: exI [of _ 0] exI [of _ j])
    qed
    then show ?thesis using tail [of _ k] k jk False by auto
  qed
  with h' show ?thesis unfolding extract_inv_def by blast
qed

lemma heap_extract_sorted:
  assumes "extract_inv base i n xs" "i < n" "base + n \<le> length xs" "heap_extract cmp base i xs = Some ys"
  shows "seg_sorted cmp base n ys"
  using assms
proof (induction i arbitrary: xs)
  case 0
  show ?case unfolding seg_sorted_def
  proof (intro allI impI)
    fix i j assume a: "base \<le> i \<and> i < j \<and> j < base + n"
    have inv: "cmp (xs ! (base + k)) (xs ! (base + l)) \<le> 0" if "k < l" "l < n" for k l
      using 0(1) that unfolding extract_inv_def by (metis gr_zeroI not_less_zero)
    have "cmp (xs ! (base + (i - base))) (xs ! (base + (j - base))) \<le> 0"
      by (rule inv) (use a in auto)
    with a 0(4) show "cmp (ys ! i) (ys ! j) \<le> 0" by simp
  qed
next
  case (Suc i)
  let ?ys = "xs[base := xs ! (base + Suc i), base + Suc i := xs ! base]"
  have sw: "swap_el xs base (base + Suc i) = Some ?ys" using Suc.prems by (simp add: swap_el_def)
  obtain zs where z: "heap_sift cmp base (Suc i) 0 ?ys = Some zs" "seg_perm base (Suc i) ?ys zs"
    using heap_sift_perm [of base "Suc i" ?ys cmp 0] Suc.prems by auto
  have inv: "extract_inv base i n zs" by (rule extract_step [OF Suc.prems(1-3) z(1)])
  have len: "base + n \<le> length zs" using Suc.prems(3) seg_perm_length [OF z(2)] by simp
  have "heap_extract cmp base i zs = Some ys" using Suc.prems(4) sw z(1) by simp
  with inv Suc.prems(2) len show ?case by (intro Suc.IH [of zs]) simp_all
qed

lemma heapsortx_sorted:
  assumes "base + n \<le> length xs" "heapsortx cmp base n xs = Some ys"
  shows "seg_sorted cmp base n ys"
proof (cases "n > 1")
  case False
  then show ?thesis unfolding seg_sorted_def by auto
next
  case True
  have "heap_from base (n div 2) n xs" unfolding heap_from_def by auto
  obtain zs where z: "heap_build cmp base n (n div 2) xs = Some zs" "seg_perm base n xs zs"
    using heap_build_perm [OF assms(1)] by blast
  have "heap_from base 0 n zs" using \<open>heap_from base (n div 2) n xs\<close> assms(1) z(1) by (rule heap_build_heap)
  then have "extract_inv base (n - 1) n zs" using True by (auto simp: extract_inv_def)
  then show ?thesis
    using True assms z seg_perm_length [OF z(2)]
    by (intro heap_extract_sorted [of base "n - 1" n zs]) (auto simp: heapsortx_def)
qed

text \<open>Insertion sort: everything up to \<open>hi\<close> is sorted but for the element at \<open>q\<close>, which
  is below what follows it.\<close>

definition ins_inv :: "nat \<Rightarrow> nat \<Rightarrow> nat \<Rightarrow> 'a list \<Rightarrow> bool" where
  "ins_inv ptr q hi xs \<longleftrightarrow>
     (\<forall>i j. ptr \<le> i \<and> i < j \<and> j \<le> hi \<and> j \<noteq> q \<longrightarrow> cmp (xs ! i) (xs ! j) \<le> 0)"

lemma ins_inner_sorted:
  assumes "ins_inv ptr q hi xs" "ptr \<le> q" "q \<le> hi" "hi < length xs" "ins_inner cmp ptr q xs = Some ys"
  shows "seg_sorted cmp ptr (Suc hi - ptr) ys"
  using assms
proof (induction q arbitrary: xs)
  case 0
  then show ?case unfolding ins_inv_def seg_sorted_def by (auto simp: ins_inner.simps [of _ _ 0])
next
  case (Suc q)
  have inv: "cmp (xs ! i) (xs ! j) \<le> 0" if "ptr \<le> i" "i < j" "j \<le> hi" "j \<noteq> Suc q" for i j
    using Suc.prems(1) that unfolding ins_inv_def by blast
  show ?case
  proof (cases "Suc q > ptr \<and> cmp (xs ! q) (xs ! Suc q) > 0")
    case True
    let ?zs = "xs[Suc q := xs ! q, q := xs ! Suc q]"
    have z: "?zs ! Suc q = xs ! q" "?zs ! q = xs ! Suc q" "k \<noteq> q \<Longrightarrow> k \<noteq> Suc q \<Longrightarrow> ?zs ! k = xs ! k" for k
      using Suc.prems(3,4) by auto
    have "ins_inv ptr q hi ?zs" unfolding ins_inv_def
    proof (intro allI impI)
      fix i j assume a: "ptr \<le> i \<and> i < j \<and> j \<le> hi \<and> j \<noteq> q"
      consider "j = Suc q" "i = q" | "j = Suc q" "i < q" | "j \<noteq> Suc q" using a by fastforce
      then show "cmp (?zs ! i) (?zs ! j) \<le> 0"
      proof cases
        case 1
        then show ?thesis using True cmp_flip by (simp add: z(1,2))
      next
        case 2
        then show ?thesis using inv [of i q] a Suc.prems(3) by (simp add: z)
      next
        case 3
        then show ?thesis using inv [of q j] inv [of "Suc q" j] inv [of i j] a True
          by (cases "i = q"; cases "i = Suc q") (auto simp: z)
      qed
    qed
    moreover have "ins_inner cmp ptr q ?zs = Some ys"
      using Suc.prems True by (simp add: ins_inner.simps [of cmp ptr "Suc q"] cmp_at_def swap_el_def)
    ultimately show ?thesis using Suc.prems True by (intro Suc.IH [of ?zs]) auto
  next
    case False
    then have ys: "ys = xs"
      using Suc.prems by (auto simp: ins_inner.simps [of cmp ptr "Suc q"] cmp_at_def split: if_splits)
    have "cmp (xs ! i) (xs ! Suc q) \<le> 0" if "ptr \<le> i" "i < Suc q" for i
    proof -
      have q: "cmp (xs ! q) (xs ! Suc q) \<le> 0" using False that by auto
      show ?thesis
      proof (cases "i = q")
        case False
        then have "cmp (xs ! i) (xs ! q) \<le> 0" using inv [of i q] that Suc.prems(3) by simp
        then show ?thesis using q by (rule cmp_trans)
      qed (use q in simp)
    qed
    then show ?thesis unfolding seg_sorted_def ys using inv by (metis Suc.prems(2) add_diff_inverse_nat less_Suc_eq_le not_less_eq le_SucI Suc.prems(3) le_trans)
  qed
qed

lemma ins_outer_sorted:
  assumes "seg_sorted cmp ptr (pi - ptr) xs" "ptr \<le> pi" "pi \<le> ptop" "ptop \<le> length xs"
    and "ins_outer cmp ptr pi ptop xs = Some ys"
  shows "seg_sorted cmp ptr (ptop - ptr) ys"
  using assms
proof (induction "ptop - pi" arbitrary: pi xs)
  case 0
  then show ?case by (simp add: ins_outer.simps [of cmp ptr pi])
next
  case (Suc d)
  then have lt: "pi < ptop" by simp
  obtain zs where z: "ins_inner cmp ptr pi xs = Some zs" "seg_perm 0 (length xs) xs zs"
    using ins_inner_perm [of 0 ptr pi "length xs" xs cmp] lt Suc.prems(4) by auto
  have "ins_inv ptr pi pi xs" using Suc.prems(1) unfolding ins_inv_def seg_sorted_def by auto
  then have "seg_sorted cmp ptr (Suc pi - ptr) zs"
    using Suc.prems z(1) lt by (intro ins_inner_sorted [of ptr pi pi xs]) auto
  then show ?case
    using Suc lt z seg_perm_length [OF z(2)]
    by (intro Suc.hyps(1) [of "pi + 1" zs]) (auto simp: ins_outer.simps [of cmp ptr pi])
qed

lemma inv_start: "rq_inv cmp base n [(base, n, d)] xs"
  unfolding rq_inv_def by auto

lemma inv_end: "rq_inv cmp base n [] xs \<Longrightarrow> seg_sorted cmp base n xs"
  unfolding rq_inv_def seg_sorted_def by auto

lemma inv_perm:
  assumes inv: "rq_inv cmp base n ((p, m, d) # st) xs" and perm: "seg_perm p m xs ys"
    and p: "base \<le> p" "p + m \<le> base + n" "base + n \<le> length xs"
    and disj: "\<forall>(q, k, e)\<in>set st. q + k \<le> p \<or> p + m \<le> q"
  shows "rq_inv cmp base n ((p, m, d) # st) ys"
  unfolding rq_inv_def
proof (intro allI impI)
  fix i j assume ij: "base \<le> i \<and> i < j \<and> j < base + n"
  have src: "\<exists>k'. ys ! k = xs ! k' \<and> base \<le> k' \<and> k' < base + n \<and>
      (if p \<le> k \<and> k < p + m then p \<le> k' \<and> k' < p + m else k' = k)" if k: "base \<le> k" "k < base + n" for k
  proof (cases "p \<le> k \<and> k < p + m")
    case True
    then obtain k' where "p \<le> k'" "k' < p + m" "ys ! k = xs ! k'"
      using seg_perm_elem [OF perm, of k] p by auto
    then show ?thesis using True p by (intro exI [of _ k']) auto
  next
    case False
    then have "ys ! k = xs ! k" using k p by (intro seg_perm_out [OF perm]) auto
    then show ?thesis using False k by auto
  qed
  obtain i' where i': "ys ! i = xs ! i'" "base \<le> i'" "i' < base + n"
    "if p \<le> i \<and> i < p + m then p \<le> i' \<and> i' < p + m else i' = i" using src [of i] ij by auto
  obtain j' where j': "ys ! j = xs ! j'" "base \<le> j'" "j' < base + n"
    "if p \<le> j \<and> j < p + m then p \<le> j' \<and> j' < p + m else j' = j" using src [of j] ij by auto
  show "(\<exists>(q, k, e)\<in>set ((p, m, d) # st). q \<le> i \<and> j < q + k) \<or> cmp (ys ! i) (ys ! j) \<le> 0"
  proof (cases "p \<le> i \<and> j < p + m")
    case False
    have lt: "i' < j'" using False i'(4) j'(4) ij by (auto split: if_splits)
    from inv i'(2) j'(3) lt consider q k e where "(q, k, e) \<in> set ((p, m, d) # st)" "q \<le> i'" "j' < q + k"
      | "cmp (xs ! i') (xs ! j') \<le> 0" unfolding rq_inv_def by blast
    then show ?thesis
    proof cases
      case 1
      then have "(q, k, e) \<in> set st" using False i'(4) j'(4) ij by (auto split: if_splits)
      with disj have "q + k \<le> p \<or> p + m \<le> q" by auto
      then have "i' = i" "j' = j" using 1(2,3) lt i'(4) j'(4) by (auto split: if_splits)
      with 1 show ?thesis by auto
    qed (use i'(1) j'(1) in simp)
  qed auto
qed

lemma inv_split:
  assumes inv: "rq_inv cmp base n ((p, m, d) # st) ys" and s: "split_ok cmp v p m lt gt ys"
  shows "rq_inv cmp base n ((p, lt, d1) # (p + gt, m - gt, d2) # st) ys"
  unfolding rq_inv_def
proof (intro allI impI)
  fix i j assume ij: "base \<le> i \<and> i < j \<and> j < base + n"
  have lt: "cmp v (ys ! k) > 0" if "p \<le> k" "k < p + lt" for k
    using s that unfolding split_ok_def by blast
  have eq: "cmp v (ys ! k) = 0" if "p + lt \<le> k" "k < p + gt" for k
  proof -
    have "cmp v (ys ! k) = 0 \<or> ys ! k = v" using s that unfolding split_ok_def by blast
    then show ?thesis using cmp_refl [of v] by auto
  qed
  have gt: "cmp v (ys ! k) < 0" if "p + gt \<le> k" "k < p + m" for k
    using s that unfolding split_ok_def by blast
  have lo: "cmp (ys ! k) v \<le> 0" if "p \<le> k" "k < p + gt" for k
    using that lt [of k] eq [of k] cmp_flip_ge [of v "ys ! k"] by (cases "k < p + lt") simp_all
  have hi: "cmp v (ys ! k) \<le> 0" if "p + lt \<le> k" "k < p + m" for k
    using that eq [of k] gt [of k] by (cases "k < p + gt") simp_all
  have le: "lt \<le> gt" "gt \<le> m" using s by (auto simp: split_ok_def)
  show "(\<exists>(q, k, e)\<in>set ((p, lt, d1) # (p + gt, m - gt, d2) # st). q \<le> i \<and> j < q + k) \<or>
      cmp (ys ! i) (ys ! j) \<le> 0"
  proof (cases "p \<le> i \<and> j < p + m")
    case True
    show ?thesis
    proof (cases "j < p + lt \<or> p + gt \<le> i")
      case False
      then have "cmp (ys ! i) v \<le> 0" "cmp v (ys ! j) \<le> 0" using True ij by (auto intro: lo hi)
      then show ?thesis using cmp_trans by blast
    qed (use True le in auto)
  next
    case False
    from inv ij have "(\<exists>(q, k, e)\<in>set ((p, m, d) # st). q \<le> i \<and> j < q + k) \<or> cmp (ys ! i) (ys ! j) \<le> 0"
      unfolding rq_inv_def by blast
    with False show ?thesis by auto
  qed
qed

lemma inv_done:
  assumes "rq_inv cmp base n ((p, m, d) # st) ys" "seg_sorted cmp p m ys"
  shows "rq_inv cmp base n st ys"
  using assms unfolding rq_inv_def seg_sorted_def by fastforce

end

section \<open>The sort is correct\<close>

fun segs_ok :: "nat \<Rightarrow> nat \<Rightarrow> (nat \<times> nat \<times> nat) list \<Rightarrow> bool" where
  "segs_ok base n [] = True"
| "segs_ok base n ((p, m, d) # st) =
     (base \<le> p \<and> p + m \<le> base + n \<and> (\<forall>(q, k, e)\<in>set st. q + k \<le> p \<or> p + m \<le> q) \<and> segs_ok base n st)"

text \<open>The depths on the stack strictly increase towards its top and lie between 1 and the
  current depth, so a stack of 50 entries is enough.\<close>

definition depths_ok :: "nat \<Rightarrow> (nat \<times> nat \<times> nat) list \<Rightarrow> bool" where
  "depths_ok d st \<longleftrightarrow>
     sorted_wrt (>) (map (\<lambda>(p, m, e). e) st) \<and> (\<forall>(p, m, e)\<in>set st. 1 \<le> e \<and> e \<le> d)"

lemma depths_ok_length:
  assumes "depths_ok d st"
  shows "length st \<le> d"
proof -
  let ?ds = "map (\<lambda>(p, m, e). e) st"
  have "distinct ?ds"
    using assms by (auto simp: depths_ok_def distinct_conv_nth sorted_wrt_iff_nth_less)
      (metis (no_types, lifting) linorder_neqE_nat order_less_irrefl)
  moreover have "set ?ds \<subseteq> {1..d}" using assms by (force simp: depths_ok_def)
  ultimately have "length ?ds \<le> card {1..d}"
    by (metis card_mono distinct_card finite_atLeastAtMost)
  then show ?thesis by simp
qed

lemma depths_ok_push:
  "depths_ok d st \<Longrightarrow> depths_ok (Suc d) ((p, m, Suc d) # st)"
  by (fastforce simp: depths_ok_def)

lemma depths_ok_pop:
  "depths_ok d ((p, m, e) # st) \<Longrightarrow> depths_ok e st \<and> e \<le> d"
  by (fastforce simp: depths_ok_def)

lemma depths_ok_mono: "depths_ok d st \<Longrightarrow> d \<le> d' \<Longrightarrow> depths_ok d' st"
  by (fastforce simp: depths_ok_def)

text \<open>What a run on the segments \<open>segs\<close> of an array gives.\<close>

definition run_ok :: "'a cmp_f \<Rightarrow> nat \<Rightarrow> nat \<Rightarrow> (nat \<times> nat \<times> nat) list \<Rightarrow> 'a list \<Rightarrow> 'a list option \<Rightarrow> bool" where
  "run_ok cmp base n segs xs res \<longleftrightarrow>
     (\<exists>ys. res = Some ys \<and> seg_perm base n xs ys \<and>
        (cmp_order cmp \<longrightarrow> rq_inv cmp base n segs xs \<longrightarrow> seg_sorted cmp base n ys))"

lemma run_ok_step:
  assumes "seg_perm base n xs ys" "run_ok cmp base n segs' ys res"
    and "cmp_order cmp \<Longrightarrow> rq_inv cmp base n segs xs \<Longrightarrow> rq_inv cmp base n segs' ys"
  shows "run_ok cmp base n segs xs res"
  using assms seg_perm_trans unfolding run_ok_def by blast

lemma rq_correct:
  "segs_ok base n st \<Longrightarrow> depths_ok 50 st \<Longrightarrow> base + n \<le> length xs \<Longrightarrow>
     run_ok cmp base n st xs (rq_pop cmp st xs)"
  "segs_ok base n ((ptr, m, d) # st) \<Longrightarrow> depths_ok d st \<Longrightarrow> d \<le> 50 \<Longrightarrow> base + n \<le> length xs \<Longrightarrow>
     run_ok cmp base n ((ptr, m, d) # st) xs (rq_seg cmp st ptr m d xs)"
proof (induction cmp st xs and cmp st ptr m d xs rule: rq_pop_rq_seg.induct)
  case (1 cmp st xs)
  show ?case
  proof (cases st)
    case Nil
    then show ?thesis
      using cmp_order.inv_end [of cmp base n xs] by (simp add: rq_pop.simps [of cmp "[]"] run_ok_def)
  next
    case (Cons e st')
    obtain p m d where e: "e = (p, m, d)" by (cases e)
    have "run_ok cmp base n ((p, m, d) # st') xs (rq_seg cmp st' p m d xs)"
      using 1(2-4) depths_ok_pop [of 50 p m d st'] unfolding Cons e by (intro 1(1) [OF Cons e [symmetric] refl]) auto
    then show ?thesis by (simp add: rq_pop.simps [of cmp "_ # _"] Cons e)
  qed
next
  case (2 cmp st ptr m d xs)
  note ok = 2(5) and dep = 2(6) and d50 = 2(7) and len = 2(8)
  from ok have seg: "base \<le> ptr" "ptr + m \<le> base + n" "segs_ok base n st"
    and disj: "\<forall>(q, k, e)\<in>set st. q + k \<le> ptr \<or> ptr + m \<le> q" by auto
  have plen: "ptr + m \<le> length xs" using seg len by simp
  have wide: "seg_perm base n xs ys" if "seg_perm ptr m xs ys" for ys
    using that seg by (intro seg_perm_mono [OF that]) auto
  have keep: "rq_inv cmp base n ((ptr, m, d) # st) ys"
    if "cmp_order cmp" "rq_inv cmp base n ((ptr, m, d) # st) xs" "seg_perm ptr m xs ys" for ys
    using cmp_order.inv_perm [OF that seg(1,2) len disj] .
  have dep50: "depths_ok 50 st" using dep d50 by (rule depths_ok_mono)
  consider (heap) "m > 6" "d + 1 > 50" | (split) "m > 6" "\<not> d + 1 > 50" | (small) "\<not> m > 6" by blast
  then show ?case
  proof cases
    case heap
    obtain ys where y: "heapsortx cmp ptr m xs = Some ys" "seg_perm ptr m xs ys"
      using heapsortx_perm [OF plen] by blast
    have i: "ins_outer cmp ptr (ptr + 1) ptr ys = Some ys" by (simp add: ins_outer.simps)
    have run: "rq_seg cmp st ptr m d xs = rq_pop cmp st ys"
      using heap y(1) i by (simp add: rq_seg.simps [of cmp st])
    have "run_ok cmp base n st ys (rq_pop cmp st ys)"
      using seg(3) dep50 len seg_perm_length [OF y(2)] by (intro 2(1) [OF heap y(1) i]) auto
    then show ?thesis unfolding run
    proof (rule run_ok_step [OF wide [OF y(2)]])
      assume c: "cmp_order cmp" and inv: "rq_inv cmp base n ((ptr, m, d) # st) xs"
      show "rq_inv cmp base n st ys"
        by (rule cmp_order.inv_done [OF c keep [OF c inv y(2)] cmp_order.heapsortx_sorted [OF c plen y(1)]])
    qed
  next
    case small
    obtain ys where y: "ins_outer cmp ptr (ptr + 1) (ptr + m) xs = Some ys" "seg_perm ptr m xs ys"
      using ins_outer_perm [of ptr ptr "ptr + m" m xs cmp] plen by auto
    have run: "rq_seg cmp st ptr m d xs = rq_pop cmp st ys"
      using small y(1) by (simp add: rq_seg.simps [of cmp st])
    have "run_ok cmp base n st ys (rq_pop cmp st ys)"
      using seg(3) dep50 len seg_perm_length [OF y(2)] by (intro 2(4) [OF small y(1)]) auto
    then show ?thesis unfolding run
    proof (rule run_ok_step [OF wide [OF y(2)]])
      assume c: "cmp_order cmp" and inv: "rq_inv cmp base n ((ptr, m, d) # st) xs"
      have "seg_sorted cmp ptr m ys"
      proof (cases "m = 0")
        case True
        then show ?thesis by (simp add: seg_sorted_def)
      next
        case False
        then show ?thesis
          using cmp_order.ins_outer_sorted [OF c _ _ _ _ y(1)] plen by (simp add: seg_sorted_def)
      qed
      then show "rq_inv cmp base n st ys"
        by (rule cmp_order.inv_done [OF c keep [OF c inv y(2)]])
    qed
  next
    case split
    obtain ys lt gt v where y: "rq_split cmp ptr m xs = Some (ys, lt, gt)" "seg_perm ptr m xs ys"
      "split_ok cmp v ptr m lt gt ys"
      using rq_split_spec [of m ptr xs cmp] split(1) plen by auto
    have le: "lt \<le> gt" "gt \<le> m" using y(3) by (auto simp: split_ok_def)
    have push: "rq_push e st = Some (e # st)" for e
      using depths_ok_length [OF dep] split(2) by (simp add: rq_push_def)
    have d': "d + 1 \<le> 50" "depths_ok (d + 1) ((p, k, d + 1) # st)" for p k
      using split(2) depths_ok_push [OF dep] by auto
    have len': "base + n \<le> length ys" using len seg_perm_length [OF y(2)] by simp
    have inv': "rq_inv cmp base n ((ptr, lt, d1) # (ptr + gt, m - gt, d2) # st) ys"
      if "cmp_order cmp" "rq_inv cmp base n ((ptr, m, d) # st) xs" for d1 d2
      by (rule cmp_order.inv_split [OF that(1) keep [OF that y(2)] y(3)])
    have swp: "rq_inv cmp base n (b # a # st) ys = rq_inv cmp base n (a # b # st) ys" for a b
      unfolding rq_inv_def list.set insert_commute [of a b] ..
    show ?thesis
    proof (cases "lt > m - gt")
      case True
      have run: "rq_seg cmp st ptr m d xs =
          rq_seg cmp ((ptr, lt, d + 1) # st) (ptr + gt) (m - gt) (d + 1) ys"
        using split y(1) True push by (simp add: rq_seg.simps [of cmp st])
      have "run_ok cmp base n ((ptr + gt, m - gt, d + 1) # (ptr, lt, d + 1) # st) ys
          (rq_seg cmp ((ptr, lt, d + 1) # st) (ptr + gt) (m - gt) (d + 1) ys)"
      proof (rule 2(2) [OF split y(1) refl refl True push])
        show "segs_ok base n ((ptr + gt, m - gt, d + 1) # (ptr, lt, d + 1) # st)"
          using seg disj le by fastforce
      qed (use d' len' in auto)
      then show ?thesis unfolding run
        by (rule run_ok_step [OF wide [OF y(2)]]) (use inv' swp in blast)
    next
      case False
      have run: "rq_seg cmp st ptr m d xs =
          rq_seg cmp ((ptr + gt, m - gt, d + 1) # st) ptr lt (d + 1) ys"
        using split y(1) False push by (simp add: rq_seg.simps [of cmp st])
      have "run_ok cmp base n ((ptr, lt, d + 1) # (ptr + gt, m - gt, d + 1) # st) ys
          (rq_seg cmp ((ptr + gt, m - gt, d + 1) # st) ptr lt (d + 1) ys)"
      proof (rule 2(3) [OF split y(1) refl refl False push])
        show "segs_ok base n ((ptr, lt, d + 1) # (ptr + gt, m - gt, d + 1) # st)"
          using seg disj le by fastforce
      qed (use d' len' in auto)
      then show ?thesis unfolding run
        by (rule run_ok_step [OF wide [OF y(2)]]) (use inv' in blast)
    qed
  qed
qed

section \<open>Comparison functions of typed arrays\<close>

text \<open>The functions that \<open>js_typed_array_sort\<close> passes for the integer element types
  (\<open>quickjs.c\<close>); an element is the word stored in the array.\<close>

definition js_TA_cmp_int8 :: "u8 cmp_f" where
  "js_TA_cmp_int8 a b = sint a - sint b"

definition js_TA_cmp_uint8 :: "u8 cmp_f" where
  "js_TA_cmp_uint8 a b = uint a - uint b"

definition js_TA_cmp_int16 :: "u16 cmp_f" where
  "js_TA_cmp_int16 a b = sint a - sint b"

definition js_TA_cmp_uint16 :: "u16 cmp_f" where
  "js_TA_cmp_uint16 a b = uint a - uint b"

definition js_TA_cmp_int32 :: "u32 cmp_f" where
  "js_TA_cmp_int32 a b = (let x = sint a; y = sint b in of_bool (y < x) - of_bool (y > x))"

definition js_TA_cmp_uint32 :: "u32 cmp_f" where
  "js_TA_cmp_uint32 a b = (let x = uint a; y = uint b in of_bool (y < x) - of_bool (y > x))"

definition js_TA_cmp_int64 :: "u64 cmp_f" where
  "js_TA_cmp_int64 a b = (let x = sint a; y = sint b in of_bool (y < x) - of_bool (y > x))"

definition js_TA_cmp_uint64 :: "u64 cmp_f" where
  "js_TA_cmp_uint64 a b = (let x = uint a; y = uint b in of_bool (y < x) - of_bool (y > x))"

text \<open>A function whose sign is that of a difference of keys meets the contract.\<close>

lemma key_order:
  fixes key :: "'a \<Rightarrow> int"
  assumes "\<And>a b. cmp a b < 0 \<longleftrightarrow> key a < key b" "\<And>a b. cmp a b > 0 \<longleftrightarrow> key a > key b"
  shows "cmp_order cmp"
proof
  have le: "cmp a b \<le> 0 \<longleftrightarrow> key a \<le> key b" for a b using assms(2) [of a b] by (simp add: not_less [symmetric])
  show "cmp a b < 0 \<longleftrightarrow> cmp b a > 0" for a b by (simp add: assms)
  show "cmp a b \<le> 0 \<Longrightarrow> cmp b c \<le> 0 \<Longrightarrow> cmp a c \<le> 0" for a b c by (simp add: le)
qed

interpretation ta_int8: cmp_order js_TA_cmp_int8
  by (rule key_order [of _ sint]) (auto simp: js_TA_cmp_int8_def)

interpretation ta_uint8: cmp_order js_TA_cmp_uint8
  by (rule key_order [of _ uint]) (auto simp: js_TA_cmp_uint8_def)

interpretation ta_int16: cmp_order js_TA_cmp_int16
  by (rule key_order [of _ sint]) (auto simp: js_TA_cmp_int16_def)

interpretation ta_uint16: cmp_order js_TA_cmp_uint16
  by (rule key_order [of _ uint]) (auto simp: js_TA_cmp_uint16_def)

interpretation ta_int32: cmp_order js_TA_cmp_int32
  by (rule key_order [of _ sint]) (auto simp: js_TA_cmp_int32_def Let_def)

interpretation ta_uint32: cmp_order js_TA_cmp_uint32
  by (rule key_order [of _ uint]) (auto simp: js_TA_cmp_uint32_def Let_def)

interpretation ta_int64: cmp_order js_TA_cmp_int64
  by (rule key_order [of _ sint]) (auto simp: js_TA_cmp_int64_def Let_def)

interpretation ta_uint64: cmp_order js_TA_cmp_uint64
  by (rule key_order [of _ uint]) (auto simp: js_TA_cmp_uint64_def Let_def)

section \<open>Properties\<close>

lemma rqsort_run:
  assumes "base + n \<le> length xs"
  shows "\<exists>ys. rqsort cmp base n xs = Some ys \<and> seg_perm base n xs ys \<and>
    (cmp_order cmp \<longrightarrow> seg_sorted cmp base n ys)"
proof (cases "n < 2")
  case True
  then show ?thesis by (auto simp: rqsort_def seg_sorted_def)
next
  case False
  have "run_ok cmp base n [(base, n, 0)] xs (rq_seg cmp [] base n 0 xs)"
    using assms by (intro rq_correct(2)) (auto simp: depths_ok_def)
  then show ?thesis
    using False cmp_order.inv_start [of cmp base n 0 xs]
    by (auto simp: rqsort_def rq_pop.simps [of cmp "[(base, n, 0)]"] run_ok_def)
qed


definition odd_cmp :: "nat cmp_f" where
  "odd_cmp a b = (if odd (a * b) then 1 else -1)"


text \<open>C2: With a comparison function that is a total preorder, \<open>rqsort\<close> leaves the segment
  sorted.\<close>

theorem rqsort_sorts:
  assumes "cmp_order cmp" "base + n \<le> length xs"
  shows "\<exists>ys. rqsort cmp base n xs = Some ys \<and> mset ys = mset xs \<and>
    (\<forall>i j. base \<le> i \<and> i < j \<and> j < base + n \<longrightarrow> cmp (ys ! i) (ys ! j) \<le> 0)"
  using rqsort_run [OF assms(2), of cmp] assms(1) by (auto simp: seg_perm_def seg_sorted_def)

theorem rqsort_sorts_witness:
  "\<exists>ys. rqsort js_TA_cmp_int8 0 9 [9, 3, 0x85, 2, 8, 7, 0xff, 6, 4] = Some ys \<and>
     mset ys = mset [9, 3, 0x85, 2, 8, 7, 0xff, 6, 4] \<and>
     (\<forall>i j. 0 \<le> i \<and> i < j \<and> j < 0 + 9 \<longrightarrow> js_TA_cmp_int8 (ys ! i) (ys ! j) \<le> 0)"
  by (rule rqsort_sorts [OF ta_int8.cmp_order_axioms]) simp

text \<open>C39: The fallback \<open>heapsortx\<close> sorts its segment and leaves the rest of the array alone.\<close>

theorem heapsortx_sorts:
  assumes "cmp_order cmp" "base + n \<le> length xs"
  shows "\<exists>ys. heapsortx cmp base n xs = Some ys \<and> mset ys = mset xs \<and>
    (\<forall>i<length xs. i < base \<or> base + n \<le> i \<longrightarrow> ys ! i = xs ! i) \<and>
    (\<forall>i j. base \<le> i \<and> i < j \<and> j < base + n \<longrightarrow> cmp (ys ! i) (ys ! j) \<le> 0)"
proof -
  obtain ys where y: "heapsortx cmp base n xs = Some ys" "seg_perm base n xs ys"
    using heapsortx_perm [OF assms(2)] by blast
  with cmp_order.heapsortx_sorted [OF assms y(1)] show ?thesis
    by (auto simp: seg_perm_def seg_sorted_def)
qed

theorem heapsortx_sorts_witness:
  "\<exists>ys. heapsortx js_TA_cmp_uint32 1 3 [9, 3, 5, 2] = Some ys \<and> mset ys = mset [9, 3, 5, 2] \<and>
     (\<forall>i<length [9, 3, 5, 2 :: u32]. i < 1 \<or> 1 + 3 \<le> i \<longrightarrow> ys ! i = [9, 3, 5, 2] ! i) \<and>
     (\<forall>i j. 1 \<le> i \<and> i < j \<and> j < 1 + 3 \<longrightarrow> js_TA_cmp_uint32 (ys ! i) (ys ! j) \<le> 0)"
  by (rule heapsortx_sorts [OF ta_uint32.cmp_order_axioms]) simp

text \<open>The comparison functions of the integer typed arrays agree with the order of the values
  the elements stand for, at each width and signedness.\<close>

theorem typed_array_order:
  "(js_TA_cmp_int8 a b \<le> 0 \<longleftrightarrow> sint a \<le> sint b) \<and> (js_TA_cmp_uint8 a b \<le> 0 \<longleftrightarrow> a \<le> b) \<and>
   (js_TA_cmp_int16 c d \<le> 0 \<longleftrightarrow> sint c \<le> sint d) \<and> (js_TA_cmp_uint16 c d \<le> 0 \<longleftrightarrow> c \<le> d) \<and>
   (js_TA_cmp_int32 e f \<le> 0 \<longleftrightarrow> sint e \<le> sint f) \<and> (js_TA_cmp_uint32 e f \<le> 0 \<longleftrightarrow> e \<le> f) \<and>
   (js_TA_cmp_int64 g h \<le> 0 \<longleftrightarrow> sint g \<le> sint h) \<and> (js_TA_cmp_uint64 g h \<le> 0 \<longleftrightarrow> g \<le> h)"
  by (simp add: js_TA_cmp_int8_def js_TA_cmp_uint8_def js_TA_cmp_int16_def js_TA_cmp_uint16_def
      js_TA_cmp_int32_def js_TA_cmp_uint32_def js_TA_cmp_int64_def js_TA_cmp_uint64_def
      word_le_def Let_def linorder_not_less)

end
