(* ===== verification/Regexp_Chars.thy ===== *)
theory Regexp_Chars
  imports Qjs_Prelude
begin

text \<open>
  Reading characters of the subject string in the regular expression engine
  (\<open>libregexp.c\<close>): the macros \<open>GET_CHAR\<close>, \<open>PEEK_CHAR\<close>, \<open>PEEK_PREV_CHAR\<close>,
  \<open>GET_PREV_CHAR\<close> and \<open>PREV_CHAR\<close>, and the tests and case folding applied to what they
  read.  The subject is the list of its 8- or 16-bit units and a pointer counts units;
  \<open>t\<close> is \<open>cbuf_type\<close> (0: 8 bit, 1: 16 bit, 2: UTF-16).
\<close>

section \<open>Macros\<close>

definition is_hi_surrogate :: "u32 \<Rightarrow> bool" where
  "is_hi_surrogate c \<longleftrightarrow> c \<ge> 0xd800 \<and> c < 0xdc00"

definition is_lo_surrogate :: "u32 \<Rightarrow> bool" where
  "is_lo_surrogate c \<longleftrightarrow> c \<ge> 0xdc00 \<and> c < 0xe000"

definition from_surrogates :: "u32 \<Rightarrow> u32 \<Rightarrow> u32" where
  "from_surrogates hi lo = (push_bit 10 (hi AND 0x3ff) OR (lo AND 0x3ff)) + 0x10000"

definition GET_CHAR :: "nat \<Rightarrow> u32 list \<Rightarrow> nat \<Rightarrow> nat \<Rightarrow> (u32 \<times> nat) option" where
  "GET_CHAR t u cptr cbuf_end = do {
     c \<leftarrow> rd u cptr;
     if t = 0 then Some (c, cptr + 1)
     else if is_hi_surrogate c \<and> t = 2 \<and> cptr + 1 < cbuf_end then do {
       c1 \<leftarrow> rd u (cptr + 1);
       if is_lo_surrogate c1 then Some (from_surrogates c c1, cptr + 2) else Some (c, cptr + 1) }
     else Some (c, cptr + 1) }"

definition PEEK_CHAR :: "nat \<Rightarrow> u32 list \<Rightarrow> nat \<Rightarrow> nat \<Rightarrow> u32 option" where
  "PEEK_CHAR t u cptr cbuf_end = do {
     c \<leftarrow> rd u cptr;
     if t = 0 then Some c
     else if is_hi_surrogate c \<and> t = 2 \<and> cptr + 1 < cbuf_end then do {
       c1 \<leftarrow> rd u (cptr + 1);
       if is_lo_surrogate c1 then Some (from_surrogates c c1) else Some c }
     else Some c }"

definition PEEK_PREV_CHAR :: "nat \<Rightarrow> u32 list \<Rightarrow> nat \<Rightarrow> nat \<Rightarrow> u32 option" where
  "PEEK_PREV_CHAR t u cptr cbuf_start = do {
     assert_c (1 \<le> cptr);
     c \<leftarrow> rd u (cptr - 1);
     if t = 0 then Some c
     else if is_lo_surrogate c \<and> t = 2 \<and> cptr \<ge> cbuf_start + 2 then do {
       c1 \<leftarrow> rd u (cptr - 2);
       if is_hi_surrogate c1 then Some (from_surrogates c1 c) else Some c }
     else Some c }"

definition GET_PREV_CHAR :: "nat \<Rightarrow> u32 list \<Rightarrow> nat \<Rightarrow> nat \<Rightarrow> (u32 \<times> nat) option" where
  "GET_PREV_CHAR t u cptr cbuf_start = do {
     assert_c (1 \<le> cptr);
     let cptr = cptr - 1
     in do {
       c \<leftarrow> rd u cptr;
       if t = 0 then Some (c, cptr)
       else if is_lo_surrogate c \<and> t = 2 \<and> cptr > cbuf_start then do {
         c1 \<leftarrow> rd u (cptr - 1);
         if is_hi_surrogate c1 then Some (from_surrogates c1 c, cptr - 1) else Some (c, cptr) }
       else Some (c, cptr) } }"

definition PREV_CHAR :: "nat \<Rightarrow> u32 list \<Rightarrow> nat \<Rightarrow> nat \<Rightarrow> nat option" where
  "PREV_CHAR t u cptr cbuf_start = do {
     assert_c (1 \<le> cptr);
     let cptr = cptr - 1
     in if t = 0 then Some cptr
        else if t = 2 then do {
          c \<leftarrow> rd u cptr;
          if is_lo_surrogate c \<and> cptr > cbuf_start then do {
            c \<leftarrow> rd u (cptr - 1);
            if is_hi_surrogate c then Some (cptr - 1) else Some cptr }
          else Some cptr }
        else Some cptr }"

fun PREV_CHARS :: "nat \<Rightarrow> u32 list \<Rightarrow> nat \<Rightarrow> nat \<Rightarrow> nat option" where
  "PREV_CHARS t u 0 cptr = Some cptr"
| "PREV_CHARS t u (Suc n) cptr = do {
     cptr \<leftarrow> PREV_CHAR t u cptr 0;
     PREV_CHARS t u n cptr }"

section \<open>Tests\<close>

definition is_digit :: "int \<Rightarrow> bool" where
  "is_digit c \<longleftrightarrow> c \<ge> 48 \<and> c \<le> 57"

definition is_line_terminator :: "u32 \<Rightarrow> bool" where
  "is_line_terminator c \<longleftrightarrow> c = 10 \<or> c = 13 \<or> c = 0x2028 \<or> c = 0x2029"

definition is_word_char :: "u32 \<Rightarrow> bool" where
  "is_word_char c \<longleftrightarrow>
     (c \<ge> 48 \<and> c \<le> 57) \<or> (c \<ge> 97 \<and> c \<le> 122) \<or> (c \<ge> 65 \<and> c \<le> 90) \<or> c = 95"

text \<open>\<open>lre_case_conv\<close> is a parameter here: it gives the code points of the converted
  character for a conversion type (0 upper, 1 lower, 2 fold).\<close>

definition lre_canonicalize :: "(u32 \<Rightarrow> nat \<Rightarrow> u32 list) \<Rightarrow> u32 \<Rightarrow> bool \<Rightarrow> u32" where
  "lre_canonicalize lre_case_conv c is_utf16 =
     (if is_utf16 then
        (if c < 128 then (if c \<ge> 65 \<and> c \<le> 90 then c - 65 + 97 else c)
         else (case lre_case_conv c 2 of r # _ \<Rightarrow> r | [] \<Rightarrow> c))
      else
        (if c < 128 then (if c \<ge> 97 \<and> c \<le> 122 then c - 97 + 65 else c)
         else (case lre_case_conv c 0 of [r] \<Rightarrow> if r \<ge> 128 then r else c | _ \<Rightarrow> c)))"

section \<open>Movement\<close>

text \<open>Where the next character starts.\<close>

definition char_next :: "nat \<Rightarrow> u32 list \<Rightarrow> nat \<Rightarrow> nat \<Rightarrow> nat" where
  "char_next t u p e =
     (if t = 2 \<and> p + 1 < e \<and> is_hi_surrogate (u ! p) \<and> is_lo_surrogate (u ! (p + 1)) then p + 2 else p + 1)"

lemma GET_CHAR_eq:
  assumes "p < e" "e \<le> length u"
  shows "\<exists>c. GET_CHAR t u p e = Some (c, char_next t u p e)"
  using assms by (auto simp: GET_CHAR_def char_next_def)

lemma GET_CHAR_Some:
  assumes "GET_CHAR t u p (length u) = Some (c, p')"
  shows "p < length u" "p' = char_next t u p (length u)"
proof -
  show p: "p < length u"
    using assms by (cases "p < length u") (auto simp: GET_CHAR_def rd_def)
  show "p' = char_next t u p (length u)" using GET_CHAR_eq [OF p order_refl, of t] assms by auto
qed

lemma GET_CHAR_advances: "GET_CHAR t u p e = Some (c, p') \<Longrightarrow> p < p'"
  by (auto simp: GET_CHAR_def split: if_splits Option.bind_splits)

lemma GET_PREV_CHAR_retreats: "GET_PREV_CHAR t u p s = Some (c, p') \<Longrightarrow> p' < p"
  by (auto simp: GET_PREV_CHAR_def Let_def c_mem split: if_splits Option.bind_splits)

lemma char_next_bounds: "p < e \<Longrightarrow> p < char_next t u p e \<and> char_next t u p e \<le> e"
  by (auto simp: char_next_def)

lemma GET_CHAR_cases:
  assumes "cptr < e" "e \<le> length u"
  obtains c cptr' where "GET_CHAR t u cptr e = Some (c, cptr')" "cptr < cptr'" "cptr' \<le> e"
  using GET_CHAR_eq [OF assms, of t] char_next_bounds [OF assms(1), of t u] that by blast

lemma PEEK_CHAR_in: "cptr < e \<Longrightarrow> e \<le> length u \<Longrightarrow> PEEK_CHAR t u cptr e \<noteq> None"
  by (auto simp: PEEK_CHAR_def)

lemma PEEK_CHAR_GET_CHAR: "PEEK_CHAR t u cptr e = map_option fst (GET_CHAR t u cptr e)"
  by (cases "rd u cptr"; cases "rd u (cptr + 1)") (auto simp: PEEK_CHAR_def GET_CHAR_def)

lemma PEEK_PREV_CHAR_in: "0 < cptr \<Longrightarrow> cptr \<le> length u \<Longrightarrow> PEEK_PREV_CHAR t u cptr s \<noteq> None"
  by (auto simp: PEEK_PREV_CHAR_def)

lemma GET_PREV_CHAR_in:
  assumes "s < cptr" "cptr \<le> length u"
  shows "\<exists>c cptr'. GET_PREV_CHAR t u cptr s = Some (c, cptr') \<and> s \<le> cptr' \<and> cptr' < cptr"
  using assms by (auto simp: GET_PREV_CHAR_def Let_def)

text \<open>The position one character back, for a position after the start.\<close>

definition prev_pos :: "nat \<Rightarrow> u32 list \<Rightarrow> nat \<Rightarrow> nat" where
  "prev_pos t u q =
     (if t = 2 \<and> 1 < q \<and> is_lo_surrogate (u ! (q - 1)) \<and> is_hi_surrogate (u ! (q - 2)) then q - 2 else q - 1)"

lemma prev_pos_less: "0 < q \<Longrightarrow> prev_pos t u q < q"
  by (auto simp: prev_pos_def)

lemma PREV_CHAR_eq:
  assumes "0 < q" "q \<le> length u"
  shows "PREV_CHAR t u q 0 = Some (prev_pos t u q)"
proof -
  have "q - 2 = q - 1 - 1" by simp
  then show ?thesis using assms by (auto simp: PREV_CHAR_def prev_pos_def Let_def)
qed

text \<open>Stepping back undoes reading forward, wherever both see the same surrogate pairs.\<close>

lemma PREV_CHAR_GET_CHAR:
  assumes "GET_CHAR t u p (length u) = Some (c, p')"
    and "\<not> (t = 2 \<and> 0 < p \<and> is_lo_surrogate (u ! p) \<and> is_hi_surrogate (u ! (p - 1)))"
  shows "PREV_CHAR t u p' 0 = Some p"
proof -
  note g = GET_CHAR_Some [OF assms(1)]
  have "0 < p'" "p' \<le> length u" using g char_next_bounds [OF g(1), of t u] by auto
  moreover have "prev_pos t u p' = p"
    unfolding g(2) using assms(2) g(1)
    by (auto simp: char_next_def prev_pos_def)
  ultimately show ?thesis by (simp add: PREV_CHAR_eq)
qed

section \<open>Counting characters\<close>

text \<open>How many steps back there are from a position.\<close>

function chars_before :: "nat \<Rightarrow> u32 list \<Rightarrow> nat \<Rightarrow> nat" where
  "chars_before t u q = (if q = 0 then 0 else Suc (chars_before t u (prev_pos t u q)))"
  by pat_completeness auto
termination
  by (relation "measure (\<lambda>(t, u, q). q)") (auto simp: prev_pos_less)

declare chars_before.simps [simp del]

lemma chars_before_0 [simp]: "chars_before t u 0 = 0"
  by (simp add: chars_before.simps)

lemma chars_before_pos: "0 < q \<Longrightarrow> chars_before t u q = Suc (chars_before t u (prev_pos t u q))"
  by (simp add: chars_before.simps [of t u q])

lemma PREV_CHARS_ok:
  assumes "q \<le> length u" "n \<le> chars_before t u q"
  shows "\<exists>r. PREV_CHARS t u n q = Some r \<and> r \<le> q \<and> chars_before t u r = chars_before t u q - n"
  using assms
proof (induction n arbitrary: q)
  case (Suc n)
  then have q: "0 < q" by (cases q) auto
  have "n \<le> chars_before t u (prev_pos t u q)" using Suc.prems(2) chars_before_pos [OF q, of t u] by simp
  moreover have "prev_pos t u q \<le> length u" using prev_pos_less [OF q, of t u] Suc.prems(1) by simp
  ultimately obtain r where r: "PREV_CHARS t u n (prev_pos t u q) = Some r" "r \<le> prev_pos t u q"
    "chars_before t u r = chars_before t u (prev_pos t u q) - n" using Suc.IH by blast
  then show ?case
    using Suc.prems(1) q prev_pos_less [OF q, of t u] chars_before_pos [OF q, of t u]
    by (auto simp: PREV_CHAR_eq)
qed simp

text \<open>A position between the two halves of a surrogate pair.\<close>

definition inside_pair :: "nat \<Rightarrow> u32 list \<Rightarrow> nat \<Rightarrow> bool" where
  "inside_pair t u p \<longleftrightarrow>
     t = 2 \<and> 0 < p \<and> p < length u \<and> is_hi_surrogate (u ! (p - 1)) \<and> is_lo_surrogate (u ! p)"

text \<open>Each character read forward adds a step back, counting a position inside a pair one
  less.\<close>

definition back_room :: "nat \<Rightarrow> u32 list \<Rightarrow> nat \<Rightarrow> nat" where
  "back_room t u p = chars_before t u p - (if inside_pair t u p then 1 else 0)"

lemma surrogates_disjoint: "is_hi_surrogate c \<Longrightarrow> \<not> is_lo_surrogate c"
  by (auto simp: is_hi_surrogate_def is_lo_surrogate_def)

lemma GET_CHAR_back_room:
  assumes "GET_CHAR t u p (length u) = Some (c, p')"
  shows "back_room t u p + 1 \<le> back_room t u p'"
proof -
  note g = GET_CHAR_Some [OF assms] and p = GET_CHAR_Some(1) [OF assms]
  consider (pair) "t = 2" "p + 1 < length u" "is_hi_surrogate (u ! p)" "is_lo_surrogate (u ! (p + 1))" "p' = p + 2"
    | (single) "\<not> (t = 2 \<and> p + 1 < length u \<and> is_hi_surrogate (u ! p) \<and> is_lo_surrogate (u ! (p + 1)))" "p' = p + 1"
    using g(2) unfolding char_next_def by (simp split: if_splits)
  then show ?thesis
  proof cases
    case pair
    then have "prev_pos t u p' = p" by (simp add: prev_pos_def)
    then have "chars_before t u p' = Suc (chars_before t u p)" using pair chars_before_pos [of p' t u] by simp
    moreover have "\<not> inside_pair t u p'"
      using pair surrogates_disjoint by (auto simp: inside_pair_def)
    ultimately show ?thesis by (simp add: back_room_def)
  next
    case single
    have out: "\<not> inside_pair t u p'" using single p by (auto simp: inside_pair_def)
    show ?thesis
    proof (cases "inside_pair t u p")
      case True
      then have "0 < p" "prev_pos t u p' = p - 1" "prev_pos t u p = p - 1"
        using single surrogates_disjoint
        by (auto simp: inside_pair_def prev_pos_def)
      then have "chars_before t u p' = chars_before t u p" "0 < chars_before t u p"
        using single chars_before_pos [of p' t u] chars_before_pos [of p t u] by auto
      with True out show ?thesis by (simp add: back_room_def)
    next
      case False
      then have "prev_pos t u p' = p"
        using single p by (auto simp: inside_pair_def prev_pos_def)
      then have "chars_before t u p' = Suc (chars_before t u p)" using single chars_before_pos [of p' t u] by simp
      with False out show ?thesis by (simp add: back_room_def)
    qed
  qed
qed

lemma back_room_le: "back_room t u p \<le> chars_before t u p"
  by (simp add: back_room_def)

end
