(* ===== verification/Regexp_Exec.thy ===== *)
theory Regexp_Exec
  imports Regexp_Chars Cutils_Bytes
begin

text \<open>
  The backtracking interpreter of compiled regular expressions (\<open>libregexp.c\<close>,
  \<open>lre_exec_backtrack\<close> and \<open>lre_exec\<close>): instruction fetch, one function per group of
  instructions, the stack of saved states, the loop of simple greedy quantifiers with its
  nested call, and the unwinding after a match or a failure.

  Bytecode is the list of its bytes and \<open>pc\<close> an index into it; a jump is the signed
  32-bit offset of the code.  The C function loops until it returns, so the interpreter
  has fuel; \<open>Timeout\<close> is running out of it and \<open>Ub\<close> is undefined behaviour, a failed
  assertion or \<open>abort\<close>.  The main theorem is that well-formed bytecode never reaches
  \<open>Ub\<close>, whatever the subject and the fuel.
\<close>

section \<open>Instructions\<close>

datatype re_op =
    REOP_char u32 | REOP_char32 u32 | REOP_dot | REOP_any | REOP_line_start | REOP_line_end
  | REOP_goto u32 | REOP_split_goto_first u32 | REOP_split_next_first u32 | REOP_match
  | REOP_save_start nat | REOP_save_end nat | REOP_save_reset nat nat
  | REOP_loop u32 | REOP_push_i32 u32 | REOP_drop
  | REOP_word_boundary | REOP_not_word_boundary
  | REOP_back_reference nat | REOP_backward_back_reference nat
  | REOP_range nat | REOP_range32 nat
  | REOP_lookahead u32 | REOP_negative_lookahead u32
  | REOP_push_char_pos | REOP_bne_char_pos u32 | REOP_prev
  | REOP_simple_greedy_quant u32 u32 u32

text \<open>Sizes of the instructions (\<open>libregexp-opcode.h\<close>), without the variable part of the
  two range instructions.\<close>

definition reopcode_info :: "nat list" where
  "reopcode_info =
     [1, 3, 5, 1, 1, 1, 1, 5, 5, 5, 1, 2, 2, 3, 5, 5, 1, 1, 1, 2, 2, 3, 3, 5, 5, 1, 5, 1, 17]"

definition op_u8 :: "bytes \<Rightarrow> nat \<Rightarrow> (nat \<Rightarrow> re_op) \<Rightarrow> (re_op \<times> nat) option" where
  "op_u8 bc pc f = do { v \<leftarrow> rd bc pc; Some (f (unat v), pc + 1) }"

definition op_u16 :: "bytes \<Rightarrow> nat \<Rightarrow> (u32 \<Rightarrow> re_op) \<Rightarrow> (re_op \<times> nat) option" where
  "op_u16 bc pc f = do { v \<leftarrow> get_u16 bc pc; Some (f v, pc + 2) }"

definition op_u32 :: "bytes \<Rightarrow> nat \<Rightarrow> (u32 \<Rightarrow> re_op) \<Rightarrow> (re_op \<times> nat) option" where
  "op_u32 bc pc f = do { v \<leftarrow> get_u32 bc pc; Some (f v, pc + 4) }"

text \<open>The instruction at \<open>pc\<close> with its operands and the \<open>pc\<close> after them; for the range
  instructions this is where their table starts.\<close>

definition re_fetch :: "bytes \<Rightarrow> nat \<Rightarrow> (re_op \<times> nat) option" where
  "re_fetch bc pc = do {
     opcode \<leftarrow> rd bc pc;
     let pc = pc + 1; n = unat opcode
     in    if n = 1 then op_u16 bc pc REOP_char
           else if n = 2 then op_u32 bc pc REOP_char32
           else if n = 3 then Some (REOP_dot, pc)
           else if n = 4 then Some (REOP_any, pc)
           else if n = 5 then Some (REOP_line_start, pc)
           else if n = 6 then Some (REOP_line_end, pc)
           else if n = 7 then op_u32 bc pc REOP_goto
           else if n = 8 then op_u32 bc pc REOP_split_goto_first
           else if n = 9 then op_u32 bc pc REOP_split_next_first
           else if n = 10 then Some (REOP_match, pc)
           else if n = 11 then op_u8 bc pc REOP_save_start
           else if n = 12 then op_u8 bc pc REOP_save_end
           else if n = 13 then do {
             a \<leftarrow> rd bc pc;
             b \<leftarrow> rd bc (pc + 1);
             Some (REOP_save_reset (unat a) (unat b), pc + 2) }
           else if n = 14 then op_u32 bc pc REOP_loop
           else if n = 15 then op_u32 bc pc REOP_push_i32
           else if n = 16 then Some (REOP_drop, pc)
           else if n = 17 then Some (REOP_word_boundary, pc)
           else if n = 18 then Some (REOP_not_word_boundary, pc)
           else if n = 19 then op_u8 bc pc REOP_back_reference
           else if n = 20 then op_u8 bc pc REOP_backward_back_reference
           else if n = 21 then op_u16 bc pc (\<lambda>v. REOP_range (unat v))
           else if n = 22 then op_u16 bc pc (\<lambda>v. REOP_range32 (unat v))
           else if n = 23 then op_u32 bc pc REOP_lookahead
           else if n = 24 then op_u32 bc pc REOP_negative_lookahead
           else if n = 25 then Some (REOP_push_char_pos, pc)
           else if n = 26 then op_u32 bc pc REOP_bne_char_pos
           else if n = 27 then Some (REOP_prev, pc)
           else if n = 28 then do {
             next_pos \<leftarrow> get_u32 bc pc;
             quant_min \<leftarrow> get_u32 bc (pc + 4);
             quant_max \<leftarrow> get_u32 bc (pc + 8);
             Some (REOP_simple_greedy_quant next_pos quant_min quant_max, pc + 16) }
           else None }"

text \<open>\<open>pc + (int)val\<close>.\<close>

definition re_jump :: "nat \<Rightarrow> u32 \<Rightarrow> nat option" where
  "re_jump pc val = (let t = int pc + sint val in if 0 \<le> t then Some (nat t) else None)"

section \<open>State\<close>

datatype REExecStateEnum =
    RE_EXEC_STATE_SPLIT | RE_EXEC_STATE_LOOKAHEAD
  | RE_EXEC_STATE_NEGATIVE_LOOKAHEAD | RE_EXEC_STATE_GREEDY_QUANT

record REExecState =
  es_type :: REExecStateEnum
  es_stack_len :: nat
  es_count :: nat
  es_cptr :: nat
  es_pc :: nat
  es_capture :: "nat option list"
  es_stack :: "u64 list"

text \<open>The parts of \<open>REExecContext\<close> that a run does not change.  \<open>re_cbuf_addr\<close> is the
  address of the subject, \<open>re_canon\<close> the case folding, and \<open>re_grant\<close> tells whether
  \<open>lre_realloc\<close> grants a stack of that many states.\<close>

record REExecContext =
  re_cbuf :: "u32 list"
  re_cbuf_addr :: u64
  re_cbuf_type :: nat
  re_capture_count :: nat
  re_stack_size_max :: nat
  re_multi_line :: bool
  re_ignore_case :: bool
  re_is_utf16 :: bool
  re_canon :: "u32 \<Rightarrow> bool \<Rightarrow> u32"
  re_grant :: "nat \<Rightarrow> bool"

text \<open>What a run changes: the captures, the array of the integer stack, the saved states
  (the last one first) and the capacity of their stack.\<close>

record re_mem =
  rm_capture :: "nat option list"
  rm_stack :: "u64 list"
  rm_states :: "REExecState list"
  rm_states_size :: nat

text \<open>A cursor: \<open>stack_len\<close>, \<open>pc\<close> and \<open>cptr\<close>.\<close>

type_synonym re_cur = "nat \<times> nat \<times> nat"

abbreviation cbuf_end :: "REExecContext \<Rightarrow> nat" where
  "cbuf_end s \<equiv> length (re_cbuf s)"

definition char_addr :: "REExecContext \<Rightarrow> nat \<Rightarrow> u64" where
  "char_addr s cptr = re_cbuf_addr s + word_of_nat (if re_cbuf_type s = 0 then cptr else 2 * cptr)"

definition fold_char :: "REExecContext \<Rightarrow> u32 \<Rightarrow> u32" where
  "fold_char s c = (if re_ignore_case s then re_canon s c (re_is_utf16 s) else c)"

text \<open>Save the state; \<open>Some None\<close> is the return value -1.  \<open>stack_len\<close> is kept in a byte.\<close>

definition push_state ::
    "REExecContext \<Rightarrow> re_mem \<Rightarrow> nat \<Rightarrow> nat \<Rightarrow> nat \<Rightarrow> REExecStateEnum \<Rightarrow> nat \<Rightarrow> re_mem option option" where
  "push_state s m stack_len pc cptr ty count = do {
     caps \<leftarrow> rd_block (rm_capture m) 0 (2 * re_capture_count s);
     stk \<leftarrow> rd_block (rm_stack m) 0 stack_len;
     let rs = \<lparr>es_type = ty, es_stack_len = stack_len mod 256, es_count = count, es_cptr = cptr,
               es_pc = pc, es_capture = caps, es_stack = stk\<rparr>
     in if length (rm_states m) + 1 > rm_states_size m then
          (let new_size = rm_states_size m * 3 div 2;
               new_size = (if new_size < 8 then 8 else new_size)
           in if re_grant s new_size
              then Some (Some (m\<lparr>rm_states := rs # rm_states m, rm_states_size := new_size\<rparr>))
              else Some None)
        else Some (Some (m\<lparr>rm_states := rs # rm_states m\<rparr>)) }"

section \<open>Character classes\<close>

text \<open>The binary searches.  \<open>idx - 1\<close> with \<open>idx = 0\<close> wraps, and the next access would
  be far outside the table, so it is \<open>None\<close>.\<close>

function range_search :: "(nat \<Rightarrow> u32 option) \<Rightarrow> (nat \<Rightarrow> u32 option) \<Rightarrow> u32 \<Rightarrow> nat \<Rightarrow> nat \<Rightarrow> bool option" where
  "range_search lowf highf c idx_min idx_max =
     (if idx_min \<le> idx_max then
        (let idx = (idx_min + idx_max) div 2
         in do {
           low \<leftarrow> lowf idx;
           high \<leftarrow> highf idx;
           if c < low then (if idx = 0 then None else range_search lowf highf c idx_min (idx - 1))
           else if c > high then range_search lowf highf c (idx + 1) idx_max
           else Some True })
      else Some False)"
  by pat_completeness auto
termination
  by (relation "measure (\<lambda>(l, h, c, a, b). b + 1 - a)") auto

declare range_search.simps [simp del]

definition re_range :: "bytes \<Rightarrow> nat \<Rightarrow> nat \<Rightarrow> u32 \<Rightarrow> bool option" where
  "re_range bc pc n c = do {
     low \<leftarrow> get_u16 bc pc;
     if c < low then Some False
     else do {
       assert_c (1 \<le> n);
       high \<leftarrow> get_u16 bc (pc + (n - 1) * 4 + 2);
       if c \<ge> 0xffff \<and> high = 0xffff then Some True
       else if c > high then Some False
       else range_search (\<lambda>i. get_u16 bc (pc + i * 4)) (\<lambda>i. get_u16 bc (pc + i * 4 + 2)) c 0 (n - 1) } }"

definition re_range32 :: "bytes \<Rightarrow> nat \<Rightarrow> nat \<Rightarrow> u32 \<Rightarrow> bool option" where
  "re_range32 bc pc n c = do {
     low \<leftarrow> get_u32 bc pc;
     if c < low then Some False
     else do {
       assert_c (1 \<le> n);
       high \<leftarrow> get_u32 bc (pc + (n - 1) * 8 + 4);
       if c > high then Some False
       else range_search (\<lambda>i. get_u32 bc (pc + i * 8)) (\<lambda>i. get_u32 bc (pc + i * 8 + 4)) c 0 (n - 1) } }"

section \<open>Back references\<close>

text \<open>Compare the captured text with the subject: \<open>Some None\<close> is no match, otherwise the
  new position.\<close>

function back_ref_loop :: "REExecContext \<Rightarrow> nat \<Rightarrow> nat \<Rightarrow> nat \<Rightarrow> nat option option" where
  "back_ref_loop s cptr1 cptr1_end cptr =
     (if cptr1 < cptr1_end then
        (if cptr \<ge> cbuf_end s then Some None
         else case GET_CHAR (re_cbuf_type s) (re_cbuf s) cptr1 cptr1_end of
             None \<Rightarrow> None
           | Some (c1, cptr1') \<Rightarrow>
               (case GET_CHAR (re_cbuf_type s) (re_cbuf s) cptr (cbuf_end s) of
                  None \<Rightarrow> None
                | Some (c2, cptr') \<Rightarrow>
                    if fold_char s c1 \<noteq> fold_char s c2 then Some None
                    else back_ref_loop s cptr1' cptr1_end cptr'))
      else Some (Some cptr))"
  by pat_completeness auto
termination
  by (relation "measure (\<lambda>(s, a, b, c). b - a)") (auto dest: GET_CHAR_advances)

declare back_ref_loop.simps [simp del]

function back_ref_prev_loop :: "REExecContext \<Rightarrow> nat \<Rightarrow> nat \<Rightarrow> nat \<Rightarrow> nat option option" where
  "back_ref_prev_loop s cptr1 cptr1_start cptr =
     (if cptr1 > cptr1_start then
        (if cptr = 0 then Some None
         else case GET_PREV_CHAR (re_cbuf_type s) (re_cbuf s) cptr1 cptr1_start of
             None \<Rightarrow> None
           | Some (c1, cptr1') \<Rightarrow>
               (case GET_PREV_CHAR (re_cbuf_type s) (re_cbuf s) cptr 0 of
                  None \<Rightarrow> None
                | Some (c2, cptr') \<Rightarrow>
                    if fold_char s c1 \<noteq> fold_char s c2 then Some None
                    else back_ref_prev_loop s cptr1' cptr1_start cptr'))
      else Some (Some cptr))"
  by pat_completeness auto
termination
  by (relation "measure (\<lambda>(s, a, b, c). a)") (auto dest: GET_PREV_CHAR_retreats)

declare back_ref_prev_loop.simps [simp del]

section \<open>One instruction\<close>

text \<open>What an instruction leads to: the next one, a failure of this alternative, a match,
  a simple greedy quantifier (start of its body, continuation, bounds), or the return
  value -1.\<close>

datatype re_next =
    Go re_mem nat nat nat
  | NoMatch
  | Matched nat
  | Quant nat nat u32 u32
  | OutOfMemory

text \<open>Read a character and go on if it passes a test.\<close>

definition re_test_char ::
    "REExecContext \<Rightarrow> re_mem \<Rightarrow> nat \<Rightarrow> nat \<Rightarrow> nat \<Rightarrow> (u32 \<Rightarrow> bool) \<Rightarrow> re_next option" where
  "re_test_char s m stack_len pc cptr test =
     (if cptr \<ge> cbuf_end s then Some NoMatch
      else do {
        (c, cptr) \<leftarrow> GET_CHAR (re_cbuf_type s) (re_cbuf s) cptr (cbuf_end s);
        Some (if test c then Go m stack_len pc cptr else NoMatch) })"

definition re_split ::
    "REExecContext \<Rightarrow> re_mem \<Rightarrow> nat \<Rightarrow> nat \<Rightarrow> nat \<Rightarrow> nat \<Rightarrow> REExecStateEnum \<Rightarrow> re_next option" where
  "re_split s m stack_len pc pc1 cptr ty = do {
     r \<leftarrow> push_state s m stack_len pc1 cptr ty 0;
     Some (case r of None \<Rightarrow> OutOfMemory | Some m \<Rightarrow> Go m stack_len pc cptr) }"

definition re_is_word_at :: "REExecContext \<Rightarrow> nat \<Rightarrow> (bool \<times> bool) option" where
  "re_is_word_at s cptr = do {
     v1 \<leftarrow> (if cptr = 0 then Some False
           else map_option is_word_char (PEEK_PREV_CHAR (re_cbuf_type s) (re_cbuf s) cptr 0));
     v2 \<leftarrow> (if cptr \<ge> cbuf_end s then Some False
           else map_option is_word_char (PEEK_CHAR (re_cbuf_type s) (re_cbuf s) cptr (cbuf_end s)));
     Some (v1, v2) }"

definition re_back_reference ::
    "REExecContext \<Rightarrow> re_mem \<Rightarrow> nat \<Rightarrow> nat \<Rightarrow> nat \<Rightarrow> nat \<Rightarrow> bool \<Rightarrow> re_next option" where
  "re_back_reference s m stack_len pc cptr val backward =
     (if val \<ge> re_capture_count s then Some NoMatch
      else do {
        cptr1_start \<leftarrow> rd (rm_capture m) (2 * val);
        cptr1_end \<leftarrow> rd (rm_capture m) (2 * val + 1);
        case (cptr1_start, cptr1_end) of
          (Some a, Some b) \<Rightarrow> do {
            r \<leftarrow> (if backward then back_ref_prev_loop s b a cptr else back_ref_loop s a b cptr);
            Some (case r of None \<Rightarrow> NoMatch | Some cptr \<Rightarrow> Go m stack_len pc cptr) }
        | _ \<Rightarrow> Some (Go m stack_len pc cptr) })"

fun re_reset :: "nat option list \<Rightarrow> nat \<Rightarrow> nat \<Rightarrow> nat option list option" where
  "re_reset caps val 0 = Some caps"
| "re_reset caps val (Suc n) = do {
     caps \<leftarrow> wr caps (2 * val) None;
     caps \<leftarrow> wr caps (2 * val + 1) None;
     re_reset caps (val + 1) n }"

text \<open>The \<open>switch\<close> over the instructions; \<open>pc\<close> is behind the operands already read.\<close>

fun re_step :: "REExecContext \<Rightarrow> bytes \<Rightarrow> re_op \<Rightarrow> re_mem \<Rightarrow> nat \<Rightarrow> nat \<Rightarrow> nat \<Rightarrow> re_next option" where
  "re_step s bc REOP_match m sl pc cptr = Some (Matched cptr)"
| "re_step s bc (REOP_char32 val) m sl pc cptr = re_test_char s m sl pc cptr (\<lambda>c. val = fold_char s c)"
| "re_step s bc (REOP_char val) m sl pc cptr = re_test_char s m sl pc cptr (\<lambda>c. val = fold_char s c)"
| "re_step s bc (REOP_split_goto_first val) m sl pc cptr = do {
     t \<leftarrow> re_jump pc val;
     re_split s m sl t pc cptr RE_EXEC_STATE_SPLIT }"
| "re_step s bc (REOP_split_next_first val) m sl pc cptr = do {
     t \<leftarrow> re_jump pc val;
     re_split s m sl pc t cptr RE_EXEC_STATE_SPLIT }"
| "re_step s bc (REOP_lookahead val) m sl pc cptr = do {
     t \<leftarrow> re_jump pc val;
     re_split s m sl pc t cptr RE_EXEC_STATE_LOOKAHEAD }"
| "re_step s bc (REOP_negative_lookahead val) m sl pc cptr = do {
     t \<leftarrow> re_jump pc val;
     re_split s m sl pc t cptr RE_EXEC_STATE_NEGATIVE_LOOKAHEAD }"
| "re_step s bc (REOP_goto val) m sl pc cptr = do {
     t \<leftarrow> re_jump pc val;
     Some (Go m sl t cptr) }"
| "re_step s bc REOP_line_start m sl pc cptr =
     (if cptr = 0 then Some (Go m sl pc cptr)
      else if \<not> re_multi_line s then Some NoMatch
      else do {
        c \<leftarrow> PEEK_PREV_CHAR (re_cbuf_type s) (re_cbuf s) cptr 0;
        Some (if is_line_terminator c then Go m sl pc cptr else NoMatch) })"
| "re_step s bc REOP_line_end m sl pc cptr =
     (if cptr = cbuf_end s then Some (Go m sl pc cptr)
      else if \<not> re_multi_line s then Some NoMatch
      else do {
        c \<leftarrow> PEEK_CHAR (re_cbuf_type s) (re_cbuf s) cptr (cbuf_end s);
        Some (if is_line_terminator c then Go m sl pc cptr else NoMatch) })"
| "re_step s bc REOP_dot m sl pc cptr =
     (if cptr = cbuf_end s then Some NoMatch
      else do {
        (c, cptr) \<leftarrow> GET_CHAR (re_cbuf_type s) (re_cbuf s) cptr (cbuf_end s);
        Some (if is_line_terminator c then NoMatch else Go m sl pc cptr) })"
| "re_step s bc REOP_any m sl pc cptr =
     (if cptr = cbuf_end s then Some NoMatch
      else do {
        (c, cptr) \<leftarrow> GET_CHAR (re_cbuf_type s) (re_cbuf s) cptr (cbuf_end s);
        Some (Go m sl pc cptr) })"
| "re_step s bc (REOP_save_start val) m sl pc cptr = do {
     assert_c (val < re_capture_count s);
     caps \<leftarrow> wr (rm_capture m) (2 * val) (Some cptr);
     Some (Go (m\<lparr>rm_capture := caps\<rparr>) sl pc cptr) }"
| "re_step s bc (REOP_save_end val) m sl pc cptr = do {
     assert_c (val < re_capture_count s);
     caps \<leftarrow> wr (rm_capture m) (2 * val + 1) (Some cptr);
     Some (Go (m\<lparr>rm_capture := caps\<rparr>) sl pc cptr) }"
| "re_step s bc (REOP_save_reset val val2) m sl pc cptr = do {
     assert_c (val2 < re_capture_count s);
     caps \<leftarrow> re_reset (rm_capture m) val (val2 + 1 - val);
     Some (Go (m\<lparr>rm_capture := caps\<rparr>) sl pc cptr) }"
| "re_step s bc (REOP_push_i32 val) m sl pc cptr = do {
     stk \<leftarrow> wr (rm_stack m) sl (ucast val);
     Some (Go (m\<lparr>rm_stack := stk\<rparr>) (sl + 1) pc cptr) }"
| "re_step s bc REOP_drop m sl pc cptr = do {
     assert_c (0 < sl);
     Some (Go m (sl - 1) pc cptr) }"
| "re_step s bc (REOP_loop val) m sl pc cptr = do {
     assert_c (0 < sl);
     v \<leftarrow> rd (rm_stack m) (sl - 1);
     stk \<leftarrow> wr (rm_stack m) (sl - 1) (v - 1);
     t \<leftarrow> (if v - 1 \<noteq> 0 then re_jump pc val else Some pc);
     Some (Go (m\<lparr>rm_stack := stk\<rparr>) sl t cptr) }"
| "re_step s bc REOP_push_char_pos m sl pc cptr = do {
     stk \<leftarrow> wr (rm_stack m) sl (char_addr s cptr);
     Some (Go (m\<lparr>rm_stack := stk\<rparr>) (sl + 1) pc cptr) }"
| "re_step s bc (REOP_bne_char_pos val) m sl pc cptr = do {
     assert_c (0 < sl);
     v \<leftarrow> rd (rm_stack m) (sl - 1);
     t \<leftarrow> (if v \<noteq> char_addr s cptr then re_jump pc val else Some pc);
     Some (Go m (sl - 1) t cptr) }"
| "re_step s bc REOP_word_boundary m sl pc cptr = do {
     (v1, v2) \<leftarrow> re_is_word_at s cptr;
     Some (if v1 = v2 then NoMatch else Go m sl pc cptr) }"
| "re_step s bc REOP_not_word_boundary m sl pc cptr = do {
     (v1, v2) \<leftarrow> re_is_word_at s cptr;
     Some (if v1 \<noteq> v2 then NoMatch else Go m sl pc cptr) }"
| "re_step s bc (REOP_back_reference val) m sl pc cptr = re_back_reference s m sl pc cptr val False"
| "re_step s bc (REOP_backward_back_reference val) m sl pc cptr = re_back_reference s m sl pc cptr val True"
| "re_step s bc (REOP_range n) m sl pc cptr =
     (if cptr \<ge> cbuf_end s then Some NoMatch
      else do {
        (c, cptr) \<leftarrow> GET_CHAR (re_cbuf_type s) (re_cbuf s) cptr (cbuf_end s);
        b \<leftarrow> re_range bc pc n (fold_char s c);
        Some (if b then Go m sl (pc + 4 * n) cptr else NoMatch) })"
| "re_step s bc (REOP_range32 n) m sl pc cptr =
     (if cptr \<ge> cbuf_end s then Some NoMatch
      else do {
        (c, cptr) \<leftarrow> GET_CHAR (re_cbuf_type s) (re_cbuf s) cptr (cbuf_end s);
        b \<leftarrow> re_range32 bc pc n (fold_char s c);
        Some (if b then Go m sl (pc + 8 * n) cptr else NoMatch) })"
| "re_step s bc REOP_prev m sl pc cptr =
     (if cptr = 0 then Some NoMatch
      else do {
        cptr \<leftarrow> PREV_CHAR (re_cbuf_type s) (re_cbuf s) cptr 0;
        Some (Go m sl pc cptr) })"
| "re_step s bc (REOP_simple_greedy_quant next_pos quant_min quant_max) m sl pc cptr = do {
     t \<leftarrow> re_jump pc next_pos;
     Some (Quant pc t quant_min quant_max) }"

section \<open>Unwinding\<close>

text \<open>The loop at \<open>recurse\<close>: drop saved states until one of them resumes; \<open>Inl\<close> is the
  return value of the run, \<open>Inr\<close> the cursor to go on with.\<close>

definition restore :: "re_mem \<Rightarrow> REExecState \<Rightarrow> bool \<Rightarrow> REExecState list \<Rightarrow> re_mem option" where
  "restore m rs with_capture states = do {
     caps \<leftarrow> (if with_capture then blit (rm_capture m) 0 (es_capture rs) else Some (rm_capture m));
     stk \<leftarrow> blit (rm_stack m) 0 (es_stack rs);
     Some (m\<lparr>rm_capture := caps, rm_stack := stk, rm_states := states\<rparr>) }"

fun re_unwind ::
    "REExecContext \<Rightarrow> bytes \<Rightarrow> re_mem \<Rightarrow> REExecState list \<Rightarrow> bool \<Rightarrow> (bool + re_mem \<times> re_cur) option" where
  "re_unwind s bc m [] ret = Some (Inl ret)"
| "re_unwind s bc m (rs # states) ret =
     (case es_type rs of
        RE_EXEC_STATE_SPLIT \<Rightarrow>
          if \<not> ret then do {
            m \<leftarrow> restore m rs True states;
            Some (Inr (m, es_stack_len rs, es_pc rs, es_cptr rs)) }
          else re_unwind s bc m states ret
      | RE_EXEC_STATE_GREEDY_QUANT \<Rightarrow>
          if \<not> ret then do {
            char_count \<leftarrow> get_u32 bc (es_pc rs + 12);
            cptr \<leftarrow> PREV_CHARS (re_cbuf_type s) (re_cbuf s) (unat char_count) (es_cptr rs);
            val \<leftarrow> get_u32 bc (es_pc rs);
            t \<leftarrow> re_jump (es_pc rs + 16) val;
            m \<leftarrow> restore m rs True
                  (if es_count rs - 1 = 0 then states
                   else rs\<lparr>es_cptr := cptr, es_count := es_count rs - 1\<rparr> # states);
            Some (Inr (m, es_stack_len rs, t, cptr)) }
          else re_unwind s bc m states ret
      | RE_EXEC_STATE_LOOKAHEAD \<Rightarrow>
          if ret then do {
            m \<leftarrow> restore m rs False states;
            Some (Inr (m, es_stack_len rs, es_pc rs, es_cptr rs)) }
          else re_unwind s bc m states False
      | RE_EXEC_STATE_NEGATIVE_LOOKAHEAD \<Rightarrow>
          if \<not> ret then do {
            m \<leftarrow> restore m rs True states;
            Some (Inr (m, es_stack_len rs, es_pc rs, es_cptr rs)) }
          else re_unwind s bc m states False)"

section \<open>The interpreter\<close>

datatype 'a run = Ub | Timeout | Done 'a

text \<open>Results of \<open>lre_exec_backtrack\<close>: a match (with the position for a nested call), no
  match, or the error -1.\<close>

datatype re_result = Ret_match nat | Ret_no_match | Ret_error

text \<open>The loop of a simple greedy quantifier around the nested call \<open>body\<close>: the number of
  repetitions and the position after them, or \<open>None\<close> for the error of a nested call.\<close>

primrec re_greedy ::
    "nat \<Rightarrow> (re_mem \<Rightarrow> nat \<Rightarrow> (re_mem \<times> re_result) run) \<Rightarrow> u32 \<Rightarrow> re_mem \<Rightarrow> nat \<Rightarrow> nat \<Rightarrow>
     (re_mem \<times> (nat \<times> nat) option) run" where
  "re_greedy 0 body quant_max m q cptr = Timeout"
| "re_greedy (Suc fuel) body quant_max m q cptr =
     (case body m cptr of
        Ub \<Rightarrow> Ub
      | Timeout \<Rightarrow> Timeout
      | Done (m, r) \<Rightarrow>
          (case r of
             Ret_error \<Rightarrow> Done (m, None)
           | Ret_no_match \<Rightarrow> Done (m, Some (q, cptr))
           | Ret_match cptr \<Rightarrow>
               if q + 1 \<ge> unat quant_max \<and> quant_max \<noteq> 0x7fffffff then Done (m, Some (q + 1, cptr))
               else re_greedy fuel body quant_max m (q + 1) cptr))"

text \<open>After a match or a failure: a nested call returns, another one unwinds and goes on
  with \<open>go\<close>.\<close>

definition re_resume ::
    "REExecContext \<Rightarrow> bytes \<Rightarrow> bool \<Rightarrow> (re_mem \<Rightarrow> nat \<Rightarrow> nat \<Rightarrow> nat \<Rightarrow> (re_mem \<times> re_result) run) \<Rightarrow>
     re_mem \<Rightarrow> bool \<Rightarrow> nat \<Rightarrow> (re_mem \<times> re_result) run" where
  "re_resume s bc no_recurse go m ret cptr =
     (if no_recurse then Done (m, if ret then Ret_match cptr else Ret_no_match)
      else case re_unwind s bc m (rm_states m) ret of
          None \<Rightarrow> Ub
        | Some (Inl ret) \<Rightarrow> Done (m\<lparr>rm_states := []\<rparr>, if ret then Ret_match cptr else Ret_no_match)
        | Some (Inr (m, sl, pc, cptr)) \<Rightarrow> go m sl pc cptr)"

definition re_after_greedy ::
    "REExecContext \<Rightarrow> bytes \<Rightarrow> bool \<Rightarrow> (re_mem \<Rightarrow> nat \<Rightarrow> nat \<Rightarrow> nat \<Rightarrow> (re_mem \<times> re_result) run) \<Rightarrow>
     re_mem \<Rightarrow> nat \<Rightarrow> nat \<Rightarrow> nat \<Rightarrow> nat \<Rightarrow> nat \<Rightarrow> nat \<Rightarrow> (re_mem \<times> re_result) run" where
  "re_after_greedy s bc no_recurse go m sl pc1 pc quant_min q cptr =
     (if q < quant_min then re_resume s bc no_recurse go m False cptr
      else if q > quant_min then
        (case push_state s m sl (pc1 - 16) cptr RE_EXEC_STATE_GREEDY_QUANT (q - quant_min) of
           None \<Rightarrow> Ub
         | Some None \<Rightarrow> Done (m, Ret_error)
         | Some (Some m) \<Rightarrow> go m sl pc cptr)
      else go m sl pc cptr)"

primrec lre_exec_backtrack ::
    "nat \<Rightarrow> REExecContext \<Rightarrow> bytes \<Rightarrow> bool \<Rightarrow> re_mem \<Rightarrow> nat \<Rightarrow> nat \<Rightarrow> nat \<Rightarrow> (re_mem \<times> re_result) run" where
  "lre_exec_backtrack 0 s bc no_recurse m sl pc cptr = Timeout"
| "lre_exec_backtrack (Suc fuel) s bc no_recurse m sl pc cptr =
     (let go = lre_exec_backtrack fuel s bc no_recurse
      in case re_fetch bc pc of
           None \<Rightarrow> Ub
         | Some (opc, pc) \<Rightarrow>
             (case re_step s bc opc m sl pc cptr of
                None \<Rightarrow> Ub
              | Some nxt \<Rightarrow>
                  (case nxt of
                     Go m sl pc cptr \<Rightarrow> go m sl pc cptr
                   | OutOfMemory \<Rightarrow> Done (m, Ret_error)
                   | NoMatch \<Rightarrow> re_resume s bc no_recurse go m False cptr
                   | Matched cptr \<Rightarrow> re_resume s bc no_recurse go m True cptr
                   | Quant pc1 pc quant_min quant_max \<Rightarrow>
                       (case re_greedy fuel (\<lambda>m cptr. lre_exec_backtrack fuel s bc True m sl pc1 cptr)
                               quant_max m 0 cptr of
                          Ub \<Rightarrow> Ub
                        | Timeout \<Rightarrow> Timeout
                        | Done (m, r) \<Rightarrow>
                            (case r of
                               None \<Rightarrow> Done (m, Ret_error)
                             | Some (q, cptr) \<Rightarrow>
                                 re_after_greedy s bc no_recurse go m sl pc1 pc (unat quant_min) q cptr)))))"

text \<open>\<open>lre_exec\<close>: the return value and the captures.  \<open>cbuf\<close> are the units of the subject
  and \<open>cindex\<close> counts units.\<close>

definition lre_exec ::
    "nat \<Rightarrow> (u32 \<Rightarrow> bool \<Rightarrow> u32) \<Rightarrow> (nat \<Rightarrow> bool) \<Rightarrow> u64 \<Rightarrow> u64 list \<Rightarrow>
     bytes \<Rightarrow> u32 list \<Rightarrow> nat \<Rightarrow> nat \<Rightarrow> (int \<times> nat option list) run" where
  "lre_exec fuel canon grant addr junk bc cbuf cindex cbuf_type =
     (case (rd bc 0, rd bc 1, rd bc 2) of
        (Some re_flags, Some capture_count, Some stack_size_max) \<Rightarrow>
          (let is_utf16 = bit re_flags 4;
               s = \<lparr>re_cbuf = cbuf, re_cbuf_addr = addr,
                    re_cbuf_type = (if cbuf_type = 1 \<and> is_utf16 then 2 else cbuf_type),
                    re_capture_count = unat capture_count,
                    re_stack_size_max = unat stack_size_max,
                    re_multi_line = bit re_flags 2, re_ignore_case = bit re_flags 1,
                    re_is_utf16 = is_utf16, re_canon = canon, re_grant = grant\<rparr>;
               m = \<lparr>rm_capture = replicate (2 * unat capture_count) None,
                    rm_stack = take (unat stack_size_max) (junk @ replicate (unat stack_size_max) 0),
                    rm_states = [], rm_states_size = 0\<rparr>
           in case lre_exec_backtrack fuel s bc False m 0 7 cindex of
                Ub \<Rightarrow> Ub
              | Timeout \<Rightarrow> Timeout
              | Done (m, r) \<Rightarrow>
                  Done (case r of Ret_match p \<Rightarrow> 1 | Ret_no_match \<Rightarrow> 0 | Ret_error \<Rightarrow> -1, rm_capture m))
      | _ \<Rightarrow> Ub)"

section \<open>Range tables\<close>

text \<open>The search reads entries \<open>0 .. n - 1\<close> only; its index does not wrap because the
  first entry has been compared before.\<close>

lemma range_search_total:
  assumes "\<And>i. i < n \<Longrightarrow> lowf i = Some (lo i) \<and> highf i = Some (hi i)" "lo 0 \<le> c" "b < n"
  shows "range_search lowf highf c a b \<noteq> None"
  using assms
proof (induction lowf highf c a b rule: range_search.induct)
  case (1 lowf highf c a b)
  let ?i = "(a + b) div 2"
  show ?case
  proof (cases "a \<le> b")
    case True
    then have i: "?i < n" "?i \<le> b" using 1(5) by auto
    have lh: "lowf ?i = Some (lo ?i)" "highf ?i = Some (hi ?i)" using 1(3) i by auto
    have nz: "?i \<noteq> 0" if "c < lo ?i" using that 1(4) by (metis leD)
    have "range_search lowf highf c a (?i - 1) \<noteq> None" if "c < lo ?i"
      using 1(1) [OF True refl lh that nz [OF that]] 1(3,4) i by auto
    moreover have "range_search lowf highf c (?i + 1) b \<noteq> None" if "\<not> c < lo ?i" "c > hi ?i"
      using 1(2) [OF True refl lh that] 1(3,4,5) by auto
    ultimately show ?thesis
      using True lh nz by (auto simp: range_search.simps [of lowf highf c a b] Let_def)
  qed (simp add: range_search.simps)
qed

text \<open>In a sorted table it decides membership.\<close>

lemma range_search_member:
  assumes "\<And>i. i < n \<Longrightarrow> lowf i = Some (lo i) \<and> highf i = Some (hi i)"
    and "\<And>i j. i < j \<Longrightarrow> j < n \<Longrightarrow> hi i < lo j" "\<And>i. i < n \<Longrightarrow> lo i \<le> hi i"
    and "b < n" "range_search lowf highf c a b = Some r"
  shows "r \<longleftrightarrow> (\<exists>i. a \<le> i \<and> i \<le> b \<and> lo i \<le> c \<and> c \<le> hi i)"
  using assms(1,4,5)
proof (induction lowf highf c a b rule: range_search.induct)
  case (1 lowf highf c a b)
  let ?i = "(a + b) div 2"
  show ?case
  proof (cases "a \<le> b")
    case True
    then have i: "?i < n" "?i \<le> b" "a \<le> ?i" using 1(4) by auto
    have lh: "lowf ?i = Some (lo ?i)" "highf ?i = Some (hi ?i)" using 1(3) i by auto
    note sim = range_search.simps [of lowf highf c a b]
    consider (below) "c < lo ?i" | (above) "\<not> c < lo ?i" "c > hi ?i" | (hit) "\<not> c < lo ?i" "\<not> c > hi ?i" by blast
    then show ?thesis
    proof cases
      case below
      then have nz: "?i \<noteq> 0" and rec: "range_search lowf highf c a (?i - 1) = Some r"
        using 1(5) True lh sim by (auto simp: Let_def split: if_splits)
      have "r \<longleftrightarrow> (\<exists>i. a \<le> i \<and> i \<le> ?i - 1 \<and> lo i \<le> c \<and> c \<le> hi i)"
        using 1(1) [OF True refl lh below nz] 1(3) rec i by simp
      moreover have "c < lo j" if "?i \<le> j" "j \<le> b" for j
      proof (cases "?i = j")
        case False
        then have "hi ?i < lo j" using that assms(2) [of ?i j] 1(4) by simp
        then show ?thesis using below assms(3) [OF i(1)] by simp
      qed (use below in simp)
      moreover have "j \<le> ?i - 1 \<longleftrightarrow> j \<le> b \<and> \<not> ?i \<le> j" for j using nz i(2) by arith
      ultimately show ?thesis by (metis leD)
    next
      case above
      then have rec: "range_search lowf highf c (?i + 1) b = Some r"
        using 1(5) True lh sim by (auto simp: Let_def split: if_splits)
      have "r \<longleftrightarrow> (\<exists>i. ?i + 1 \<le> i \<and> i \<le> b \<and> lo i \<le> c \<and> c \<le> hi i)"
        using 1(2) [OF True refl lh above] 1(3,4) rec by simp
      moreover have "hi j < c" if "j \<le> ?i" for j
      proof (cases "j = ?i")
        case False
        then have "hi j < lo ?i" using that assms(2) [of j ?i] i by simp
        then show ?thesis using above(2) assms(3) [OF i(1)] by simp
      qed (use above in simp)
      moreover have "?i + 1 \<le> j \<longleftrightarrow> a \<le> j \<and> \<not> j \<le> ?i" for j using i(3) by arith
      ultimately show ?thesis by (metis leD)
    next
      case hit
      then have "r" using 1(5) True lh sim by (auto simp: Let_def split: if_splits)
      then show ?thesis using hit i by auto
    qed
  qed (use 1(5) in \<open>auto simp: range_search.simps\<close>)
qed

lemma get_u16_in: "p + 2 \<le> length tab \<Longrightarrow> get_u16 tab p \<noteq> None"
  by (simp add: get_u16_def get_packed_def rd_block_def)

lemma get_u32_in: "p + 4 \<le> length tab \<Longrightarrow> get_u32 tab p \<noteq> None"
  by (simp add: get_u32_def get_packed_def rd_block_def)

text \<open>Entry \<open>i\<close> of a table of 16-bit or 32-bit pairs.\<close>

definition range_lo :: "bytes \<Rightarrow> nat \<Rightarrow> nat \<Rightarrow> u32" where
  "range_lo bc pc i = the (get_u16 bc (pc + i * 4))"

definition range_hi :: "bytes \<Rightarrow> nat \<Rightarrow> nat \<Rightarrow> u32" where
  "range_hi bc pc i = the (get_u16 bc (pc + i * 4 + 2))"

definition range32_lo :: "bytes \<Rightarrow> nat \<Rightarrow> nat \<Rightarrow> u32" where
  "range32_lo bc pc i = the (get_u32 bc (pc + i * 8))"

definition range32_hi :: "bytes \<Rightarrow> nat \<Rightarrow> nat \<Rightarrow> u32" where
  "range32_hi bc pc i = the (get_u32 bc (pc + i * 8 + 4))"

lemma range_entries:
  assumes "pc + 4 * n \<le> length bc" "i < n"
  shows "get_u16 bc (pc + i * 4) = Some (range_lo bc pc i) \<and> get_u16 bc (pc + i * 4 + 2) = Some (range_hi bc pc i)"
  using assms get_u16_in [of "pc + i * 4" bc] get_u16_in [of "pc + i * 4 + 2" bc]
  by (auto simp: range_lo_def range_hi_def)

lemma range32_entries:
  assumes "pc + 8 * n \<le> length bc" "i < n"
  shows "get_u32 bc (pc + i * 8) = Some (range32_lo bc pc i) \<and> get_u32 bc (pc + i * 8 + 4) = Some (range32_hi bc pc i)"
  using assms get_u32_in [of "pc + i * 8" bc] get_u32_in [of "pc + i * 8 + 4" bc]
  by (auto simp: range32_lo_def range32_hi_def)

definition sorted_ranges :: "nat \<Rightarrow> (nat \<Rightarrow> u32) \<Rightarrow> (nat \<Rightarrow> u32) \<Rightarrow> bool" where
  "sorted_ranges n lo hi \<longleftrightarrow>
     list_all (\<lambda>i. lo i \<le> hi i) [0..<n] \<and> list_all (\<lambda>j. list_all (\<lambda>i. hi i < lo j) [0..<j]) [0..<n]"

lemma sorted_rangesD:
  assumes "sorted_ranges n lo hi"
  shows "i < j \<Longrightarrow> j < n \<Longrightarrow> hi i < lo j" "i < n \<Longrightarrow> lo i \<le> hi i"
  using assms by (auto simp: sorted_ranges_def list_all_iff)

lemma re_range_total:
  assumes "pc + 4 * n \<le> length bc" "1 \<le> n"
  shows "re_range bc pc n c \<noteq> None"
proof -
  note e = range_entries [OF assms(1)]
  have 0: "get_u16 bc pc = Some (range_lo bc pc 0)" using e [of 0] assms(2) by simp
  have l: "get_u16 bc (pc + (n - 1) * 4 + 2) = Some (range_hi bc pc (n - 1))" using e [of "n - 1"] assms(2) by simp
  have "range_search (\<lambda>i. get_u16 bc (pc + i * 4)) (\<lambda>i. get_u16 bc (pc + i * 4 + 2)) c 0 (n - 1) \<noteq> None"
    if "range_lo bc pc 0 \<le> c"
    by (rule range_search_total [where n = n and lo = "range_lo bc pc" and hi = "range_hi bc pc", OF e that]) (use assms(2) in auto)
  then show ?thesis using 0 l assms(2) by (auto simp: re_range_def not_less)
qed

lemma re_range32_total:
  assumes "pc + 8 * n \<le> length bc" "1 \<le> n"
  shows "re_range32 bc pc n c \<noteq> None"
proof -
  note e = range32_entries [OF assms(1)]
  have 0: "get_u32 bc pc = Some (range32_lo bc pc 0)" using e [of 0] assms(2) by simp
  have l: "get_u32 bc (pc + (n - 1) * 8 + 4) = Some (range32_hi bc pc (n - 1))" using e [of "n - 1"] assms(2) by simp
  have "range_search (\<lambda>i. get_u32 bc (pc + i * 8)) (\<lambda>i. get_u32 bc (pc + i * 8 + 4)) c 0 (n - 1) \<noteq> None"
    if "range32_lo bc pc 0 \<le> c"
    by (rule range_search_total [where n = n and lo = "range32_lo bc pc" and hi = "range32_hi bc pc", OF e that]) (use assms(2) in auto)
  then show ?thesis using 0 l assms(2) by (auto simp: re_range32_def not_less)
qed

lemma range_decides:
  assumes "\<And>i. i < n \<Longrightarrow> lowf i = Some (lo i) \<and> highf i = Some (hi i)" "sorted_ranges n lo hi" "1 \<le> n" "lo 0 \<le> c"
  shows "range_search lowf highf c 0 (n - 1) = Some (\<exists>i<n. lo i \<le> c \<and> c \<le> hi i)"
proof -
  have n: "n - 1 < n" using assms(3) by simp
  obtain r where r: "range_search lowf highf c 0 (n - 1) = Some r"
    using range_search_total [where n = n and lo = lo and hi = hi, OF assms(1,4) n] by blast
  have "r \<longleftrightarrow> (\<exists>i. 0 \<le> i \<and> i \<le> n - 1 \<and> lo i \<le> c \<and> c \<le> hi i)"
    by (rule range_search_member [where n = n, OF assms(1) sorted_rangesD(1) [OF assms(2)] sorted_rangesD(2) [OF assms(2)] n r])
  moreover have "i \<le> n - 1 \<longleftrightarrow> i < n" for i using assms(3) by arith
  ultimately show ?thesis using r by simp
qed

lemma sorted_ranges_first_last:
  assumes "sorted_ranges n lo hi" "i < n"
  shows "lo 0 \<le> lo i" "hi i \<le> hi (n - 1)"
proof -
  note s = sorted_rangesD [OF assms(1)]
  show "lo 0 \<le> lo i" using s(1) [of 0 i] s(2) [of 0] assms(2) by (cases "i = 0") (auto intro: order_less_imp_le le_less_trans)
  show "hi i \<le> hi (n - 1)"
  proof (cases "i = n - 1")
    case False
    then have "hi i < lo (n - 1)" "lo (n - 1) \<le> hi (n - 1)" using s(1) [of i "n - 1"] s(2) [of "n - 1"] assms(2) by auto
    then show ?thesis by simp
  qed simp
qed

lemma re_range_member:
  assumes "1 \<le> n" "pc + 4 * n \<le> length bc" "sorted_ranges n (range_lo bc pc) (range_hi bc pc)"
  shows "re_range bc pc n c =
     Some (\<exists>i<n. range_lo bc pc i \<le> c \<and> (c \<le> range_hi bc pc i \<or> i = n - 1 \<and> range_hi bc pc i = 0xffff))"
proof -
  note e = range_entries [OF assms(2)] and fl = sorted_ranges_first_last [OF assms(3)] and s = sorted_rangesD [OF assms(3)]
  have 0: "get_u16 bc pc = Some (range_lo bc pc 0)" using e [of 0] assms(1) by simp
  have l: "get_u16 bc (pc + (n - 1) * 4 + 2) = Some (range_hi bc pc (n - 1))" using e [of "n - 1"] assms(1) by simp
  have n: "n - 1 < n" using assms(1) by simp
  let ?P = "\<exists>i<n. range_lo bc pc i \<le> c \<and> (c \<le> range_hi bc pc i \<or> i = n - 1 \<and> range_hi bc pc i = 0xffff)"
  consider (lt) "c < range_lo bc pc 0"
    | (inf) "range_lo bc pc 0 \<le> c" "c \<ge> 0xffff" "range_hi bc pc (n - 1) = 0xffff"
    | (gt) "range_lo bc pc 0 \<le> c" "\<not> (c \<ge> 0xffff \<and> range_hi bc pc (n - 1) = 0xffff)" "range_hi bc pc (n - 1) < c"
    | (mid) "range_lo bc pc 0 \<le> c" "\<not> (c \<ge> 0xffff \<and> range_hi bc pc (n - 1) = 0xffff)" "c \<le> range_hi bc pc (n - 1)"
    by (meson not_le)
  then show ?thesis
  proof cases
    case lt
    then have "\<not> ?P" using fl(1) by (meson leD le_less_trans less_le_trans)
    then show ?thesis using lt 0 by (simp add: re_range_def)
  next
    case inf
    have "range_lo bc pc (n - 1) \<le> c" using s(2) [OF n] inf by simp
    then have "?P" using inf n by blast
    then show ?thesis using inf 0 l assms(1) by (simp add: re_range_def leD)
  next
    case gt
    then have "\<not> ?P" using fl(2) by (metis leD order_less_imp_le le_less_trans)
    then show ?thesis using gt 0 l assms(1) by (auto simp: re_range_def)
  next
    case mid
    have "?P \<longleftrightarrow> (\<exists>i<n. range_lo bc pc i \<le> c \<and> c \<le> range_hi bc pc i)" using mid(3) by blast
    then show ?thesis
      using mid 0 l assms(1) range_decides [where n = n and lo = "range_lo bc pc" and hi = "range_hi bc pc", OF e assms(3,1) mid(1)]
      by (auto simp: re_range_def leD)
  qed
qed

lemma re_range32_member:
  assumes "1 \<le> n" "pc + 8 * n \<le> length bc" "sorted_ranges n (range32_lo bc pc) (range32_hi bc pc)"
  shows "re_range32 bc pc n c = Some (\<exists>i<n. range32_lo bc pc i \<le> c \<and> c \<le> range32_hi bc pc i)"
proof -
  note e = range32_entries [OF assms(2)] and fl = sorted_ranges_first_last [OF assms(3)]
  have 0: "get_u32 bc pc = Some (range32_lo bc pc 0)" using e [of 0] assms(1) by simp
  have l: "get_u32 bc (pc + (n - 1) * 8 + 4) = Some (range32_hi bc pc (n - 1))" using e [of "n - 1"] assms(1) by simp
  consider (lt) "c < range32_lo bc pc 0" | (gt) "range32_lo bc pc 0 \<le> c" "range32_hi bc pc (n - 1) < c"
    | (mid) "range32_lo bc pc 0 \<le> c" "c \<le> range32_hi bc pc (n - 1)" by (meson not_le)
  then show ?thesis
  proof cases
    case lt
    then have "\<not> (\<exists>i<n. range32_lo bc pc i \<le> c \<and> c \<le> range32_hi bc pc i)" using fl(1) by (meson leD le_less_trans)
    then show ?thesis using lt 0 by (simp add: re_range32_def)
  next
    case gt
    then have "\<not> (\<exists>i<n. range32_lo bc pc i \<le> c \<and> c \<le> range32_hi bc pc i)" using fl(2) by (metis leD le_less_trans)
    then show ?thesis using gt 0 l assms(1) by (auto simp: re_range32_def)
  next
    case mid
    then show ?thesis
      using 0 l assms(1) range_decides [where n = n and lo = "range32_lo bc pc" and hi = "range32_hi bc pc", OF e assms(3,1) mid(1)]
      by (simp add: re_range32_def leD)
  qed
qed

text \<open>C26: on a sorted table the two range instructions decide whether the character lies
  in one of the intervals.  A last 16-bit bound of \<open>0xffff\<close> stands for infinity.\<close>

theorem range_instructions_member:
  assumes "1 \<le> n"
  shows "(pc + 4 * n \<le> length bc \<and> sorted_ranges n (range_lo bc pc) (range_hi bc pc) \<longrightarrow>
      re_range bc pc n c =
        Some (\<exists>i<n. range_lo bc pc i \<le> c \<and>
               (c \<le> range_hi bc pc i \<or> i = n - 1 \<and> range_hi bc pc i = 0xffff))) \<and>
    (pc + 8 * n \<le> length bc \<and> sorted_ranges n (range32_lo bc pc) (range32_hi bc pc) \<longrightarrow>
      re_range32 bc pc n c = Some (\<exists>i<n. range32_lo bc pc i \<le> c \<and> c \<le> range32_hi bc pc i))"
  using re_range_member [OF assms] re_range32_member [OF assms] by blast

theorem range_instructions_member_witness:
  "re_range [0x30, 0, 0x39, 0, 0x41, 0, 0xff, 0xff] 0 2 0x10400 =
     Some (\<exists>i<2. range_lo [0x30, 0, 0x39, 0, 0x41, 0, 0xff, 0xff] 0 i \<le> 0x10400 \<and>
       (0x10400 \<le> range_hi [0x30, 0, 0x39, 0, 0x41, 0, 0xff, 0xff] 0 i \<or>
        i = 2 - 1 \<and> range_hi [0x30, 0, 0x39, 0, 0x41, 0, 0xff, 0xff] 0 i = 0xffff))"
proof -
  have "sorted_ranges 2 (range_lo [0x30, 0, 0x39, 0, 0x41, 0, 0xff, 0xff] 0)
          (range_hi [0x30, 0, 0x39, 0, 0x41, 0, 0xff, 0xff] 0)" by code_simp
  then show ?thesis
    using range_instructions_member [where n = 2 and pc = 0 and bc = "[0x30, 0, 0x39, 0, 0x41, 0, 0xff, 0xff]" and c = "0x10400"]
    by simp
qed

end
