(* ===== verification/Regexp_Safety.thy ===== *)
theory Regexp_Safety
  imports Regexp_Exec
begin

text \<open>
  Memory safety of the regular expression interpreter.  \<open>re_check\<close> is a checker of
  bytecode: every instruction is annotated with the height of the integer stack, every
  operand is in range, every jump goes to an annotated instruction of the right height,
  and the body of a simple greedy quantifier is straight-line code that reads exactly the
  number of characters the instruction states.  Checked code never reaches undefined
  behaviour, a failed assertion or \<open>abort\<close>, whatever the subject, and leaves all captures
  inside the subject.
\<close>

section \<open>Checked bytecode\<close>

text \<open>Straight-line code up to \<open>REOP_match\<close> that reads \<open>k\<close> characters, the code that
  \<open>re_is_simple_quantifier\<close> accepts.\<close>

primrec body_ok :: "nat \<Rightarrow> bytes \<Rightarrow> nat \<Rightarrow> nat \<Rightarrow> bool" where
  "body_ok 0 bc pc k = False"
| "body_ok (Suc f) bc pc k =
     (case re_fetch bc pc of
        None \<Rightarrow> False
      | Some (opc, pc) \<Rightarrow>
          (case opc of
             REOP_match \<Rightarrow> k = 0
           | REOP_char v \<Rightarrow> 0 < k \<and> body_ok f bc pc (k - 1)
           | REOP_char32 v \<Rightarrow> 0 < k \<and> body_ok f bc pc (k - 1)
           | REOP_dot \<Rightarrow> 0 < k \<and> body_ok f bc pc (k - 1)
           | REOP_any \<Rightarrow> 0 < k \<and> body_ok f bc pc (k - 1)
           | REOP_range n \<Rightarrow> 0 < k \<and> 1 \<le> n \<and> pc + 4 * n \<le> length bc \<and> body_ok f bc (pc + 4 * n) (k - 1)
           | REOP_range32 n \<Rightarrow> 0 < k \<and> 1 \<le> n \<and> pc + 8 * n \<le> length bc \<and> body_ok f bc (pc + 8 * n) (k - 1)
           | REOP_line_start \<Rightarrow> body_ok f bc pc k
           | REOP_line_end \<Rightarrow> body_ok f bc pc k
           | REOP_word_boundary \<Rightarrow> body_ok f bc pc k
           | REOP_not_word_boundary \<Rightarrow> body_ok f bc pc k
           | _ \<Rightarrow> False))"

type_synonym re_heights = "nat \<Rightarrow> nat option"

definition jump_ok :: "re_heights \<Rightarrow> nat \<Rightarrow> u32 \<Rightarrow> nat \<Rightarrow> bool" where
  "jump_ok H pc val h = (case re_jump pc val of None \<Rightarrow> False | Some t \<Rightarrow> H t = Some h)"

text \<open>The operands and successors of one instruction, for \<open>cc\<close> captures and a stack of
  \<open>smax\<close> integers.\<close>

fun op_ok :: "nat \<Rightarrow> nat \<Rightarrow> bytes \<Rightarrow> re_heights \<Rightarrow> nat \<Rightarrow> nat \<Rightarrow> re_op \<Rightarrow> bool" where
  "op_ok cc smax bc H pc h REOP_match = True"
| "op_ok cc smax bc H pc h (REOP_goto v) = jump_ok H pc v h"
| "op_ok cc smax bc H pc h (REOP_split_goto_first v) = (H pc = Some h \<and> jump_ok H pc v h)"
| "op_ok cc smax bc H pc h (REOP_split_next_first v) = (H pc = Some h \<and> jump_ok H pc v h)"
| "op_ok cc smax bc H pc h (REOP_lookahead v) = (H pc = Some h \<and> jump_ok H pc v h)"
| "op_ok cc smax bc H pc h (REOP_negative_lookahead v) = (H pc = Some h \<and> jump_ok H pc v h)"
| "op_ok cc smax bc H pc h (REOP_save_start v) = (v < cc \<and> H pc = Some h)"
| "op_ok cc smax bc H pc h (REOP_save_end v) = (v < cc \<and> H pc = Some h)"
| "op_ok cc smax bc H pc h (REOP_save_reset a b) = (b < cc \<and> H pc = Some h)"
| "op_ok cc smax bc H pc h (REOP_loop v) = (0 < h \<and> H pc = Some h \<and> jump_ok H pc v h)"
| "op_ok cc smax bc H pc h (REOP_push_i32 v) = (h < smax \<and> H pc = Some (h + 1))"
| "op_ok cc smax bc H pc h REOP_push_char_pos = (h < smax \<and> H pc = Some (h + 1))"
| "op_ok cc smax bc H pc h REOP_drop = (0 < h \<and> H pc = Some (h - 1))"
| "op_ok cc smax bc H pc h (REOP_bne_char_pos v) =
     (0 < h \<and> H pc = Some (h - 1) \<and> jump_ok H pc v (h - 1))"
| "op_ok cc smax bc H pc h (REOP_range n) = (1 \<le> n \<and> pc + 4 * n \<le> length bc \<and> H (pc + 4 * n) = Some h)"
| "op_ok cc smax bc H pc h (REOP_range32 n) = (1 \<le> n \<and> pc + 8 * n \<le> length bc \<and> H (pc + 8 * n) = Some h)"
| "op_ok cc smax bc H pc h (REOP_simple_greedy_quant v mn mx) =
     (jump_ok H pc v h \<and>
      (case get_u32 bc (pc - 4) of
         None \<Rightarrow> False
       | Some k \<Rightarrow> 0 < unat k \<and> body_ok (length bc) bc pc (unat k)))"
| "op_ok cc smax bc H pc h _ = (H pc = Some h)"

definition instr_ok :: "nat \<Rightarrow> nat \<Rightarrow> bytes \<Rightarrow> re_heights \<Rightarrow> nat \<Rightarrow> nat \<Rightarrow> bool" where
  "instr_ok cc smax bc H pc h \<longleftrightarrow> h \<le> smax \<and>
     (case re_fetch bc pc of None \<Rightarrow> False | Some (opc, pc) \<Rightarrow> op_ok cc smax bc H pc h opc)"

text \<open>The whole code, with the annotation given as a list.  The first instruction is
  behind the 7 bytes of the header.\<close>

definition re_check :: "bytes \<Rightarrow> (nat \<times> nat) list \<Rightarrow> bool" where
  "re_check bc A \<longleftrightarrow> 3 \<le> length bc \<and> map_of A 7 = Some 0 \<and> distinct (map fst A) \<and>
     list_all (\<lambda>(pc, h). instr_ok (unat (bc ! 1)) (unat (bc ! 2)) bc (map_of A) pc h) A"

definition code_ok :: "REExecContext \<Rightarrow> bytes \<Rightarrow> re_heights \<Rightarrow> bool" where
  "code_ok s bc H \<longleftrightarrow> re_stack_size_max s \<le> 255 \<and>
     (\<forall>pc h. H pc = Some h \<longrightarrow> instr_ok (re_capture_count s) (re_stack_size_max s) bc H pc h)"

section \<open>States\<close>

definition caps_ok :: "REExecContext \<Rightarrow> nat option list \<Rightarrow> bool" where
  "caps_ok s caps \<longleftrightarrow> length caps = 2 * re_capture_count s \<and>
     (\<forall>p. Some p \<in> set caps \<longrightarrow> p \<le> cbuf_end s)"

definition resume_ok :: "REExecContext \<Rightarrow> bytes \<Rightarrow> re_heights \<Rightarrow> REExecState \<Rightarrow> bool" where
  "resume_ok s bc H rs =
     (if es_type rs = RE_EXEC_STATE_GREEDY_QUANT then
        (case (get_u32 bc (es_pc rs), get_u32 bc (es_pc rs + 12)) of
           (Some v, Some k) \<Rightarrow>
             jump_ok H (es_pc rs + 16) v (es_stack_len rs) \<and> 1 \<le> es_count rs \<and>
             es_count rs * unat k \<le> chars_before (re_cbuf_type s) (re_cbuf s) (es_cptr rs)
         | _ \<Rightarrow> False)
      else H (es_pc rs) = Some (es_stack_len rs))"

definition state_ok :: "REExecContext \<Rightarrow> bytes \<Rightarrow> re_heights \<Rightarrow> REExecState \<Rightarrow> bool" where
  "state_ok s bc H rs \<longleftrightarrow> es_stack_len rs \<le> re_stack_size_max s \<and>
     length (es_stack rs) = es_stack_len rs \<and> caps_ok s (es_capture rs) \<and>
     es_cptr rs \<le> cbuf_end s \<and> resume_ok s bc H rs"

definition mem_ok :: "REExecContext \<Rightarrow> bytes \<Rightarrow> re_heights \<Rightarrow> re_mem \<Rightarrow> bool" where
  "mem_ok s bc H m \<longleftrightarrow> caps_ok s (rm_capture m) \<and> length (rm_stack m) = re_stack_size_max s \<and>
     length (rm_states m) \<le> rm_states_size m \<and> list_all (state_ok s bc H) (rm_states m)"

named_theorems re_ok \<open>well-formedness of the states of a run\<close>

declare mem_ok_def [re_ok] state_ok_def [re_ok]

lemma caps_ok_update:
  assumes "caps_ok s caps" "\<And>p. v = Some p \<Longrightarrow> p \<le> cbuf_end s"
  shows "caps_ok s (caps[i := v])"
  using assms set_update_subset_insert [of caps i v] by (auto simp: caps_ok_def)

lemma caps_ok_nth:
  assumes "caps_ok s caps" "i < 2 * re_capture_count s" "caps ! i = Some p"
  shows "p \<le> cbuf_end s"
  using assms by (metis caps_ok_def nth_mem)

lemma re_reset_ok:
  assumes "caps_ok s caps" "val + n \<le> re_capture_count s"
  shows "\<exists>caps'. re_reset caps val n = Some caps' \<and> caps_ok s caps'"
  using assms
proof (induction n arbitrary: caps val)
  case (Suc n)
  then have len: "length caps = 2 * re_capture_count s" by (simp add: caps_ok_def)
  have "caps_ok s (caps[2 * val := None, 2 * val + 1 := None])" using Suc.prems(1) by (auto intro!: caps_ok_update)
  then have "\<exists>caps'. re_reset (caps[2 * val := None, 2 * val + 1 := None]) (val + 1) n = Some caps' \<and> caps_ok s caps'"
    using Suc.IH Suc.prems(2) by simp
  then show ?case using len Suc.prems(2) by simp
qed simp

lemma push_state_ok:
  assumes "mem_ok s bc H m" "sl \<le> re_stack_size_max s" "re_stack_size_max s \<le> 255" "cptr \<le> cbuf_end s"
    and "\<And>caps stk. resume_ok s bc H
           \<lparr>es_type = ty, es_stack_len = sl, es_count = count, es_cptr = cptr, es_pc = pc,
            es_capture = caps, es_stack = stk\<rparr>"
  shows "\<exists>r. push_state s m sl pc cptr ty count = Some r \<and> (\<forall>m'. r = Some m' \<longrightarrow> mem_ok s bc H m')"
proof -
  have "sl mod 256 = sl" using assms by simp
  then show ?thesis
    using assms by (auto simp: push_state_def rd_block_def re_ok caps_ok_def Let_def)
qed

lemma blit_0: "length src \<le> length dst \<Longrightarrow> blit dst 0 src = Some (src @ drop (length src) dst)"
  by (simp add: blit_def)

lemma restore_ok:
  assumes "mem_ok s bc H m" "state_ok s bc H rs"
    and "list_all (state_ok s bc H) states" "length states \<le> rm_states_size m"
  shows "\<exists>m'. restore m rs b states = Some m' \<and> mem_ok s bc H m'"
  using assms by (auto simp: restore_def re_ok caps_ok_def blit_0)

text \<open>Unwinding a stack of well-formed states.\<close>

lemma re_unwind_ok:
  assumes "mem_ok s bc H m" "list_all (state_ok s bc H) states" "length states \<le> rm_states_size m"
  shows "\<exists>r. re_unwind s bc m states ret = Some r \<and>
    (\<forall>m' sl pc cptr. r = Inr (m', sl, pc, cptr) \<longrightarrow> mem_ok s bc H m' \<and> H pc = Some sl \<and> cptr \<le> cbuf_end s)"
  using assms
proof (induction states arbitrary: ret)
  case (Cons rs states)
  have rs: "state_ok s bc H rs" "list_all (state_ok s bc H) states" "length states \<le> rm_states_size m"
    using Cons.prems by auto
  note IH = Cons.IH [OF Cons.prems(1) rs(2,3)]
  note rst = restore_ok [OF Cons.prems(1) rs]
  show ?case
  proof (cases "es_type rs = RE_EXEC_STATE_GREEDY_QUANT \<and> \<not> ret")
    case True
    from True rs(1) obtain v k t where v: "get_u32 bc (es_pc rs) = Some v" "get_u32 bc (es_pc rs + 12) = Some k"
      and t: "re_jump (es_pc rs + 16) v = Some t" "H t = Some (es_stack_len rs)"
      and c: "1 \<le> es_count rs" "es_count rs * unat k \<le> chars_before (re_cbuf_type s) (re_cbuf s) (es_cptr rs)"
      by (auto simp: re_ok resume_ok_def jump_ok_def split: option.splits)
    obtain n where n: "es_count rs = Suc n" using c(1) by (cases "es_count rs") auto
    have k: "unat k \<le> chars_before (re_cbuf_type s) (re_cbuf s) (es_cptr rs)" using c(2) n by simp
    have e: "es_cptr rs \<le> cbuf_end s" using rs(1) by (simp add: re_ok)
    obtain q where q: "PREV_CHARS (re_cbuf_type s) (re_cbuf s) (unat k) (es_cptr rs) = Some q" "q \<le> es_cptr rs"
      "chars_before (re_cbuf_type s) (re_cbuf s) q = chars_before (re_cbuf_type s) (re_cbuf s) (es_cptr rs) - unat k"
      using PREV_CHARS_ok [OF e k] by blast
    let ?states = "if es_count rs - 1 = 0 then states else rs\<lparr>es_cptr := q, es_count := es_count rs - 1\<rparr> # states"
    have "list_all (state_ok s bc H) ?states"
      using rs True v t c q e n by (auto simp: re_ok resume_ok_def jump_ok_def)
    moreover have "length ?states \<le> rm_states_size m" using Cons.prems(3) by auto
    ultimately obtain m' where m': "restore m rs True ?states = Some m'" "mem_ok s bc H m'"
      using restore_ok [OF Cons.prems(1) rs(1)] by blast
    then show ?thesis using True v t q e by (simp del: One_nat_def)
  next
    case False
    obtain m1 m2 where m: "restore m rs True states = Some m1" "mem_ok s bc H m1"
      "restore m rs False states = Some m2" "mem_ok s bc H m2"
      using rst [of True] rst [of False] by blast
    have other: "H (es_pc rs) = Some (es_stack_len rs)" "es_cptr rs \<le> cbuf_end s"
      if "es_type rs \<noteq> RE_EXEC_STATE_GREEDY_QUANT"
      using rs(1) that by (auto simp: state_ok_def resume_ok_def)
    show ?thesis
      using False IH m other by (cases "es_type rs"; cases ret) simp_all
  qed
qed simp

section \<open>Steps\<close>

definition next_ok :: "REExecContext \<Rightarrow> bytes \<Rightarrow> re_heights \<Rightarrow> re_next \<Rightarrow> bool" where
  "next_ok s bc H nxt =
     (case nxt of
        Go m sl pc cptr \<Rightarrow> mem_ok s bc H m \<and> H pc = Some sl \<and> cptr \<le> cbuf_end s
      | NoMatch \<Rightarrow> True
      | Matched cptr \<Rightarrow> cptr \<le> cbuf_end s
      | Quant pc1 pc mn mx \<Rightarrow> False
      | OutOfMemory \<Rightarrow> True)"

lemma next_ok_simps [simp]:
  "next_ok s bc H (Go m sl pc cptr) \<longleftrightarrow> mem_ok s bc H m \<and> H pc = Some sl \<and> cptr \<le> cbuf_end s"
  "next_ok s bc H NoMatch" "next_ok s bc H (Matched cptr) \<longleftrightarrow> cptr \<le> cbuf_end s" "next_ok s bc H OutOfMemory"
  by (simp_all add: next_ok_def)

definition step_ok :: "REExecContext \<Rightarrow> bytes \<Rightarrow> re_heights \<Rightarrow> re_next option \<Rightarrow> bool" where
  "step_ok s bc H r = (case r of None \<Rightarrow> False | Some nxt \<Rightarrow> next_ok s bc H nxt)"

lemma step_ok_Some [simp]: "step_ok s bc H (Some nxt) = next_ok s bc H nxt"
  by (simp add: step_ok_def)

lemma re_test_char_ok:
  assumes "mem_ok s bc H m" "H pc = Some sl"
  shows "step_ok s bc H (re_test_char s m sl pc cptr test)"
proof (cases "cptr < cbuf_end s")
  case True
  obtain c p where "GET_CHAR (re_cbuf_type s) (re_cbuf s) cptr (cbuf_end s) = Some (c, p)" "p \<le> cbuf_end s"
    using GET_CHAR_cases [OF True order_refl] by metis
  then show ?thesis using assms True by (simp add: re_test_char_def)
qed (simp add: re_test_char_def)

lemma re_split_ok:
  assumes "mem_ok s bc H m" "sl \<le> re_stack_size_max s" "re_stack_size_max s \<le> 255" "cptr \<le> cbuf_end s"
    and "ty \<noteq> RE_EXEC_STATE_GREEDY_QUANT" "H pc = Some sl" "H pc1 = Some sl"
  shows "step_ok s bc H (re_split s m sl pc pc1 cptr ty)"
proof -
  obtain r where "push_state s m sl pc1 cptr ty 0 = Some r" "\<forall>m'. r = Some m' \<longrightarrow> mem_ok s bc H m'"
    using push_state_ok [OF assms(1-4), of ty 0 pc1] assms(5,7) by (auto simp: resume_ok_def)
  then show ?thesis using assms by (simp add: re_split_def split: option.splits)
qed

lemma re_is_word_at_ok: "cptr \<le> cbuf_end s \<Longrightarrow> \<exists>v1 v2. re_is_word_at s cptr = Some (v1, v2)"
  using PEEK_PREV_CHAR_in [of cptr "re_cbuf s" "re_cbuf_type s" 0]
    PEEK_CHAR_in [of cptr "cbuf_end s" "re_cbuf s" "re_cbuf_type s"]
  by (cases "cptr = 0"; cases "cptr < cbuf_end s") (auto simp: re_is_word_at_def)

lemma back_ref_loop_ok:
  assumes "e \<le> cbuf_end s" "cptr \<le> cbuf_end s"
  shows "\<exists>r. back_ref_loop s a e cptr = Some r \<and> (\<forall>p. r = Some p \<longrightarrow> p \<le> cbuf_end s)"
  using assms
proof (induction s a e cptr rule: back_ref_loop.induct)
  case (1 s a e cptr)
  show ?case
  proof (cases "a < e \<and> cptr < cbuf_end s")
    case True
    obtain c1 a' where a: "GET_CHAR (re_cbuf_type s) (re_cbuf s) a e = Some (c1, a')"
      using GET_CHAR_cases [of a e "re_cbuf s"] True 1(2) by metis
    obtain c2 p where p: "GET_CHAR (re_cbuf_type s) (re_cbuf s) cptr (cbuf_end s) = Some (c2, p)" "p \<le> cbuf_end s"
      using GET_CHAR_cases [of cptr "cbuf_end s" "re_cbuf s"] True by (metis order_refl)
    show ?thesis
      using 1(1) [OF _ _ a refl p(1) refl] 1(2) True a p
      by (auto simp: back_ref_loop.simps [of s a e cptr])
  qed (use 1(3) in \<open>auto simp: back_ref_loop.simps [of s a e cptr]\<close>)
qed

lemma back_ref_prev_loop_ok:
  assumes "e \<le> cbuf_end s" "cptr \<le> cbuf_end s"
  shows "\<exists>r. back_ref_prev_loop s e a cptr = Some r \<and> (\<forall>p. r = Some p \<longrightarrow> p \<le> cbuf_end s)"
  using assms
proof (induction s e a cptr rule: back_ref_prev_loop.induct)
  case (1 s e a cptr)
  show ?case
  proof (cases "a < e \<and> 0 < cptr")
    case True
    obtain c1 e' where e: "GET_PREV_CHAR (re_cbuf_type s) (re_cbuf s) e a = Some (c1, e')" "e' < e"
      using GET_PREV_CHAR_in [of a e "re_cbuf s"] True 1(2) by metis
    obtain c2 p where p: "GET_PREV_CHAR (re_cbuf_type s) (re_cbuf s) cptr 0 = Some (c2, p)" "p < cptr"
      using GET_PREV_CHAR_in [of 0 cptr "re_cbuf s"] True 1(3) by metis
    show ?thesis
      using 1(1) [OF _ _ e(1) refl p(1) refl] 1(2,3) True e p
      by (auto simp: back_ref_prev_loop.simps [of s e a cptr])
  qed (use 1(3) in \<open>auto simp: back_ref_prev_loop.simps [of s e a cptr]\<close>)
qed

lemma re_back_reference_ok:
  assumes "mem_ok s bc H m" "H pc = Some sl" "cptr \<le> cbuf_end s"
  shows "step_ok s bc H (re_back_reference s m sl pc cptr val b)"
proof (cases "val < re_capture_count s")
  case True
  have caps: "caps_ok s (rm_capture m)" and len: "length (rm_capture m) = 2 * re_capture_count s"
    using assms(1) by (auto simp: mem_ok_def caps_ok_def)
  obtain x where x: "rm_capture m ! (2 * val) = x" by simp
  obtain y where y: "rm_capture m ! (2 * val + 1) = y" by simp
  have yb: "q \<le> cbuf_end s" if "y = Some q" for q
    using caps_ok_nth [OF caps, of "2 * val + 1" q] True y that by simp
  show ?thesis
  proof (cases "\<exists>a q. x = Some a \<and> y = Some q")
    case some: True
    then obtain a q where aq: "x = Some a" "y = Some q" by blast
    obtain r where r: "(if b then back_ref_prev_loop s q a cptr else back_ref_loop s a q cptr) = Some r"
      "\<forall>p. r = Some p \<longrightarrow> p \<le> cbuf_end s"
      using back_ref_loop_ok [OF yb [OF aq(2)] assms(3), of a] back_ref_prev_loop_ok [OF yb [OF aq(2)] assms(3), of a]
      by (cases b) auto
    show ?thesis
      using True assms len x y aq r by (auto simp: re_back_reference_def split: option.split)
  next
    case False
    then show ?thesis
      using True assms len x y by (auto simp: re_back_reference_def split: option.split)
  qed
qed (simp add: re_back_reference_def)

lemma range_step_ok:
  assumes "mem_ok s bc H m" "\<And>c. f c \<noteq> None" "H pc = Some sl"
  shows "step_ok s bc H
    (if cptr \<ge> cbuf_end s then Some NoMatch
     else do {
       (c, cptr) \<leftarrow> GET_CHAR (re_cbuf_type s) (re_cbuf s) cptr (cbuf_end s);
       b \<leftarrow> f c;
       Some (if b then Go m sl pc cptr else NoMatch) })"
proof (cases "cptr < cbuf_end s")
  case True
  obtain c p where g: "GET_CHAR (re_cbuf_type s) (re_cbuf s) cptr (cbuf_end s) = Some (c, p)" "p \<le> cbuf_end s"
    using GET_CHAR_cases [OF True order_refl] by metis
  obtain b where "f c = Some b" using assms(2) [of c] by blast
  then show ?thesis using assms True g by simp
qed simp

lemma any_step_ok:
  assumes "mem_ok s bc H m" "H pc = Some sl" "cptr \<le> cbuf_end s"
  shows "step_ok s bc H
    (if cptr = cbuf_end s then Some NoMatch
     else do {
       (c, cptr) \<leftarrow> GET_CHAR (re_cbuf_type s) (re_cbuf s) cptr (cbuf_end s);
       Some (if test c then NoMatch else Go m sl pc cptr) })"
proof (cases "cptr < cbuf_end s")
  case True
  obtain c p where "GET_CHAR (re_cbuf_type s) (re_cbuf s) cptr (cbuf_end s) = Some (c, p)" "p \<le> cbuf_end s"
    using GET_CHAR_cases [OF True order_refl] by metis
  then show ?thesis using assms True by simp
qed (use assms in simp)

lemma line_start_ok:
  assumes "mem_ok s bc H m" "H pc = Some sl" "cptr \<le> cbuf_end s"
  shows "step_ok s bc H (re_step s bc REOP_line_start m sl pc cptr)"
  using assms PEEK_PREV_CHAR_in [of cptr "re_cbuf s" "re_cbuf_type s" 0] by auto

lemma line_end_ok:
  assumes "mem_ok s bc H m" "H pc = Some sl" "cptr \<le> cbuf_end s"
  shows "step_ok s bc H (re_step s bc REOP_line_end m sl pc cptr)"
  using assms PEEK_CHAR_in [of cptr "cbuf_end s" "re_cbuf s" "re_cbuf_type s"] by auto

lemma prev_ok:
  assumes "mem_ok s bc H m" "H pc = Some sl" "cptr \<le> cbuf_end s"
  shows "step_ok s bc H (re_step s bc REOP_prev m sl pc cptr)"
  using assms PREV_CHAR_eq [of cptr "re_cbuf s" "re_cbuf_type s"] prev_pos_less [of cptr "re_cbuf_type s" "re_cbuf s"]
  by auto

lemma save_ok:
  assumes "mem_ok s bc H m" "i < 2 * re_capture_count s" "cptr \<le> cbuf_end s"
  shows "wr (rm_capture m) i (Some cptr) = Some ((rm_capture m)[i := Some cptr])"
    "mem_ok s bc H (m\<lparr>rm_capture := (rm_capture m)[i := Some cptr]\<rparr>)"
  using assms by (auto simp: mem_ok_def caps_ok_def intro: caps_ok_update dest: set_update_subset_insert [THEN subsetD])

lemma reset_ok:
  assumes "mem_ok s bc H m" "b < re_capture_count s" "H pc = Some sl" "cptr \<le> cbuf_end s"
  shows "step_ok s bc H (re_step s bc (REOP_save_reset a b) m sl pc cptr)"
proof -
  have caps: "caps_ok s (rm_capture m)" using assms(1) by (simp add: mem_ok_def)
  have "\<exists>caps'. re_reset (rm_capture m) a (b + 1 - a) = Some caps' \<and> caps_ok s caps'"
  proof (cases "a \<le> b + 1")
    case True
    then show ?thesis using re_reset_ok [OF caps, of a "b + 1 - a"] assms(2) by simp
  qed (use caps in simp)
  then show ?thesis using assms by (auto simp: mem_ok_def)
qed

lemma stack_write_ok:
  assumes "mem_ok s bc H m" "i < re_stack_size_max s"
  shows "wr (rm_stack m) i v = Some ((rm_stack m)[i := v])"
    "mem_ok s bc H (m\<lparr>rm_stack := (rm_stack m)[i := v]\<rparr>)" "rd (rm_stack m) i = Some (rm_stack m ! i)"
  using assms by (auto simp: mem_ok_def)

lemma jump_okD: "jump_ok H pc v h \<Longrightarrow> \<exists>t. re_jump pc v = Some t \<and> H t = Some h"
  by (auto simp: jump_ok_def split: option.splits)

text \<open>Every instruction but a greedy quantifier keeps the state well-formed.\<close>

lemma re_step_ok:
  assumes "mem_ok s bc H m" "sl \<le> re_stack_size_max s" "re_stack_size_max s \<le> 255" "cptr \<le> cbuf_end s"
    and "op_ok (re_capture_count s) (re_stack_size_max s) bc H pc sl opc"
    and "\<And>v mn mx. opc \<noteq> REOP_simple_greedy_quant v mn mx"
  shows "step_ok s bc H (re_step s bc opc m sl pc cptr)"
proof (cases opc)
  case (REOP_range n)
  then have n: "1 \<le> n" "pc + 4 * n \<le> length bc" "H (pc + 4 * n) = Some sl" using assms(5) by auto
  show ?thesis
    unfolding REOP_range re_step.simps
    by (rule range_step_ok [OF assms(1) _ n(3)]) (rule re_range_total [OF n(2,1)])
next
  case (REOP_range32 n)
  then have n: "1 \<le> n" "pc + 8 * n \<le> length bc" "H (pc + 8 * n) = Some sl" using assms(5) by auto
  show ?thesis
    unfolding REOP_range32 re_step.simps
    by (rule range_step_ok [OF assms(1) _ n(3)]) (rule re_range32_total [OF n(2,1)])
next
  case (REOP_loop v)
  then obtain t where "0 < sl" "H pc = Some sl" "re_jump pc v = Some t" "H t = Some sl"
    using assms(5) jump_okD by fastforce
  then show ?thesis using REOP_loop assms(2,4) stack_write_ok [OF assms(1), of "sl - 1"] by simp
next
  case (REOP_bne_char_pos v)
  then obtain t where "0 < sl" "H pc = Some (sl - 1)" "re_jump pc v = Some t" "H t = Some (sl - 1)"
    using assms(5) jump_okD by fastforce
  then show ?thesis using REOP_bne_char_pos assms(1,2,4) stack_write_ok [OF assms(1), of "sl - 1"] by simp
next
  case (REOP_word_boundary)
  then show ?thesis using assms(1,4,5) re_is_word_at_ok [OF assms(4)] by auto
next
  case (REOP_not_word_boundary)
  then show ?thesis using assms(1,4,5) re_is_word_at_ok [OF assms(4)] by auto
next
  case REOP_dot
  then show ?thesis using any_step_ok [OF assms(1) _ assms(4)] assms(5) by simp
next
  case REOP_any
  then show ?thesis using any_step_ok [OF assms(1) _ assms(4), of pc sl "\<lambda>_. False", unfolded if_False] assms(5) by simp
next
  case REOP_prev
  then show ?thesis using prev_ok [OF assms(1) _ assms(4)] assms(5) by (simp del: re_step.simps)
next
  case REOP_line_start
  then show ?thesis using line_start_ok [OF assms(1) _ assms(4)] assms(5) by (simp del: re_step.simps)
next
  case REOP_line_end
  then show ?thesis using line_end_ok [OF assms(1) _ assms(4)] assms(5) by (simp del: re_step.simps)
next
  case (REOP_save_reset a b)
  then show ?thesis using reset_ok [OF assms(1) _ _ assms(4), of b] assms(5) by (simp del: re_step.simps)
next
  case (REOP_save_start v)
  then show ?thesis using save_ok [OF assms(1) _ assms(4), of "2 * v"] assms(4,5) by simp
next
  case (REOP_save_end v)
  then show ?thesis using save_ok [OF assms(1) _ assms(4), of "2 * v + 1"] assms(4,5) by simp
next
  case (REOP_split_goto_first v)
  then show ?thesis using assms(5) jump_okD re_split_ok [OF assms(1-4)] by fastforce
next
  case (REOP_split_next_first v)
  then show ?thesis using assms(5) jump_okD re_split_ok [OF assms(1-4)] by fastforce
next
  case (REOP_lookahead v)
  then show ?thesis using assms(5) jump_okD re_split_ok [OF assms(1-4)] by fastforce
next
  case (REOP_negative_lookahead v)
  then show ?thesis using assms(5) jump_okD re_split_ok [OF assms(1-4)] by fastforce
next
  case (REOP_goto v)
  then show ?thesis using assms(1,4,5) jump_okD by fastforce
next
  case (REOP_simple_greedy_quant v mn mx)
  then show ?thesis using assms(6) by blast
qed (use assms re_test_char_ok re_back_reference_ok stack_write_ok [OF assms(1), of sl] in auto)

section \<open>Bodies of simple quantifiers\<close>

text \<open>A nested run on a straight-line body leaves the memory alone and, when it matches,
  moves forward by the stated number of characters.\<close>

definition body_result :: "REExecContext \<Rightarrow> re_mem \<Rightarrow> nat \<Rightarrow> nat \<Rightarrow> (re_mem \<times> re_result) run \<Rightarrow> bool" where
  "body_result s m cptr k r =
     (case r of
        Ub \<Rightarrow> False
      | Timeout \<Rightarrow> True
      | Done (m', res) \<Rightarrow> m' = m \<and>
          (case res of
             Ret_match p \<Rightarrow> p \<le> cbuf_end s \<and> cptr + k \<le> p \<and>
               back_room (re_cbuf_type s) (re_cbuf s) cptr + k \<le> back_room (re_cbuf_type s) (re_cbuf s) p
           | Ret_no_match \<Rightarrow> True
           | Ret_error \<Rightarrow> False))"

lemma body_result_char:
  assumes "GET_CHAR (re_cbuf_type s) (re_cbuf s) cptr (cbuf_end s) = Some (c, p)" "0 < k" "body_result s m p (k - 1) r"
  shows "body_result s m cptr k r"
  using assms(2,3) GET_CHAR_advances [OF assms(1)] GET_CHAR_back_room [OF assms(1)]
  by (auto simp: body_result_def split: run.splits re_result.splits)

lemma body_result_no_match [simp]: "body_result s m cptr k (Done (m, Ret_no_match))"
  by (simp add: body_result_def)

lemma body_result_cases:
  assumes "body_result s m cptr k r"
  obtains "r = Timeout" | "r = Done (m, Ret_no_match)"
    | p where "r = Done (m, Ret_match p)" "p \<le> cbuf_end s" "cptr + k \<le> p"
        "back_room (re_cbuf_type s) (re_cbuf s) cptr + k \<le> back_room (re_cbuf_type s) (re_cbuf s) p"
proof (cases r)
  case (Done x)
  obtain m' res where "x = (m', res)" by (cases x)
  then show ?thesis using assms Done that by (cases res) (auto simp: body_result_def)
qed (use assms that in \<open>auto simp: body_result_def\<close>)

lemma exec_body_step:
  assumes "re_fetch bc pc = Some (opc, pc')"
  shows "re_step s bc opc m sl pc' cptr = Some NoMatch \<Longrightarrow>
      lre_exec_backtrack (Suc fuel) s bc True m sl pc cptr = Done (m, Ret_no_match)"
    "re_step s bc opc m sl pc' cptr = Some (Matched p) \<Longrightarrow>
      lre_exec_backtrack (Suc fuel) s bc True m sl pc cptr = Done (m, Ret_match p)"
    "re_step s bc opc m sl pc' cptr = Some (Go m' sl' pcn p) \<Longrightarrow>
      lre_exec_backtrack (Suc fuel) s bc True m sl pc cptr = lre_exec_backtrack fuel s bc True m' sl' pcn p"
  using assms by (simp_all add: re_resume_def)

lemma get_char_in:
  assumes "cptr < cbuf_end s"
  shows "\<exists>c p. GET_CHAR (re_cbuf_type s) (re_cbuf s) cptr (cbuf_end s) = Some (c, p) \<and> p \<le> cbuf_end s"
  using GET_CHAR_cases [OF assms order_refl] by metis

text \<open>An instruction of a body fails, ends the body, reads one character or only tests.\<close>

definition body_case :: "nat \<Rightarrow> REExecContext \<Rightarrow> bytes \<Rightarrow> re_mem \<Rightarrow> nat \<Rightarrow> nat \<Rightarrow> nat \<Rightarrow> re_next option \<Rightarrow> bool" where
  "body_case f s bc m sl cptr k r \<longleftrightarrow>
     r = Some NoMatch \<or> (r = Some (Matched cptr) \<and> k = 0) \<or>
     (\<exists>pcn. r = Some (Go m sl pcn cptr) \<and> body_ok f bc pcn k) \<or>
     (\<exists>pcn c p. r = Some (Go m sl pcn p) \<and> body_ok f bc pcn (k - 1) \<and> 0 < k \<and> p \<le> cbuf_end s \<and>
        GET_CHAR (re_cbuf_type s) (re_cbuf s) cptr (cbuf_end s) = Some (c, p))"

lemma body_read_case:
  assumes "body_ok f bc pc (k - 1)" "0 < k"
    and "cptr < cbuf_end s \<Longrightarrow> \<exists>c p b. GET_CHAR (re_cbuf_type s) (re_cbuf s) cptr (cbuf_end s) = Some (c, p) \<and>
           p \<le> cbuf_end s \<and> r = Some (if b then Go m sl pc p else NoMatch)"
    and "\<not> cptr < cbuf_end s \<Longrightarrow> r = Some NoMatch"
  shows "body_case f s bc m sl cptr k r"
proof (cases "cptr < cbuf_end s")
  case True
  then obtain c p b where "GET_CHAR (re_cbuf_type s) (re_cbuf s) cptr (cbuf_end s) = Some (c, p)" "p \<le> cbuf_end s"
    "r = Some (if b then Go m sl pc p else NoMatch)" using assms(3) by blast
  then show ?thesis using assms(1,2) by (cases b) (auto simp: body_case_def)
qed (use assms(4) in \<open>simp add: body_case_def\<close>)

lemma body_test_ops:
  assumes "cptr \<le> cbuf_end s" "opc \<in> {REOP_line_start, REOP_line_end, REOP_word_boundary, REOP_not_word_boundary}"
  shows "re_step s bc opc m sl pc cptr = Some NoMatch \<or> re_step s bc opc m sl pc cptr = Some (Go m sl pc cptr)"
  using assms re_is_word_at_ok [OF assms(1)] PEEK_PREV_CHAR_in [of cptr "re_cbuf s" "re_cbuf_type s" 0]
    PEEK_CHAR_in [of cptr "cbuf_end s" "re_cbuf s" "re_cbuf_type s"]
  by (elim insertE emptyE) (auto split: if_splits)

lemma body_test_case:
  assumes "cptr \<le> cbuf_end s" "opc \<in> {REOP_line_start, REOP_line_end, REOP_word_boundary, REOP_not_word_boundary}"
    and "body_ok f bc pc k"
  shows "body_case f s bc m sl cptr k (re_step s bc opc m sl pc cptr)"
  using body_test_ops [OF assms(1,2), of bc m sl pc] assms(3) unfolding body_case_def by blast

lemma body_range_case:
  assumes "body_ok f bc pc (k - 1)" "0 < k" "\<And>c. g c \<noteq> None"
    and "r = (if cptr \<ge> cbuf_end s then Some NoMatch
              else do {
                (c, cptr) \<leftarrow> GET_CHAR (re_cbuf_type s) (re_cbuf s) cptr (cbuf_end s);
                b \<leftarrow> g c;
                Some (if b then Go m sl pc cptr else NoMatch) })"
  shows "body_case f s bc m sl cptr k r"
proof (rule body_read_case [OF assms(1,2)])
  assume lt: "cptr < cbuf_end s"
  then obtain c p where g: "GET_CHAR (re_cbuf_type s) (re_cbuf s) cptr (cbuf_end s) = Some (c, p)" "p \<le> cbuf_end s"
    using get_char_in by blast
  obtain b where "g c = Some b" using assms(3) [of c] by blast
  then show "\<exists>c p b. GET_CHAR (re_cbuf_type s) (re_cbuf s) cptr (cbuf_end s) = Some (c, p) \<and>
           p \<le> cbuf_end s \<and> r = Some (if b then Go m sl pc p else NoMatch)"
    unfolding assms(4) using lt g by auto
qed (use assms(4) in simp)

lemma body_step:
  assumes "body_ok (Suc f) bc pc k" "cptr \<le> cbuf_end s"
  shows "\<exists>opc pc'. re_fetch bc pc = Some (opc, pc') \<and> body_case f s bc m sl cptr k (re_step s bc opc m sl pc' cptr)"
proof -
  obtain opc pc' where ft: "re_fetch bc pc = Some (opc, pc')"
    using assms(1) by (auto split: option.splits)
  have "body_case f s bc m sl cptr k (re_step s bc opc m sl pc' cptr)"
  proof (cases opc)
    case REOP_match
    then show ?thesis using assms(1) ft by (simp add: body_case_def)
  next
    case (REOP_char v)
    then have "body_ok f bc pc' (k - 1)" "0 < k" using assms(1) ft by auto
    then show ?thesis
      by (rule body_read_case) (use REOP_char get_char_in [of cptr s] in \<open>auto simp: re_test_char_def\<close>)
  next
    case (REOP_char32 v)
    then have "body_ok f bc pc' (k - 1)" "0 < k" using assms(1) ft by auto
    then show ?thesis
      by (rule body_read_case) (use REOP_char32 get_char_in [of cptr s] in \<open>auto simp: re_test_char_def\<close>)
  next
    case REOP_dot
    then have "body_ok f bc pc' (k - 1)" "0 < k" using assms(1) ft by auto
    then show ?thesis
      by (rule body_read_case) (use REOP_dot assms(2) get_char_in [of cptr s] in auto)
  next
    case REOP_any
    then have "body_ok f bc pc' (k - 1)" "0 < k" using assms(1) ft by auto
    then show ?thesis
      by (rule body_read_case) (use REOP_any assms(2) get_char_in [of cptr s] in auto)
  next
    case (REOP_range n)
    then have b: "body_ok f bc (pc' + 4 * n) (k - 1)" "0 < k" and n: "pc' + 4 * n \<le> length bc" "1 \<le> n"
      using assms(1) ft by auto
    show ?thesis
      by (rule body_range_case [OF b, of "\<lambda>c. re_range bc pc' n (fold_char s c)"])
        (use REOP_range re_range_total [OF n] in auto)
  next
    case (REOP_range32 n)
    then have b: "body_ok f bc (pc' + 8 * n) (k - 1)" "0 < k" and n: "pc' + 8 * n \<le> length bc" "1 \<le> n"
      using assms(1) ft by auto
    show ?thesis
      by (rule body_range_case [OF b, of "\<lambda>c. re_range32 bc pc' n (fold_char s c)"])
        (use REOP_range32 re_range32_total [OF n] in auto)
  next
    case REOP_line_start
    then show ?thesis using body_test_case [OF assms(2)] assms(1) ft by (simp del: re_step.simps)
  next
    case REOP_line_end
    then show ?thesis using body_test_case [OF assms(2)] assms(1) ft by (simp del: re_step.simps)
  next
    case REOP_word_boundary
    then show ?thesis using body_test_case [OF assms(2)] assms(1) ft by (simp del: re_step.simps)
  next
    case REOP_not_word_boundary
    then show ?thesis using body_test_case [OF assms(2)] assms(1) ft by (simp del: re_step.simps)
  qed (use assms(1) ft in auto)
  with ft show ?thesis by blast
qed

lemma exec_body:
  assumes "body_ok f bc pc k" "cptr \<le> cbuf_end s"
  shows "body_result s m cptr k (lre_exec_backtrack fuel s bc True m sl pc cptr)"
    and "f \<le> fuel \<Longrightarrow> lre_exec_backtrack fuel s bc True m sl pc cptr \<noteq> Timeout"
  using assms
proof (induction fuel arbitrary: f pc k cptr)
  case 0
  { case 1 show ?case by (simp add: body_result_def) }
  { case 2 then show ?case by (cases f) auto }
next
  case (Suc fuel)
  have step: "body_result s m cptr k (lre_exec_backtrack (Suc fuel) s bc True m sl pc cptr) \<and>
      (f \<le> Suc fuel \<longrightarrow> lre_exec_backtrack (Suc fuel) s bc True m sl pc cptr \<noteq> Timeout)"
    if ok: "body_ok f bc pc k" "cptr \<le> cbuf_end s" for f pc k cptr
  proof -
    obtain g where g: "f = Suc g" using ok(1) by (cases f) auto
    obtain opc pc' where ft: "re_fetch bc pc = Some (opc, pc')"
      and bcase: "body_case g s bc m sl cptr k (re_step s bc opc m sl pc' cptr)"
      using body_step ok g by blast
    note run = exec_body_step [OF ft, of s m sl cptr]
    consider "re_step s bc opc m sl pc' cptr = Some NoMatch"
      | "re_step s bc opc m sl pc' cptr = Some (Matched cptr)" "k = 0"
      | (test) pcn where "re_step s bc opc m sl pc' cptr = Some (Go m sl pcn cptr)" "body_ok g bc pcn k"
      | (rdc) pcn c p where "re_step s bc opc m sl pc' cptr = Some (Go m sl pcn p)" "body_ok g bc pcn (k - 1)"
          "0 < k" "p \<le> cbuf_end s" "GET_CHAR (re_cbuf_type s) (re_cbuf s) cptr (cbuf_end s) = Some (c, p)"
      using bcase unfolding body_case_def by blast
    then show ?thesis
    proof cases
      case test
      show ?thesis using Suc.IH(1) [OF test(2) ok(2)] Suc.IH(2) [OF _ test(2) ok(2)] run(3) [OF test(1)] g by simp
    next
      case rdc
      show ?thesis
        using Suc.IH(1) [OF rdc(2,4)] Suc.IH(2) [OF _ rdc(2,4)] body_result_char [OF rdc(5,3)] run(3) [OF rdc(1)] g by simp
    qed (use run ok(2) in \<open>simp_all add: body_result_def del: lre_exec_backtrack.simps\<close>)
  qed
  { case 1 then show ?case using step by blast }
  { case 2 then show ?case using step by blast }
qed

section \<open>The loop of a simple quantifier\<close>

definition greedy_result :: "REExecContext \<Rightarrow> re_mem \<Rightarrow> nat \<Rightarrow> (re_mem \<times> (nat \<times> nat) option) run \<Rightarrow> bool" where
  "greedy_result s m k r =
     (case r of
        Ub \<Rightarrow> False
      | Timeout \<Rightarrow> True
      | Done (m', res) \<Rightarrow> m' = m \<and>
          (case res of
             None \<Rightarrow> False
           | Some (q, cptr) \<Rightarrow> cptr \<le> cbuf_end s \<and> q * k \<le> back_room (re_cbuf_type s) (re_cbuf s) cptr))"

lemma re_greedy_ok:
  assumes "\<And>cptr. cptr \<le> cbuf_end s \<Longrightarrow> body_result s m cptr k (body m cptr)"
    and "cptr \<le> cbuf_end s" "q * k \<le> back_room (re_cbuf_type s) (re_cbuf s) cptr"
  shows "greedy_result s m k (re_greedy g body mx m q cptr)"
  using assms(2,3)
proof (induction g arbitrary: q cptr)
  case (Suc g)
  from assms(1) [OF Suc.prems(1)] consider "body m cptr = Timeout" | "body m cptr = Done (m, Ret_no_match)"
    | (hit) p where "body m cptr = Done (m, Ret_match p)" "p \<le> cbuf_end s"
        "back_room (re_cbuf_type s) (re_cbuf s) cptr + k \<le> back_room (re_cbuf_type s) (re_cbuf s) p"
    by (rule body_result_cases) auto
  then show ?case
  proof cases
    case hit
    have "(q + 1) * k \<le> back_room (re_cbuf_type s) (re_cbuf s) p" using hit(3) Suc.prems(2) by simp
    then show ?thesis using hit Suc.IH [OF hit(2), of "q + 1"] by (simp add: greedy_result_def)
  qed (use Suc.prems in \<open>simp_all add: greedy_result_def\<close>)
qed (simp add: greedy_result_def)

text \<open>A body that reads at least one character makes the loop end.\<close>

lemma re_greedy_terminates:
  assumes "\<And>cptr. cptr \<le> cbuf_end s \<Longrightarrow> body_result s m cptr k (body m cptr) \<and> body m cptr \<noteq> Timeout"
    and "0 < k" "cptr \<le> cbuf_end s" "cbuf_end s - cptr < g"
  shows "re_greedy g body mx m q cptr \<noteq> Timeout"
  using assms(3,4)
proof (induction g arbitrary: q cptr)
  case (Suc g)
  have "body_result s m cptr k (body m cptr)" "body m cptr \<noteq> Timeout" using assms(1) [OF Suc.prems(1)] by auto
  from this(1) consider "body m cptr = Timeout" | "body m cptr = Done (m, Ret_no_match)"
    | (hit) p where "body m cptr = Done (m, Ret_match p)" "p \<le> cbuf_end s" "cptr + k \<le> p"
    by (rule body_result_cases) auto
  then show ?case
  proof cases
    case hit
    then have "cbuf_end s - p < g" using assms(2) Suc.prems by arith
    then show ?thesis using hit Suc.IH [OF hit(2)] by simp
  qed (use \<open>body m cptr \<noteq> Timeout\<close> in simp_all)
qed simp

section \<open>The interpreter\<close>

definition exec_result :: "REExecContext \<Rightarrow> bytes \<Rightarrow> re_heights \<Rightarrow> (re_mem \<times> re_result) run \<Rightarrow> bool" where
  "exec_result s bc H r = (case r of Ub \<Rightarrow> False | Timeout \<Rightarrow> True | Done (m, _) \<Rightarrow> mem_ok s bc H m)"

definition go_ok ::
    "REExecContext \<Rightarrow> bytes \<Rightarrow> re_heights \<Rightarrow> (re_mem \<Rightarrow> nat \<Rightarrow> nat \<Rightarrow> nat \<Rightarrow> (re_mem \<times> re_result) run) \<Rightarrow> bool" where
  "go_ok s bc H go \<longleftrightarrow>
     (\<forall>m sl pc cptr. mem_ok s bc H m \<and> H pc = Some sl \<and> cptr \<le> cbuf_end s \<longrightarrow> exec_result s bc H (go m sl pc cptr))"

lemma go_okD:
  "go_ok s bc H go \<Longrightarrow> mem_ok s bc H m \<Longrightarrow> H pc = Some sl \<Longrightarrow> cptr \<le> cbuf_end s \<Longrightarrow> exec_result s bc H (go m sl pc cptr)"
  by (simp add: go_ok_def)

lemma exec_result_Done [simp]: "exec_result s bc H (Done (m, r)) = mem_ok s bc H m"
  by (simp add: exec_result_def)

lemma mem_ok_no_states: "mem_ok s bc H m \<Longrightarrow> mem_ok s bc H (m\<lparr>rm_states := []\<rparr>)"
  by (simp add: mem_ok_def)

lemma re_resume_ok:
  assumes "mem_ok s bc H m" "go_ok s bc H go"
  shows "exec_result s bc H (re_resume s bc False go m ret cptr)"
proof -
  have "list_all (state_ok s bc H) (rm_states m)" "length (rm_states m) \<le> rm_states_size m"
    using assms(1) by (auto simp: mem_ok_def)
  then obtain r where r: "re_unwind s bc m (rm_states m) ret = Some r"
    and ok: "\<And>m' sl pc cptr. r = Inr (m', sl, pc, cptr) \<Longrightarrow> mem_ok s bc H m' \<and> H pc = Some sl \<and> cptr \<le> cbuf_end s"
    using re_unwind_ok [OF assms(1)] by metis
  show ?thesis
  proof (cases r)
    case (Inl b)
    then show ?thesis using r assms(1) mem_ok_no_states by (simp add: re_resume_def)
  next
    case (Inr t)
    obtain m' sl pc p where t: "t = (m', sl, pc, p)" by (cases t)
    show ?thesis using r Inr t ok [of m' sl pc p] go_okD [OF assms(2)] by (simp add: re_resume_def)
  qed
qed

lemma fetch_greedy:
  assumes "re_fetch bc pc = Some (REOP_simple_greedy_quant v mn mx, pc')"
  shows "pc' = pc + 17 \<and> get_u32 bc (pc + 1) = Some v"
  using assms
  by (auto simp: re_fetch_def Let_def op_u8_def op_u16_def op_u32_def split: if_splits Option.bind_splits)

lemma re_after_greedy_ok:
  assumes "mem_ok s bc H m" "go_ok s bc H go" "sl \<le> re_stack_size_max s" "re_stack_size_max s \<le> 255"
    and "cptr \<le> cbuf_end s" "q * unat k \<le> back_room (re_cbuf_type s) (re_cbuf s) cptr"
    and "get_u32 bc (pc + 1) = Some v" "get_u32 bc (pc + 13) = Some k" "jump_ok H (pc + 17) v sl" "re_jump (pc + 17) v = Some t"
  shows "exec_result s bc H (re_after_greedy s bc False go m sl (pc + 17) t mn q cptr)"
proof -
  have H: "H t = Some sl" using assms(9,10) by (simp add: jump_ok_def)
  consider "q < mn" | "q = mn" | (more) "mn < q" by linarith
  then show ?thesis
  proof cases
    case more
    have "(q - mn) * unat k \<le> q * unat k" by simp
    then have "(q - mn) * unat k \<le> chars_before (re_cbuf_type s) (re_cbuf s) cptr"
      using assms(6) back_room_le [of "re_cbuf_type s" "re_cbuf s" cptr] by linarith
    moreover have "pc + 1 + 12 = pc + 13" "pc + 1 + 16 = pc + 17" by simp_all
    ultimately have "resume_ok s bc H \<lparr>es_type = RE_EXEC_STATE_GREEDY_QUANT, es_stack_len = sl, es_count = q - mn,
        es_cptr = cptr, es_pc = pc + 1, es_capture = caps, es_stack = stk\<rparr>" for caps stk
      using assms(7-9) more by (simp add: resume_ok_def add.assoc del: One_nat_def)
    then obtain r where "push_state s m sl (pc + 1) cptr RE_EXEC_STATE_GREEDY_QUANT (q - mn) = Some r"
      "\<forall>m'. r = Some m' \<longrightarrow> mem_ok s bc H m'"
      using push_state_ok [OF assms(1,3,4,5)] by blast
    then show ?thesis
      using more assms(1,5) H go_okD [OF assms(2)] by (auto simp: re_after_greedy_def split: option.split)
  qed (use assms(1,5) H go_okD [OF assms(2)] re_resume_ok [OF assms(1,2)] in \<open>auto simp: re_after_greedy_def\<close>)
qed

lemma lre_exec_backtrack_ok:
  assumes "code_ok s bc H"
  shows "go_ok s bc H (lre_exec_backtrack fuel s bc False)"
proof (induction fuel)
  case 0
  show ?case by (simp add: go_ok_def exec_result_def)
next
  case (Suc fuel)
  have smax: "re_stack_size_max s \<le> 255" using assms by (simp add: code_ok_def)
  show ?case
    unfolding go_ok_def
  proof (intro allI impI, elim conjE)
    fix m sl pc cptr
    assume m: "mem_ok s bc H m" and pc: "H pc = Some sl" and cptr: "cptr \<le> cbuf_end s"
    have "instr_ok (re_capture_count s) (re_stack_size_max s) bc H pc sl" using assms pc by (simp add: code_ok_def)
    then obtain opc pc' where sl: "sl \<le> re_stack_size_max s" and ft: "re_fetch bc pc = Some (opc, pc')"
      and op: "op_ok (re_capture_count s) (re_stack_size_max s) bc H pc' sl opc"
      by (auto simp: instr_ok_def split: option.splits)
    show "exec_result s bc H (lre_exec_backtrack (Suc fuel) s bc False m sl pc cptr)"
    proof (cases "\<exists>v mn mx. opc = REOP_simple_greedy_quant v mn mx")
      case False
      then have "step_ok s bc H (re_step s bc opc m sl pc' cptr)"
        using re_step_ok [OF m sl smax cptr op] by blast
      then obtain nxt where st: "re_step s bc opc m sl pc' cptr = Some nxt" "next_ok s bc H nxt"
        by (auto simp: step_ok_def split: option.splits)
      then show ?thesis
        using ft m re_resume_ok [OF m Suc.IH] go_okD [OF Suc.IH] by (cases nxt) (auto simp: next_ok_def)
    next
      case True
      then obtain v mn mx where opc: "opc = REOP_simple_greedy_quant v mn mx" by blast
      have pc': "pc' = pc + 17" and v: "get_u32 bc (pc + 1) = Some v" using fetch_greedy ft opc by auto
      obtain k where k: "get_u32 bc (pc + 13) = Some k" "body_ok (length bc) bc (pc + 17) (unat k)" "jump_ok H (pc + 17) v sl"
        using op opc pc' by (auto simp: add.commute [of 13] split: option.splits)
      obtain t where t: "re_jump (pc + 17) v = Some t" using jump_okD [OF k(3)] by blast
      let ?g = "re_greedy fuel (\<lambda>m cptr. lre_exec_backtrack fuel s bc True m sl (pc + 17) cptr) mx m 0 cptr"
      have "greedy_result s m (unat k) ?g"
        by (rule re_greedy_ok) (use cptr exec_body(1) [OF k(2)] in auto)
      then consider "?g = Timeout" | (ended) q p where "?g = Done (m, Some (q, p))" "p \<le> cbuf_end s"
          "q * unat k \<le> back_room (re_cbuf_type s) (re_cbuf s) p"
        by (auto simp: greedy_result_def split: run.splits option.splits prod.splits)
      then show ?thesis
      proof cases
        case ended
        show ?thesis
          using re_after_greedy_ok [OF m Suc.IH sl smax ended(2,3) v k(1,3) t] ft opc pc' t ended(1) by simp
      qed (use ft opc pc' t in \<open>simp add: exec_result_def\<close>)
    qed
  qed
qed

lemma code_ok_check:
  assumes "re_check bc A" "re_capture_count s = unat (bc ! 1)" "re_stack_size_max s = unat (bc ! 2)"
  shows "code_ok s bc (map_of A)"
proof -
  have "unat (bc ! 2) < 256" using unsigned_less [of "bc ! 2"] by simp
  moreover have "instr_ok (unat (bc ! 1)) (unat (bc ! 2)) bc (map_of A) pc h" if "map_of A pc = Some h" for pc h
    using assms(1) map_of_SomeD [OF that] by (auto simp: re_check_def list_all_iff)
  ultimately show ?thesis using assms(2,3) by (simp add: code_ok_def)
qed

text \<open>C1: running checked bytecode on any subject, with any case folding, allocator and
  junk in the stack, never leaves the bytecode, the subject, the capture array or the
  stack, never fails an assertion and never meets an unknown opcode; when it returns, all
  captures lie inside the subject.\<close>

theorem lre_exec_safe:
  assumes "re_check bc A" "cindex \<le> length cbuf"
  shows "case lre_exec fuel canon grant addr junk bc cbuf cindex cbuf_type of
      Ub \<Rightarrow> False
    | Timeout \<Rightarrow> True
    | Done (ret, caps) \<Rightarrow> ret \<in> {-1, 0, 1} \<and> length caps = 2 * unat (bc ! 1) \<and>
        (\<forall>p. Some p \<in> set caps \<longrightarrow> p \<le> length cbuf)"
proof -
  let ?u16 = "bit (bc ! 0) 4"
  define s where "s = \<lparr>re_cbuf = cbuf, re_cbuf_addr = addr,
      re_cbuf_type = (if cbuf_type = 1 \<and> ?u16 then 2 else cbuf_type),
      re_capture_count = unat (bc ! 1), re_stack_size_max = unat (bc ! 2),
      re_multi_line = bit (bc ! 0) 2, re_ignore_case = bit (bc ! 0) 1,
      re_is_utf16 = ?u16, re_canon = canon, re_grant = grant\<rparr>"
  define m where "m = \<lparr>rm_capture = replicate (2 * unat (bc ! 1)) None,
      rm_stack = take (unat (bc ! 2)) (junk @ replicate (unat (bc ! 2)) 0), rm_states = [], rm_states_size = 0\<rparr>"
  have len: "3 \<le> length bc" and start: "map_of A 7 = Some 0" using assms(1) by (auto simp: re_check_def)
  have "code_ok s bc (map_of A)" using code_ok_check [OF assms(1)] by (simp add: s_def)
  moreover have "mem_ok s bc (map_of A) m" by (auto simp: mem_ok_def caps_ok_def m_def s_def)
  ultimately have ok: "exec_result s bc (map_of A) (lre_exec_backtrack fuel s bc False m 0 7 cindex)"
    using go_okD [OF lre_exec_backtrack_ok] start assms(2) by (simp add: s_def)
  have hd: "rd bc 0 = Some (bc ! 0)" "rd bc 1 = Some (bc ! 1)" "rd bc 2 = Some (bc ! 2)" using len by (auto intro: rd_in)
  have eq: "lre_exec fuel canon grant addr junk bc cbuf cindex cbuf_type =
     (case lre_exec_backtrack fuel s bc False m 0 7 cindex of
        Ub \<Rightarrow> Ub
      | Timeout \<Rightarrow> Timeout
      | Done (m, r) \<Rightarrow>
          Done (case r of Ret_match p \<Rightarrow> 1 | Ret_no_match \<Rightarrow> 0 | Ret_error \<Rightarrow> -1, rm_capture m))"
    unfolding lre_exec_def hd option.case prod.case Let_def s_def m_def by (rule refl)
  with ok show ?thesis
  proof (cases "lre_exec_backtrack fuel s bc False m 0 7 cindex")
    case (Done x)
    obtain m' r where x: "x = (m', r)" by (cases x)
    have "mem_ok s bc (map_of A) m'" using ok Done x by simp
    then have "caps_ok s (rm_capture m')" by (simp add: mem_ok_def)
    then have "length (rm_capture m') = 2 * unat (bc ! 1)" "\<forall>p. Some p \<in> set (rm_capture m') \<longrightarrow> p \<le> length cbuf"
      by (simp_all add: caps_ok_def s_def)
    then show ?thesis using eq Done x by (cases r) simp_all
  qed (simp_all add: exec_result_def)
qed

text \<open>The code of \<open>/a{1,5}/\<close> on the subject \<open>baa\<close>.\<close>

definition sample_code :: bytes where
  "sample_code =
     [0, 1, 0, 37, 0, 0, 0,  8, 6, 0, 0, 0,  4,  7, 0xf5, 0xff, 0xff, 0xff,  11, 0,
      28, 4, 0, 0, 0, 1, 0, 0, 0, 5, 0, 0, 0, 1, 0, 0, 0,  1, 0x61, 0,  10,  12, 0,  10]"

definition sample_heights :: "(nat \<times> nat) list" where
  "sample_heights = [(7, 0), (12, 0), (13, 0), (18, 0), (20, 0), (41, 0), (43, 0)]"

theorem lre_exec_safe_witness:
  "re_check sample_code sample_heights \<and>
   lre_exec 20 (\<lambda>c u. c) (\<lambda>n. True) 0x1000 [] sample_code [0x62, 0x61, 0x61] 0 0 = Done (1, [Some 1, Some 3]) \<and>
   length [Some 1, Some (3 :: nat)] = 2 * unat (sample_code ! 1) \<and>
   1 \<le> length [0x62 :: u32, 0x61, 0x61] \<and> 3 \<le> length [0x62 :: u32, 0x61, 0x61]"
proof -
  have c: "re_check sample_code sample_heights" by code_simp
  have r: "lre_exec 20 (\<lambda>c u. c) (\<lambda>n. True) 0x1000 [] sample_code [0x62, 0x61, 0x61] 0 0 =
      Done (1, [Some 1, Some 3])" by code_simp
  have i: "0 \<le> length [0x62 :: u32, 0x61, 0x61]" by simp
  show ?thesis
    using lre_exec_safe [OF c i, of 20 "\<lambda>c u. c" "\<lambda>n. True" "0x1000" "[]" 0] c r by simp
qed

text \<open>C25: the loop of a simple greedy quantifier ends: with fuel for one pass over the
  code and one repetition per unit of the subject it returns, the nested runs leave the
  captures and the stacks alone, and the position stays inside the subject.\<close>

theorem simple_quantifier_terminates:
  assumes "body_ok (length bc) bc pc1 k" "0 < k" "cptr \<le> cbuf_end s"
    and "length bc \<le> fuel" "cbuf_end s < g"
  shows "\<exists>q p. re_greedy g (\<lambda>m cptr. lre_exec_backtrack fuel s bc True m sl pc1 cptr) quant_max m 0 cptr =
      Done (m, Some (q, p)) \<and> p \<le> cbuf_end s"
proof -
  let ?b = "\<lambda>m cptr. lre_exec_backtrack fuel s bc True m sl pc1 cptr"
  have "greedy_result s m k (re_greedy g ?b quant_max m 0 cptr)"
    by (rule re_greedy_ok) (use assms(3) exec_body(1) [OF assms(1)] in auto)
  moreover have "re_greedy g ?b quant_max m 0 cptr \<noteq> Timeout"
    by (rule re_greedy_terminates [OF _ assms(2,3)]) (use assms(5) exec_body [OF assms(1)] assms(4) in auto)
  ultimately show ?thesis
    by (auto simp: greedy_result_def split: run.splits option.splits prod.splits)
qed

definition sample_context :: REExecContext where
  "sample_context = \<lparr>re_cbuf = [0x62, 0x61, 0x61], re_cbuf_addr = 0, re_cbuf_type = 0, re_capture_count = 1,
     re_stack_size_max = 0, re_multi_line = False, re_ignore_case = False, re_is_utf16 = False,
     re_canon = (\<lambda>c u. c), re_grant = (\<lambda>n. True)\<rparr>"

theorem simple_quantifier_terminates_witness:
  "body_ok (length sample_code) sample_code 37 1 \<and>
   (\<exists>q p. re_greedy 4 (\<lambda>m cptr. lre_exec_backtrack 44 sample_context sample_code True m 0 37 cptr) 5
       \<lparr>rm_capture = [], rm_stack = [], rm_states = [], rm_states_size = 0\<rparr> 0 1 =
     Done (\<lparr>rm_capture = [], rm_stack = [], rm_states = [], rm_states_size = 0\<rparr>, Some (q, p)) \<and>
     p \<le> cbuf_end sample_context)"
proof -
  have b: "body_ok (length sample_code) sample_code 37 1" by code_simp
  moreover have "1 \<le> cbuf_end sample_context" "length sample_code \<le> 44" "cbuf_end sample_context < 4"
    by (simp_all add: sample_context_def sample_code_def)
  ultimately show ?thesis using simple_quantifier_terminates [OF b zero_less_one] by blast
qed

end
