(* ===== verification/Js_String.thy ===== *)
theory Js_String
  imports Cutils_Bytes Cutils_Utf8 Regexp_Chars
begin

text \<open>
  JavaScript strings (\<open>quickjs.c\<close>, \<open>JSString\<close>): a string is narrow (one byte per unit and
  a terminating zero byte) or wide (two bytes per unit), and both forms share the bytes of
  the union \<open>u\<close>.  The theory has allocation, element access, comparison, substrings and
  concatenation.  \<open>js_units\<close> reads a string as its list of 16-bit units; comparison is the
  lexicographic order of the units, and concatenation and substrings are the operations on
  the lists.

  The engine's allocator is a parameter that threads its own state: it returns a block of
  at least the requested size (its length is \<open>malloc_usable_size\<close>) or nothing.  Sizes
  count the bytes of the union, without the fixed header.
\<close>

section \<open>Data\<close>

record JSString =
  js_len :: nat
  js_wide :: bool
  js_u :: bytes

definition JS_STRING_LEN_MAX :: nat where
  "JS_STRING_LEN_MAX = 2 ^ 30 - 1"

record 'o js_mem =
  jm_malloc :: "'o \<Rightarrow> nat \<Rightarrow> 'o \<times> bytes option"
  jm_realloc :: "'o \<Rightarrow> bytes \<Rightarrow> nat \<Rightarrow> 'o \<times> bytes option"
  jm_free :: "'o \<Rightarrow> bytes \<Rightarrow> 'o"

text \<open>The documented behaviour of \<open>malloc\<close> and \<open>realloc\<close>.\<close>

definition js_mem_ok :: "'o js_mem \<Rightarrow> bool" where
  "js_mem_ok jm \<longleftrightarrow>
     (\<forall>c n c' b. jm_malloc jm c n = (c', Some b) \<longrightarrow> n \<le> length b) \<and>
     (\<forall>c p n c' b. jm_realloc jm c p n = (c', Some b) \<longrightarrow>
        n \<le> length b \<and> take (min n (length p)) b = take (min n (length p)) p)"

text \<open>A value that an operation on strings returns.\<close>

datatype js_result = JS_EXCEPTION | JS_STRING JSString

text \<open>An operand: a string with its reference count, or another value that
  \<open>JS_ToStringFree\<close>, a parameter here, converts.\<close>

datatype 'v JSValue = JS_TAG_STRING nat JSString | JS_TAG_OTHER 'v

type_synonym ('o, 'v) to_string = "'o \<Rightarrow> 'v \<Rightarrow> 'o \<times> (nat \<times> JSString) option"

definition string_operand :: "('o, 'v) to_string \<Rightarrow> 'o \<Rightarrow> 'v JSValue \<Rightarrow> 'o \<times> (nat \<times> JSString) option" where
  "string_operand ts ctx v = (case v of JS_TAG_STRING r p \<Rightarrow> (ctx, Some (r, p)) | JS_TAG_OTHER w \<Rightarrow> ts ctx w)"

section \<open>Units\<close>

definition rd16 :: "bytes \<Rightarrow> nat \<Rightarrow> u16 option" where
  "rd16 u i = get_packed 2 u (2 * i)"

definition wr16 :: "bytes \<Rightarrow> nat \<Rightarrow> u16 \<Rightarrow> bytes option" where
  "wr16 u i v = put_u16 u (2 * i) v"

definition units16 :: "bytes \<Rightarrow> nat \<Rightarrow> u16 list" where
  "units16 u n = map (\<lambda>i. the (rd16 u i)) [0..<n]"

definition units8 :: "bytes \<Rightarrow> nat \<Rightarrow> u16 list" where
  "units8 u n = map ucast (take n u)"

definition js_units :: "JSString \<Rightarrow> u16 list" where
  "js_units p = (if js_wide p then units16 (js_u p) (js_len p) else units8 (js_u p) (js_len p))"

text \<open>The bytes that a string of \<open>n\<close> units needs.\<close>

definition payload_size :: "nat \<Rightarrow> bool \<Rightarrow> nat" where
  "payload_size n wide = (if wide then 2 * n else n + 1)"

definition js_string_ok :: "JSString \<Rightarrow> bool" where
  "js_string_ok p \<longleftrightarrow> payload_size (js_len p) (js_wide p) \<le> length (js_u p)"

section \<open>Allocation\<close>

definition js_alloc_string_rt :: "'o js_mem \<Rightarrow> 'o \<Rightarrow> nat \<Rightarrow> bool \<Rightarrow> 'o \<times> JSString option" where
  "js_alloc_string_rt jm ctx max_len is_wide_char =
     (case jm_malloc jm ctx (payload_size max_len is_wide_char) of
        (ctx, None) \<Rightarrow> (ctx, None)
      | (ctx, Some b) \<Rightarrow> (ctx, Some \<lparr>js_len = max_len, js_wide = is_wide_char, js_u = b\<rparr>))"

text \<open>The atom of the empty string.\<close>

definition js_empty_string :: JSString where
  "js_empty_string = \<lparr>js_len = 0, js_wide = False, js_u = [0]\<rparr>"

definition js_new_string8 :: "'o js_mem \<Rightarrow> 'o \<Rightarrow> bytes \<Rightarrow> ('o \<times> js_result) option" where
  "js_new_string8 jm ctx buf =
     (if length buf = 0 then Some (ctx, JS_STRING js_empty_string)
      else case js_alloc_string_rt jm ctx (length buf) False of
          (ctx, None) \<Rightarrow> Some (ctx, JS_EXCEPTION)
        | (ctx, Some str) \<Rightarrow> do {
            u \<leftarrow> blit (js_u str) 0 buf;
            u \<leftarrow> wr u (length buf) 0;
            Some (ctx, JS_STRING (str\<lparr>js_u := u\<rparr>)) })"

text \<open>Storing units one after the other from position \<open>pos\<close> on; on the little-endian
  configuration this is also the \<open>memcpy\<close> of a 16-bit array.\<close>

fun store16 :: "bytes \<Rightarrow> nat \<Rightarrow> u16 list \<Rightarrow> bytes option" where
  "store16 u pos [] = Some u"
| "store16 u pos (c # cs) = do { u \<leftarrow> wr16 u pos c; store16 u (pos + 1) cs }"

fun store8 :: "bytes \<Rightarrow> nat \<Rightarrow> u16 list \<Rightarrow> bytes option" where
  "store8 u pos [] = Some u"
| "store8 u pos (c # cs) = do { u \<leftarrow> wr u pos (ucast c); store8 u (pos + 1) cs }"

definition js_new_string16 :: "'o js_mem \<Rightarrow> 'o \<Rightarrow> u16 list \<Rightarrow> ('o \<times> js_result) option" where
  "js_new_string16 jm ctx buf =
     (case js_alloc_string_rt jm ctx (length buf) True of
        (ctx, None) \<Rightarrow> Some (ctx, JS_EXCEPTION)
      | (ctx, Some str) \<Rightarrow> do {
          u \<leftarrow> store16 (js_u str) 0 buf;
          Some (ctx, JS_STRING (str\<lparr>js_u := u\<rparr>)) })"

definition js_new_string_char :: "'o js_mem \<Rightarrow> 'o \<Rightarrow> u16 \<Rightarrow> ('o \<times> js_result) option" where
  "js_new_string_char jm ctx c =
     (if c < 0x100 then js_new_string8 jm ctx [ucast c] else js_new_string16 jm ctx [c])"

section \<open>Access\<close>

definition string_get :: "JSString \<Rightarrow> nat \<Rightarrow> u16 option" where
  "string_get p idx = (if js_wide p then rd16 (js_u p) idx else map_option ucast (rd (js_u p) idx))"

text \<open>Reading \<open>len\<close> units from \<open>pos\<close> on.\<close>

fun load16 :: "bytes \<Rightarrow> nat \<Rightarrow> nat \<Rightarrow> u16 list option" where
  "load16 u pos 0 = Some []"
| "load16 u pos (Suc n) = do { c \<leftarrow> rd16 u pos; cs \<leftarrow> load16 u (pos + 1) n; Some (c # cs) }"

text \<open>The code point at \<open>idx\<close> and the index behind it.\<close>

definition string_getc :: "JSString \<Rightarrow> nat \<Rightarrow> (u32 \<times> nat) option" where
  "string_getc p idx =
     (if js_wide p then do {
        c \<leftarrow> rd16 (js_u p) idx;
        let idx = idx + 1; c = ucast c
        in if is_hi_surrogate c \<and> idx < js_len p then do {
             c1 \<leftarrow> rd16 (js_u p) idx;
             let c1 = ucast c1
             in Some (if is_lo_surrogate c1 then (from_surrogates c c1, idx + 1) else (c, idx)) }
           else Some (c, idx) }
      else do {
        c \<leftarrow> rd (js_u p) idx;
        Some (ucast c, idx + 1) })"

section \<open>Substrings\<close>

definition js_sub_string :: "'o js_mem \<Rightarrow> 'o \<Rightarrow> JSString \<Rightarrow> nat \<Rightarrow> nat \<Rightarrow> ('o \<times> js_result) option" where
  "js_sub_string jm ctx p start ende =
     (let len = ende - start
      in if start = 0 \<and> ende = js_len p then Some (ctx, JS_STRING p)
         else if js_wide p \<and> start < ende then do {
           cs \<leftarrow> load16 (js_u p) start len;
           let c = foldl (OR) 0 cs
           in if c > 0xFF then js_new_string16 jm ctx cs
              else case js_alloc_string_rt jm ctx len False of
                  (ctx, None) \<Rightarrow> Some (ctx, JS_EXCEPTION)
                | (ctx, Some str) \<Rightarrow> do {
                    u \<leftarrow> store8 (js_u str) 0 cs;
                    u \<leftarrow> wr u len 0;
                    Some (ctx, JS_STRING (str\<lparr>js_u := u\<rparr>)) } }
         else do {
           buf \<leftarrow> rd_block (js_u p) start len;
           js_new_string8 jm ctx buf })"

section \<open>Comparison\<close>

text \<open>\<open>memcmp\<close> returns the sign of the first difference; the difference itself here.\<close>

fun memcmp_u8 :: "bytes \<Rightarrow> bytes \<Rightarrow> nat \<Rightarrow> nat \<Rightarrow> int option" where
  "memcmp_u8 a b i 0 = Some 0"
| "memcmp_u8 a b i (Suc n) = do {
     x \<leftarrow> rd a i;
     y \<leftarrow> rd b i;
     let c = uint x - uint y in if c \<noteq> 0 then Some c else memcmp_u8 a b (i + 1) n }"

fun memcmp16_8 :: "bytes \<Rightarrow> bytes \<Rightarrow> nat \<Rightarrow> nat \<Rightarrow> int option" where
  "memcmp16_8 src1 src2 i 0 = Some 0"
| "memcmp16_8 src1 src2 i (Suc n) = do {
     x \<leftarrow> rd16 src1 i;
     y \<leftarrow> rd src2 i;
     let c = uint x - uint y in if c \<noteq> 0 then Some c else memcmp16_8 src1 src2 (i + 1) n }"

fun memcmp16 :: "bytes \<Rightarrow> bytes \<Rightarrow> nat \<Rightarrow> nat \<Rightarrow> int option" where
  "memcmp16 src1 src2 i 0 = Some 0"
| "memcmp16 src1 src2 i (Suc n) = do {
     x \<leftarrow> rd16 src1 i;
     y \<leftarrow> rd16 src2 i;
     let c = uint x - uint y in if c \<noteq> 0 then Some c else memcmp16 src1 src2 (i + 1) n }"

definition js_string_memcmp :: "JSString \<Rightarrow> JSString \<Rightarrow> nat \<Rightarrow> int option" where
  "js_string_memcmp p1 p2 len =
     (if \<not> js_wide p1 then
        (if \<not> js_wide p2 then memcmp_u8 (js_u p1) (js_u p2) 0 len
         else map_option uminus (memcmp16_8 (js_u p2) (js_u p1) 0 len))
      else
        (if \<not> js_wide p2 then memcmp16_8 (js_u p1) (js_u p2) 0 len
         else memcmp16 (js_u p1) (js_u p2) 0 len))"

definition js_string_compare :: "JSString \<Rightarrow> JSString \<Rightarrow> int option" where
  "js_string_compare p1 p2 = do {
     let len = min (js_len p1) (js_len p2);
     res \<leftarrow> js_string_memcmp p1 p2 len;
     Some (if res = 0 then
             (if js_len p1 = js_len p2 then 0 else if js_len p1 < js_len p2 then -1 else 1)
           else res) }"

section \<open>Concatenation\<close>

text \<open>\<open>dst\<close> is the array \<open>u.str16\<close> of the result and \<open>pos\<close> the place in it.\<close>

definition copy_str16 :: "bytes \<Rightarrow> nat \<Rightarrow> JSString \<Rightarrow> nat \<Rightarrow> nat \<Rightarrow> bytes option" where
  "copy_str16 dst pos p offset len =
     (if js_wide p then do {
        cs \<leftarrow> load16 (js_u p) offset len;
        store16 dst pos cs }
      else do {
        b \<leftarrow> rd_block (js_u p) offset len;
        store16 dst pos (map ucast b) })"

definition JS_ConcatString1 :: "'o js_mem \<Rightarrow> 'o \<Rightarrow> JSString \<Rightarrow> JSString \<Rightarrow> ('o \<times> js_result) option" where
  "JS_ConcatString1 jm ctx p1 p2 =
     (let len = js_len p1 + js_len p2;
          is_wide_char = (js_wide p1 \<or> js_wide p2)
      in if len > JS_STRING_LEN_MAX then Some (ctx, JS_EXCEPTION)
         else case js_alloc_string_rt jm ctx len is_wide_char of
             (ctx, None) \<Rightarrow> Some (ctx, JS_EXCEPTION)
           | (ctx, Some p) \<Rightarrow>
               if \<not> is_wide_char then do {
                 b1 \<leftarrow> rd_block (js_u p1) 0 (js_len p1);
                 u \<leftarrow> blit (js_u p) 0 b1;
                 b2 \<leftarrow> rd_block (js_u p2) 0 (js_len p2);
                 u \<leftarrow> blit u (js_len p1) b2;
                 u \<leftarrow> wr u len 0;
                 Some (ctx, JS_STRING (p\<lparr>js_u := u\<rparr>)) }
               else do {
                 u \<leftarrow> copy_str16 (js_u p) 0 p1 0 (js_len p1);
                 u \<leftarrow> copy_str16 u (js_len p1) p2 0 (js_len p2);
                 Some (ctx, JS_STRING (p\<lparr>js_u := u\<rparr>)) })"

definition concat_strings :: "'o js_mem \<Rightarrow> 'o \<Rightarrow> nat \<Rightarrow> JSString \<Rightarrow> JSString \<Rightarrow> ('o \<times> js_result) option" where
  "concat_strings jm ctx ref_count p1 p2 =
     (if js_len p2 = 0 then Some (ctx, JS_STRING p1)
      else if ref_count = 1 \<and> js_wide p1 = js_wide p2 \<and>
              length (js_u p1) \<ge> payload_size (js_len p1 + js_len p2) (js_wide p1) then
        (if js_wide p1 then do {
           cs \<leftarrow> load16 (js_u p2) 0 (js_len p2);
           u \<leftarrow> store16 (js_u p1) (js_len p1) cs;
           Some (ctx, JS_STRING (p1\<lparr>js_u := u, js_len := js_len p1 + js_len p2\<rparr>)) }
         else do {
           b \<leftarrow> rd_block (js_u p2) 0 (js_len p2);
           u \<leftarrow> blit (js_u p1) (js_len p1) b;
           u \<leftarrow> wr u (js_len p1 + js_len p2) 0;
           Some (ctx, JS_STRING (p1\<lparr>js_u := u, js_len := js_len p1 + js_len p2\<rparr>)) })
      else JS_ConcatString1 jm ctx p1 p2)"

definition JS_ConcatString ::
    "'o js_mem \<Rightarrow> ('o, 'v) to_string \<Rightarrow> 'o \<Rightarrow> 'v JSValue \<Rightarrow> 'v JSValue \<Rightarrow> ('o \<times> js_result) option" where
  "JS_ConcatString jm ts ctx op1 op2 =
     (case string_operand ts ctx op1 of
        (ctx, None) \<Rightarrow> Some (ctx, JS_EXCEPTION)
      | (ctx, Some (ref_count, p1)) \<Rightarrow>
          (case string_operand ts ctx op2 of
             (ctx, None) \<Rightarrow> Some (ctx, JS_EXCEPTION)
           | (ctx, Some (_, p2)) \<Rightarrow> concat_strings jm ctx ref_count p1 p2))"

section \<open>Reading and writing units\<close>

lemma rd16_in: "rd16 u i \<noteq> None \<longleftrightarrow> 2 * i + 2 \<le> length u"
  by (simp only: rd16_def cell16.get_in)

lemma rd16_the: "2 * i + 2 \<le> length u \<Longrightarrow> rd16 u i = Some (the (rd16 u i))"
  using rd16_in [of u i] by auto

lemma rd16_local:
  assumes "length u' = length u" "u' ! (2 * i) = u ! (2 * i)" "u' ! (2 * i + 1) = u ! (2 * i + 1)"
  shows "rd16 u' i = rd16 u i"
  unfolding rd16_def
proof (rule cell16.get_local [OF assms(1)])
  fix k assume "2 * i \<le> k" "k < 2 * i + 2"
  then have "k = 2 * i \<or> k = 2 * i + 1" by linarith
  then show "u' ! k = u ! k" using assms by auto
qed

lemma wr16_spec:
  assumes "2 * i + 2 \<le> length u"
  obtains u' where "wr16 u i v = Some u'" "length u' = length u" "rd16 u' i = Some v"
    "\<And>j. j \<noteq> i \<Longrightarrow> rd16 u' j = rd16 u j" "\<And>k. k < 2 * i \<or> 2 * i + 2 \<le> k \<Longrightarrow> u' ! k = u ! k"
proof -
  obtain u' where u': "put_u16 u (2 * i) v = Some u'" using cell16.put_in [of u "2 * i" v] assms by auto
  have "rd16 u' j = rd16 u j" if "j \<noteq> i" for j
    unfolding rd16_def by (rule cell16.get_put_other [OF u']) (use that in arith)
  then show thesis
    using that [of u'] u' cell16.put_length [OF u'] cell16.get_put [OF u'] cell16.put_frame [OF u']
    by (simp add: wr16_def rd16_def)
qed

lemma length_units [simp]: "length (units16 u n) = n" "n \<le> length u \<Longrightarrow> length (units8 u n) = n"
  by (simp_all add: units16_def units8_def)

lemma units16_nth: "i < n \<Longrightarrow> 2 * n \<le> length u \<Longrightarrow> rd16 u i = Some (units16 u n ! i)"
  using rd16_the [of i u] by (simp add: units16_def)

lemma units8_nth: "i < n \<Longrightarrow> n \<le> length u \<Longrightarrow> units8 u n ! i = ucast (u ! i)"
  by (simp add: units8_def)

lemma units16_cong: "(\<And>i. i < n \<Longrightarrow> rd16 u' i = rd16 u i) \<Longrightarrow> units16 u' n = units16 u n"
  by (simp add: units16_def)

lemma load16_units:
  assumes "2 * (pos + n) \<le> length u"
  shows "load16 u pos n = Some (drop pos (units16 u (pos + n)))"
  using assms
proof (induction n arbitrary: pos)
  case (Suc n)
  have "rd16 u pos = Some (units16 u (pos + Suc n) ! pos)" using Suc.prems by (intro units16_nth) auto
  moreover have "load16 u (pos + 1) n = Some (drop (pos + 1) (units16 u (pos + Suc n)))"
    using Suc.IH [of "pos + 1"] Suc.prems by simp
  ultimately show ?case by (simp add: Cons_nth_drop_Suc)
qed (simp add: units16_def)

lemma store16_spec:
  assumes "2 * (pos + length cs) \<le> length u"
  shows "\<exists>u'. store16 u pos cs = Some u' \<and> length u' = length u \<and>
    units16 u' (pos + length cs) = units16 u pos @ cs"
  using assms
proof (induction cs arbitrary: u pos)
  case (Cons c cs)
  have "2 * pos + 2 \<le> length u" using Cons.prems by simp
  then obtain u1 where u1: "wr16 u pos c = Some u1" "length u1 = length u" "rd16 u1 pos = Some c"
    "\<And>j. j \<noteq> pos \<Longrightarrow> rd16 u1 j = rd16 u j"
    by (rule wr16_spec) blast
  obtain u' where u': "store16 u1 (pos + 1) cs = Some u'" "length u' = length u1"
    "units16 u' (pos + 1 + length cs) = units16 u1 (pos + 1) @ cs"
    using Cons.IH [of "pos + 1" u1] Cons.prems u1(2) by auto
  have "units16 u1 pos = units16 u pos" using u1(4) by (intro units16_cong) auto
  then have "units16 u1 (pos + 1) = units16 u pos @ [c]" using u1(3) by (simp add: units16_def)
  with u1 u' show ?case by simp
qed simp

lemma store8_spec:
  assumes "pos + length cs \<le> length u" "\<And>c. c \<in> set cs \<Longrightarrow> c < 0x100"
  shows "\<exists>u'. store8 u pos cs = Some u' \<and> length u' = length u \<and>
    units8 u' (pos + length cs) = units8 u pos @ cs"
  using assms
proof (induction cs arbitrary: u pos)
  case (Cons c cs)
  let ?u1 = "u[pos := ucast c]"
  have u1: "wr u pos (ucast c) = Some ?u1" using Cons.prems by simp
  obtain u' where u': "store8 ?u1 (pos + 1) cs = Some u'" "length u' = length ?u1"
    "units8 u' (pos + 1 + length cs) = units8 ?u1 (pos + 1) @ cs"
    using Cons.IH [of "pos + 1" ?u1] Cons.prems by auto
  have "(ucast (ucast c :: u8) :: u16) = c"
    using Cons.prems(2) [of c] by (simp add: word_unat_eq_iff unat_ucast_small word_less_nat_alt)
  then have "units8 ?u1 (pos + 1) = units8 u pos @ [c]"
    using Cons.prems(1) by (simp add: units8_def take_Suc_conv_app_nth)
  with u1 u' show ?case by simp
qed (simp add: units8_def)

lemma units8_append:
  assumes "pos + length b \<le> length u"
  shows "\<exists>u'. blit u pos b = Some u' \<and> length u' = length u \<and> units8 u' (pos + length b) = units8 u pos @ map ucast b"
  using assms by (auto simp: blit_def units8_def)

lemma units8_wr_after [simp]: "n \<le> i \<Longrightarrow> units8 (u[i := v]) n = units8 u n"
  by (simp add: units8_def)

lemma rd_block_units8: "pos + n \<le> length u \<Longrightarrow> \<exists>b. rd_block u pos n = Some b \<and> length b = n \<and> map ucast b = drop pos (units8 u (pos + n))"
  by (auto simp: rd_block_def units8_def drop_map drop_take)

lemma length_js_units: "js_string_ok p \<Longrightarrow> length (js_units p) = js_len p"
  by (auto simp: js_units_def js_string_ok_def payload_size_def)

lemma string_get_unit:
  assumes "js_string_ok p" "drop k (js_units p) = u # us"
  shows "string_get p k = Some u" "k < js_len p" "drop (Suc k) (js_units p) = us"
proof -
  have k: "k < length (js_units p)" using assms(2) by (metis drop_eq_Nil linorder_not_less list.distinct(1))
  then show kl: "k < js_len p" using length_js_units [OF assms(1)] by simp
  have u: "js_units p ! k = u" using assms(2) k by (metis Cons_nth_drop_Suc list.inject)
  have "string_get p k = Some (js_units p ! k)"
  proof (cases "js_wide p")
    case True
    then have "2 * k + 2 \<le> length (js_u p)" using assms(1) kl by (simp add: js_string_ok_def payload_size_def)
    then show ?thesis using True kl rd16_the [of k "js_u p"] by (simp add: string_get_def js_units_def units16_def)
  next
    case False
    then show ?thesis using assms(1) kl by (simp add: string_get_def js_units_def units8_def js_string_ok_def payload_size_def)
  qed
  then show "string_get p k = Some u" using u by simp
  show "drop (Suc k) (js_units p) = us" using assms(2) by (metis drop_Suc list.sel(3) tl_drop)
qed

lemma drop_at_end: "js_string_ok p \<Longrightarrow> k < js_len p \<longleftrightarrow> drop k (js_units p) \<noteq> []"
  by (simp add: length_js_units linorder_not_le)

section \<open>The operations on lists of units\<close>

text \<open>The result is a well-formed string with the given units, or an exception.\<close>

definition gives :: "u16 list \<Rightarrow> ('o \<times> js_result) option \<Rightarrow> bool" where
  "gives us r \<longleftrightarrow> (\<exists>ctx res. r = Some (ctx, res) \<and>
     (res = JS_EXCEPTION \<or> (\<exists>p. res = JS_STRING p \<and> js_string_ok p \<and> js_units p = us)))"

lemma gives_exception [simp]: "gives us (Some (ctx, JS_EXCEPTION))"
  by (simp add: gives_def)

lemma gives_string [simp]: "gives us (Some (ctx, JS_STRING p)) \<longleftrightarrow> js_string_ok p \<and> js_units p = us"
  by (simp add: gives_def)

lemma js_alloc_cases:
  assumes "js_mem_ok jm"
  obtains ctx' where "js_alloc_string_rt jm ctx n w = (ctx', None)"
  | ctx' b where "js_alloc_string_rt jm ctx n w = (ctx', Some \<lparr>js_len = n, js_wide = w, js_u = b\<rparr>)" "payload_size n w \<le> length b"
proof (cases "jm_malloc jm ctx (payload_size n w)")
  case (Pair ctx' r)
  then show ?thesis
    using assms that by (cases r) (auto simp: js_alloc_string_rt_def js_mem_ok_def)
qed

lemma js_new_string8_gives:
  assumes "js_mem_ok jm"
  shows "gives (map ucast buf) (js_new_string8 jm ctx buf)"
proof (cases "buf = []")
  case True
  then show ?thesis
    by (simp add: js_new_string8_def js_empty_string_def js_string_ok_def payload_size_def js_units_def units8_def)
next
  case False
  from assms show ?thesis
  proof (cases rule: js_alloc_cases [of jm ctx "length buf" False])
    case (2 ctx' b)
    have len: "length buf + 1 \<le> length b" using 2(2) by (simp add: payload_size_def)
    obtain u where "blit b 0 buf = Some u" "length u = length b" "units8 u (length buf) = map ucast buf"
      using units8_append [of 0 buf b] len by (auto simp: units8_def)
    then show ?thesis
      using 2 len False by (simp add: js_new_string8_def js_string_ok_def payload_size_def js_units_def)
  qed (simp add: js_new_string8_def False)
qed

lemma js_new_string16_gives:
  assumes "js_mem_ok jm"
  shows "gives buf (js_new_string16 jm ctx buf)"
  using assms
proof (cases rule: js_alloc_cases [of jm ctx "length buf" True])
  case (2 ctx' b)
  then have "2 * (0 + length buf) \<le> length b" by (simp add: payload_size_def)
  from store16_spec [OF this] show ?thesis
    using 2 by (auto simp: js_new_string16_def js_string_ok_def payload_size_def js_units_def units16_def)
qed (simp add: js_new_string16_def)

lemma foldl_or_bits: "bit (foldl (OR) a cs) k \<longleftrightarrow> bit a k \<or> (\<exists>c \<in> set cs. bit c k)" for a :: "'a::len word"
  by (induction cs arbitrary: a) (auto simp: bit_or_iff)

text \<open>The union of the bits tells whether a unit needs more than a byte.\<close>

lemma word_le_ff_bits: "c \<le> 0xFF \<longleftrightarrow> (\<forall>k. bit c k \<longrightarrow> k < 8)" for c :: u16
proof
  assume "c \<le> 0xFF"
  then have "unat c < 2 ^ 8" by (simp add: word_le_nat_alt)
  then show "\<forall>k. bit c k \<longrightarrow> k < 8" using bit_less_bound by blast
next
  assume "\<forall>k. bit c k \<longrightarrow> k < 8"
  then have "c = c AND mask 8" by (intro bit_word_eqI) (auto simp: bit_and_iff bit_mask_iff)
  then have "unat c = unat c mod 2 ^ 8" using unat_and_mask [of c 8] by simp
  then have "unat c < 256" using mod_less_divisor [of "2 ^ 8" "unat c"] by simp
  then show "c \<le> 0xFF" by (simp add: word_le_nat_alt)
qed

lemma or_all_narrow: "foldl (OR) 0 cs \<le> 0xFF \<longleftrightarrow> (\<forall>c \<in> set cs. c < 0x100)" for cs :: "u16 list"
proof -
  have "c < 0x100 \<longleftrightarrow> c \<le> 0xFF" for c :: u16 by (simp add: word_less_nat_alt word_le_nat_alt less_Suc_eq_le [symmetric])
  then show ?thesis unfolding word_le_ff_bits foldl_or_bits by (auto simp: word_le_ff_bits)
qed

lemma js_sub_string_gives:
  assumes "js_mem_ok jm" "js_string_ok p" "start \<le> ende" "ende \<le> js_len p"
  shows "gives (drop start (take ende (js_units p))) (js_sub_string jm ctx p start ende)"
proof (cases "start = 0 \<and> ende = js_len p")
  case True
  then show ?thesis using assms(2) length_js_units [OF assms(2)] by (simp add: js_sub_string_def)
next
  case False
  show ?thesis
  proof (cases "js_wide p")
    case wide: True
    then have room: "2 * (start + (ende - start)) \<le> length (js_u p)"
      using assms by (simp add: js_string_ok_def payload_size_def)
    let ?cs = "drop start (units16 (js_u p) ende)"
    have units: "drop start (take ende (js_units p)) = ?cs"
      using wide assms by (simp add: js_units_def units16_def take_map)
    have ld: "load16 (js_u p) start (ende - start) = Some ?cs" using load16_units [OF room] assms(3) by simp
    show ?thesis
    proof (cases "start < ende")
      case lt: True
      show ?thesis
      proof (cases "foldl (OR) 0 ?cs > 0xFF")
        case True
        then show ?thesis
          using False wide lt ld units js_new_string16_gives [OF assms(1)] by (auto simp: js_sub_string_def Let_def)
      next
        case narrow: False
        then have small: "\<And>c. c \<in> set ?cs \<Longrightarrow> c < 0x100" using or_all_narrow [of ?cs] by (simp add: not_less)
        have n: "length ?cs = ende - start" by simp
        from assms(1) show ?thesis
        proof (cases rule: js_alloc_cases [of jm ctx "ende - start" False])
          case (2 ctx' b)
          then have room8: "0 + length ?cs \<le> length b" and len: "ende - start < length b"
            by (auto simp: payload_size_def)
          obtain u where "store8 b 0 ?cs = Some u" "length u = length b" "units8 u (ende - start) = ?cs"
            using store8_spec [OF room8 small] n by (auto simp: units8_def)
          then show ?thesis
            using False wide lt ld units narrow 2 len
            by (auto simp: js_sub_string_def Let_def js_string_ok_def payload_size_def js_units_def)
        qed (use False wide lt ld narrow in \<open>auto simp: js_sub_string_def Let_def\<close>)
      qed
    next
      case ge: False
      then have e: "ende = start" using assms(3) by simp
      have "rd_block (js_u p) start 0 = Some []" using wide assms e by (simp add: rd_block_def js_string_ok_def payload_size_def)
      then show ?thesis
        using False e wide js_new_string8_gives [OF assms(1), of "[]" ctx] by (auto simp: js_sub_string_def)
    qed
  next
    case narrow: False
    then have "start + (ende - start) \<le> length (js_u p)" using assms by (simp add: js_string_ok_def payload_size_def)
    from rd_block_units8 [OF this] obtain b where b: "rd_block (js_u p) start (ende - start) = Some b"
      "map ucast b = drop start (units8 (js_u p) ende)" using assms(3) by auto
    moreover have "drop start (take ende (js_units p)) = drop start (units8 (js_u p) ende)"
      using narrow assms(4) by (simp add: js_units_def units8_def take_map)
    ultimately show ?thesis
      using False narrow js_new_string8_gives [OF assms(1), of b ctx] by (auto simp: js_sub_string_def)
  qed
qed

lemma copy_str16_spec:
  assumes "js_string_ok p" "2 * (pos + js_len p) \<le> length dst"
  shows "\<exists>u. copy_str16 dst pos p 0 (js_len p) = Some u \<and> length u = length dst \<and>
    units16 u (pos + js_len p) = units16 dst pos @ js_units p"
proof (cases "js_wide p")
  case True
  then have "load16 (js_u p) 0 (js_len p) = Some (js_units p)"
    using load16_units [of 0 "js_len p" "js_u p"] assms(1) by (simp add: js_string_ok_def payload_size_def js_units_def)
  then show ?thesis
    using True store16_spec [of pos "js_units p" dst] assms length_js_units [OF assms(1)] by (simp add: copy_str16_def)
next
  case False
  then obtain b where "rd_block (js_u p) 0 (js_len p) = Some b" "map ucast b = js_units p"
    using rd_block_units8 [of 0 "js_len p" "js_u p"] assms(1) by (auto simp: js_string_ok_def payload_size_def js_units_def)
  then show ?thesis
    using False store16_spec [of pos "js_units p" dst] assms length_js_units [OF assms(1)] by (simp add: copy_str16_def)
qed

lemma JS_ConcatString1_gives:
  assumes "js_mem_ok jm" "js_string_ok p1" "js_string_ok p2"
  shows "gives (js_units p1 @ js_units p2) (JS_ConcatString1 jm ctx p1 p2)"
proof (cases "js_len p1 + js_len p2 > JS_STRING_LEN_MAX")
  case False
  let ?n = "js_len p1 + js_len p2" and ?w = "js_wide p1 \<or> js_wide p2"
  from assms(1) show ?thesis
  proof (cases rule: js_alloc_cases [of jm ctx ?n ?w])
    case (2 ctx' b)
    show ?thesis
    proof (cases ?w)
      case True
      then have room: "2 * (0 + js_len p1) \<le> length b" "2 * (js_len p1 + js_len p2) \<le> length b"
        using 2(2) by (auto simp: payload_size_def)
      obtain u1 where u1: "copy_str16 b 0 p1 0 (js_len p1) = Some u1" "length u1 = length b"
        "units16 u1 (js_len p1) = js_units p1"
        using copy_str16_spec [OF assms(2) room(1)] by (auto simp: units16_def)
      obtain u2 where u2: "copy_str16 u1 (js_len p1) p2 0 (js_len p2) = Some u2" "length u2 = length u1"
        "units16 u2 ?n = units16 u1 (js_len p1) @ js_units p2"
        using copy_str16_spec [OF assms(3), of "js_len p1" u1] room(2) u1(2) by auto
      show ?thesis
        using False 2 True u1 u2 room
        by (simp add: JS_ConcatString1_def Let_def js_string_ok_def payload_size_def js_units_def [of "\<lparr>js_len = _, js_wide = _, js_u = _\<rparr>"])
    next
      case narrow: False
      then have room: "?n + 1 \<le> length b" using 2(2) by (simp add: payload_size_def)
      obtain b1 where b1: "rd_block (js_u p1) 0 (js_len p1) = Some b1" "length b1 = js_len p1" "map ucast b1 = js_units p1"
        using rd_block_units8 [of 0 "js_len p1" "js_u p1"] assms(2) narrow by (auto simp: js_string_ok_def payload_size_def js_units_def)
      obtain b2 where b2: "rd_block (js_u p2) 0 (js_len p2) = Some b2" "length b2 = js_len p2" "map ucast b2 = js_units p2"
        using rd_block_units8 [of 0 "js_len p2" "js_u p2"] assms(3) narrow by (auto simp: js_string_ok_def payload_size_def js_units_def)
      obtain u1 where u1: "blit b 0 b1 = Some u1" "length u1 = length b" "units8 u1 (js_len p1) = js_units p1"
        using units8_append [of 0 b1 b] b1 room by (auto simp: units8_def)
      obtain u2 where u2: "blit u1 (js_len p1) b2 = Some u2" "length u2 = length u1" "units8 u2 ?n = js_units p1 @ js_units p2"
        using units8_append [of "js_len p1" b2 u1] b2 u1 room by auto
      show ?thesis
        using False 2 narrow room b1(1) b2(1) u1(1,2) u2
        by (simp add: JS_ConcatString1_def Let_def js_string_ok_def payload_size_def js_units_def [of "\<lparr>js_len = _, js_wide = _, js_u = _\<rparr>"])
    qed
  qed (use False in \<open>simp add: JS_ConcatString1_def Let_def\<close>)
qed (simp add: JS_ConcatString1_def Let_def)

lemma concat_strings_gives:
  assumes "js_mem_ok jm" "js_string_ok p1" "js_string_ok p2"
  shows "gives (js_units p1 @ js_units p2) (concat_strings jm ctx r p1 p2)"
proof -
  let ?n = "js_len p1 + js_len p2"
  consider (empty) "js_len p2 = 0"
    | (place) "js_len p2 \<noteq> 0" "r = 1 \<and> js_wide p1 = js_wide p2 \<and> length (js_u p1) \<ge> payload_size ?n (js_wide p1)"
    | (copy) "js_len p2 \<noteq> 0" "\<not> (r = 1 \<and> js_wide p1 = js_wide p2 \<and> length (js_u p1) \<ge> payload_size ?n (js_wide p1))"
    by blast
  then show ?thesis
  proof cases
    case empty
    then have "js_units p2 = []" using length_js_units [OF assms(3)] by simp
    then show ?thesis using empty assms(2) by (simp add: concat_strings_def)
  next
    case place
    show ?thesis
    proof (cases "js_wide p1")
      case True
      then have room: "2 * (js_len p1 + length (js_units p2)) \<le> length (js_u p1)"
        using place length_js_units [OF assms(3)] by (auto simp: payload_size_def)
      have "load16 (js_u p2) 0 (js_len p2) = Some (js_units p2)"
        using load16_units [of 0 "js_len p2" "js_u p2"] assms(3) True place
        by (simp add: js_string_ok_def payload_size_def js_units_def)
      moreover obtain u where "store16 (js_u p1) (js_len p1) (js_units p2) = Some u" "length u = length (js_u p1)"
        "units16 u ?n = units16 (js_u p1) (js_len p1) @ js_units p2"
        using store16_spec [OF room] length_js_units [OF assms(3)] by auto
      ultimately show ?thesis
        using place True by (simp add: concat_strings_def js_string_ok_def payload_size_def js_units_def)
    next
      case False
      then have room: "?n + 1 \<le> length (js_u p1)" using place by (auto simp: payload_size_def)
      obtain b where b: "rd_block (js_u p2) 0 (js_len p2) = Some b" "length b = js_len p2" "map ucast b = js_units p2"
        using rd_block_units8 [of 0 "js_len p2" "js_u p2"] assms(3) False place
        by (auto simp: js_string_ok_def payload_size_def js_units_def)
      obtain u where "blit (js_u p1) (js_len p1) b = Some u" "length u = length (js_u p1)"
        "units8 u ?n = units8 (js_u p1) (js_len p1) @ js_units p2"
        using units8_append [of "js_len p1" b "js_u p1"] b room by auto
      then show ?thesis
        using place False room b(1) by (simp add: concat_strings_def js_string_ok_def payload_size_def js_units_def)
    qed
  next
    case copy
    then have "concat_strings jm ctx r p1 p2 = JS_ConcatString1 jm ctx p1 p2"
      unfolding concat_strings_def by (simp only: if_False)
    then show ?thesis using JS_ConcatString1_gives [OF assms] by simp
  qed
qed

section \<open>Comparison is the lexicographic order\<close>

text \<open>The reference: the first difference decides, and a proper prefix is smaller.\<close>

fun units_cmp :: "u16 list \<Rightarrow> u16 list \<Rightarrow> int" where
  "units_cmp [] [] = 0"
| "units_cmp [] (y # ys) = -1"
| "units_cmp (x # xs) [] = 1"
| "units_cmp (x # xs) (y # ys) = (if x = y then units_cmp xs ys else uint x - uint y)"

fun diff_upto :: "u16 list \<Rightarrow> u16 list \<Rightarrow> int" where
  "diff_upto (x # xs) (y # ys) = (if x = y then diff_upto xs ys else uint x - uint y)"
| "diff_upto _ _ = 0"

lemma units_cmp_diff:
  "units_cmp xs ys = (let d = diff_upto xs ys in
     if d = 0 then (if length xs = length ys then 0 else if length xs < length ys then -1 else 1) else d)"
  by (induction xs ys rule: units_cmp.induct) (auto simp: Let_def word_uint_eq_iff)

lemma diff_upto_sym: "diff_upto ys xs = - diff_upto xs ys"
  by (induction xs ys rule: diff_upto.induct) auto

lemma diff_upto_take: "diff_upto (take (min (length xs) (length ys)) xs) (take (min (length xs) (length ys)) ys) = diff_upto xs ys"
  by (induction xs ys rule: diff_upto.induct) auto

lemma units_cmp_sign:
  "units_cmp xs ys < 0 \<longleftrightarrow> (xs, ys) \<in> lexord {(a, b). a < b}" "units_cmp xs ys = 0 \<longleftrightarrow> xs = ys"
  by (induction xs ys rule: units_cmp.induct) (auto simp: word_less_def word_uint_eq_iff)

lemma drop_step:
  assumes "i < n" "n \<le> length xs"
  shows "drop i (take n xs) = xs ! i # drop (i + 1) (take n xs)"
  using assms by (simp add: Cons_nth_drop_Suc [symmetric])

lemma uint_u8_u16: "uint (ucast y :: u16) = uint y" for y :: u8
proof -
  have "unat y < 2 ^ LENGTH(16)" using unsigned_less [of y, where ?'a = nat] by simp
  then have "int (unat (ucast y :: u16)) = int (unat y)" by (simp only: unat_ucast_small)
  then show ?thesis by simp
qed

lemma units8_drop_step:
  assumes "i + Suc n \<le> length u"
  shows "drop i (units8 u (i + Suc n)) = ucast (u ! i) # drop (i + 1) (units8 u (i + 1 + n))"
  using drop_step [of i "i + Suc n" "map ucast u :: u16 list"] assms by (simp add: units8_def take_map)

lemma eq_u8_u16: "(x = ucast y) = (uint x = uint y)" for x :: u16 and y :: u8
  by (simp add: word_uint_eq_iff [where ?'a = 16] uint_u8_u16)

lemma memcmp_u8_diff:
  assumes "i + n \<le> length a" "i + n \<le> length b"
  shows "memcmp_u8 a b i n = Some (diff_upto (drop i (units8 a (i + n))) (drop i (units8 b (i + n))))"
  using assms
proof (induction n arbitrary: i)
  case (Suc n)
  have "memcmp_u8 a b (i + 1) n =
      Some (diff_upto (drop (i + 1) (units8 a (i + 1 + n))) (drop (i + 1) (units8 b (i + 1 + n))))"
    using Suc.prems by (intro Suc.IH) auto
  then show ?case
    unfolding units8_drop_step [OF Suc.prems(1)] units8_drop_step [OF Suc.prems(2)]
    using Suc.prems by (simp add: Let_def eq_u8_u16 uint_u8_u16)
qed (simp add: units8_def)

lemma units16_drop_step:
  assumes "2 * (i + Suc n) \<le> length u"
  shows "drop i (units16 u (i + Suc n)) = the (rd16 u i) # drop (i + 1) (units16 u (i + 1 + n))"
  by (simp only: units16_def drop_map drop_upt) (simp add: upt_conv_Cons del: upt_Suc)

lemma memcmp16_diff:
  assumes "2 * (i + n) \<le> length a" "2 * (i + n) \<le> length b"
  shows "memcmp16 a b i n = Some (diff_upto (drop i (units16 a (i + n))) (drop i (units16 b (i + n))))"
  using assms
proof (induction n arbitrary: i)
  case (Suc n)
  obtain x where x: "rd16 a i = Some x" using rd16_the [of i a] Suc.prems(1) by auto
  obtain y where y: "rd16 b i = Some y" using rd16_the [of i b] Suc.prems(2) by auto
  have "memcmp16 a b (i + 1) n =
      Some (diff_upto (drop (i + 1) (units16 a (i + 1 + n))) (drop (i + 1) (units16 b (i + 1 + n))))"
    using Suc.prems by (intro Suc.IH) auto
  then show ?case
    unfolding units16_drop_step [OF Suc.prems(1)] units16_drop_step [OF Suc.prems(2)]
    by (simp add: x y Let_def word_uint_eq_iff)
qed (simp add: units16_def)

lemma memcmp16_8_diff:
  assumes "2 * (i + n) \<le> length a" "i + n \<le> length b"
  shows "memcmp16_8 a b i n = Some (diff_upto (drop i (units16 a (i + n))) (drop i (units8 b (i + n))))"
  using assms
proof (induction n arbitrary: i)
  case (Suc n)
  obtain x where x: "rd16 a i = Some x" using rd16_the [of i a] Suc.prems(1) by auto
  have "memcmp16_8 a b (i + 1) n =
      Some (diff_upto (drop (i + 1) (units16 a (i + 1 + n))) (drop (i + 1) (units8 b (i + 1 + n))))"
    using Suc.prems by (intro Suc.IH) auto
  then show ?case
    unfolding units16_drop_step [OF Suc.prems(1)] units8_drop_step [OF Suc.prems(2)]
    using Suc.prems(2) by (simp add: x Let_def eq_u8_u16 uint_u8_u16)
qed (simp add: units16_def)

lemma js_string_memcmp_diff:
  assumes "js_string_ok p1" "js_string_ok p2" "n \<le> js_len p1" "n \<le> js_len p2"
  shows "js_string_memcmp p1 p2 n = Some (diff_upto (take n (js_units p1)) (take n (js_units p2)))"
proof -
  have t16: "take n (units16 u m) = units16 u n" if "n \<le> m" for u m using that by (simp add: units16_def take_map)
  have t8: "take n (units8 u m) = units8 u n" if "n \<le> m" for u m using that by (simp add: units8_def take_map)
  have room: "2 * (0 + n) \<le> length (js_u p)" if "js_wide p" "js_string_ok p" "n \<le> js_len p" for p
    using that by (simp add: js_string_ok_def payload_size_def)
  have room8: "0 + n \<le> length (js_u p)" if "js_string_ok p" "n \<le> js_len p" for p
    using that by (auto simp: js_string_ok_def payload_size_def split: if_splits)
  show ?thesis
    using assms room [of p1] room [of p2] room8 [of p1] room8 [of p2]
      memcmp_u8_diff [of 0 n "js_u p1" "js_u p2"] memcmp16_diff [of 0 n "js_u p1" "js_u p2"]
      memcmp16_8_diff [of 0 n "js_u p1" "js_u p2"] memcmp16_8_diff [of 0 n "js_u p2" "js_u p1"]
    by (auto simp: js_string_memcmp_def js_units_def t16 t8 diff_upto_sym [of "units16 (js_u p2) n"])
qed

lemma js_string_compare_units:
  assumes "js_string_ok p1" "js_string_ok p2"
  shows "js_string_compare p1 p2 = Some (units_cmp (js_units p1) (js_units p2))"
  using js_string_memcmp_diff [OF assms, of "min (js_len p1) (js_len p2)"]
    diff_upto_take [of "js_units p1" "js_units p2"] units_cmp_diff [of "js_units p1" "js_units p2"]
  by (simp add: js_string_compare_def Let_def length_js_units [OF assms(1)] length_js_units [OF assms(2)])

section \<open>Properties\<close>

text \<open>C21: comparing two strings, in any mix of narrow and wide, reads inside both and gives
  a negative number exactly when the first is lexicographically smaller as a list of
  units, and zero exactly when the units are the same.\<close>

theorem js_string_compare_lex:
  assumes "js_string_ok p1" "js_string_ok p2"
  shows "\<exists>r. js_string_compare p1 p2 = Some r \<and>
    (r < 0 \<longleftrightarrow> (js_units p1, js_units p2) \<in> lexord {(a, b). a < b}) \<and> (r = 0 \<longleftrightarrow> js_units p1 = js_units p2)"
  using js_string_compare_units [OF assms] units_cmp_sign by simp

definition sample_narrow :: JSString where
  "sample_narrow = \<lparr>js_len = 2, js_wide = False, js_u = [0x61, 0xe9, 0]\<rparr>"

definition sample_wide :: JSString where
  "sample_wide = \<lparr>js_len = 2, js_wide = True, js_u = [0x61, 0, 0x34, 0x12]\<rparr>"

lemma sample_strings_ok: "js_string_ok sample_narrow" "js_string_ok sample_wide"
  by (simp_all add: js_string_ok_def payload_size_def sample_narrow_def sample_wide_def)

theorem js_string_compare_lex_witness:
  "js_units sample_narrow = [0x61, 0xe9] \<and> js_units sample_wide = [0x61, 0x1234] \<and>
   (\<exists>r. js_string_compare sample_narrow sample_wide = Some r \<and>
     (r < 0 \<longleftrightarrow> (js_units sample_narrow, js_units sample_wide) \<in> lexord {(a, b). a < b}) \<and>
     (r = 0 \<longleftrightarrow> js_units sample_narrow = js_units sample_wide))"
proof -
  have "js_units sample_narrow = [0x61, 0xe9]" "js_units sample_wide = [0x61, 0x1234]" by code_simp+
  then show ?thesis using js_string_compare_lex [OF sample_strings_ok] by blast
qed


definition sample_mem :: "unit js_mem" where
  "sample_mem = \<lparr>jm_malloc = (\<lambda>c n. ((), Some (replicate n 0xaa))),
     jm_realloc = (\<lambda>c p n. ((), Some (take n p @ replicate (n - length p) 0xbb))), jm_free = (\<lambda>c p. ())\<rparr>"

lemma sample_mem_ok: "js_mem_ok sample_mem"
  by (auto simp: js_mem_ok_def sample_mem_def min_def)


end
