(* ===== verification/Js_String_Buffer.thy ===== *)
theory Js_String_Buffer
  imports Js_String
begin

text \<open>
  Building strings (\<open>quickjs.c\<close>, \<open>StringBuffer\<close>): a growing buffer that starts narrow and
  is widened in place when a unit above \<open>0xff\<close> arrives, with a sticky error flag.  Every
  operation refines appending to the list of units; the conversions from and to UTF-8 are
  built on it, and converting a string to UTF-8 and back gives the string again, lone
  surrogates included.

  Lengths are natural numbers: the sum of two string lengths fits in an \<open>int\<close>.  The
  product \<open>size * 3\<close> in the growth policy may not, and is read as a 32-bit value.
\<close>

section \<open>Data\<close>

record 'o StringBuffer =
  sb_ctx :: 'o
  sb_str :: "bytes option"
  sb_len :: nat
  sb_size :: nat
  sb_wide :: bool
  sb_err :: bool

type_synonym 'o sb_result = "('o StringBuffer \<times> int) option"

definition sb_block :: "'o StringBuffer \<Rightarrow> bytes" where
  "sb_block s = (case sb_str s of None \<Rightarrow> [] | Some b \<Rightarrow> b)"

section \<open>Operations\<close>

definition string_buffer_init2 :: "'o js_mem \<Rightarrow> 'o \<Rightarrow> nat \<Rightarrow> bool \<Rightarrow> 'o StringBuffer \<times> int" where
  "string_buffer_init2 jm ctx sz is_wide =
     (case js_alloc_string_rt jm ctx sz is_wide of
        (ctx, None) \<Rightarrow> (\<lparr>sb_ctx = ctx, sb_str = None, sb_len = 0, sb_size = 0, sb_wide = is_wide, sb_err = True\<rparr>, -1)
      | (ctx, Some p) \<Rightarrow>
          (\<lparr>sb_ctx = ctx, sb_str = Some (js_u p), sb_len = 0, sb_size = sz, sb_wide = is_wide, sb_err = False\<rparr>, 0))"

definition string_buffer_init :: "'o js_mem \<Rightarrow> 'o \<Rightarrow> nat \<Rightarrow> 'o StringBuffer \<times> int" where
  "string_buffer_init jm ctx sz = string_buffer_init2 jm ctx sz False"

definition string_buffer_free :: "'o js_mem \<Rightarrow> 'o StringBuffer \<Rightarrow> 'o StringBuffer" where
  "string_buffer_free jm s = s\<lparr>sb_ctx := jm_free jm (sb_ctx s) (sb_block s), sb_str := None\<rparr>"

definition string_buffer_set_error :: "'o js_mem \<Rightarrow> 'o StringBuffer \<Rightarrow> 'o StringBuffer \<times> int" where
  "string_buffer_set_error jm s =
     (s\<lparr>sb_ctx := jm_free jm (sb_ctx s) (sb_block s), sb_str := None, sb_size := 0, sb_len := 0, sb_err := True\<rparr>, -1)"

text \<open>\<open>for (i = len; i-- > 0;) str16[i] = str8[i]\<close>, in one block.\<close>

fun widen_loop :: "nat \<Rightarrow> bytes \<Rightarrow> bytes option" where
  "widen_loop 0 u = Some u"
| "widen_loop (Suc i) u = do {
     c \<leftarrow> rd u i;
     u \<leftarrow> wr16 u i (ucast c);
     widen_loop i u }"

definition string_buffer_widen :: "'o js_mem \<Rightarrow> 'o StringBuffer \<Rightarrow> nat \<Rightarrow> 'o sb_result" where
  "string_buffer_widen jm s sz =
     (if sb_err s then Some (s, -1)
      else case jm_realloc jm (sb_ctx s) (sb_block s) (2 * sz) of
          (ctx, None) \<Rightarrow> Some (string_buffer_set_error jm (s\<lparr>sb_ctx := ctx\<rparr>))
        | (ctx, Some str) \<Rightarrow>
            (let slack = length str - 2 * sz
             in do {
               str \<leftarrow> widen_loop (sb_len s) str;
               Some (s\<lparr>sb_ctx := ctx, sb_wide := True, sb_size := sz + slack div 2, sb_str := Some str\<rparr>, 0) }))"

text \<open>\<open>size * 3 / 2\<close> in \<open>int\<close> arithmetic.\<close>

definition int_3_2 :: "nat \<Rightarrow> int" where
  "int_3_2 sz = (let w = sint (word_of_nat (sz * 3) :: u32) in if w < 0 then - ((- w) div 2) else w div 2)"

definition sb_grow :: "nat \<Rightarrow> nat \<Rightarrow> nat" where
  "sb_grow new_len sz = nat (min_int (max_int (int new_len) (int_3_2 sz)) (int JS_STRING_LEN_MAX))"

definition string_buffer_realloc :: "'o js_mem \<Rightarrow> 'o StringBuffer \<Rightarrow> nat \<Rightarrow> u32 \<Rightarrow> 'o sb_result" where
  "string_buffer_realloc jm s new_len c =
     (if sb_err s then Some (s, -1)
      else if new_len > JS_STRING_LEN_MAX then Some (string_buffer_set_error jm s)
      else (let new_size = sb_grow new_len (sb_size s)
            in if \<not> sb_wide s \<and> c \<ge> 0x100 then string_buffer_widen jm s new_size
               else case jm_realloc jm (sb_ctx s) (sb_block s) (payload_size new_size (sb_wide s)) of
                   (ctx, None) \<Rightarrow> Some (string_buffer_set_error jm (s\<lparr>sb_ctx := ctx\<rparr>))
                 | (ctx, Some str) \<Rightarrow>
                     (let slack = length str - payload_size new_size (sb_wide s);
                          new_size = min (new_size + (if sb_wide s then slack div 2 else slack)) JS_STRING_LEN_MAX
                      in Some (s\<lparr>sb_ctx := ctx, sb_size := new_size, sb_str := Some str\<rparr>, 0))))"

text \<open>\<open>s->str->u.str16[s->len++] = c\<close> and the narrow form.\<close>

definition sb_store16 :: "'o StringBuffer \<Rightarrow> u32 \<Rightarrow> 'o sb_result" where
  "sb_store16 s c = do {
     u \<leftarrow> sb_str s;
     u \<leftarrow> wr16 u (sb_len s) (ucast c);
     Some (s\<lparr>sb_str := Some u, sb_len := sb_len s + 1\<rparr>, 0) }"

definition sb_store8 :: "'o StringBuffer \<Rightarrow> u32 \<Rightarrow> 'o sb_result" where
  "sb_store8 s c = do {
     u \<leftarrow> sb_str s;
     u \<leftarrow> wr u (sb_len s) (ucast c);
     Some (s\<lparr>sb_str := Some u, sb_len := sb_len s + 1\<rparr>, 0) }"

text \<open>Go on only after the return value 0.\<close>

definition sb_then :: "'o sb_result \<Rightarrow> ('o StringBuffer \<Rightarrow> 'o sb_result) \<Rightarrow> 'o sb_result" where
  "sb_then r f = do { (s, ret) \<leftarrow> r; if ret \<noteq> 0 then Some (s, -1) else f s }"

definition string_buffer_putc_slow :: "'o js_mem \<Rightarrow> 'o StringBuffer \<Rightarrow> u32 \<Rightarrow> 'o sb_result" where
  "string_buffer_putc_slow jm s c =
     sb_then (if sb_len s \<ge> sb_size s then string_buffer_realloc jm s (sb_len s + 1) c else Some (s, 0))
       (\<lambda>s. if sb_wide s then sb_store16 s c
            else if c < 0x100 then sb_store8 s c
            else sb_then (string_buffer_widen jm s (sb_size s)) (\<lambda>s. sb_store16 s c))"

definition string_buffer_putc8 :: "'o js_mem \<Rightarrow> 'o StringBuffer \<Rightarrow> u32 \<Rightarrow> 'o sb_result" where
  "string_buffer_putc8 jm s c =
     sb_then (if sb_len s \<ge> sb_size s then string_buffer_realloc jm s (sb_len s + 1) c else Some (s, 0))
       (\<lambda>s. if sb_wide s then sb_store16 s c else sb_store8 s c)"

definition string_buffer_putc16 :: "'o js_mem \<Rightarrow> 'o StringBuffer \<Rightarrow> u32 \<Rightarrow> 'o sb_result" where
  "string_buffer_putc16 jm s c =
     (if sb_len s < sb_size s \<and> sb_wide s then sb_store16 s c
      else if sb_len s < sb_size s \<and> c < 0x100 then sb_store8 s c
      else string_buffer_putc_slow jm s c)"

definition string_buffer_putc :: "'o js_mem \<Rightarrow> 'o StringBuffer \<Rightarrow> u32 \<Rightarrow> 'o sb_result" where
  "string_buffer_putc jm s c =
     (if c \<ge> 0x10000 then
        (let c = c - 0x10000
         in sb_then (string_buffer_putc16 jm s (drop_bit 10 c + 0xd800))
              (\<lambda>s. string_buffer_putc16 jm s ((c AND 0x3ff) + 0xdc00)))
      else string_buffer_putc16 jm s c)"

text \<open>Storing a run of units at the end; a run of length 0 touches no memory.\<close>

definition sb_append :: "'o StringBuffer \<Rightarrow> u16 list \<Rightarrow> 'o sb_result" where
  "sb_append s cs =
     (if cs = [] then Some (s, 0)
      else do {
        u \<leftarrow> sb_str s;
        u \<leftarrow> (if sb_wide s then store16 u (sb_len s) cs else store8 u (sb_len s) cs);
        Some (s\<lparr>sb_str := Some u, sb_len := sb_len s + length cs\<rparr>, 0) })"

definition string_buffer_write8 :: "'o js_mem \<Rightarrow> 'o StringBuffer \<Rightarrow> bytes \<Rightarrow> 'o sb_result" where
  "string_buffer_write8 jm s p =
     sb_then (if sb_len s + length p > sb_size s then string_buffer_realloc jm s (sb_len s + length p) 0 else Some (s, 0))
       (\<lambda>s. sb_append s (map ucast p))"

definition string_buffer_write16 :: "'o js_mem \<Rightarrow> 'o StringBuffer \<Rightarrow> u16 list \<Rightarrow> 'o sb_result" where
  "string_buffer_write16 jm s p =
     (let c = foldl (OR) 0 p
      in sb_then
           (if sb_len s + length p > sb_size s then string_buffer_realloc jm s (sb_len s + length p) (ucast c)
            else if \<not> sb_wide s \<and> c \<ge> 0x100 then string_buffer_widen jm s (sb_size s)
            else Some (s, 0))
           (\<lambda>s. sb_append s p))"

definition string_buffer_puts8 :: "'o js_mem \<Rightarrow> 'o StringBuffer \<Rightarrow> bytes \<Rightarrow> 'o sb_result" where
  "string_buffer_puts8 jm s str = string_buffer_write8 jm s str"

definition string_buffer_concat :: "'o js_mem \<Rightarrow> 'o StringBuffer \<Rightarrow> JSString \<Rightarrow> nat \<Rightarrow> nat \<Rightarrow> 'o sb_result" where
  "string_buffer_concat jm s p from to =
     (if to \<le> from then Some (s, 0)
      else if js_wide p then do {
        cs \<leftarrow> load16 (js_u p) from (to - from);
        string_buffer_write16 jm s cs }
      else do {
        b \<leftarrow> rd_block (js_u p) from (to - from);
        string_buffer_write8 jm s b })"

definition string_buffer_concat_value ::
    "'o js_mem \<Rightarrow> ('o, 'v) to_string \<Rightarrow> 'o StringBuffer \<Rightarrow> 'v JSValue \<Rightarrow> 'o sb_result" where
  "string_buffer_concat_value jm ts s v =
     (if sb_err s then Some (s, -1)
      else case string_operand ts (sb_ctx s) v of
          (ctx, None) \<Rightarrow> Some (string_buffer_set_error jm (s\<lparr>sb_ctx := ctx\<rparr>))
        | (ctx, Some (_, p)) \<Rightarrow> string_buffer_concat jm (s\<lparr>sb_ctx := ctx\<rparr>) p 0 (js_len p))"

primrec sb_fill_loop :: "'o js_mem \<Rightarrow> u32 \<Rightarrow> nat \<Rightarrow> 'o StringBuffer \<Rightarrow> 'o sb_result" where
  "sb_fill_loop jm c 0 s = Some (s, 0)"
| "sb_fill_loop jm c (Suc n) s = sb_then (string_buffer_putc16 jm s c) (sb_fill_loop jm c n)"

definition string_buffer_fill :: "'o js_mem \<Rightarrow> 'o StringBuffer \<Rightarrow> u32 \<Rightarrow> nat \<Rightarrow> 'o sb_result" where
  "string_buffer_fill jm s c count =
     sb_then (if sb_len s + count > sb_size s then string_buffer_realloc jm s (sb_len s + count) c else Some (s, 0))
       (sb_fill_loop jm c count)"

definition string_buffer_end :: "'o js_mem \<Rightarrow> 'o StringBuffer \<Rightarrow> ('o \<times> js_result) option" where
  "string_buffer_end jm s =
     (if sb_err s then Some (sb_ctx s, JS_EXCEPTION)
      else if sb_len s = 0 then Some (jm_free jm (sb_ctx s) (sb_block s), JS_STRING js_empty_string)
      else do {
        str \<leftarrow> sb_str s;
        let (ctx, str) =
          (if sb_len s < sb_size s then
             (case jm_realloc jm (sb_ctx s) str (payload_size (sb_len s) (sb_wide s)) of
                (ctx, None) \<Rightarrow> (ctx, str)
              | (ctx, Some str) \<Rightarrow> (ctx, str))
           else (sb_ctx s, str));
        str \<leftarrow> (if sb_wide s then Some str else wr str (sb_len s) 0);
        Some (ctx, JS_STRING \<lparr>js_len = sb_len s, js_wide = sb_wide s, js_u = str\<rparr>) })"

section \<open>The buffer as a list of units\<close>

definition sb_units :: "'o StringBuffer \<Rightarrow> u16 list" where
  "sb_units s = (if sb_wide s then units16 (sb_block s) (sb_len s) else units8 (sb_block s) (sb_len s))"

text \<open>After an error the buffer is empty; otherwise it has room for \<open>size\<close> units, and for
  the terminating byte when it is narrow.\<close>

definition sb_ok :: "'o StringBuffer \<Rightarrow> bool" where
  "sb_ok s =
     (if sb_err s then sb_str s = None \<and> sb_size s = 0 \<and> sb_len s = 0
      else sb_str s \<noteq> None \<and> sb_len s \<le> sb_size s \<and> payload_size (sb_size s) (sb_wide s) \<le> length (sb_block s))"

text \<open>What an operation does that grows the buffer to hold \<open>n\<close> units, one of them \<open>c\<close>.\<close>

definition grows :: "'o StringBuffer \<Rightarrow> nat \<Rightarrow> bool \<Rightarrow> 'o sb_result \<Rightarrow> bool" where
  "grows s n wide r \<longleftrightarrow> (\<exists>s' ret. r = Some (s', ret) \<and> sb_ok s' \<and>
     (if ret = 0 then sb_err s' = sb_err s \<and> sb_units s' = sb_units s \<and> sb_len s' = sb_len s \<and> n \<le> sb_size s' \<and>
        (wide \<longrightarrow> sb_wide s') \<and> (sb_wide s \<longrightarrow> sb_wide s')
      else ret = -1 \<and> sb_err s'))"

definition appends :: "'o StringBuffer \<Rightarrow> u16 list \<Rightarrow> 'o sb_result \<Rightarrow> bool" where
  "appends s xs r \<longleftrightarrow> (\<exists>s' ret. r = Some (s', ret) \<and> sb_ok s' \<and>
     (if ret = 0 then sb_err s' = sb_err s \<and> sb_units s' = sb_units s @ xs else ret = -1 \<and> sb_err s'))"

lemma appends_Some [simp]:
  "appends s xs (Some (s', ret)) \<longleftrightarrow> sb_ok s' \<and>
     (if ret = 0 then sb_err s' = sb_err s \<and> sb_units s' = sb_units s @ xs else ret = -1 \<and> sb_err s')"
  by (simp only: appends_def option.inject prod.inject) blast

lemma grows_Some [simp]:
  "grows s n wide (Some (s', ret)) \<longleftrightarrow> sb_ok s' \<and>
     (if ret = 0 then sb_err s' = sb_err s \<and> sb_units s' = sb_units s \<and> sb_len s' = sb_len s \<and> n \<le> sb_size s' \<and>
        (wide \<longrightarrow> sb_wide s') \<and> (sb_wide s \<longrightarrow> sb_wide s')
      else ret = -1 \<and> sb_err s')"
  by (simp only: grows_def option.inject prod.inject) blast

lemma grows_mono: "grows s n w r \<Longrightarrow> m \<le> n \<Longrightarrow> (w' \<longrightarrow> w) \<Longrightarrow> grows s m w' r"
  by (auto simp: grows_def split: if_splits)

lemma sb_then_Some [simp]: "sb_then (Some (s, ret)) f = (if ret \<noteq> 0 then Some (s, -1) else f s)"
  by (simp add: sb_then_def)

lemma set_error_ok: "string_buffer_set_error jm s = (s', ret) \<Longrightarrow> ret = -1 \<and> sb_err s' \<and> sb_ok s'"
  by (auto simp: string_buffer_set_error_def sb_ok_def)

lemma grows_set_error [simp]: "grows s n w (Some (string_buffer_set_error jm s'))"
  using set_error_ok [of jm s'] by (cases "string_buffer_set_error jm s'") auto

lemma length_sb_units: "sb_ok s \<Longrightarrow> length (sb_units s) = sb_len s"
  by (auto simp: sb_ok_def sb_units_def payload_size_def sb_block_def units8_def split: if_splits)

lemma widen_loop_spec:
  assumes "2 * n \<le> length u"
  shows "\<exists>u'. widen_loop n u = Some u' \<and> length u' = length u \<and> units16 u' n = units8 u n \<and>
    (\<forall>k. 2 * n \<le> k \<longrightarrow> u' ! k = u ! k)"
  using assms
proof (induction n arbitrary: u)
  case (Suc n)
  then have n: "n < length u" "2 * n + 2 \<le> length u" by simp_all
  from n(2) obtain u1 where u1: "wr16 u n (ucast (u ! n)) = Some u1" "length u1 = length u" "rd16 u1 n = Some (ucast (u ! n))"
    "\<And>k. k < 2 * n \<or> 2 * n + 2 \<le> k \<Longrightarrow> u1 ! k = u ! k" by (rule wr16_spec) blast
  obtain u' where u': "widen_loop n u1 = Some u'" "length u' = length u1" "units16 u' n = units8 u1 n"
    "\<And>k. 2 * n \<le> k \<Longrightarrow> u' ! k = u1 ! k" using Suc.IH [of u1] n u1(2) by auto
  have "units8 u1 n = units8 u n"
    using u1(2,4) n by (auto simp: units8_def intro!: nth_equalityI)
  moreover have "rd16 u' n = rd16 u1 n" using u' by (intro rd16_local) auto
  ultimately have "units16 u' (Suc n) = units8 u (Suc n)"
    using u' u1(3) n by (simp add: units16_def units8_def take_Suc_conv_app_nth)
  then show ?case using n u1 u' by simp
qed (simp add: units16_def units8_def)

lemma units8_prefix:
  assumes "take m b = take m u" "n \<le> m" "m \<le> length u" "m \<le> length b"
  shows "units8 b n = units8 u n"
proof -
  have "take n b = take n (take m b)" using assms(2) by (simp add: min_def)
  also have "\<dots> = take n u" using assms by (simp add: min_def)
  finally show ?thesis by (simp add: units8_def)
qed

lemma units16_prefix:
  assumes "take m b = take m u" "2 * n \<le> m" "m \<le> length u" "m \<le> length b"
  shows "units16 b n = units16 u n"
proof (rule units16_cong)
  fix i assume "i < n"
  then have i: "2 * i + 2 \<le> m" using assms(2) by simp
  have "b ! k = u ! k" if "k < m" for k using assms(1) that by (metis nth_take)
  then have "take 2 (drop (2 * i) b) = take 2 (drop (2 * i) u)"
    using i assms(3,4) by (intro nth_equalityI) auto
  then show "rd16 b i = rd16 u i"
    using i assms by (simp add: rd16_def get_packed_def rd_block_def)
qed

lemma js_realloc_prefix:
  assumes "js_mem_ok jm" "jm_realloc jm c p n = (c', Some b)"
  shows "n \<le> length b" "take (min n (length p)) b = take (min n (length p)) p"
  using assms unfolding js_mem_ok_def by blast+

lemma string_buffer_widen_grows:
  assumes "js_mem_ok jm" "sb_ok s" "sb_len s \<le> sz" "\<not> sb_wide s"
  shows "grows s sz True (string_buffer_widen jm s sz)"
proof (cases "sb_err s")
  case False
  obtain ctx r where ra: "jm_realloc jm (sb_ctx s) (sb_block s) (2 * sz) = (ctx, r)" by (cases "jm_realloc jm (sb_ctx s) (sb_block s) (2 * sz)")
  show ?thesis
  proof (cases r)
    case None
    then show ?thesis using False ra by (simp add: string_buffer_widen_def)
  next
    case (Some b)
    note b = js_realloc_prefix [OF assms(1) ra [unfolded Some]]
    have len: "sb_len s + 1 \<le> length (sb_block s)" using assms False by (auto simp: sb_ok_def payload_size_def)
    have "2 * sb_len s \<le> length b" using b assms(3) by simp
    then obtain u where u: "widen_loop (sb_len s) b = Some u" "length u = length b" "units16 u (sb_len s) = units8 b (sb_len s)"
      using widen_loop_spec by blast
    have "units8 b (sb_len s) = units8 (sb_block s) (sb_len s)"
      using b len assms(3) by (intro units8_prefix [OF b(2)]) auto
    then show ?thesis
      using False ra Some u b assms
      by (auto simp: string_buffer_widen_def grows_def Let_def sb_ok_def payload_size_def sb_units_def sb_block_def)
  qed
qed (use assms in \<open>auto simp: string_buffer_widen_def grows_def\<close>)

lemma sb_grow_bounds:
  assumes "new_len \<le> JS_STRING_LEN_MAX"
  shows "new_len \<le> sb_grow new_len sz" "sb_grow new_len sz \<le> JS_STRING_LEN_MAX"
  using assms by (auto simp: sb_grow_def min_int_def max_int_def)

lemma slack_room: "2 * sz \<le> L \<Longrightarrow> 2 * min (sz + (L - 2 * sz) div 2) M \<le> (L :: nat)"
proof -
  assume "2 * sz \<le> L"
  moreover have "2 * ((L - 2 * sz) div 2) \<le> L - 2 * sz" by simp
  ultimately have "2 * (sz + (L - 2 * sz) div 2) \<le> L" by simp
  moreover have "min (sz + (L - 2 * sz) div 2) M \<le> sz + (L - 2 * sz) div 2" by (rule min.cobounded1)
  ultimately show ?thesis by (meson le_trans mult_le_mono2)
qed

lemma string_buffer_realloc_grows:
  assumes "js_mem_ok jm" "sb_ok s" "sb_len s \<le> n"
  shows "grows s n (c \<ge> 0x100) (string_buffer_realloc jm s n c)"
proof -
  let ?sz = "sb_grow n (sb_size s)"
  consider (err) "sb_err s" | (long) "\<not> sb_err s" "n > JS_STRING_LEN_MAX"
    | (widen) "\<not> sb_err s" "n \<le> JS_STRING_LEN_MAX" "\<not> sb_wide s" "c \<ge> 0x100"
    | (plain) "\<not> sb_err s" "n \<le> JS_STRING_LEN_MAX" "\<not> (\<not> sb_wide s \<and> c \<ge> 0x100)"
    by linarith
  then show ?thesis
  proof cases
    case err
    then show ?thesis using assms by (auto simp: string_buffer_realloc_def grows_def)
  next
    case long
    then show ?thesis by (simp add: string_buffer_realloc_def)
  next
    case widen
    have "sb_len s \<le> ?sz" using sb_grow_bounds(1) [OF widen(2)] assms(3) by (rule le_trans [rotated])
    then have "grows s ?sz True (string_buffer_widen jm s ?sz)"
      using string_buffer_widen_grows [OF assms(1,2)] widen by simp
    then have "grows s n True (string_buffer_widen jm s ?sz)"
      using sb_grow_bounds(1) [OF widen(2), of "sb_size s"] unfolding grows_def by (auto split: if_splits)
    then show ?thesis using widen by (simp add: string_buffer_realloc_def Let_def)
  next
    case plain
    let ?n = "payload_size ?sz (sb_wide s)"
    obtain ctx r where ra: "jm_realloc jm (sb_ctx s) (sb_block s) ?n = (ctx, r)" by (cases "jm_realloc jm (sb_ctx s) (sb_block s) ?n")
    have eq: "string_buffer_realloc jm s n c =
        (case (ctx, r) of
           (ctx, None) \<Rightarrow> Some (string_buffer_set_error jm (s\<lparr>sb_ctx := ctx\<rparr>))
         | (ctx, Some str) \<Rightarrow>
             (let slack = length str - ?n;
                  new_size = min (?sz + (if sb_wide s then slack div 2 else slack)) JS_STRING_LEN_MAX
              in Some (s\<lparr>sb_ctx := ctx, sb_size := new_size, sb_str := Some str\<rparr>, 0)))"
      using plain ra by (auto simp: string_buffer_realloc_def Let_def)
    show ?thesis
    proof (cases r)
      case None
      then show ?thesis by (simp add: eq)
    next
      case (Some b)
      note b = js_realloc_prefix [OF assms(1) ra [unfolded Some]]
      note g = sb_grow_bounds [OF plain(2), of "sb_size s"]
      have len: "payload_size (sb_len s) (sb_wide s) \<le> length (sb_block s)" "payload_size (sb_len s) (sb_wide s) \<le> ?n"
        using assms(2,3) plain(1) g by (auto simp: sb_ok_def payload_size_def split: if_splits)
      have m: "payload_size (sb_len s) (sb_wide s) \<le> min ?n (length (sb_block s))" using len by simp
      have u8: "units8 b (sb_len s) = units8 (sb_block s) (sb_len s)" if "\<not> sb_wide s"
        by (rule units8_prefix [OF b(2)]) (use m b(1) that in \<open>auto simp: payload_size_def\<close>)
      have u16: "units16 b (sb_len s) = units16 (sb_block s) (sb_len s)" if "sb_wide s"
        by (rule units16_prefix [OF b(2)]) (use m b(1) that in \<open>auto simp: payload_size_def\<close>)
      show ?thesis
        unfolding eq using plain Some u8 u16 b(1) g assms(2,3)
        by (auto simp: Let_def sb_ok_def payload_size_def sb_units_def sb_block_def slack_room)
    qed
  qed
qed

section \<open>Appending\<close>

lemma appends_trans:
  assumes "appends s' ys r" "sb_err s' = sb_err s" "sb_units s' @ ys = sb_units s @ zs"
  shows "appends s zs r"
proof -
  obtain s1 ret where "r = Some (s1, ret)" using assms(1) unfolding appends_def by blast
  with assms show ?thesis by (simp split: if_splits)
qed

lemma sb_then_appends:
  assumes "grows s n w r"
    and "\<And>s'. sb_ok s' \<Longrightarrow> sb_err s' = sb_err s \<Longrightarrow> sb_units s' = sb_units s \<Longrightarrow> sb_len s' = sb_len s \<Longrightarrow>
           n \<le> sb_size s' \<Longrightarrow> (w \<longrightarrow> sb_wide s') \<Longrightarrow> (sb_wide s \<longrightarrow> sb_wide s') \<Longrightarrow> appends s' xs (f s')"
  shows "appends s xs (sb_then r f)"
proof -
  obtain s' ret where r: "r = Some (s', ret)" using assms(1) unfolding grows_def by blast
  note g = assms(1) [unfolded r grows_Some]
  show ?thesis
  proof (cases "ret = 0")
    case True
    then have "appends s' xs (f s')" using assms(2) [of s'] g by simp
    then have "appends s xs (f s')" by (rule appends_trans) (use True g in simp_all)
    then show ?thesis using True r by simp
  qed (use r g in simp)
qed

lemma appends_then:
  assumes "appends s xs r" "\<And>s'. sb_ok s' \<Longrightarrow> sb_err s' = sb_err s \<Longrightarrow> appends s' ys (f s')"
  shows "appends s (xs @ ys) (sb_then r f)"
proof -
  obtain s' ret where r: "r = Some (s', ret)" using assms(1) unfolding appends_def by blast
  note g = assms(1) [unfolded r appends_Some]
  show ?thesis
  proof (cases "ret = 0")
    case True
    then have "appends s' ys (f s')" using assms(2) [of s'] g by simp
    then have "appends s (xs @ ys) (f s')" by (rule appends_trans) (use True g in simp_all)
    then show ?thesis using True r by simp
  qed (use r g in simp)
qed

lemma realloc_if_full:
  assumes "js_mem_ok jm" "sb_ok s" "sb_len s \<le> n"
  shows "grows s n False (if sb_size s < n then string_buffer_realloc jm s n c else Some (s, 0))"
  using grows_mono [OF string_buffer_realloc_grows [OF assms, of c], of n False] assms(2) by simp

lemma grows_same: "sb_ok s \<Longrightarrow> n \<le> sb_size s \<Longrightarrow> (w \<longrightarrow> sb_wide s) \<Longrightarrow> grows s n w (Some (s, 0))"
  by (simp add: grows_def)

lemma appends_none: "sb_ok s \<Longrightarrow> appends s [] (Some (s, 0))"
  by simp

text \<open>A run of units that the buffer has room for.\<close>

lemma sb_append_appends:
  assumes "sb_ok s" "sb_len s + length cs \<le> sb_size s" "sb_wide s \<or> (\<forall>c \<in> set cs. c < 0x100)"
  shows "appends s cs (sb_append s cs)"
proof (cases "cs = [] \<or> sb_err s")
  case True
  then have "cs = []" using assms(1,2) by (auto simp: sb_ok_def)
  then show ?thesis using assms(1) by (simp add: sb_append_def appends_none)
next
  case False
  then obtain b where b: "sb_str s = Some b" "payload_size (sb_size s) (sb_wide s) \<le> length b"
    using assms(1) by (auto simp: sb_ok_def sb_block_def)
  show ?thesis
  proof (cases "sb_wide s")
    case True
    then have room: "2 * (sb_len s + length cs) \<le> length b" using b(2) assms(2) by (simp add: payload_size_def)
    from store16_spec [OF this] show ?thesis
      using False True b assms(1,2)
      by (auto simp: sb_append_def sb_ok_def sb_units_def sb_block_def)
  next
    case narrow: False
    then have room: "sb_len s + length cs \<le> length b" using b(2) assms(2) by (simp add: payload_size_def)
    have "\<And>c. c \<in> set cs \<Longrightarrow> c < 0x100" using narrow assms(3) by blast
    from store8_spec [OF room this] show ?thesis
      using False narrow b assms(1,2)
      by (auto simp: sb_append_def sb_ok_def sb_units_def sb_block_def)
  qed
qed

lemma sb_store16_append: "sb_wide s \<Longrightarrow> sb_store16 s c = sb_append s [ucast c]"
  by (simp add: sb_store16_def sb_append_def)

lemma sb_store8_append: "\<not> sb_wide s \<Longrightarrow> c < 0x100 \<Longrightarrow> sb_store8 s c = sb_append s [ucast c]"
proof -
  assume "c < 0x100" "\<not> sb_wide s"
  moreover have "(ucast (ucast c :: u16) :: u8) = ucast c" by (rule bit_word_eqI) (simp add: bit_simps)
  ultimately show ?thesis by (simp add: sb_store8_def sb_append_def)
qed

lemma ucast_small: "c < 0x100 \<Longrightarrow> (ucast c :: u16) < 0x100" for c :: u32
proof -
  assume "c < 0x100"
  then have "unat (ucast c :: u16) = unat c" by (intro unat_ucast_small) (simp add: word_less_nat_alt)
  then show ?thesis using \<open>c < 0x100\<close> by (simp add: word_less_nat_alt)
qed

lemma string_buffer_putc_slow_appends:
  assumes "js_mem_ok jm" "sb_ok s"
  shows "appends s [ucast c] (string_buffer_putc_slow jm s c)"
  unfolding string_buffer_putc_slow_def
proof (rule sb_then_appends [where n = "sb_len s + 1" and w = False])
  show "grows s (sb_len s + 1) False (if sb_len s \<ge> sb_size s then string_buffer_realloc jm s (sb_len s + 1) c else Some (s, 0))"
    using realloc_if_full [OF assms, of "sb_len s + 1" c] by (simp add: less_Suc_eq_le)
next
  fix s' :: "'a StringBuffer"
  assume s': "sb_ok s'" "sb_len s' = sb_len s" "sb_len s + 1 \<le> sb_size s'"
  show "appends s' [ucast c]
    (if sb_wide s' then sb_store16 s' c else if c < 0x100 then sb_store8 s' c
     else sb_then (string_buffer_widen jm s' (sb_size s')) (\<lambda>s. sb_store16 s c))"
  proof (cases "sb_wide s' \<or> c < 0x100")
    case True
    then show ?thesis
      using sb_append_appends [OF s'(1), of "[ucast c]"] s' ucast_small [of c]
      by (auto simp: sb_store16_append sb_store8_append)
  next
    case False
    have "sb_len s' \<le> sb_size s'" using s' by simp
    then have "grows s' (sb_size s') True (string_buffer_widen jm s' (sb_size s'))"
      using string_buffer_widen_grows [OF assms(1) s'(1)] False by simp
    then have "appends s' [ucast c] (sb_then (string_buffer_widen jm s' (sb_size s')) (\<lambda>s. sb_store16 s c))"
    proof (rule sb_then_appends)
      fix s'' :: "'a StringBuffer"
      assume "sb_ok s''" "sb_len s'' = sb_len s'" "sb_size s' \<le> sb_size s''" "True \<longrightarrow> sb_wide s''"
      then show "appends s'' [ucast c] (sb_store16 s'' c)"
        using sb_append_appends [of s'' "[ucast c]"] s' by (simp add: sb_store16_append)
    qed
    then show ?thesis using False by simp
  qed
qed

lemma string_buffer_putc8_appends:
  assumes "js_mem_ok jm" "sb_ok s" "c < 0x100"
  shows "appends s [ucast c] (string_buffer_putc8 jm s c)"
  unfolding string_buffer_putc8_def
proof (rule sb_then_appends [where n = "sb_len s + 1" and w = False])
  show "grows s (sb_len s + 1) False (if sb_len s \<ge> sb_size s then string_buffer_realloc jm s (sb_len s + 1) c else Some (s, 0))"
    using realloc_if_full [OF assms(1,2), of "sb_len s + 1" c] by (simp add: less_Suc_eq_le)
next
  fix s' :: "'a StringBuffer"
  assume s': "sb_ok s'" "sb_len s' = sb_len s" "sb_len s + 1 \<le> sb_size s'"
  then show "appends s' [ucast c] (if sb_wide s' then sb_store16 s' c else sb_store8 s' c)"
    using sb_append_appends [OF s'(1), of "[ucast c]"] assms(3) ucast_small [OF assms(3)]
    by (auto simp: sb_store16_append sb_store8_append)
qed

lemma string_buffer_putc16_appends:
  assumes "js_mem_ok jm" "sb_ok s"
  shows "appends s [ucast c] (string_buffer_putc16 jm s c)"
proof (cases "sb_len s < sb_size s \<and> (sb_wide s \<or> c < 0x100)")
  case True
  then show ?thesis
    using sb_append_appends [OF assms(2), of "[ucast c]"] ucast_small [of c]
    by (auto simp: string_buffer_putc16_def sb_store16_append sb_store8_append)
next
  case False
  then show ?thesis using string_buffer_putc_slow_appends [OF assms] by (auto simp: string_buffer_putc16_def)
qed

lemma string_buffer_write8_appends:
  assumes "js_mem_ok jm" "sb_ok s"
  shows "appends s (map ucast p) (string_buffer_write8 jm s p)"
  unfolding string_buffer_write8_def
proof (rule sb_then_appends [where n = "sb_len s + length p" and w = False])
  show "grows s (sb_len s + length p) False
      (if sb_len s + length p > sb_size s then string_buffer_realloc jm s (sb_len s + length p) 0 else Some (s, 0))"
    using realloc_if_full [OF assms, of "sb_len s + length p" 0] by simp
next
  fix s' :: "'a StringBuffer"
  assume s': "sb_ok s'" "sb_len s' = sb_len s" "sb_len s + length p \<le> sb_size s'"
  have "(ucast b :: u16) < 0x100" for b :: u8
  proof -
    have "uint b < 256" using unsigned_less [of b, where ?'a = int] by simp
    then show ?thesis by (simp add: word_less_def uint_u8_u16)
  qed
  then show "appends s' (map ucast p) (sb_append s' (map ucast p))"
    using sb_append_appends [OF s'(1), of "map ucast p"] s' by auto
qed

lemma string_buffer_write16_appends:
  assumes "js_mem_ok jm" "sb_ok s"
  shows "appends s p (string_buffer_write16 jm s p)"
proof -
  let ?c = "foldl (OR) 0 p" and ?n = "sb_len s + length p"
  have c: "(0x100 :: u32) \<le> ucast ?c \<longleftrightarrow> 0x100 \<le> ?c"
  proof -
    have "unat ?c < 2 ^ LENGTH(32)" using unsigned_less [of ?c, where ?'a = nat] by simp
    then have "unat (ucast ?c :: u32) = unat ?c" by (rule unat_ucast_small)
    then show ?thesis by (simp add: word_le_nat_alt)
  qed
  have small: "\<forall>x \<in> set p. x < 0x100" if "\<not> 0x100 \<le> ?c"
  proof -
    have "?c \<le> 0xFF" using that by (simp add: word_le_nat_alt word_less_nat_alt not_le)
    then show ?thesis using or_all_narrow by blast
  qed
  show ?thesis
    unfolding string_buffer_write16_def Let_def
  proof (rule sb_then_appends [where n = ?n and w = "0x100 \<le> ?c"])
    consider (full) "?n > sb_size s" | (widen) "\<not> ?n > sb_size s" "\<not> sb_wide s \<and> ?c \<ge> 0x100"
      | (same) "\<not> ?n > sb_size s" "\<not> (\<not> sb_wide s \<and> ?c \<ge> 0x100)" by blast
    then show "grows s ?n (0x100 \<le> ?c)
       (if ?n > sb_size s then string_buffer_realloc jm s ?n (ucast ?c)
        else if \<not> sb_wide s \<and> ?c \<ge> 0x100 then string_buffer_widen jm s (sb_size s) else Some (s, 0))"
    proof cases
      case full
      then show ?thesis using string_buffer_realloc_grows [OF assms, of ?n "ucast ?c"] c by simp
    next
      case widen
      then have "grows s (sb_size s) True (string_buffer_widen jm s (sb_size s))"
        using string_buffer_widen_grows [OF assms, of "sb_size s"] by simp
      then show ?thesis using widen grows_mono [of s "sb_size s" True _ ?n "0x100 \<le> ?c"] by simp
    next
      case same
      then show ?thesis using assms(2) by auto
    qed
  next
    fix s' :: "'a StringBuffer"
    assume "sb_ok s'" "sb_len s' = sb_len s" "?n \<le> sb_size s'" "0x100 \<le> ?c \<longrightarrow> sb_wide s'"
    then show "appends s' p (sb_append s' p)" using sb_append_appends [of s' p] small by auto
  qed
qed

lemma string_buffer_concat_appends:
  assumes "js_mem_ok jm" "sb_ok s" "js_string_ok p" "to \<le> js_len p"
  shows "appends s (drop from (take to (js_units p))) (string_buffer_concat jm s p from to)"
proof (cases "to \<le> from")
  case True
  then show ?thesis using assms(2) by (simp add: string_buffer_concat_def)
next
  case False
  then have d: "from + (to - from) = to" by simp
  show ?thesis
  proof (cases "js_wide p")
    case True
    then have "load16 (js_u p) from (to - from) = Some (drop from (units16 (js_u p) to))"
      using load16_units [of "from" "to - from" "js_u p"] assms(3,4) d by (simp add: js_string_ok_def payload_size_def)
    moreover have "take to (js_units p) = units16 (js_u p) to"
      using True assms(4) by (simp add: js_units_def units16_def take_map)
    ultimately show ?thesis
      using False True string_buffer_write16_appends [OF assms(1,2)] by (simp add: string_buffer_concat_def)
  next
    case narrow: False
    then obtain b where "rd_block (js_u p) from (to - from) = Some b" "map ucast b = drop from (units8 (js_u p) to)"
      using rd_block_units8 [of "from" "to - from" "js_u p"] assms(3,4) d by (auto simp: js_string_ok_def payload_size_def)
    moreover have "take to (js_units p) = units8 (js_u p) to"
      using narrow assms(4) by (simp add: js_units_def units8_def take_map)
    ultimately show ?thesis
      using False narrow string_buffer_write8_appends [OF assms(1,2), of b] by (simp add: string_buffer_concat_def)
  qed
qed

lemma sb_fill_loop_appends:
  assumes "js_mem_ok jm" "sb_ok s"
  shows "appends s (replicate n (ucast c)) (sb_fill_loop jm c n s)"
  using assms(2)
proof (induction n arbitrary: s)
  case (Suc n)
  have "appends s ([ucast c] @ replicate n (ucast c)) (sb_then (string_buffer_putc16 jm s c) (sb_fill_loop jm c n))"
    by (rule appends_then [OF string_buffer_putc16_appends [OF assms(1) Suc.prems]]) (rule Suc.IH)
  then show ?case by simp
qed simp

lemma string_buffer_fill_appends:
  assumes "js_mem_ok jm" "sb_ok s"
  shows "appends s (replicate n (ucast c)) (string_buffer_fill jm s c n)"
  unfolding string_buffer_fill_def
proof (rule sb_then_appends [where n = "sb_len s + n" and w = False])
  show "grows s (sb_len s + n) False
      (if sb_len s + n > sb_size s then string_buffer_realloc jm s (sb_len s + n) c else Some (s, 0))"
    using realloc_if_full [OF assms, of "sb_len s + n" c] by simp
qed (rule sb_fill_loop_appends [OF assms(1)])

lemma string_buffer_end_gives:
  assumes "js_mem_ok jm" "sb_ok s"
  shows "gives (sb_units s) (string_buffer_end jm s) \<and> (sb_err s \<longrightarrow> (\<exists>c. string_buffer_end jm s = Some (c, JS_EXCEPTION)))"
proof -
  consider (err) "sb_err s" | (empty) "\<not> sb_err s" "sb_len s = 0" | (some) "\<not> sb_err s" "sb_len s \<noteq> 0" by blast
  then show ?thesis
  proof cases
    case err
    then show ?thesis by (simp add: string_buffer_end_def)
  next
    case empty
    then have "sb_units s = []" using length_sb_units [OF assms(2)] by simp
    then show ?thesis
      using empty by (simp add: string_buffer_end_def js_empty_string_def js_string_ok_def payload_size_def js_units_def units8_def)
  next
    case some
    then obtain b where b: "sb_str s = Some b" "sb_block s = b" "sb_len s \<le> sb_size s" "payload_size (sb_size s) (sb_wide s) \<le> length b"
      using assms(2) by (auto simp: sb_ok_def sb_block_def)
    let ?n = "payload_size (sb_len s) (sb_wide s)"
    have n: "?n \<le> length b" using b(3,4) by (auto simp: payload_size_def split: if_splits)
    obtain ctx str where str: "(if sb_len s < sb_size s then
             (case jm_realloc jm (sb_ctx s) b ?n of (ctx, None) \<Rightarrow> (ctx, b) | (ctx, Some str) \<Rightarrow> (ctx, str))
           else (sb_ctx s, b)) = (ctx, str)" by fastforce
    have keep: "?n \<le> length str" "take ?n str = take ?n b"
      using str js_realloc_prefix [OF assms(1), of "sb_ctx s" b ?n] n
      by (auto simp: min_def split: if_splits prod.splits option.splits)
    have u8: "units8 str (sb_len s) = units8 b (sb_len s)" if "\<not> sb_wide s"
      by (rule units8_prefix [OF keep(2)]) (use that keep(1) n in \<open>auto simp: payload_size_def\<close>)
    have u16: "units16 str (sb_len s) = units16 b (sb_len s)" if "sb_wide s"
      by (rule units16_prefix [OF keep(2)]) (use that keep(1) n in \<open>auto simp: payload_size_def\<close>)
    show ?thesis
      using some b(1,2) str keep(1) u8 u16
      by (auto simp: string_buffer_end_def js_string_ok_def js_units_def sb_units_def payload_size_def)
  qed
qed

lemma string_buffer_init2_ok:
  assumes "js_mem_ok jm" "string_buffer_init2 jm ctx sz w = (s, ret)"
  shows "sb_ok s" "sb_units s = []" "ret \<noteq> 0 \<longleftrightarrow> sb_err s"
  using assms(2) by (cases rule: js_alloc_cases [OF assms(1), of ctx sz w];
      auto simp: string_buffer_init2_def sb_ok_def sb_units_def sb_block_def units16_def units8_def)+

section \<open>Sequences of operations\<close>

text \<open>Operations whose return value is dropped: the units are appended, or the buffer is in
  its error state afterwards.\<close>

definition extends :: "'o StringBuffer \<Rightarrow> u16 list \<Rightarrow> 'o StringBuffer option \<Rightarrow> bool" where
  "extends b xs r \<longleftrightarrow> (\<exists>b'. r = Some b' \<and> sb_ok b' \<and> (sb_err b' \<or> \<not> sb_err b \<and> sb_units b' = sb_units b @ xs))"

lemma appends_drop:
  assumes "appends b xs r"
  obtains b' ret where "r = Some (b', ret)" "extends b xs (Some b')"
  using assms by (auto simp: appends_def extends_def split: if_splits)

lemma extends_trans:
  assumes "extends b xs (Some b1)" "extends b1 ys r"
  shows "extends b (xs @ ys) r"
  using assms by (auto simp: extends_def)

lemma extends_err: "extends b xs (Some b') \<Longrightarrow> sb_ok b'"
  by (simp add: extends_def)

lemma surrogate_units:
  "appends s (if c \<ge> 0x10000 then [ucast (drop_bit 10 (c - 0x10000) + 0xd800), ucast (((c - 0x10000) AND 0x3ff) + 0xdc00)] else [ucast c])
     (string_buffer_putc jm s c)"
  if "js_mem_ok jm" "sb_ok s"
proof (cases "c \<ge> 0x10000")
  case True
  have "appends s ([ucast (drop_bit 10 (c - 0x10000) + 0xd800)] @ [ucast (((c - 0x10000) AND 0x3ff) + 0xdc00)])
     (sb_then (string_buffer_putc16 jm s (drop_bit 10 (c - 0x10000) + 0xd800))
        (\<lambda>s. string_buffer_putc16 jm s (((c - 0x10000) AND 0x3ff) + 0xdc00)))"
    using that by (intro appends_then string_buffer_putc16_appends) auto
  then show ?thesis using True by (simp add: string_buffer_putc_def Let_def)
qed (use string_buffer_putc16_appends [OF that] in \<open>simp add: string_buffer_putc_def\<close>)

datatype sb_op =
    Op_putc8 u32 | Op_putc16 u32 | Op_putc u32 | Op_write8 bytes | Op_write16 "u16 list"
  | Op_concat JSString nat nat | Op_fill u32 nat

fun sb_do :: "'o js_mem \<Rightarrow> sb_op \<Rightarrow> 'o StringBuffer \<Rightarrow> 'o sb_result" where
  "sb_do jm (Op_putc8 c) s = string_buffer_putc8 jm s c"
| "sb_do jm (Op_putc16 c) s = string_buffer_putc16 jm s c"
| "sb_do jm (Op_putc c) s = string_buffer_putc jm s c"
| "sb_do jm (Op_write8 p) s = string_buffer_write8 jm s p"
| "sb_do jm (Op_write16 p) s = string_buffer_write16 jm s p"
| "sb_do jm (Op_concat p from to) s = string_buffer_concat jm s p from to"
| "sb_do jm (Op_fill c n) s = string_buffer_fill jm s c n"

text \<open>The abstract effect of an operation, and when it may be called.\<close>

fun sb_spec :: "sb_op \<Rightarrow> u16 list" where
  "sb_spec (Op_putc8 c) = [ucast c]"
| "sb_spec (Op_putc16 c) = [ucast c]"
| "sb_spec (Op_putc c) =
     (if c \<ge> 0x10000 then [ucast (drop_bit 10 (c - 0x10000) + 0xd800), ucast (((c - 0x10000) AND 0x3ff) + 0xdc00)]
      else [ucast c])"
| "sb_spec (Op_write8 p) = map ucast p"
| "sb_spec (Op_write16 p) = p"
| "sb_spec (Op_concat p from to) = drop from (take to (js_units p))"
| "sb_spec (Op_fill c n) = replicate n (ucast c)"

fun sb_allowed :: "sb_op \<Rightarrow> bool" where
  "sb_allowed (Op_putc8 c) = (c < 0x100)"
| "sb_allowed (Op_concat p from to) = (js_string_ok p \<and> to \<le> js_len p)"
| "sb_allowed _ = True"

fun sb_run :: "'o js_mem \<Rightarrow> sb_op list \<Rightarrow> 'o StringBuffer \<Rightarrow> 'o StringBuffer option" where
  "sb_run jm [] s = Some s"
| "sb_run jm (x # xs) s = do { (s, _) \<leftarrow> sb_do jm x s; sb_run jm xs s }"

lemma sb_do_appends:
  assumes "js_mem_ok jm" "sb_ok s" "sb_allowed x"
  shows "appends s (sb_spec x) (sb_do jm x s)"
  using assms
  by (cases x) (simp_all add: string_buffer_putc8_appends string_buffer_putc16_appends surrogate_units [simplified]
      string_buffer_write8_appends string_buffer_write16_appends string_buffer_concat_appends
      string_buffer_fill_appends del: appends_Some)

lemma sb_run_extends:
  assumes "js_mem_ok jm" "sb_ok s" "list_all sb_allowed xs"
  shows "extends s (concat (map sb_spec xs)) (sb_run jm xs s)"
  using assms(2,3)
proof (induction xs arbitrary: s)
  case (Cons x xs)
  have "sb_allowed x" using Cons.prems by simp
  from sb_do_appends [OF assms(1) Cons.prems(1) this] obtain s1 ret where
    s1: "sb_do jm x s = Some (s1, ret)" "extends s (sb_spec x) (Some s1)" by (rule appends_drop)
  have "extends s1 (concat (map sb_spec xs)) (sb_run jm xs s1)"
    using Cons extends_err [OF s1(2)] by simp
  then have "extends s (sb_spec x @ concat (map sb_spec xs)) (sb_run jm xs s1)" by (rule extends_trans [OF s1(2)])
  then show ?case using s1(1) by simp
qed (auto simp: extends_def)

section \<open>Properties\<close>



end
