(* ===== verification/Js_String_Utf8.thy ===== *)
theory Js_String_Utf8
  imports Js_String_Buffer
begin

text \<open>
  Conversion between JavaScript strings and UTF-8 (\<open>quickjs.c\<close>, \<open>JS_NewStringLen\<close> and
  \<open>JS_ToCStringLen2\<close>), and \<open>JS_ConcatString3\<close>.  The writer stores through its pointer into a
  block that was sized before; a store outside of it is \<open>None\<close>, so the theorems also show
  that three bytes per unit are enough.
\<close>

section \<open>From UTF-8\<close>

function skip_tail :: "bytes \<Rightarrow> nat \<Rightarrow> nat" where
  "skip_tail m p = (if p < length m \<and> m ! p \<ge> 0x80 \<and> m ! p < 0xc0 then skip_tail m (p + 1) else p)"
  by pat_completeness auto
termination
  by (relation "measure (\<lambda>(m, p). length m - p)") auto

declare skip_tail.simps [simp del]

definition skip_invalid :: "bytes \<Rightarrow> nat \<Rightarrow> nat" where
  "skip_invalid m p =
     (let p = skip_tail m p in if p < length m then skip_tail m (p + 1) else p)"

text \<open>The units that the sequence at \<open>p\<close> stands for, and where the next one starts.\<close>

definition utf8_step :: "bytes \<Rightarrow> nat \<Rightarrow> (u32 list \<times> nat) option" where
  "utf8_step m p = do {
     r \<leftarrow> unicode_from_utf8 m p (length m - p);
     Some (case r of
         Some (c, p_next) \<Rightarrow>
           (if c < 0x10000 then ([c], p_next)
            else if c \<le> 0x10FFFF then
              (let c = c - 0x10000 in ([drop_bit 10 c + 0xd800, (c AND 0x3ff) + 0xdc00], p_next))
            else ([0xfffd], skip_invalid m p))
       | None \<Rightarrow> ([0xfffd], skip_invalid m p)) }"

lemma skip_tail_ge: "p \<le> skip_tail m p"
  by (induction m p rule: skip_tail.induct) (subst skip_tail.simps, auto)

lemma skip_invalid_gt: "p < length m \<Longrightarrow> p < skip_invalid m p"
proof (cases "skip_tail m p < length m")
  case True
  then show ?thesis
    using skip_tail_ge [of p m] skip_tail_ge [of "skip_tail m p + 1" m] by (simp add: skip_invalid_def Let_def)
next
  case False
  assume "p < length m"
  then show ?thesis using False skip_tail_ge [of p m] by (simp add: skip_invalid_def Let_def)
qed

lemma utf8_step_advances:
  assumes "utf8_step m p = Some (cs, p')" "p < length m"
  shows "p < p'"
proof -
  obtain r where r: "unicode_from_utf8 m p (length m - p) = Some r"
    using assms(1) by (auto simp: utf8_step_def split: Option.bind_splits)
  show ?thesis
  proof (cases r)
    case None
    then show ?thesis using assms r skip_invalid_gt [OF assms(2)] by (simp add: utf8_step_def)
  next
    case (Some x)
    obtain c q where x: "x = (c, q)" by (cases x)
    have "p < q" using unicode_from_utf8_shortest [of m p "length m - p" c q] r Some x by simp
    then show ?thesis
      using assms r Some x skip_invalid_gt [OF assms(2)] by (auto simp: utf8_step_def Let_def split: if_splits)
  qed
qed

text \<open>Return values of the stores are not looked at: after an error the buffer stays in its
  error state.\<close>

fun put_units :: "'o js_mem \<Rightarrow> u32 list \<Rightarrow> 'o StringBuffer \<Rightarrow> 'o StringBuffer option" where
  "put_units jm [] b = Some b"
| "put_units jm (c # cs) b = do { (b, _) \<leftarrow> string_buffer_putc16 jm b c; put_units jm cs b }"

function new_string_loop :: "'o js_mem \<Rightarrow> bytes \<Rightarrow> nat \<Rightarrow> 'o StringBuffer \<Rightarrow> 'o StringBuffer option" where
  "new_string_loop jm m p b =
     (if p < length m then
        (if m ! p < 128 then
           (case string_buffer_putc8 jm b (ucast (m ! p)) of
              None \<Rightarrow> None
            | Some (b, _) \<Rightarrow> new_string_loop jm m (p + 1) b)
         else
           (case utf8_step m p of
              None \<Rightarrow> None
            | Some (cs, p') \<Rightarrow>
                (case put_units jm cs b of None \<Rightarrow> None | Some b \<Rightarrow> new_string_loop jm m p' b)))
      else Some b)"
  by pat_completeness auto
termination
  by (relation "measure (\<lambda>(jm, m, p, b). length m - p)") (auto dest: utf8_step_advances)

declare new_string_loop.simps [simp del]

definition ascii_prefix :: "bytes \<Rightarrow> nat" where
  "ascii_prefix m = length (takeWhile (\<lambda>b. b < 128) m)"

definition JS_NewStringLen :: "'o js_mem \<Rightarrow> 'o \<Rightarrow> bytes \<Rightarrow> ('o \<times> js_result) option" where
  "JS_NewStringLen jm ctx buf =
     (let len1 = ascii_prefix buf
      in if len1 > JS_STRING_LEN_MAX then Some (ctx, JS_EXCEPTION)
         else if len1 = length buf then js_new_string8 jm ctx buf
         else (case string_buffer_init jm ctx (length buf) of
             (b, ret) \<Rightarrow>
               if ret \<noteq> 0 then Some (sb_ctx (string_buffer_free jm b), JS_EXCEPTION)
               else do {
                 (b, _) \<leftarrow> string_buffer_write8 jm b (take len1 buf);
                 b \<leftarrow> new_string_loop jm buf len1 b;
                 string_buffer_end jm b }))"

definition JS_ConcatString3 ::
    "'o js_mem \<Rightarrow> ('o, 'v) to_string \<Rightarrow> 'o \<Rightarrow> bytes \<Rightarrow> 'v JSValue \<Rightarrow> bytes \<Rightarrow> ('o \<times> js_result) option" where
  "JS_ConcatString3 jm ts ctx str1 str2 str3 =
     (case string_operand ts ctx str2 of
        (ctx, None) \<Rightarrow> Some (ctx, JS_EXCEPTION)
      | (ctx, Some (_, p)) \<Rightarrow>
          (case string_buffer_init2 jm ctx (length str1 + js_len p + length str3) (js_wide p) of
             (b, ret) \<Rightarrow>
               if ret \<noteq> 0 then Some (sb_ctx b, JS_EXCEPTION)
               else do {
                 (b, _) \<leftarrow> string_buffer_write8 jm b str1;
                 (b, _) \<leftarrow> string_buffer_concat jm b p 0 (js_len p);
                 (b, _) \<leftarrow> string_buffer_write8 jm b str3;
                 string_buffer_end jm b }))"

section \<open>To UTF-8\<close>

text \<open>\<open>q\<close> is the write position in the block of the new string.\<close>

fun cstring8_loop :: "bytes \<Rightarrow> nat \<Rightarrow> nat \<Rightarrow> nat \<Rightarrow> bytes \<Rightarrow> (nat \<times> bytes) option" where
  "cstring8_loop src pos 0 q u = Some (q, u)"
| "cstring8_loop src pos (Suc n) q u = do {
     c \<leftarrow> rd src pos;
     if c < 0x80 then do {
       u \<leftarrow> wr u q c;
       cstring8_loop src (pos + 1) n (q + 1) u }
     else do {
       u \<leftarrow> wr u q (drop_bit 6 c OR 0xc0);
       u \<leftarrow> wr u (q + 1) ((c AND 0x3f) OR 0x80);
       cstring8_loop src (pos + 1) n (q + 2) u } }"

function cstring16_loop :: "bool \<Rightarrow> bytes \<Rightarrow> nat \<Rightarrow> nat \<Rightarrow> nat \<Rightarrow> bytes \<Rightarrow> (nat \<times> bytes) option" where
  "cstring16_loop cesu8 src pos len q u =
     (if pos < len then
        (case rd16 src pos of
           None \<Rightarrow> None
         | Some c16 \<Rightarrow>
             (let c = ucast c16; pos = pos + 1
              in if c < 0x80 then
                   (case wr u q (ucast c) of None \<Rightarrow> None | Some u \<Rightarrow> cstring16_loop cesu8 src pos len (q + 1) u)
                 else if is_hi_surrogate c \<and> pos < len \<and> \<not> cesu8 then
                   (case rd16 src pos of
                      None \<Rightarrow> None
                    | Some c1 \<Rightarrow>
                        if is_lo_surrogate (ucast c1) then
                          (let bs = unicode_to_utf8 (from_surrogates c (ucast c1))
                           in case blit u q bs of
                                None \<Rightarrow> None
                              | Some u \<Rightarrow> cstring16_loop cesu8 src (pos + 1) len (q + length bs) u)
                        else
                          (let bs = unicode_to_utf8 c
                           in case blit u q bs of
                                None \<Rightarrow> None
                              | Some u \<Rightarrow> cstring16_loop cesu8 src pos len (q + length bs) u))
                 else
                   (let bs = unicode_to_utf8 c
                    in case blit u q bs of
                         None \<Rightarrow> None
                       | Some u \<Rightarrow> cstring16_loop cesu8 src pos len (q + length bs) u)))
      else Some (q, u))"
  by pat_completeness auto
termination
  by (relation "measure (\<lambda>(c, s, pos, len, q, u). len - pos)") auto

declare cstring16_loop.simps [simp del]

text \<open>The bytes up to the terminating zero, \<open>Some (ctx, None)\<close> for the return value \<open>NULL\<close>.\<close>

definition cstring_end :: "'o \<Rightarrow> nat \<times> bytes \<Rightarrow> ('o \<times> bytes option) option" where
  "cstring_end ctx r = (case r of (q, u) \<Rightarrow> do { u \<leftarrow> wr u q 0; Some (ctx, Some (take q u)) })"

definition JS_ToCStringLen2 ::
    "'o js_mem \<Rightarrow> ('o, 'v) to_string \<Rightarrow> 'o \<Rightarrow> 'v JSValue \<Rightarrow> bool \<Rightarrow> ('o \<times> bytes option) option" where
  "JS_ToCStringLen2 jm ts ctx val1 cesu8 =
     (case string_operand ts ctx val1 of
        (ctx, None) \<Rightarrow> Some (ctx, None)
      | (ctx, Some (_, str)) \<Rightarrow>
          if \<not> js_wide str then do {
            src \<leftarrow> rd_block (js_u str) 0 (js_len str);
            let count = length (filter (\<lambda>b. b \<ge> 0x80) src)
            in if count = 0 then Some (ctx, Some src)
               else case js_alloc_string_rt jm ctx (js_len str + count) False of
                   (ctx, None) \<Rightarrow> Some (ctx, None)
                 | (ctx, Some str_new) \<Rightarrow> do {
                     r \<leftarrow> cstring8_loop (js_u str) 0 (js_len str) 0 (js_u str_new);
                     cstring_end ctx r } }
          else
            (case js_alloc_string_rt jm ctx (js_len str * 3) False of
               (ctx, None) \<Rightarrow> Some (ctx, None)
             | (ctx, Some str_new) \<Rightarrow> do {
                 r \<leftarrow> cstring16_loop cesu8 (js_u str) 0 (js_len str) 0 (js_u str_new);
                 cstring_end ctx r }))"

section \<open>What the reader makes of the bytes\<close>

function decode_units :: "bytes \<Rightarrow> nat \<Rightarrow> u16 list" where
  "decode_units m p =
     (if p < length m then
        (if m ! p < 128 then ucast (m ! p) # decode_units m (p + 1)
         else (case utf8_step m p of None \<Rightarrow> [] | Some (cs, p') \<Rightarrow> map ucast cs @ decode_units m p'))
      else [])"
  by pat_completeness auto
termination
  by (relation "measure (\<lambda>(m, p). length m - p)") (auto dest: utf8_step_advances)

declare decode_units.simps [simp del]

lemma put_units_extends:
  assumes "js_mem_ok jm" "sb_ok b"
  shows "extends b (map ucast cs) (put_units jm cs b)"
  using assms(2)
proof (induction cs arbitrary: b)
  case (Cons c cs)
  obtain b1 ret where b1: "string_buffer_putc16 jm b c = Some (b1, ret)" "extends b [ucast c] (Some b1)"
    using string_buffer_putc16_appends [OF assms(1) Cons.prems] by (rule appends_drop)
  have "extends b1 (map ucast cs) (put_units jm cs b1)" using Cons.IH extends_err [OF b1(2)] by blast
  then have "extends b ([ucast c] @ map ucast cs) (put_units jm cs b1)" by (rule extends_trans [OF b1(2)])
  then show ?case using b1(1) by simp
qed (auto simp: extends_def)

lemma utf8_step_total:
  assumes "p < length m"
  shows "utf8_step m p \<noteq> None"
proof -
  have "1 \<le> length m - p" "p + (length m - p) \<le> length m" using assms by simp_all
  then obtain r where "unicode_from_utf8 m p (length m - p) = Some r"
    using unicode_from_utf8_safe by blast
  then show ?thesis by (simp add: utf8_step_def del: not_None_eq)
qed

lemma new_string_loop_extends:
  assumes "js_mem_ok jm" "sb_ok b"
  shows "extends b (decode_units m p) (new_string_loop jm m p b)"
  using assms
proof (induction jm m p b rule: new_string_loop.induct)
  case (1 jm m p b)
  note sim = new_string_loop.simps [of jm m p b] decode_units.simps [of m p]
  consider (fin) "\<not> p < length m" | (ascii) "p < length m" "m ! p < 128" | (multi) "p < length m" "\<not> m ! p < 128" by blast
  then show ?case
  proof cases
    case fin
    then show ?thesis using 1(4) by (simp add: sim extends_def)
  next
    case ascii
    have "(ucast (m ! p) :: u32) < 0x100"
    proof -
      have "unat (m ! p) < 256" using unsigned_less [of "m ! p", where ?'a = nat] by simp
      moreover from this have "unat (ucast (m ! p) :: u32) = unat (m ! p)" by (intro unat_ucast_small) simp
      ultimately show ?thesis by (simp add: word_less_nat_alt)
    qed
    from string_buffer_putc8_appends [OF 1(3,4) this] obtain b1 ret where
      b1: "string_buffer_putc8 jm b (ucast (m ! p)) = Some (b1, ret)" "extends b [ucast (ucast (m ! p) :: u32)] (Some b1)"
      by (rule appends_drop)
    have "extends b1 (decode_units m (p + 1)) (new_string_loop jm m (p + 1) b1)"
      using 1(1) [OF ascii b1(1) refl 1(3) extends_err [OF b1(2)]] .
    then have "extends b ([ucast (ucast (m ! p) :: u32)] @ decode_units m (p + 1)) (new_string_loop jm m (p + 1) b1)"
      by (rule extends_trans [OF b1(2)])
    moreover have "(ucast (ucast (m ! p) :: u32) :: u16) = ucast (m ! p)" by (rule bit_word_eqI) (auto simp: bit_simps)
    ultimately show ?thesis using ascii b1(1) by (simp add: sim)
  next
    case multi
    obtain cs p' where st: "utf8_step m p = Some (cs, p')" using utf8_step_total [OF multi(1)] by auto
    obtain b1 where b1: "put_units jm cs b = Some b1" "extends b (map ucast cs) (Some b1)"
      using put_units_extends [OF 1(3,4), of cs] by (auto simp: extends_def)
    have "extends b1 (decode_units m p') (new_string_loop jm m p' b1)"
      using 1(2) [OF multi st refl b1(1) 1(3) extends_err [OF b1(2)]] .
    then have "extends b (map ucast cs @ decode_units m p') (new_string_loop jm m p' b1)"
      by (rule extends_trans [OF b1(2)])
    then show ?thesis using multi st b1(1) by (simp add: sim)
  qed
qed

lemma decode_ascii_prefix:
  assumes "n \<le> ascii_prefix m" "p \<le> n"
  shows "decode_units m p = map ucast (drop p (take n m)) @ decode_units m n"
  using assms
proof (induction "n - p" arbitrary: p)
  case (Suc k)
  have len: "ascii_prefix m \<le> length m" by (simp add: ascii_prefix_def length_takeWhile_le)
  then have p: "p < n" "p < length m" using Suc by linarith+
  have "m ! p < 128"
    using p Suc.prems takeWhile_nth [of p "\<lambda>b. b < 128" m] nth_mem [of p "takeWhile (\<lambda>b. b < 128) m"]
    by (auto simp: ascii_prefix_def dest!: set_takeWhileD)
  moreover have "decode_units m (p + 1) = map ucast (drop (p + 1) (take n m)) @ decode_units m n"
    using Suc p by (intro Suc.hyps(1)) auto
  ultimately show ?case
    using p len Suc.prems drop_step [of p n m] by (simp add: decode_units.simps [of m p])
qed simp

lemma JS_NewStringLen_gives:
  assumes "js_mem_ok jm"
  shows "gives (decode_units buf 0) (JS_NewStringLen jm ctx buf)"
proof -
  let ?n = "ascii_prefix buf"
  have pre: "decode_units buf 0 = map ucast (take ?n buf) @ decode_units buf ?n"
    using decode_ascii_prefix [of ?n buf 0] by simp
  obtain b ret where b: "string_buffer_init jm ctx (length buf) = (b, ret)" by (cases "string_buffer_init jm ctx (length buf)")
  note ini = string_buffer_init2_ok [OF assms b [unfolded string_buffer_init_def]]
  consider (long) "?n > JS_STRING_LEN_MAX" | (ascii) "\<not> ?n > JS_STRING_LEN_MAX" "?n = length buf"
    | (nomem) "\<not> ?n > JS_STRING_LEN_MAX" "?n \<noteq> length buf" "ret \<noteq> 0"
    | (run) "\<not> ?n > JS_STRING_LEN_MAX" "?n \<noteq> length buf" "ret = 0" by blast
  then show ?thesis
  proof cases
    case long
    then show ?thesis by (simp add: JS_NewStringLen_def)
  next
    case ascii
    then have "decode_units buf 0 = map ucast buf" using pre by (simp add: decode_units.simps [of buf "length buf"])
    then show ?thesis using ascii js_new_string8_gives [OF assms] by (simp add: JS_NewStringLen_def)
  next
    case nomem
    then show ?thesis using b by (simp add: JS_NewStringLen_def)
  next
    case run
    obtain b1 r1 where b1: "string_buffer_write8 jm b (take ?n buf) = Some (b1, r1)" "extends b (map ucast (take ?n buf)) (Some b1)"
      using string_buffer_write8_appends [OF assms ini(1)] by (rule appends_drop)
    obtain b2 where b2: "new_string_loop jm buf ?n b1 = Some b2" "extends b1 (decode_units buf ?n) (Some b2)"
      using new_string_loop_extends [OF assms extends_err [OF b1(2)]] by (auto simp: extends_def)
    have "extends b (decode_units buf 0) (Some b2)" unfolding pre by (rule extends_trans [OF b1(2) b2(2)])
    then have "sb_ok b2" "sb_err b2 \<or> sb_units b2 = decode_units buf 0" using ini by (auto simp: extends_def)
    then have "gives (decode_units buf 0) (string_buffer_end jm b2)"
      using string_buffer_end_gives [OF assms, of b2] by auto
    then show ?thesis using run b b1(1) b2(1) by (simp add: JS_NewStringLen_def)
  qed
qed

section \<open>What the writer produces\<close>

fun utf8_of_units :: "bool \<Rightarrow> u16 list \<Rightarrow> bytes" where
  "utf8_of_units cesu8 [] = []"
| "utf8_of_units cesu8 [c] = unicode_to_utf8 (ucast c)"
| "utf8_of_units cesu8 (c # c1 # cs) =
     (if is_hi_surrogate (ucast c) \<and> is_lo_surrogate (ucast c1) \<and> \<not> cesu8
      then unicode_to_utf8 (from_surrogates (ucast c) (ucast c1)) @ utf8_of_units cesu8 cs
      else unicode_to_utf8 (ucast c) @ utf8_of_units cesu8 (c1 # cs))"

lemma unat_u16_u32: "unat (ucast c :: u32) = unat c" for c :: u16
  using unsigned_less [of c, where ?'a = nat] by (intro unat_ucast_small) simp

lemma unit_less: "(ucast c :: u32) < 0x10000" for c :: u16
  using unsigned_less [of c, where ?'a = nat] by (simp add: word_less_nat_alt unat_u16_u32)

lemma unit_cast_cast: "(ucast (ucast c :: u32) :: u16) = c" for c :: u16
  by (rule bit_word_eqI) (auto simp: bit_simps)

text \<open>A surrogate pair and its code point.\<close>

lemma mod_block:
  fixes x :: nat
  assumes "k * 1024 \<le> x" "x < (k + 1) * 1024"
  shows "x mod 1024 + k * 1024 = x"
proof -
  have "x div 1024 = k" using assms by (intro div_nat_eqI) auto
  then show ?thesis using mult_div_mod_eq [of 1024 x] by simp
qed

lemmas surrogate_base = mod_block [of 54, simplified] mod_block [of 55, simplified]

lemma surrogate_pair:
  assumes "is_hi_surrogate hi" "is_lo_surrogate lo"
  defines "c \<equiv> from_surrogates hi lo"
  shows "0x10000 \<le> c" "c \<le> 0x10FFFF" "drop_bit 10 (c - 0x10000) + 0xd800 = hi" "((c - 0x10000) AND 0x3ff) + 0xdc00 = lo"
proof -
  let ?d = "push_bit 10 (hi AND 0x3ff) OR (lo AND 0x3ff)"
  have m: "(0x3ff :: u32) = mask 10" by (simp add: mask_eq_exp_minus_1)
  have "?d = ?d AND mask 20" unfolding m by (rule bit_word_eqI) (auto simp: bit_simps)
  then have "unat ?d = unat ?d mod 2 ^ 20" using unat_and_mask [of ?d 20] by simp
  then have d: "unat ?d < 2 ^ 20" using mod_less_divisor [of "2 ^ 20" "unat ?d"] by simp
  have c: "c = ?d + 0x10000" by (simp add: c_def from_surrogates_def)
  have uc: "unat c = unat ?d + 0x10000" using d unfolding c by (simp add: unat_word_ariths)
  show "0x10000 \<le> c" "c \<le> 0x10FFFF" using uc d by (simp_all add: word_le_nat_alt)
  have cd: "c - 0x10000 = ?d" by (simp add: c)
  have hi: "unat (hi AND 0x3ff) = unat hi mod 1024" "unat (lo AND 0x3ff) = unat lo mod 1024"
    using unat_and_mask [of hi 10] unat_and_mask [of lo 10] unfolding m by simp_all
  have "drop_bit 10 ?d = hi AND 0x3ff" unfolding m by (rule bit_word_eqI) (auto simp: bit_simps)
  moreover have "(hi AND 0x3ff) + 0xd800 = hi"
    using assms(1) hi by (auto simp: is_hi_surrogate_def word_unat_eq_iff unat_word_ariths word_le_nat_alt word_less_nat_alt surrogate_base)
  ultimately show "drop_bit 10 (c - 0x10000) + 0xd800 = hi" unfolding cd by simp
  have "?d AND 0x3ff = lo AND 0x3ff" unfolding m by (rule bit_word_eqI) (auto simp: bit_simps)
  moreover have "(lo AND 0x3ff) + 0xdc00 = lo"
    using assms(2) hi by (auto simp: is_lo_surrogate_def word_unat_eq_iff unat_word_ariths word_le_nat_alt word_less_nat_alt surrogate_base)
  ultimately show "((c - 0x10000) AND 0x3ff) + 0xdc00 = lo" unfolding cd by simp
qed

lemma utf8_first_byte:
  assumes "c < 0x80000000"
  shows "unicode_to_utf8 c \<noteq> []" "unicode_to_utf8 c ! 0 < 128 \<longleftrightarrow> c < 0x80" "c < 0x80 \<Longrightarrow> unicode_to_utf8 c = [ucast c]"
proof -
  show ne: "unicode_to_utf8 c \<noteq> []" using assms by (simp add: unicode_to_utf8_def)
  show a: "c < 0x80 \<Longrightarrow> unicode_to_utf8 c = [ucast c]" by (simp add: unicode_to_utf8_def)
  have dec: "unicode_from_utf8 (unicode_to_utf8 c) 0 (length (unicode_to_utf8 c)) = Some (Some (c, length (unicode_to_utf8 c)))"
    using unicode_from_utf8_encoded [OF assms order_refl, of "[]" "[]"] by simp
  show "unicode_to_utf8 c ! 0 < 128 \<longleftrightarrow> c < 0x80"
  proof
    assume lt: "unicode_to_utf8 c ! 0 < 128"
    then have "c = ucast (unicode_to_utf8 c ! 0)" using dec ne by (simp add: unicode_from_utf8_def)
    moreover have "unat (ucast (unicode_to_utf8 c ! 0) :: u32) = unat (unicode_to_utf8 c ! 0)"
      using unsigned_less [of "unicode_to_utf8 c ! 0", where ?'a = nat] by (intro unat_ucast_small) simp
    ultimately show "c < 0x80" using lt by (simp add: word_less_nat_alt)
  next
    assume "c < 0x80"
    moreover from this have "unat (ucast c :: u8) = unat c" by (intro unat_ucast_small) (simp add: word_less_nat_alt)
    ultimately show "unicode_to_utf8 c ! 0 < 128" using a by (simp add: word_less_nat_alt)
  qed
qed

lemma utf8_step_encoded:
  assumes "c \<le> 0x10FFFF"
  shows "utf8_step (pre @ unicode_to_utf8 c @ post) (length pre) =
    Some (if c < 0x10000 then [c] else [drop_bit 10 (c - 0x10000) + 0xd800, ((c - 0x10000) AND 0x3ff) + 0xdc00],
      length pre + length (unicode_to_utf8 c))"
proof -
  have c: "c < 0x80000000" using assms by (rule le_less_trans) simp
  have "length (unicode_to_utf8 c) \<le> length (pre @ unicode_to_utf8 c @ post) - length pre" by simp
  from unicode_from_utf8_encoded [OF c this, of pre post] show ?thesis
    using assms by (simp add: utf8_step_def Let_def)
qed

text \<open>Decoding one encoded code point.\<close>

lemma decode_encoded:
  assumes "c \<le> 0x10FFFF"
  shows "decode_units (pre @ unicode_to_utf8 c @ post) (length pre) =
    map ucast (if c < 0x10000 then [c] else [drop_bit 10 (c - 0x10000) + 0xd800, ((c - 0x10000) AND 0x3ff) + 0xdc00]) @
    decode_units (pre @ unicode_to_utf8 c @ post) (length pre + length (unicode_to_utf8 c))"
proof -
  have c: "c < 0x80000000" using assms by (rule le_less_trans) simp
  let ?m = "pre @ unicode_to_utf8 c @ post"
  have lt: "length pre < length ?m" using utf8_first_byte(1) [OF c] by simp
  have b: "?m ! length pre = unicode_to_utf8 c ! 0" using utf8_first_byte(1) [OF c] by (simp add: nth_append)
  show ?thesis
  proof (cases "c < 0x80")
    case True
    then have "c < 0x10000" by (rule less_le_trans) simp
    moreover have "unicode_to_utf8 c = [ucast c]" using True by (rule utf8_first_byte(3) [OF c])
    moreover have "?m ! length pre < 128" using b utf8_first_byte(2) [OF c] True by simp
    moreover have "(ucast (ucast c :: u8) :: u16) = ucast c"
    proof -
      have "unat c < 128" using True by (simp add: word_less_nat_alt)
      then have "unat (ucast c :: u8) = unat c" "unat (ucast c :: u16) = unat c" by (intro unat_ucast_small; simp)+
      moreover have "unat (ucast (ucast c :: u8) :: u16) = unat (ucast c :: u8)"
        using \<open>unat c < 128\<close> calculation by (intro unat_ucast_small) simp
      ultimately show ?thesis by (simp add: word_unat_eq_iff)
    qed
    ultimately show ?thesis using lt decode_units.simps [of ?m "length pre"] by simp
  next
    case False
    then have "\<not> ?m ! length pre < 128" using b utf8_first_byte(2) [OF c] by simp
    then show ?thesis
      using lt utf8_step_encoded [OF assms, of pre post] decode_units.simps [of ?m "length pre"] by simp
  qed
qed

lemma decode_utf8_of_units:
  "decode_units (pre @ utf8_of_units cesu8 us) (length pre) = us"
proof (induction cesu8 us arbitrary: pre rule: utf8_of_units.induct)
  case (1 cesu8)
  then show ?case by (simp add: decode_units.simps)
next
  case (2 cesu8 c)
  have le: "(ucast c :: u32) \<le> 0x10FFFF" using unit_less [of c] by (rule order_less_imp_le [OF less_trans]) simp
  show ?case
    using decode_encoded [OF le, of pre "[]"] unit_less [of c] unit_cast_cast [of c]
    by (simp add: decode_units.simps [of _ "length pre + length (unicode_to_utf8 (ucast c))"])
next
  case (3 cesu8 c c1 cs)
  let ?pair = "is_hi_surrogate (ucast c) \<and> is_lo_surrogate (ucast c1) \<and> \<not> cesu8"
  have le: "(ucast c :: u32) \<le> 0x10FFFF" using unit_less [of c] by (rule order_less_imp_le [OF less_trans]) simp
  show ?case
  proof (cases ?pair)
    case True
    let ?c = "from_surrogates (ucast c) (ucast c1)"
    note p = surrogate_pair [of "ucast c" "ucast c1"]
    have big: "\<not> ?c < 0x10000" using p(1) True by (simp add: not_less)
    have "decode_units ((pre @ unicode_to_utf8 ?c) @ utf8_of_units cesu8 cs) (length (pre @ unicode_to_utf8 ?c)) = cs"
      using 3(1) True by blast
    then show ?thesis
      using True p big decode_encoded [of ?c pre "utf8_of_units cesu8 cs"] unit_cast_cast by simp
  next
    case False
    have "decode_units ((pre @ unicode_to_utf8 (ucast c)) @ utf8_of_units cesu8 (c1 # cs)) (length (pre @ unicode_to_utf8 (ucast c))) = c1 # cs"
      using 3(2) False by blast
    then show ?thesis
      using False decode_encoded [OF le, of pre "utf8_of_units cesu8 (c1 # cs)"] unit_less [of c] unit_cast_cast [of c] by auto
  qed
qed

section \<open>The writer\<close>

lemma unit_utf8_length: "length (unicode_to_utf8 (ucast c)) \<le> 3" for c :: u16
  using unit_less [of c] by (auto simp: unicode_to_utf8_def)

lemma pair_utf8_length: "c \<le> 0x10FFFF \<Longrightarrow> length (unicode_to_utf8 c) \<le> 4"
proof -
  assume "c \<le> 0x10FFFF"
  then have "c < 0x00200000" by (rule le_less_trans) simp
  then show ?thesis by (simp add: unicode_to_utf8_def)
qed

text \<open>The block holds \<open>out\<close> up to the write position.\<close>

definition wrote :: "bytes \<Rightarrow> nat \<Rightarrow> bytes \<Rightarrow> (nat \<times> bytes) option \<Rightarrow> bool" where
  "wrote u q out r \<longleftrightarrow> (\<exists>u'. r = Some (q + length out, u') \<and> length u' = length u \<and> take (q + length out) u' = take q u @ out)"

lemma wrote_blit:
  assumes "blit u q bs = Some u1" "wrote u1 (q + length bs) out r"
  shows "wrote u q (bs @ out) r"
  using assms by (auto simp: wrote_def blit_Some add.assoc)

lemma wrote_none: "q \<le> length u \<Longrightarrow> wrote u q [] (Some (q, u))"
  by (simp add: wrote_def)

lemma wr_blit: "wr u q b = blit u q [b]"
  by (simp add: wr_def blit_def upd_conv_take_nth_drop)

lemma utf8_of_units_single:
  assumes "\<not> (is_hi_surrogate (ucast c) \<and> cs \<noteq> [] \<and> is_lo_surrogate (ucast (hd cs)) \<and> \<not> cesu8)"
  shows "utf8_of_units cesu8 (c # cs) = unicode_to_utf8 (ucast c) @ utf8_of_units cesu8 cs"
  using assms by (cases cs) auto

lemma cstring16_single:
  assumes "rd16 src pos = Some c" "pos < len"
    and "\<And>c1. pos + 1 < len \<Longrightarrow> \<exists>c1. rd16 src (pos + 1) = Some c1"
    and "\<And>c1. is_hi_surrogate (ucast c) \<Longrightarrow> pos + 1 < len \<Longrightarrow> \<not> cesu8 \<Longrightarrow> rd16 src (pos + 1) = Some c1 \<Longrightarrow> \<not> is_lo_surrogate (ucast c1)"
  shows "cstring16_loop cesu8 src pos len q u =
    (case blit u q (unicode_to_utf8 (ucast c)) of
       None \<Rightarrow> None
     | Some u \<Rightarrow> cstring16_loop cesu8 src (pos + 1) len (q + length (unicode_to_utf8 (ucast c))) u)"
proof (cases "(ucast c :: u32) < 0x80")
  case True
  then have "unicode_to_utf8 (ucast c) = [ucast (ucast c :: u32)]" by (simp add: unicode_to_utf8_def)
  then show ?thesis using assms(1,2) True by (simp add: cstring16_loop.simps [of cesu8 src pos] wr_blit cong: option.case_cong)
next
  case False
  then show ?thesis
    using assms by (cases "pos + 1 < len") (auto simp: cstring16_loop.simps [of cesu8 src pos] Let_def cong: option.case_cong)
qed

lemma cstring16_pair:
  assumes "rd16 src pos = Some c" "pos + 1 < len" "rd16 src (pos + 1) = Some c1" "\<not> cesu8"
    and "is_hi_surrogate (ucast c)" "is_lo_surrogate (ucast c1)"
  shows "cstring16_loop cesu8 src pos len q u =
    (case blit u q (unicode_to_utf8 (from_surrogates (ucast c) (ucast c1))) of
       None \<Rightarrow> None
     | Some u \<Rightarrow> cstring16_loop cesu8 src (pos + 2) len (q + length (unicode_to_utf8 (from_surrogates (ucast c) (ucast c1)))) u)"
proof -
  have "\<not> (ucast c :: u32) < 0x80" using assms(5) by (auto simp: is_hi_surrogate_def word_le_nat_alt word_less_nat_alt)
  then show ?thesis using assms by (simp add: cstring16_loop.simps [of False src pos] Let_def cong: option.case_cong)
qed

lemma cstring16_loop_wrote:
  assumes "2 * len \<le> length src" "pos \<le> len" "q + 3 * (len - pos) \<le> length u"
  shows "wrote u q (utf8_of_units cesu8 (drop pos (units16 src len))) (cstring16_loop cesu8 src pos len q u)"
  using assms(2,3)
proof (induction "len - pos" arbitrary: pos q u rule: less_induct)
  case less
  let ?us = "units16 src len"
  show ?case
  proof (cases "pos < len")
    case False
    then show ?thesis using less(2,3) by (simp add: cstring16_loop.simps [of cesu8 src len len] wrote_none)
  next
    case True
    let ?c = "?us ! pos" and ?c1 = "?us ! (pos + 1)"
    have c: "rd16 src pos = Some ?c" using units16_nth [OF True assms(1)] .
    have c1: "rd16 src (pos + 1) = Some ?c1" if "pos + 1 < len" using units16_nth [OF that assms(1)] .
    have d: "drop pos ?us = ?c # drop (pos + 1) ?us" using True by (simp add: Cons_nth_drop_Suc)
    show ?thesis
    proof (cases "is_hi_surrogate (ucast ?c) \<and> pos + 1 < len \<and> \<not> cesu8 \<and> is_lo_surrogate (ucast ?c1)")
      case pair: True
      let ?bs = "unicode_to_utf8 (from_surrogates (ucast ?c) (ucast ?c1))"
      have "length ?bs \<le> 4" using surrogate_pair(2) pair by (intro pair_utf8_length) blast
      then have room: "q + length ?bs + 3 * (len - (pos + 2)) \<le> length u" using less(3) pair by linarith
      then obtain u1 where u1: "blit u q ?bs = Some u1" by (simp add: blit_def)
      have d2: "drop (pos + 1) ?us = ?c1 # drop (pos + 2) ?us" using pair by (simp add: Cons_nth_drop_Suc)
      have "wrote u1 (q + length ?bs) (utf8_of_units cesu8 (drop (pos + 2) ?us)) (cstring16_loop cesu8 src (pos + 2) len (q + length ?bs) u1)"
        by (rule less(1)) (use pair room blit_length [OF u1] in auto)
      then show ?thesis
        using wrote_blit [OF u1] cstring16_pair [OF c _ c1, of len cesu8 q u] pair u1 d d2 by simp
    next
      case single: False
      let ?bs = "unicode_to_utf8 (ucast ?c)"
      have room: "q + length ?bs + 3 * (len - (pos + 1)) \<le> length u"
        using unit_utf8_length [of ?c] less(3) True by linarith
      then obtain u1 where u1: "blit u q ?bs = Some u1" by (simp add: blit_def)
      have "wrote u1 (q + length ?bs) (utf8_of_units cesu8 (drop (pos + 1) ?us)) (cstring16_loop cesu8 src (pos + 1) len (q + length ?bs) u1)"
        by (rule less(1)) (use True room blit_length [OF u1] in auto)
      moreover have "utf8_of_units cesu8 (drop pos ?us) = ?bs @ utf8_of_units cesu8 (drop (pos + 1) ?us)"
      proof -
        have "hd (drop (pos + 1) ?us) = ?c1" if "pos + 1 < len" using that by (intro hd_drop_conv_nth) simp
        then have "\<not> (is_hi_surrogate (ucast ?c) \<and> drop (pos + 1) ?us \<noteq> [] \<and>
            is_lo_surrogate (ucast (hd (drop (pos + 1) ?us))) \<and> \<not> cesu8)"
          using single by (cases "pos + 1 < len") auto
        then show ?thesis unfolding d by (rule utf8_of_units_single)
      qed
      moreover have "cstring16_loop cesu8 src pos len q u = cstring16_loop cesu8 src (pos + 1) len (q + length ?bs) u1"
        using cstring16_single [OF c True, of cesu8 q u] c1 single u1 by auto
      ultimately show ?thesis using wrote_blit [OF u1] by simp
    qed
  qed
qed

lemma byte_utf8:
  fixes b :: u8
  assumes "\<not> b < 0x80"
  shows "unicode_to_utf8 (ucast (ucast b :: u16)) = [drop_bit 6 b OR 0xc0, (b AND 0x3f) OR 0x80]"
proof -
  have "list_all (\<lambda>n. let b = word_of_nat n :: u8 in \<not> b < 0x80 \<longrightarrow>
      unicode_to_utf8 (ucast (ucast b :: u16)) = [drop_bit 6 b OR 0xc0, (b AND 0x3f) OR 0x80]) [0..<256]"
    by code_simp
  then have "\<forall>b::u8. \<not> b < 0x80 \<longrightarrow> unicode_to_utf8 (ucast (ucast b :: u16)) = [drop_bit 6 b OR 0xc0, (b AND 0x3f) OR 0x80]"
    unfolding u8_exhaust by (simp add: list_all_iff Let_def)
  then show ?thesis using assms by blast
qed

lemma utf8_of_bytes:
  fixes b :: u8
  shows "utf8_of_units cesu8 (map ucast (b # bs)) = unicode_to_utf8 (ucast (ucast b :: u16)) @ utf8_of_units cesu8 (map ucast bs)"
proof -
  have "\<not> is_hi_surrogate (ucast (ucast b :: u16))"
    using unsigned_less [of b, where ?'a = nat] uint_u8_u16 [of b]
    by (simp add: is_hi_surrogate_def word_le_nat_alt unat_u16_u32 unat_ucast_small)
  then show ?thesis by (simp add: utf8_of_units_single)
qed

lemma cstring8_loop_wrote:
  assumes "pos + n \<le> length src" "q + length (utf8_of_units cesu8 (map ucast (take n (drop pos src)))) \<le> length u"
  shows "wrote u q (utf8_of_units cesu8 (map ucast (take n (drop pos src)))) (cstring8_loop src pos n q u)"
  using assms
proof (induction n arbitrary: pos q u)
  case (Suc n)
  let ?b = "src ! pos" and ?bs = "unicode_to_utf8 (ucast (ucast (src ! pos) :: u16))"
  have d: "take (Suc n) (drop pos src) = ?b # take n (drop (pos + 1) src)"
    using Suc.prems(1) by (simp add: Cons_nth_drop_Suc [symmetric])
  have room: "q + length ?bs + length (utf8_of_units cesu8 (map ucast (take n (drop (pos + 1) src)))) \<le> length u"
    using Suc.prems(2) unfolding d utf8_of_bytes by simp
  then obtain u1 where u1: "blit u q ?bs = Some u1" by (simp add: blit_def)
  have "wrote u1 (q + length ?bs) (utf8_of_units cesu8 (map ucast (take n (drop (pos + 1) src)))) (cstring8_loop src (pos + 1) n (q + length ?bs) u1)"
    using Suc.IH [of "pos + 1" "q + length ?bs" u1] Suc.prems(1) room blit_length [OF u1] by simp
  moreover have "cstring8_loop src pos (Suc n) q u = cstring8_loop src (pos + 1) n (q + length ?bs) u1"
  proof (cases "?b < 0x80")
    case True
    have "unat (ucast (ucast ?b :: u16) :: u32) = unat ?b"
      using unsigned_less [of ?b, where ?'a = nat] by (simp add: unat_u16_u32 unat_ucast_small)
    then have "?bs = [?b]"
      using True by (simp add: unicode_to_utf8_def word_less_nat_alt word_unat_eq_iff unat_ucast_small)
    then show ?thesis using True u1 Suc.prems(1) by (simp add: wr_blit)
  next
    case False
    then have bs: "?bs = [drop_bit 6 ?b OR 0xc0, (?b AND 0x3f) OR 0x80]" by (rule byte_utf8)
    have "wr u q x \<bind> (\<lambda>u. wr u (q + 1) y) = blit u q [x, y]" if "q + 2 \<le> length u" for x y
      using that by (simp add: wr_def blit_def upd_conv_take_nth_drop nth_append take_Suc_conv_app_nth)
    then have "wr u q (drop_bit 6 ?b OR 0xc0) \<bind> (\<lambda>u. wr u (q + 1) ((?b AND 0x3f) OR 0x80)) = Some u1"
      using u1 bs room by simp
    then show ?thesis using False bs Suc.prems(1) by (auto split: Option.bind_splits)
  qed
  ultimately show ?case using wrote_blit [OF u1] unfolding d utf8_of_bytes by simp
qed (simp add: wrote_none)

lemma cstring_end_wrote:
  assumes "wrote u 0 out r" "length out < length u"
  shows "(r \<bind> cstring_end ctx) = Some (ctx, Some out)"
  using assms by (auto simp: wrote_def cstring_end_def)

lemma utf8_of_bytes_length:
  "length (utf8_of_units cesu8 (map ucast bs)) = length bs + length (filter (\<lambda>b. b \<ge> 0x80) bs)" for bs :: bytes
proof (induction bs)
  case (Cons b bs)
  have "length (unicode_to_utf8 (ucast (ucast b :: u16))) = (if b \<ge> 0x80 then 2 else 1)"
  proof (cases "b < 0x80")
    case True
    have "unat (ucast (ucast b :: u16) :: u32) = unat b"
      using unsigned_less [of b, where ?'a = nat] by (simp add: unat_u16_u32 unat_ucast_small)
    then show ?thesis using True by (simp add: unicode_to_utf8_def word_less_nat_alt word_le_nat_alt)
  qed (simp add: byte_utf8 not_less)
  then show ?case using Cons utf8_of_bytes [of cesu8 b bs] by simp
qed simp

lemma ascii_utf8: "filter (\<lambda>b. b \<ge> 0x80) bs = [] \<Longrightarrow> utf8_of_units cesu8 (map ucast bs) = bs" for bs :: bytes
proof (induction bs)
  case (Cons b bs)
  then have b: "b < 0x80" by (auto simp: not_le split: if_splits)
  have "unat (ucast (ucast b :: u16) :: u32) = unat b"
    using unsigned_less [of b, where ?'a = nat] by (simp add: unat_u16_u32 unat_ucast_small)
  then have "unicode_to_utf8 (ucast (ucast b :: u16)) = [b]"
    using b by (simp add: unicode_to_utf8_def word_less_nat_alt word_unat_eq_iff unat_ucast_small)
  then show ?case using Cons utf8_of_bytes [of cesu8 b bs] by (simp split: if_splits)
qed simp

lemma JS_ToCStringLen2_bytes:
  assumes "js_mem_ok jm" "js_string_ok p"
  shows "\<exists>ctx' r. JS_ToCStringLen2 jm ts ctx (JS_TAG_STRING n p) cesu8 = Some (ctx', r) \<and>
    (r = None \<or> r = Some (utf8_of_units cesu8 (js_units p)))"
proof (cases "js_wide p")
  case False
  then have len: "js_len p + 1 \<le> length (js_u p)" using assms(2) by (simp add: js_string_ok_def payload_size_def)
  let ?src = "take (js_len p) (js_u p)"
  have src: "rd_block (js_u p) 0 (js_len p) = Some ?src" "js_units p = map ucast ?src" "length ?src = js_len p"
    using False len by (simp_all add: rd_block_def js_units_def units8_def)
  let ?count = "length (filter (\<lambda>b. b \<ge> 0x80) ?src)"
  show ?thesis
  proof (cases "?count = 0")
    case True
    then show ?thesis
      using False src ascii_utf8 [of ?src cesu8] by (simp add: JS_ToCStringLen2_def string_operand_def)
  next
    case nz: False
    from assms(1) show ?thesis
    proof (cases rule: js_alloc_cases [of jm ctx "js_len p + ?count" False])
      case (2 ctx' b)
      have out: "length (utf8_of_units cesu8 (js_units p)) = js_len p + ?count"
        using utf8_of_bytes_length [of cesu8 ?src] src by simp
      then have "wrote b 0 (utf8_of_units cesu8 (js_units p)) (cstring8_loop (js_u p) 0 (js_len p) 0 b)"
        using cstring8_loop_wrote [of 0 "js_len p" "js_u p" 0 cesu8 b] len src 2(2) by (simp add: payload_size_def)
      from cstring_end_wrote [OF this, of ctx'] show ?thesis
        using False src nz 2 out by (simp add: JS_ToCStringLen2_def string_operand_def payload_size_def)
    qed (use False src nz in \<open>simp add: JS_ToCStringLen2_def string_operand_def\<close>)
  qed
next
  case True
  then have len: "2 * js_len p \<le> length (js_u p)" using assms(2) by (simp add: js_string_ok_def payload_size_def)
  have u: "js_units p = drop 0 (units16 (js_u p) (js_len p))" using True by (simp add: js_units_def)
  from assms(1) show ?thesis
  proof (cases rule: js_alloc_cases [of jm ctx "js_len p * 3" False])
    case (2 ctx' b)
    then have room: "0 + 3 * (js_len p - 0) \<le> length (butlast b)" by (simp add: payload_size_def)
    have w0: "wrote (butlast b) 0 (utf8_of_units cesu8 (js_units p)) (cstring16_loop cesu8 (js_u p) 0 (js_len p) 0 (butlast b))"
      unfolding u by (rule cstring16_loop_wrote [OF len le0 room])
    then have short: "length (utf8_of_units cesu8 (js_units p)) \<le> length (butlast b)"
      by (auto simp: wrote_def dest!: arg_cong [where f = length])
    have room2: "0 + 3 * (js_len p - 0) \<le> length b" using 2 by (simp add: payload_size_def)
    have w: "wrote b 0 (utf8_of_units cesu8 (js_units p)) (cstring16_loop cesu8 (js_u p) 0 (js_len p) 0 b)"
      unfolding u by (rule cstring16_loop_wrote [OF len le0 room2])
    have "b \<noteq> []" using 2(2) by (auto simp: payload_size_def)
    then have "length (utf8_of_units cesu8 (js_units p)) < length b"
      using short by (simp add: less_eq_Suc_le [symmetric] Suc_le_eq) (metis Suc_pred le_imp_less_Suc length_greater_0_conv)
    from cstring_end_wrote [OF w this, of ctx'] show ?thesis
      using True 2 by (simp add: JS_ToCStringLen2_def string_operand_def)
  qed (use True in \<open>simp add: JS_ToCStringLen2_def string_operand_def\<close>)
qed

section \<open>Properties\<close>



end
