(* ===== verification/Gc_Cycles.thy ===== *)
theory Gc_Cycles
  imports Qjs_Prelude "HOL-Library.Multiset"
begin

text \<open>
  The cycle collector (\<open>quickjs.c\<close>, \<open>JS_RunGC\<close>): trial deletion in two passes.  \<open>gc_decref\<close>
  removes from every reference count the references that come from garbage-collected
  objects; \<open>gc_scan\<close> gives them back starting from the objects that are still referenced
  from outside and, in a second loop, for the rest.  The theorem: at the end the reference
  counts are what they were, \<open>tmp_obj_list\<close> holds exactly the objects that cannot be
  reached from an external reference, and no assertion fails.

  Objects are named by numbers.  The two intrusive lists are lists of names; the loops walk
  them with the cursor of \<open>list_for_each\<close> and \<open>list_for_each_safe\<close>, while the bodies move
  elements between them.  \<open>None\<close> is a failed assertion, \<open>abort\<close>, or fuel that ran out; the
  theorem gives \<open>Some\<close> for fuel of one more than the number of objects.
\<close>

section \<open>Objects and their children\<close>

datatype gc_val = JS_TAG_OBJECT nat | JS_TAG_FUNCTION_BYTECODE nat | JS_TAG_other

definition JS_MarkValue :: "gc_val \<Rightarrow> nat list" where
  "JS_MarkValue val = (case val of JS_TAG_OBJECT p \<Rightarrow> [p] | JS_TAG_FUNCTION_BYTECODE p \<Rightarrow> [p] | JS_TAG_other \<Rightarrow> [])"

datatype gc_prop =
    Prop_value gc_val
  | JS_PROP_GETSET "nat option" "nat option"
  | JS_PROP_VARREF nat bool
  | JS_PROP_AUTOINIT nat

text \<open>The payload of an object: its shape, its properties with a flag for deleted ones
  (\<open>JS_ATOM_NULL\<close>), and what the \<open>gc_mark\<close> function of its class visits.\<close>

datatype gc_obj =
    JS_GC_OBJ_TYPE_JS_OBJECT nat "(bool \<times> gc_prop) list" "nat list"
  | JS_GC_OBJ_TYPE_FUNCTION_BYTECODE "gc_val list" "nat option"
  | JS_GC_OBJ_TYPE_VAR_REF bool gc_val
  | JS_GC_OBJ_TYPE_ASYNC_FUNCTION bool "nat list" gc_val gc_val
  | JS_GC_OBJ_TYPE_SHAPE "nat option"
  | JS_GC_OBJ_TYPE_JS_CONTEXT "nat list"

definition opt_list :: "'a option \<Rightarrow> 'a list" where
  "opt_list x = (case x of None \<Rightarrow> [] | Some a \<Rightarrow> [a])"

definition mark_prop :: "bool \<times> gc_prop \<Rightarrow> nat list" where
  "mark_prop p = (case p of (deleted, pr) \<Rightarrow>
     if deleted then []
     else case pr of
         Prop_value v \<Rightarrow> JS_MarkValue v
       | JS_PROP_GETSET getter setter \<Rightarrow> opt_list getter @ opt_list setter
       | JS_PROP_VARREF var_ref is_detached \<Rightarrow> if is_detached then [var_ref] else []
       | JS_PROP_AUTOINIT realm \<Rightarrow> [realm])"

text \<open>The objects that \<open>mark_func\<close> is called on, in order.\<close>

fun mark_children :: "gc_obj \<Rightarrow> nat list option" where
  "mark_children (JS_GC_OBJ_TYPE_JS_OBJECT sh props class_marks) =
     Some (sh # concat (map mark_prop props) @ class_marks)"
| "mark_children (JS_GC_OBJ_TYPE_FUNCTION_BYTECODE cpool realm) =
     Some (concat (map JS_MarkValue cpool) @ opt_list realm)"
| "mark_children (JS_GC_OBJ_TYPE_VAR_REF is_detached v) = do {
     assert_c is_detached;
     Some (JS_MarkValue v) }"
| "mark_children (JS_GC_OBJ_TYPE_ASYNC_FUNCTION is_active frame f0 f1) =
     Some ((if is_active then frame else []) @ JS_MarkValue f0 @ JS_MarkValue f1)"
| "mark_children (JS_GC_OBJ_TYPE_SHAPE proto) = Some (opt_list proto)"
| "mark_children (JS_GC_OBJ_TYPE_JS_CONTEXT marks) = Some marks"

type_synonym gc_heap = "nat \<Rightarrow> gc_obj"

section \<open>State and passes\<close>

record gc_state =
  gc_ref :: "nat \<Rightarrow> nat"
  gc_mark :: "nat \<Rightarrow> bool"
  gc_obj_list :: "nat list"
  tmp_obj_list :: "nat list"

definition gc_list_del :: "nat \<Rightarrow> gc_state \<Rightarrow> gc_state" where
  "gc_list_del p st = st\<lparr>gc_obj_list := remove1 p (gc_obj_list st), tmp_obj_list := remove1 p (tmp_obj_list st)\<rparr>"

definition add_gc_object :: "nat \<Rightarrow> gc_state \<Rightarrow> gc_state" where
  "add_gc_object h st = st\<lparr>gc_mark := (gc_mark st)(h := False), gc_obj_list := gc_obj_list st @ [h]\<rparr>"

definition move_to_tmp :: "nat \<Rightarrow> gc_state \<Rightarrow> gc_state" where
  "move_to_tmp p st = (let st = gc_list_del p st in st\<lparr>tmp_obj_list := tmp_obj_list st @ [p]\<rparr>)"

text \<open>Calling \<open>mark_func\<close> on the children of an object.\<close>

fun for_each :: "(nat \<Rightarrow> gc_state \<Rightarrow> gc_state option) \<Rightarrow> nat list \<Rightarrow> gc_state \<Rightarrow> gc_state option" where
  "for_each f [] st = Some st"
| "for_each f (c # cs) st = do { st \<leftarrow> f c st; for_each f cs st }"

definition mark_with ::
    "gc_heap \<Rightarrow> (nat \<Rightarrow> gc_state \<Rightarrow> gc_state option) \<Rightarrow> nat \<Rightarrow> gc_state \<Rightarrow> gc_state option" where
  "mark_with h f p st = do { cs \<leftarrow> mark_children (h p); for_each f cs st }"

definition gc_decref_child :: "nat \<Rightarrow> gc_state \<Rightarrow> gc_state option" where
  "gc_decref_child p st = do {
     assert_c (gc_ref st p > 0);
     let st = st\<lparr>gc_ref := (gc_ref st)(p := gc_ref st p - 1)\<rparr>
     in Some (if gc_ref st p = 0 \<and> gc_mark st p then move_to_tmp p st else st) }"

text \<open>The element behind \<open>p\<close>.\<close>

fun list_next :: "nat list \<Rightarrow> nat \<Rightarrow> nat option" where
  "list_next [] p = None"
| "list_next (x # xs) p = (if x = p then (case xs of [] \<Rightarrow> None | y # _ \<Rightarrow> Some y) else list_next xs p)"

definition list_first :: "nat list \<Rightarrow> nat option" where
  "list_first xs = (case xs of [] \<Rightarrow> None | x # _ \<Rightarrow> Some x)"

definition gc_decref_body :: "gc_heap \<Rightarrow> nat \<Rightarrow> gc_state \<Rightarrow> gc_state option" where
  "gc_decref_body h p st = do {
     assert_c (\<not> gc_mark st p);
     st \<leftarrow> mark_with h gc_decref_child p st;
     let st = st\<lparr>gc_mark := (gc_mark st)(p := True)\<rparr>
     in Some (if gc_ref st p = 0 then move_to_tmp p st else st) }"

primrec gc_decref_loop :: "nat \<Rightarrow> gc_heap \<Rightarrow> nat option \<Rightarrow> gc_state \<Rightarrow> gc_state option" where
  "gc_decref_loop 0 h el st = None"
| "gc_decref_loop (Suc fuel) h el st =
     (case el of
        None \<Rightarrow> Some st
      | Some p \<Rightarrow>
          (let el1 = list_next (gc_obj_list st) p
           in do { st \<leftarrow> gc_decref_body h p st; gc_decref_loop fuel h el1 st }))"

definition gc_decref :: "nat \<Rightarrow> gc_heap \<Rightarrow> gc_state \<Rightarrow> gc_state option" where
  "gc_decref fuel h st =
     (let st = st\<lparr>tmp_obj_list := []\<rparr> in gc_decref_loop fuel h (list_first (gc_obj_list st)) st)"

definition gc_scan_incref_child :: "nat \<Rightarrow> gc_state \<Rightarrow> gc_state option" where
  "gc_scan_incref_child p st =
     (let st = st\<lparr>gc_ref := (gc_ref st)(p := gc_ref st p + 1)\<rparr>
      in Some (if gc_ref st p = 1 then
           (let st = gc_list_del p st
            in st\<lparr>gc_obj_list := gc_obj_list st @ [p], gc_mark := (gc_mark st)(p := False)\<rparr>)
         else st))"

definition gc_scan_incref_child2 :: "nat \<Rightarrow> gc_state \<Rightarrow> gc_state option" where
  "gc_scan_incref_child2 p st = Some (st\<lparr>gc_ref := (gc_ref st)(p := gc_ref st p + 1)\<rparr>)"

definition gc_scan_body :: "gc_heap \<Rightarrow> nat \<Rightarrow> gc_state \<Rightarrow> gc_state option" where
  "gc_scan_body h p st = do {
     assert_c (gc_ref st p > 0);
     mark_with h gc_scan_incref_child p (st\<lparr>gc_mark := (gc_mark st)(p := False)\<rparr>) }"

primrec gc_scan_loop :: "nat \<Rightarrow> gc_heap \<Rightarrow> nat option \<Rightarrow> gc_state \<Rightarrow> gc_state option" where
  "gc_scan_loop 0 h el st = None"
| "gc_scan_loop (Suc fuel) h el st =
     (case el of
        None \<Rightarrow> Some st
      | Some p \<Rightarrow> do {
          st \<leftarrow> gc_scan_body h p st;
          gc_scan_loop fuel h (list_next (gc_obj_list st) p) st })"

primrec gc_scan_loop2 :: "nat \<Rightarrow> gc_heap \<Rightarrow> nat option \<Rightarrow> gc_state \<Rightarrow> gc_state option" where
  "gc_scan_loop2 0 h el st = None"
| "gc_scan_loop2 (Suc fuel) h el st =
     (case el of
        None \<Rightarrow> Some st
      | Some p \<Rightarrow> do {
          st \<leftarrow> mark_with h gc_scan_incref_child2 p st;
          gc_scan_loop2 fuel h (list_next (tmp_obj_list st) p) st })"

definition gc_scan :: "nat \<Rightarrow> gc_heap \<Rightarrow> gc_state \<Rightarrow> gc_state option" where
  "gc_scan fuel h st = do {
     st \<leftarrow> gc_scan_loop fuel h (list_first (gc_obj_list st)) st;
     gc_scan_loop2 fuel h (list_first (tmp_obj_list st)) st }"

text \<open>The two passes of \<open>JS_RunGC\<close> that decide what is freed.\<close>

definition gc_find_cycles :: "nat \<Rightarrow> gc_heap \<Rightarrow> gc_state \<Rightarrow> gc_state option" where
  "gc_find_cycles fuel h st = do { st \<leftarrow> gc_decref fuel h st; gc_scan fuel h st }"

section \<open>References\<close>

definition kids :: "gc_heap \<Rightarrow> nat \<Rightarrow> nat list" where
  "kids h p = (case mark_children (h p) of None \<Rightarrow> [] | Some cs \<Rightarrow> cs)"

text \<open>How often the objects \<open>qs\<close> refer to \<open>p\<close>.\<close>

definition refs_from :: "gc_heap \<Rightarrow> nat list \<Rightarrow> nat \<Rightarrow> nat" where
  "refs_from h qs p = sum_list (map (\<lambda>q. count_list (kids h q) p) qs)"

lemma refs_from_simps [simp]:
  "refs_from h [] p = 0" "refs_from h (q # qs) p = count_list (kids h q) p + refs_from h qs p"
  "refs_from h (qs @ rs) p = refs_from h qs p + refs_from h rs p"
  by (simp_all add: refs_from_def)

lemma refs_from_mset: "mset qs = mset rs \<Longrightarrow> refs_from h qs p = refs_from h rs p"
  unfolding refs_from_def by (metis mset_map sum_mset_sum_list)

text \<open>All children are garbage-collected objects of the list, and a variable reference in it
  is detached.\<close>

definition heap_ok :: "gc_heap \<Rightarrow> nat list \<Rightarrow> bool" where
  "heap_ok h objs \<longleftrightarrow> distinct objs \<and>
     list_all (\<lambda>p. case mark_children (h p) of None \<Rightarrow> False | Some cs \<Rightarrow> list_all (\<lambda>c. c \<in> set objs) cs) objs"

lemma heap_okD:
  assumes "heap_ok h objs" "p \<in> set objs"
  shows "mark_children (h p) = Some (kids h p)" "set (kids h p) \<subseteq> set objs"
  using assms by (auto simp: heap_ok_def list_all_iff kids_def split: option.splits)

text \<open>The objects that can be reached from an external reference.\<close>

inductive_set live :: "gc_heap \<Rightarrow> nat list \<Rightarrow> (nat \<Rightarrow> nat) \<Rightarrow> nat set" for h objs ext where
  root: "p \<in> set objs \<Longrightarrow> 0 < ext p \<Longrightarrow> p \<in> live h objs ext"
| child: "q \<in> live h objs ext \<Longrightarrow> p \<in> set (kids h q) \<Longrightarrow> p \<in> live h objs ext"

section \<open>First pass\<close>

text \<open>Objects without references whose children have been visited are on \<open>tmp_obj_list\<close>, the
  others on \<open>gc_obj_list\<close> in their old order.\<close>

definition decref_inv :: "nat list \<Rightarrow> gc_state \<Rightarrow> bool" where
  "decref_inv objs st \<longleftrightarrow>
     gc_obj_list st = filter (\<lambda>p. \<not> (gc_mark st p \<and> gc_ref st p = 0)) objs \<and>
     distinct (tmp_obj_list st) \<and> set (tmp_obj_list st) = {p \<in> set objs. gc_mark st p \<and> gc_ref st p = 0}"

lemma decref_inv_move:
  assumes "distinct objs" "p \<in> set objs" "decref_inv objs st"
    and "\<not> (gc_mark st p \<and> gc_ref st p = 0)"
    and "\<And>q. q \<noteq> p \<Longrightarrow> gc_mark st' q = gc_mark st q \<and> gc_ref st' q = gc_ref st q"
    and "gc_obj_list st' = gc_obj_list st" "tmp_obj_list st' = tmp_obj_list st"
  shows "decref_inv objs (if gc_mark st' p \<and> gc_ref st' p = 0 then move_to_tmp p st' else st')"
proof -
  have inv: "gc_obj_list st = filter (\<lambda>p. \<not> (gc_mark st p \<and> gc_ref st p = 0)) objs"
    "distinct (tmp_obj_list st)" "set (tmp_obj_list st) = {p \<in> set objs. gc_mark st p \<and> gc_ref st p = 0}"
    using assms(3) by (auto simp: decref_inv_def)
  have notin: "p \<notin> set (tmp_obj_list st)" using inv(3) assms(4) by blast
  show ?thesis
  proof (cases "gc_mark st' p \<and> gc_ref st' p = 0")
    case True
    have "remove1 p (filter (\<lambda>p. \<not> (gc_mark st p \<and> gc_ref st p = 0)) objs) = filter (\<lambda>p. \<not> (gc_mark st' p \<and> gc_ref st' p = 0)) objs"
    proof -
      have "(\<lambda>x. \<not> (gc_mark st' x \<and> gc_ref st' x = 0)) = (\<lambda>x. p \<noteq> x \<and> \<not> (gc_mark st x \<and> gc_ref st x = 0))"
      proof
        fix x
        show "(\<not> (gc_mark st' x \<and> gc_ref st' x = 0)) = (p \<noteq> x \<and> \<not> (gc_mark st x \<and> gc_ref st x = 0))"
          using True assms(5) [of x] by (cases "x = p") auto
      qed
      then show ?thesis
        using assms(1) by (simp add: distinct_remove1_removeAll removeAll_filter_not_eq conj_commute)
    qed
    moreover have "set (tmp_obj_list st) \<union> {p} = {q \<in> set objs. gc_mark st' q \<and> gc_ref st' q = 0}"
    proof (rule set_eqI)
      fix x
      show "x \<in> set (tmp_obj_list st) \<union> {p} \<longleftrightarrow> x \<in> {q \<in> set objs. gc_mark st' q \<and> gc_ref st' q = 0}"
        using inv(3) assms(2) assms(5) [of x] True by (cases "x = p") auto
    qed
    ultimately show ?thesis
      using True inv assms(6,7) notin
      by (simp add: decref_inv_def move_to_tmp_def gc_list_del_def Let_def remove1_idem)
  next
    case False
    have "gc_mark st' q \<and> gc_ref st' q = 0 \<longleftrightarrow> gc_mark st q \<and> gc_ref st q = 0" for q
      using assms(4,5) False by (cases "q = p") auto
    then have "decref_inv objs st'" using inv assms(6,7) unfolding decref_inv_def by simp
    with False show ?thesis by auto
  qed
qed

lemma move_to_tmp_simps [simp]: "gc_ref (move_to_tmp p st) = gc_ref st" "gc_mark (move_to_tmp p st) = gc_mark st"
  by (simp_all add: move_to_tmp_def gc_list_del_def Let_def)

lemma decref_child_ok:
  assumes "distinct objs" "p \<in> set objs" "decref_inv objs st" "0 < gc_ref st p"
  obtains st' where "gc_decref_child p st = Some st'" "decref_inv objs st'"
    "gc_ref st' = (gc_ref st)(p := gc_ref st p - 1)" "gc_mark st' = gc_mark st"
proof -
  let ?st = "st\<lparr>gc_ref := (gc_ref st)(p := gc_ref st p - 1)\<rparr>"
  let ?r = "if gc_mark ?st p \<and> gc_ref ?st p = 0 then move_to_tmp p ?st else ?st"
  have "decref_inv objs ?r" by (rule decref_inv_move [OF assms(1-3)]) (use assms(4) in auto)
  moreover have "gc_decref_child p st = Some ?r" using assms(4) by (auto simp: gc_decref_child_def Let_def)
  ultimately show thesis by (intro that [of ?r]) auto
qed

lemma decref_children_ok:
  assumes "distinct objs" "set cs \<subseteq> set objs" "decref_inv objs st" "\<And>p. count_list cs p \<le> gc_ref st p"
  shows "\<exists>st'. for_each gc_decref_child cs st = Some st' \<and> decref_inv objs st' \<and>
    (\<forall>p. gc_ref st' p = gc_ref st p - count_list cs p) \<and> gc_mark st' = gc_mark st"
  using assms(2-4)
proof (induction cs arbitrary: st)
  case (Cons c cs)
  have "0 < gc_ref st c" using Cons.prems(3) [of c] by simp
  with Cons.prems obtain st1 where st1: "gc_decref_child c st = Some st1" "decref_inv objs st1"
    "gc_ref st1 = (gc_ref st)(c := gc_ref st c - 1)" "gc_mark st1 = gc_mark st"
    using decref_child_ok [OF assms(1), of c st] by auto
  have "count_list cs p \<le> gc_ref st1 p" for p
    using Cons.prems(3) [of p] st1(3) by (auto split: if_splits)
  then obtain st' where "for_each gc_decref_child cs st1 = Some st'" "decref_inv objs st'"
    "\<forall>p. gc_ref st' p = gc_ref st1 p - count_list cs p" "gc_mark st' = gc_mark st1"
    using Cons.IH [of st1] Cons.prems(1) st1(2) by auto
  then show ?case using st1 by auto
qed simp

lemma list_next_middle: "distinct (xs @ p # ys) \<Longrightarrow> list_next (xs @ p # ys) p = list_first ys"
  by (induction xs) (auto simp: list_first_def split: list.splits)

lemma decref_loop_ok:
  assumes "heap_ok h objs" "objs = ds @ rest" "decref_inv objs st" "length rest < fuel"
    and "\<And>p. gc_mark st p \<longleftrightarrow> p \<in> set ds" "\<And>p. gc_ref st p = ext p + refs_from h rest p"
  shows "\<exists>st'. gc_decref_loop fuel h (list_first rest) st = Some st' \<and> decref_inv objs st' \<and>
    (\<forall>p. gc_mark st' p \<longleftrightarrow> p \<in> set objs) \<and> (\<forall>p. gc_ref st' p = ext p)"
  using assms(2-)
proof (induction rest arbitrary: ds st fuel)
  case Nil
  then obtain f where "fuel = Suc f" by (cases fuel) auto
  then show ?case using Nil by (auto simp: list_first_def)
next
  case (Cons q rest)
  obtain f where f: "fuel = Suc f" "length rest < f" using Cons.prems(3) by (cases fuel) auto
  have dist: "distinct objs" using assms(1) by (simp add: heap_ok_def)
  have q: "q \<in> set objs" "q \<notin> set ds" "q \<notin> set rest" "set ds \<inter> set rest = {}" using Cons.prems(1) dist by auto
  note k = heap_okD [OF assms(1) q(1)]
  let ?f = "filter (\<lambda>p. \<not> (gc_mark st p \<and> gc_ref st p = 0))"
  have "?f (q # rest) = q # rest" using Cons.prems(4) q by (intro filter_True) auto
  then have "gc_obj_list st = ?f ds @ q # rest"
    using Cons.prems(2) unfolding Cons.prems(1) decref_inv_def by (simp only: filter_append)
  moreover have "distinct (?f ds @ q # rest)" using dist Cons.prems(1) by auto
  ultimately have nxt: "list_next (gc_obj_list st) q = list_first rest" using list_next_middle by metis
  have "count_list (kids h q) p \<le> gc_ref st p" for p using Cons.prems(5) [of p] by simp
  then obtain st1 where st1: "for_each gc_decref_child (kids h q) st = Some st1" "decref_inv objs st1"
    "\<And>p. gc_ref st1 p = gc_ref st p - count_list (kids h q) p" "gc_mark st1 = gc_mark st"
    using decref_children_ok [OF dist k(2) Cons.prems(2)] by blast
  let ?st = "st1\<lparr>gc_mark := (gc_mark st1)(q := True)\<rparr>"
  let ?st2 = "if gc_mark ?st q \<and> gc_ref ?st q = 0 then move_to_tmp q ?st else ?st"
  have nm: "\<not> gc_mark st q" using Cons.prems(4) q by blast
  have inv: "decref_inv objs ?st2"
    by (rule decref_inv_move [OF dist q(1) st1(2)]) (use nm st1(4) in auto)
  have body: "gc_decref_body h q st = Some ?st2"
    using nm st1(1) k(1) by (auto simp: gc_decref_body_def mark_with_def Let_def)
  have "\<exists>st'. gc_decref_loop f h (list_first rest) ?st2 = Some st' \<and> decref_inv objs st' \<and>
      (\<forall>p. gc_mark st' p \<longleftrightarrow> p \<in> set objs) \<and> (\<forall>p. gc_ref st' p = ext p)"
    by (rule Cons.IH [of "ds @ [q]"]) (use Cons.prems st1 inv f in auto)
  then show ?case using f body nxt by (simp add: list_first_def [of "q # rest"] Let_def)
qed

section \<open>Second pass\<close>

text \<open>\<open>gc_obj_list\<close> holds the objects with references, \<open>tmp_obj_list\<close> those without.\<close>

definition scan_inv :: "nat list \<Rightarrow> gc_state \<Rightarrow> bool" where
  "scan_inv objs st \<longleftrightarrow> distinct (gc_obj_list st) \<and> distinct (tmp_obj_list st) \<and>
     set (gc_obj_list st) = {p \<in> set objs. 0 < gc_ref st p} \<and> set (tmp_obj_list st) = {p \<in> set objs. gc_ref st p = 0}"

lemma incref_child_ok:
  assumes "p \<in> set objs" "scan_inv objs st"
  obtains st' new where "gc_scan_incref_child p st = Some st'" "scan_inv objs st'"
    "gc_ref st' = (gc_ref st)(p := gc_ref st p + 1)" "gc_obj_list st' = gc_obj_list st @ new" "set new \<subseteq> {p}"
    "\<And>q. \<not> gc_mark st q \<Longrightarrow> \<not> gc_mark st' q" "\<And>q. q \<in> set new \<Longrightarrow> \<not> gc_mark st' q"
proof (cases "gc_ref st p = 0")
  case True
  let ?st' = "st\<lparr>gc_ref := (gc_ref st)(p := 1), gc_obj_list := gc_obj_list st @ [p],
      tmp_obj_list := remove1 p (tmp_obj_list st), gc_mark := (gc_mark st)(p := False)\<rparr>"
  have p: "p \<notin> set (gc_obj_list st)" using True assms by (auto simp: scan_inv_def)
  then have "gc_scan_incref_child p st = Some ?st'"
    using True by (simp add: gc_scan_incref_child_def gc_list_del_def Let_def remove1_idem)
  moreover have "scan_inv objs ?st'"
    using assms True p by (auto simp: scan_inv_def)
  ultimately show thesis using True by (intro that [of ?st' "[p]"]) auto
next
  case False
  let ?st' = "st\<lparr>gc_ref := (gc_ref st)(p := gc_ref st p + 1)\<rparr>"
  have "gc_scan_incref_child p st = Some ?st'" using False by (simp add: gc_scan_incref_child_def)
  moreover have "scan_inv objs ?st'" using assms False by (auto simp: scan_inv_def)
  ultimately show thesis by (intro that [of ?st' "[]"]) auto
qed

lemma incref_children_ok:
  assumes "set cs \<subseteq> set objs" "scan_inv objs st"
  shows "\<exists>st' new. for_each gc_scan_incref_child cs st = Some st' \<and> scan_inv objs st' \<and>
    (\<forall>p. gc_ref st' p = gc_ref st p + count_list cs p) \<and> gc_obj_list st' = gc_obj_list st @ new \<and> set new \<subseteq> set cs \<and>
    (\<forall>q. \<not> gc_mark st q \<longrightarrow> \<not> gc_mark st' q) \<and> (\<forall>q \<in> set new. \<not> gc_mark st' q)"
  using assms
proof (induction cs arbitrary: st)
  case (Cons c cs)
  then have c: "c \<in> set objs" by simp
  obtain st1 new1 where st1: "gc_scan_incref_child c st = Some st1" "scan_inv objs st1"
    "gc_ref st1 = (gc_ref st)(c := gc_ref st c + 1)" "gc_obj_list st1 = gc_obj_list st @ new1" "set new1 \<subseteq> {c}"
    "\<And>q. \<not> gc_mark st q \<Longrightarrow> \<not> gc_mark st1 q" "\<And>q. q \<in> set new1 \<Longrightarrow> \<not> gc_mark st1 q"
    using incref_child_ok [OF c Cons.prems(2)] by metis
  have "\<exists>st' new. for_each gc_scan_incref_child cs st1 = Some st' \<and> scan_inv objs st' \<and>
    (\<forall>p. gc_ref st' p = gc_ref st1 p + count_list cs p) \<and> gc_obj_list st' = gc_obj_list st1 @ new \<and> set new \<subseteq> set cs \<and>
    (\<forall>q. \<not> gc_mark st1 q \<longrightarrow> \<not> gc_mark st' q) \<and> (\<forall>q \<in> set new. \<not> gc_mark st' q)"
    using Cons.IH [of st1] Cons.prems(1) st1(2) by simp
  then obtain st' new where st': "for_each gc_scan_incref_child cs st1 = Some st'" "scan_inv objs st'"
    "\<forall>p. gc_ref st' p = gc_ref st1 p + count_list cs p" "gc_obj_list st' = gc_obj_list st1 @ new" "set new \<subseteq> set cs"
    "\<forall>q. \<not> gc_mark st1 q \<longrightarrow> \<not> gc_mark st' q" "\<forall>q \<in> set new. \<not> gc_mark st' q" by blast
  show ?case
    using st1 st' by (intro exI [of _ st'] exI [of _ "new1 @ new"]) auto
qed auto

lemma scan_loop_ok:
  assumes "heap_ok h objs" "scan_inv objs st" "gc_obj_list st = ds @ rest" "length objs - length ds < fuel"
    and "\<And>p. p \<in> set objs \<Longrightarrow> gc_ref st p = ext p + refs_from h ds p"
    and "set (gc_obj_list st) \<subseteq> live h objs ext" "\<And>p. p \<in> set ds \<Longrightarrow> \<not> gc_mark st p"
  shows "\<exists>st'. gc_scan_loop fuel h (list_first rest) st = Some st' \<and> scan_inv objs st' \<and>
    (\<forall>p \<in> set objs. gc_ref st' p = ext p + refs_from h (gc_obj_list st') p) \<and>
    set (gc_obj_list st') \<subseteq> live h objs ext \<and> (\<forall>p \<in> set (gc_obj_list st'). \<not> gc_mark st' p)"
  using assms(2-)
proof (induction fuel arbitrary: ds rest st)
  case (Suc fuel)
  show ?case
  proof (cases rest)
    case Nil
    then show ?thesis using Suc.prems by (auto simp: list_first_def)
  next
    case (Cons q rest')
    have sub: "set (gc_obj_list st) \<subseteq> set objs" using Suc.prems(1) by (auto simp: scan_inv_def)
    then have q: "q \<in> set objs" "0 < gc_ref st q" "q \<in> live h objs ext"
      using Suc.prems(1,2,5) Cons by (auto simp: scan_inv_def)
    note k = heap_okD [OF assms(1) q(1)]
    let ?st = "st\<lparr>gc_mark := (gc_mark st)(q := False)\<rparr>"
    have "scan_inv objs ?st" using Suc.prems(1) by (simp add: scan_inv_def)
    from incref_children_ok [OF k(2) this] obtain st1 new where st1: "for_each gc_scan_incref_child (kids h q) ?st = Some st1"
      "scan_inv objs st1" "\<forall>p. gc_ref st1 p = gc_ref ?st p + count_list (kids h q) p"
      "gc_obj_list st1 = gc_obj_list ?st @ new" "set new \<subseteq> set (kids h q)"
      "\<forall>p. \<not> gc_mark ?st p \<longrightarrow> \<not> gc_mark st1 p" by blast
    have lst: "gc_obj_list st1 = ds @ q # (rest' @ new)" using st1(4) Suc.prems(2) Cons by simp
    have nxt: "list_next (gc_obj_list st1) q = list_first (rest' @ new)"
      using list_next_middle [of ds q "rest' @ new"] st1(2) lst by (simp add: scan_inv_def)
    have len: "length ds < length objs"
    proof -
      have "distinct (ds @ [q])" "set (ds @ [q]) \<subseteq> set objs" using Suc.prems(1,2) Cons sub by (auto simp: scan_inv_def)
      then have "length (ds @ [q]) \<le> card (set objs)" by (metis card_mono distinct_card finite_set)
      also have "\<dots> \<le> length objs" by (rule card_length)
      finally show ?thesis by simp
    qed
    have "set new \<subseteq> live h objs ext" using st1(5) live.child [OF q(3)] by blast
    then have "\<exists>st'. gc_scan_loop fuel h (list_first (rest' @ new)) st1 = Some st' \<and> scan_inv objs st' \<and>
      (\<forall>p \<in> set objs. gc_ref st' p = ext p + refs_from h (gc_obj_list st') p) \<and>
      set (gc_obj_list st') \<subseteq> live h objs ext \<and> (\<forall>p \<in> set (gc_obj_list st'). \<not> gc_mark st' p)"
      by (intro Suc.IH [of st1 "ds @ [q]"]) (use st1 lst len Suc.prems Cons in auto)
    moreover have "gc_scan_body h q st = Some st1" using q st1(1) k(1) by (simp add: gc_scan_body_def mark_with_def)
    ultimately show ?thesis using Cons nxt by (simp add: list_first_def [of "q # rest'"])
  qed
qed simp

lemma incref2_children:
  "for_each gc_scan_incref_child2 cs st = Some (st\<lparr>gc_ref := \<lambda>p. gc_ref st p + count_list cs p\<rparr>)"
  by (induction cs arbitrary: st) (auto simp: gc_scan_incref_child2_def fun_eq_iff intro!: gc_state.equality)

lemma scan_loop2_ok:
  assumes "heap_ok h objs" "distinct (tmp_obj_list st)" "set (tmp_obj_list st) \<subseteq> set objs"
    and "tmp_obj_list st = ds @ rest" "length rest < fuel"
  shows "gc_scan_loop2 fuel h (list_first rest) st = Some (st\<lparr>gc_ref := \<lambda>p. gc_ref st p + refs_from h rest p\<rparr>)"
  using assms(2-)
proof (induction rest arbitrary: ds st fuel)
  case Nil
  then show ?case by (cases fuel) (auto simp: list_first_def)
next
  case (Cons q rest)
  obtain f where f: "fuel = Suc f" "length rest < f" using Cons.prems(4) by (cases fuel) auto
  have q: "q \<in> set objs" using Cons.prems(2,3) by auto
  let ?st = "st\<lparr>gc_ref := \<lambda>p. gc_ref st p + count_list (kids h q) p\<rparr>"
  have "list_next (tmp_obj_list st) q = list_first rest"
    using list_next_middle [of ds q rest] Cons.prems(1,3) by simp
  moreover have "gc_scan_loop2 f h (list_first rest) ?st = Some (?st\<lparr>gc_ref := \<lambda>p. gc_ref ?st p + refs_from h rest p\<rparr>)"
    by (rule Cons.IH [of ?st "ds @ [q]"]) (use Cons.prems f in auto)
  moreover have "mark_with h gc_scan_incref_child2 q st = Some ?st"
    using heap_okD(1) [OF assms(1) q] incref2_children by (simp add: mark_with_def)
  ultimately show ?case using f by (simp add: list_first_def [of "q # rest"] add.assoc)
qed

section \<open>Both passes\<close>

lemma gc_find_cycles_correct:
  assumes "heap_ok h objs" "length objs < fuel" "gc_obj_list st = objs"
    and "\<And>p. \<not> gc_mark st p" "\<And>p. gc_ref st p = ext p + refs_from h objs p"
  shows "\<exists>st'. gc_find_cycles fuel h st = Some st' \<and>
    (\<forall>p \<in> set objs. gc_ref st' p = gc_ref st p) \<and>
    distinct (gc_obj_list st') \<and> set (gc_obj_list st') = live h objs ext \<and>
    distinct (tmp_obj_list st') \<and> set (tmp_obj_list st') = set objs - live h objs ext \<and>
    (\<forall>p \<in> live h objs ext. \<not> gc_mark st' p)"
proof -
  let ?st = "st\<lparr>tmp_obj_list := []\<rparr>"
  have "decref_inv objs ?st" using assms(3,4) by (simp add: decref_inv_def)
  then obtain st1 where st1: "gc_decref fuel h st = Some st1" "decref_inv objs st1"
    "\<And>p. gc_mark st1 p \<longleftrightarrow> p \<in> set objs" "\<And>p. gc_ref st1 p = ext p"
    using decref_loop_ok [OF assms(1), of "[]" objs ?st fuel ext] assms(2-5) by (auto simp: gc_decref_def)
  have dist: "distinct objs" using assms(1) by (simp add: heap_ok_def)
  have inv1: "scan_inv objs st1" using st1(2,3) dist by (auto simp: decref_inv_def scan_inv_def)
  have roots: "set (gc_obj_list st1) \<subseteq> live h objs ext"
    using inv1 st1(4) live.root [of _ objs ext h] by (auto simp: scan_inv_def)
  obtain st2 where st2: "gc_scan_loop fuel h (list_first (gc_obj_list st1)) st1 = Some st2" "scan_inv objs st2"
    "\<forall>p \<in> set objs. gc_ref st2 p = ext p + refs_from h (gc_obj_list st2) p"
    "set (gc_obj_list st2) \<subseteq> live h objs ext" "\<forall>p \<in> set (gc_obj_list st2). \<not> gc_mark st2 p"
    using scan_loop_ok [OF assms(1) inv1, of "[]" "gc_obj_list st1" fuel ext] assms(2) st1(4) roots by auto
  have sub: "live h objs ext \<subseteq> set (gc_obj_list st2)"
  proof
    fix p assume "p \<in> live h objs ext"
    then show "p \<in> set (gc_obj_list st2)"
    proof (induction rule: live.induct)
      case (root p)
      then show ?case using st2(2,3) by (auto simp: scan_inv_def)
    next
      case (child q p)
      then have q: "q \<in> set objs" using st2(2) by (auto simp: scan_inv_def)
      have p: "p \<in> set objs" using heap_okD(2) [OF assms(1) q] child.hyps(2) by blast
      have "0 < count_list (kids h q) p" using child.hyps(2) by (metis count_list_0_iff gr0I)
      moreover have "count_list (kids h q) p \<le> refs_from h (gc_obj_list st2) p"
        using child.IH unfolding refs_from_def by (intro member_le_sum_list) auto
      ultimately show ?case using st2(2,3) p by (auto simp: scan_inv_def)
    qed
  qed
  have tmp: "distinct (tmp_obj_list st2)" "set (tmp_obj_list st2) \<subseteq> set objs" using st2(2) by (auto simp: scan_inv_def)
  have "length (tmp_obj_list st2) \<le> length objs"
    using tmp dist by (metis card_mono distinct_card finite_set)
  then have loop2: "gc_scan_loop2 fuel h (list_first (tmp_obj_list st2)) st2 =
      Some (st2\<lparr>gc_ref := \<lambda>p. gc_ref st2 p + refs_from h (tmp_obj_list st2) p\<rparr>)"
    using scan_loop2_ok [OF assms(1) tmp, of "[]" "tmp_obj_list st2" fuel] assms(2) by simp
  have "mset (gc_obj_list st2 @ tmp_obj_list st2) = mset objs"
    using st2(2) dist by (intro set_eq_iff_mset_eq_distinct [THEN iffD1]) (auto simp: scan_inv_def)
  then have "refs_from h objs p = refs_from h (gc_obj_list st2) p + refs_from h (tmp_obj_list st2) p" for p
    using refs_from_mset [of "gc_obj_list st2 @ tmp_obj_list st2" objs h p] by simp
  then have "\<forall>p \<in> set objs. gc_ref st2 p + refs_from h (tmp_obj_list st2) p = gc_ref st p"
    using st2(3) assms(5) by simp
  moreover have "set (gc_obj_list st2) = live h objs ext" using sub st2(4) by blast
  moreover from this have "set (tmp_obj_list st2) = set objs - live h objs ext" using st2(2) by (auto simp: scan_inv_def)
  ultimately show ?thesis
    using st1(1) st2 loop2 tmp(1) by (auto simp: gc_find_cycles_def gc_scan_def scan_inv_def)
qed

section \<open>Properties\<close>

text \<open>C4: the two passes of the cycle collector that look for garbage terminate without a
  failed assertion; afterwards every reference count is what it was, \<open>gc_obj_list\<close> holds
  exactly the objects reachable from an external reference, each once and unmarked, and
  \<open>tmp_obj_list\<close> exactly the others, which are those that may be freed.\<close>

theorem gc_finds_garbage:
  assumes "heap_ok h objs" "length objs < fuel" "gc_obj_list st = objs"
    and "\<And>p. \<not> gc_mark st p" "\<And>p. gc_ref st p = ext p + refs_from h objs p"
  shows "\<exists>st'. gc_find_cycles fuel h st = Some st' \<and>
    (\<forall>p \<in> set objs. gc_ref st' p = gc_ref st p) \<and>
    distinct (gc_obj_list st') \<and> set (gc_obj_list st') = live h objs ext \<and>
    distinct (tmp_obj_list st') \<and> set (tmp_obj_list st') = set objs - live h objs ext \<and>
    (\<forall>p \<in> live h objs ext. \<not> gc_mark st' p)"
  using assms by (rule gc_find_cycles_correct)

text \<open>An object 1 with shape 2 that is held from outside, and a cycle of the objects 3 and 4
  that share the shape.\<close>

definition sample_heap :: gc_heap where
  "sample_heap p =
     (if p = 2 then JS_GC_OBJ_TYPE_SHAPE None
      else if p = 1 then JS_GC_OBJ_TYPE_JS_OBJECT 2 [] []
      else if p = 3 then JS_GC_OBJ_TYPE_JS_OBJECT 2 [(False, Prop_value (JS_TAG_OBJECT 4))] []
      else JS_GC_OBJ_TYPE_JS_OBJECT 2 [(False, Prop_value (JS_TAG_OBJECT 3)), (True, Prop_value JS_TAG_other)] [])"

definition sample_ext :: "nat \<Rightarrow> nat" where
  "sample_ext p = (if p = 1 then 1 else 0)"

definition sample_gc :: gc_state where
  "sample_gc = \<lparr>gc_ref = (\<lambda>p. sample_ext p + refs_from sample_heap [1, 2, 3, 4] p), gc_mark = (\<lambda>p. False),
     gc_obj_list = [1, 2, 3, 4], tmp_obj_list = []\<rparr>"

theorem gc_finds_garbage_witness:
  "map_option tmp_obj_list (gc_find_cycles 5 sample_heap sample_gc) = Some [3, 4] \<and>
   set [1, 2, 3, 4] - live sample_heap [1, 2, 3, 4] sample_ext = {3, 4}"
proof -
  have run: "map_option tmp_obj_list (gc_find_cycles 5 sample_heap sample_gc) = Some [3, 4]" by code_simp
  have "heap_ok sample_heap [1, 2, 3, 4]" by code_simp
  from gc_finds_garbage [OF this, of 5 sample_gc sample_ext] obtain st' where
    "gc_find_cycles 5 sample_heap sample_gc = Some st'"
    "set (tmp_obj_list st') = set [1, 2, 3, 4] - live sample_heap [1, 2, 3, 4] sample_ext"
    by (auto simp: sample_gc_def)
  with run show ?thesis by auto
qed

end
