(* ===== verification/List_Links.thy ===== *)
theory List_Links
  imports Qjs_Prelude
begin

text \<open>
  The intrusive doubly linked lists of \<open>list.h\<close> at the level of pointers.  A cell is
  named by its address and 0 is the null pointer; \<open>dlist s head xs\<close> says that the links
  run from the head through \<open>xs\<close> and back, in both directions.  The theorem refines every
  operation to the operation on the list of cells, and the iteration macros to a walk
  over that list; the collector and the job queue use the lists through this view.
\<close>

section \<open>Operations\<close>

record links =
  ln_next :: "nat \<Rightarrow> nat"
  ln_prev :: "nat \<Rightarrow> nat"

definition init_list_head :: "nat \<Rightarrow> links \<Rightarrow> links" where
  "init_list_head head s = s\<lparr>ln_prev := (ln_prev s)(head := head), ln_next := (ln_next s)(head := head)\<rparr>"

definition list_add3 :: "nat \<Rightarrow> nat \<Rightarrow> nat \<Rightarrow> links \<Rightarrow> links" where
  "list_add3 el prev nxt s =
     (let s = s\<lparr>ln_next := (ln_next s)(prev := el)\<rparr>;
          s = s\<lparr>ln_prev := (ln_prev s)(el := prev)\<rparr>;
          s = s\<lparr>ln_next := (ln_next s)(el := nxt)\<rparr>
      in s\<lparr>ln_prev := (ln_prev s)(nxt := el)\<rparr>)"

definition list_add :: "nat \<Rightarrow> nat \<Rightarrow> links \<Rightarrow> links" where
  "list_add el head s = list_add3 el head (ln_next s head) s"

definition list_add_tail :: "nat \<Rightarrow> nat \<Rightarrow> links \<Rightarrow> links" where
  "list_add_tail el head s = list_add3 el (ln_prev s head) head s"

definition list_del :: "nat \<Rightarrow> links \<Rightarrow> links" where
  "list_del el s =
     (let prev = ln_prev s el;
          nxt = ln_next s el;
          s = s\<lparr>ln_next := (ln_next s)(prev := nxt)\<rparr>;
          s = s\<lparr>ln_prev := (ln_prev s)(nxt := prev)\<rparr>;
          s = s\<lparr>ln_prev := (ln_prev s)(el := 0)\<rparr>
      in s\<lparr>ln_next := (ln_next s)(el := 0)\<rparr>)"

definition list_empty :: "nat \<Rightarrow> links \<Rightarrow> bool" where
  "list_empty el s \<longleftrightarrow> ln_next s el = el"

text \<open>The cells that the iteration macros visit, for a body that leaves the links alone;
  \<open>None\<close> is a walk longer than the fuel.\<close>

primrec list_for_each :: "nat \<Rightarrow> nat \<Rightarrow> links \<Rightarrow> nat \<Rightarrow> nat list option" where
  "list_for_each 0 head s el = None"
| "list_for_each (Suc fuel) head s el =
     (if el = head then Some [] else map_option (Cons el) (list_for_each fuel head s (ln_next s el)))"

primrec list_for_each_prev :: "nat \<Rightarrow> nat \<Rightarrow> links \<Rightarrow> nat \<Rightarrow> nat list option" where
  "list_for_each_prev 0 head s el = None"
| "list_for_each_prev (Suc fuel) head s el =
     (if el = head then Some [] else map_option (Cons el) (list_for_each_prev fuel head s (ln_prev s el)))"

section \<open>Chains\<close>

fun chain :: "links \<Rightarrow> nat list \<Rightarrow> bool" where
  "chain s (a # b # xs) \<longleftrightarrow> ln_next s a = b \<and> ln_prev s b = a \<and> chain s (b # xs)"
| "chain s _ \<longleftrightarrow> True"

definition dlist :: "links \<Rightarrow> nat \<Rightarrow> nat list \<Rightarrow> bool" where
  "dlist s head xs \<longleftrightarrow> distinct (head # xs) \<and> chain s (head # xs @ [head])"

lemma chain_append:
  assumes "xs \<noteq> []" "ys \<noteq> []"
  shows "chain s (xs @ ys) \<longleftrightarrow> chain s xs \<and> ln_next s (last xs) = hd ys \<and> ln_prev s (hd ys) = last xs \<and> chain s ys"
  using assms
proof (induction xs)
  case (Cons a xs)
  then show ?case by (cases xs; cases ys) auto
qed simp

lemma chain_cong:
  assumes "\<And>a. a \<in> set (butlast xs) \<Longrightarrow> ln_next s' a = ln_next s a" "\<And>b. b \<in> set (tl xs) \<Longrightarrow> ln_prev s' b = ln_prev s b"
  shows "chain s' xs = chain s xs"
  using assms by (induction s xs rule: chain.induct) (auto split: if_splits)

lemma last_notin_butlast: "distinct xs \<Longrightarrow> xs \<noteq> [] \<Longrightarrow> last xs \<notin> set (butlast xs)"
  by (cases xs rule: rev_cases) auto

lemma hd_notin_tl: "distinct xs \<Longrightarrow> xs \<noteq> [] \<Longrightarrow> hd xs \<notin> set (tl xs)"
  by (cases xs) auto

text \<open>The places where two parts \<open>A\<close> and \<open>B\<close> of a ring meet.\<close>

lemma cut_next:
  assumes "distinct (head # as @ bs)"
  shows "x \<in> set (butlast (head # as)) \<Longrightarrow> x \<noteq> last (head # as)" "x \<in> set bs \<Longrightarrow> x \<noteq> last (head # as)"
proof -
  have d: "distinct (head # as)" using assms by simp
  show "x \<in> set (butlast (head # as)) \<Longrightarrow> x \<noteq> last (head # as)" using last_notin_butlast [OF d] by auto
  have "last (head # as) \<in> set (head # as)" by (rule last_in_set) simp
  then show "x \<in> set bs \<Longrightarrow> x \<noteq> last (head # as)" using assms by auto
qed

lemma cut_prev:
  assumes "distinct (head # as @ bs)"
  shows "x \<in> set as \<Longrightarrow> x \<noteq> hd (bs @ [head])" "x \<in> set (tl (bs @ [head])) \<Longrightarrow> x \<noteq> hd (bs @ [head])"
proof -
  have "hd (bs @ [head]) \<in> set (bs @ [head])" by (rule hd_in_set) simp
  then show "x \<in> set as \<Longrightarrow> x \<noteq> hd (bs @ [head])" using assms by auto
  have d: "distinct (bs @ [head])" using assms by auto
  show "x \<in> set (tl (bs @ [head])) \<Longrightarrow> x \<noteq> hd (bs @ [head])" using hd_notin_tl [OF d] by auto
qed

text \<open>Changing the links at the cut only keeps both parts.\<close>

lemma cut_chains:
  assumes "distinct (head # as @ bs)"
    and "\<And>x. x \<noteq> last (head # as) \<Longrightarrow> x \<in> set (head # as @ bs) \<Longrightarrow> ln_next s' x = ln_next s x"
    and "\<And>x. x \<noteq> hd (bs @ [head]) \<Longrightarrow> x \<in> set (head # as @ bs) \<Longrightarrow> ln_prev s' x = ln_prev s x"
  shows "chain s' (head # as) = chain s (head # as)" "chain s' (bs @ [head]) = chain s (bs @ [head])"
proof -
  show "chain s' (head # as) = chain s (head # as)"
  proof (rule chain_cong)
    show "ln_next s' x = ln_next s x" if "x \<in> set (butlast (head # as))" for x
      using assms(2) cut_next(1) [OF assms(1) that] in_set_butlastD [OF that] by auto
    show "ln_prev s' x = ln_prev s x" if "x \<in> set (tl (head # as))" for x
      using assms(3) cut_prev(1) [OF assms(1), of x] that by auto
  qed
  show "chain s' (bs @ [head]) = chain s (bs @ [head])"
  proof (rule chain_cong)
    show "ln_next s' x = ln_next s x" if "x \<in> set (butlast (bs @ [head]))" for x
      using assms(2) cut_next(2) [OF assms(1), of x] that by auto
    show "ln_prev s' x = ln_prev s x" if "x \<in> set (tl (bs @ [head]))" for x
    proof -
      have "x \<in> set (bs @ [head])" using that by (meson list.set_sel(2) snoc_eq_iff_butlast)
      then show ?thesis using assms(3) cut_prev(2) [OF assms(1) that] by auto
    qed
  qed
qed

lemma list_add3_dlist:
  assumes "dlist s head (as @ bs)" "el \<notin> set (head # as @ bs)"
  shows "dlist (list_add3 el (last (head # as)) (hd (bs @ [head])) s) head (as @ el # bs)"
proof -
  define a where "a = last (head # as)"
  define b where "b = hd (bs @ [head])"
  let ?s = "list_add3 el a b s"
  have dist: "distinct (head # as @ bs)" using assms(1) by (simp add: dlist_def)
  have s': "ln_next ?s = (ln_next s)(a := el, el := b)" "ln_prev ?s = (ln_prev s)(el := a, b := el)"
    by (simp_all add: list_add3_def Let_def)
  have "a \<in> set (head # as)" "b \<in> set (bs @ [head])" unfolding a_def b_def by (rule last_in_set hd_in_set; simp)+
  then have ab: "a \<noteq> el" "b \<noteq> el" using assms(2) by auto
  have "chain s ((head # as) @ (bs @ [head]))" using assms(1) by (simp add: dlist_def)
  then have parts: "chain s (head # as)" "chain s (bs @ [head])" using chain_append [of "head # as" "bs @ [head]" s] by auto
  have "ln_next ?s x = ln_next s x" if "x \<noteq> last (head # as)" "x \<in> set (head # as @ bs)" for x
    using that assms(2) unfolding s' a_def [symmetric] by auto
  moreover have "ln_prev ?s x = ln_prev s x" if "x \<noteq> hd (bs @ [head])" "x \<in> set (head # as @ bs)" for x
    using that assms(2) unfolding s' b_def [symmetric] by auto
  ultimately have new: "chain ?s (head # as)" "chain ?s (bs @ [head])" using cut_chains [OF dist, of ?s s] parts by blast+
  have "chain ?s ([el] @ (bs @ [head]))"
    using chain_append [of "[el]" "bs @ [head]" ?s] new(2) s' ab unfolding b_def [symmetric] by simp
  then have "chain ?s ((head # as) @ ([el] @ (bs @ [head])))"
    using chain_append [of "head # as" "[el] @ (bs @ [head])" ?s] new(1) s' ab unfolding a_def [symmetric] by simp
  then show ?thesis using assms unfolding a_def b_def by (auto simp: dlist_def)
qed

lemma list_del_dlist:
  assumes "dlist s head (as @ el # bs)"
  shows "dlist (list_del el s) head (as @ bs)"
proof -
  define a where "a = last (head # as)"
  define b where "b = hd (bs @ [head])"
  have dist: "distinct (head # as @ bs)" and el: "el \<notin> set (head # as @ bs)" using assms by (auto simp: dlist_def)
  have ch: "chain s ((head # as) @ ([el] @ (bs @ [head])))" using assms by (simp add: dlist_def)
  have parts: "chain s (head # as)" "chain s (bs @ [head])" "ln_prev s el = a" "ln_next s el = b"
    using ch chain_append [of "head # as" "[el] @ (bs @ [head])" s] chain_append [of "[el]" "bs @ [head]" s]
    unfolding a_def b_def by auto
  let ?s = "list_del el s"
  have s': "ln_next ?s = (ln_next s)(a := b, el := 0)" "ln_prev ?s = (ln_prev s)(b := a, el := 0)"
    by (simp_all add: list_del_def Let_def parts)
  have "a \<in> set (head # as)" "b \<in> set (bs @ [head])" unfolding a_def b_def by (rule last_in_set hd_in_set; simp)+
  then have ab: "a \<noteq> el" "b \<noteq> el" using el by auto
  have "ln_next ?s x = ln_next s x" if "x \<noteq> last (head # as)" "x \<in> set (head # as @ bs)" for x
    using that el unfolding s' a_def [symmetric] by auto
  moreover have "ln_prev ?s x = ln_prev s x" if "x \<noteq> hd (bs @ [head])" "x \<in> set (head # as @ bs)" for x
    using that el unfolding s' b_def [symmetric] by auto
  ultimately have "chain ?s (head # as)" "chain ?s (bs @ [head])" using cut_chains [OF dist, of ?s s] parts by blast+
  then have "chain ?s ((head # as) @ (bs @ [head]))"
    using chain_append [of "head # as" "bs @ [head]" ?s] s' ab unfolding a_def [symmetric] b_def [symmetric] by simp
  then show ?thesis using dist by (simp add: dlist_def)
qed

section \<open>Walks\<close>

lemma chain_first: "chain s (head # xs @ [head]) \<Longrightarrow> ln_next s head = hd (xs @ [head])"
  by (cases xs) auto

lemma chain_last: "chain s (head # xs @ [head]) \<Longrightarrow> ln_prev s head = last (head # xs)"
  using chain_append [of "head # xs" "[head]" s] by simp

lemma list_for_each_walk:
  assumes "chain s (xs @ [head])" "head \<notin> set xs" "length xs < fuel"
  shows "list_for_each fuel head s (hd (xs @ [head])) = Some xs"
  using assms
proof (induction xs arbitrary: fuel)
  case Nil
  then show ?case by (cases fuel) auto
next
  case (Cons x xs)
  obtain f where f: "fuel = Suc f" using Cons.prems(3) by (cases fuel) auto
  have "chain s (xs @ [head])" "ln_next s x = hd (xs @ [head])"
    using Cons.prems(1) by (cases xs; simp)+
  then show ?case using Cons.IH [of f] Cons.prems f by simp
qed

lemma list_for_each_prev_walk:
  assumes "chain s (head # xs)" "head \<notin> set xs" "length xs < fuel"
  shows "list_for_each_prev fuel head s (last (head # xs)) = Some (rev xs)"
  using assms
proof (induction xs arbitrary: fuel rule: rev_induct)
  case Nil
  then show ?case by (cases fuel) auto
next
  case (snoc x xs)
  obtain f where f: "fuel = Suc f" using snoc.prems(3) by (cases fuel) auto
  have "chain s (head # xs)" "ln_prev s x = last (head # xs)"
    using snoc.prems(1) chain_append [of "head # xs" "[x]" s] by auto
  then show ?case using snoc.IH [of f] snoc.prems f by auto
qed

section \<open>Properties\<close>

text \<open>C23: the pointer operations of the intrusive lists refine lists of cells: initialising
  gives the empty ring, adding a new cell puts it at the front or at the end, deleting a
  cell of the ring removes it (at any place, the only cell included), the emptiness test
  is right, and walking visits the cells in order, forwards and backwards.\<close>

theorem list_ops_refine:
  assumes "dlist s head xs"
  shows "dlist (init_list_head head s) head [] \<and>
    (el \<notin> set (head # xs) \<longrightarrow> dlist (list_add el head s) head (el # xs) \<and> dlist (list_add_tail el head s) head (xs @ [el])) \<and>
    (el \<in> set xs \<longrightarrow> dlist (list_del el s) head (remove1 el xs)) \<and>
    (list_empty head s \<longleftrightarrow> xs = []) \<and>
    (length xs < fuel \<longrightarrow> list_for_each fuel head s (ln_next s head) = Some xs \<and>
       list_for_each_prev fuel head s (ln_prev s head) = Some (rev xs))"
proof (intro conjI impI)
  have d: "distinct (head # xs)" and c: "chain s (head # xs @ [head])" using assms by (auto simp: dlist_def)
  note ends = chain_first [OF c] chain_last [OF c]
  show "dlist (init_list_head head s) head []" by (simp add: dlist_def init_list_head_def)
  assume el: "el \<notin> set (head # xs)"
  show "dlist (list_add el head s) head (el # xs)"
    using list_add3_dlist [of s head "[]" xs el] assms el ends by (simp add: list_add_def)
  show "dlist (list_add_tail el head s) head (xs @ [el])"
    using list_add3_dlist [of s head xs "[]" el] assms el unfolding list_add_tail_def ends by simp
next
  assume "el \<in> set xs"
  then obtain as bs where xs: "xs = as @ el # bs" "el \<notin> set as" by (metis split_list_first)
  then show "dlist (list_del el s) head (remove1 el xs)"
    using list_del_dlist assms by (simp add: remove1_append)
next
  have d: "distinct (head # xs)" and c: "chain s (head # xs @ [head])" using assms by (auto simp: dlist_def)
  note ends = chain_first [OF c] chain_last [OF c]
  show "list_empty head s \<longleftrightarrow> xs = []" using d ends by (cases xs) (auto simp: list_empty_def)
  have parts: "chain s (xs @ [head])" "chain s (head # xs)"
    using c chain_append [of "[head]" "xs @ [head]" s] chain_append [of "head # xs" "[head]" s] by simp_all
  assume "length xs < fuel"
  then show "list_for_each fuel head s (ln_next s head) = Some xs" "list_for_each_prev fuel head s (ln_prev s head) = Some (rev xs)"
    using list_for_each_walk [OF parts(1)] list_for_each_prev_walk [OF parts(2)] d unfolding ends by simp_all
qed

definition sample_links :: links where
  "sample_links = list_add_tail 3 1 (list_add_tail 2 1 (init_list_head 1 \<lparr>ln_next = (\<lambda>_. 0), ln_prev = (\<lambda>_. 0)\<rparr>))"

theorem list_ops_refine_witness:
  "dlist sample_links 1 [2, 3] \<and> dlist (list_del 2 sample_links) 1 (remove1 2 [2, 3]) \<and>
   dlist (list_add 4 1 sample_links) 1 [4, 2, 3] \<and> list_for_each 3 1 sample_links (ln_next sample_links 1) = Some [2, 3]"
proof -
  have "dlist sample_links 1 [2, 3]"
    by (simp add: dlist_def sample_links_def list_add_tail_def list_add3_def init_list_head_def)
  then show ?thesis
    using list_ops_refine [of sample_links 1 "[2, 3]" 2 3] list_ops_refine [of sample_links 1 "[2, 3]" 4 3] by simp
qed

end
