(* ===== verification/Js_Value.thy ===== *)
theory Js_Value
  imports Js_String
begin

text \<open>
  JavaScript values as the engine's equality and hashing see them (\<open>quickjs.h\<close>,
  \<open>quickjs.c\<close>): tags, 64-bit floating point numbers as bit patterns, \<open>js_strict_eq2\<close> with
  its three modes, \<open>hash_string\<close>, and the normalization and hashing of the keys of \<open>Map\<close>
  and \<open>Set\<close>.  \<open>key_id\<close> names the class of a key under \<open>SameValueZero\<close>; the interface
  \<open>hashed_keys\<close> states what a hash table needs of its keys, and the keys of the engine
  provide it as long as a number with a 32-bit integer value is stored as an integer.

  Floating point numbers are those of IEEE 754 binary64.  The big integers of \<open>libbf\<close> are
  their values; the tags of the bignum extension (big floats, big decimals) and the tags
  that only occur inside the engine are left out.
\<close>

section \<open>Floating point numbers\<close>

type_synonym f64 = u64

definition f64_exp :: "f64 \<Rightarrow> nat" where
  "f64_exp d = unat (drop_bit 52 d AND mask 11)"

definition f64_man :: "f64 \<Rightarrow> nat" where
  "f64_man d = unat (d AND mask 52)"

definition isnan :: "f64 \<Rightarrow> bool" where
  "isnan d \<longleftrightarrow> f64_exp d = 2047 \<and> f64_man d \<noteq> 0"

definition f64_is_zero :: "f64 \<Rightarrow> bool" where
  "f64_is_zero d \<longleftrightarrow> f64_exp d = 0 \<and> f64_man d = 0"

text \<open>The C operator \<open>==\<close> on doubles.\<close>

definition f64_eq :: "f64 \<Rightarrow> f64 \<Rightarrow> bool" where
  "f64_eq d1 d2 \<longleftrightarrow> \<not> isnan d1 \<and> \<not> isnan d2 \<and> (d1 = d2 \<or> f64_is_zero d1 \<and> f64_is_zero d2)"

definition JS_FLOAT64_NAN :: f64 where
  "JS_FLOAT64_NAN = 0x7ff8000000000000"

fun ilog2 :: "nat \<Rightarrow> nat" where
  "ilog2 n = (if n < 2 then 0 else Suc (ilog2 (n div 2)))"

declare ilog2.simps [simp del]

text \<open>The conversion of an integer to a double, exact below \<open>2 ^ 53\<close>.\<close>

definition f64_fields :: "int \<Rightarrow> int" where
  "f64_fields i =
     (let e = ilog2 (nat \<bar>i\<bar>)
      in (if i < 0 then 2 ^ 63 else 0) + (1023 + int e) * 2 ^ 52 + (\<bar>i\<bar> * 2 ^ (52 - e) - 2 ^ 52))"

definition f64_of_int :: "int \<Rightarrow> f64" where
  "f64_of_int i = (if i = 0 then 0 else word_of_int (f64_fields i))"

section \<open>Values\<close>

datatype js_value =
    JS_Int u32
  | JS_Bool bool
  | JS_Null
  | JS_Undefined
  | JS_Exception
  | JS_Float64 f64
  | JS_Object nat
  | JS_String JSString
  | JS_Symbol nat
  | JS_BigInt int

definition js_tag :: "js_value \<Rightarrow> int" where
  "js_tag v = (case v of
     JS_Int _ \<Rightarrow> 0 | JS_Bool _ \<Rightarrow> 1 | JS_Null \<Rightarrow> 2 | JS_Undefined \<Rightarrow> 3 | JS_Exception \<Rightarrow> 6 | JS_Float64 _ \<Rightarrow> 7
   | JS_Object _ \<Rightarrow> -1 | JS_String _ \<Rightarrow> -7 | JS_Symbol _ \<Rightarrow> -8 | JS_BigInt _ \<Rightarrow> -10)"

definition JS_IsObject :: "js_value \<Rightarrow> bool" where
  "JS_IsObject v = (case v of JS_Object _ \<Rightarrow> True | _ \<Rightarrow> False)"

definition JS_NewUint32 :: "u32 \<Rightarrow> js_value" where
  "JS_NewUint32 val = (if val \<le> 0x7fffffff then JS_Int val else JS_Float64 (f64_of_int (uint val)))"

section \<open>Equality\<close>

datatype JSStrictEqModeEnum = JS_EQ_STRICT | JS_EQ_SAME_VALUE | JS_EQ_SAME_VALUE_ZERO

definition number_test :: "f64 \<Rightarrow> f64 \<Rightarrow> JSStrictEqModeEnum \<Rightarrow> bool" where
  "number_test d1 d2 eq_mode =
     (if eq_mode \<noteq> JS_EQ_STRICT then
        if isnan d1 \<or> isnan d2 then isnan d1 = isnan d2
        else if eq_mode = JS_EQ_SAME_VALUE_ZERO then f64_eq d1 d2
        else d1 = d2
      else f64_eq d1 d2)"

text \<open>\<open>None\<close> is a read outside a string.\<close>

definition js_strict_eq2 :: "js_value \<Rightarrow> js_value \<Rightarrow> JSStrictEqModeEnum \<Rightarrow> bool option" where
  "js_strict_eq2 op1 op2 eq_mode =
     (case op1 of
        JS_Bool b1 \<Rightarrow> (case op2 of JS_Bool b2 \<Rightarrow> Some (b1 = b2) | _ \<Rightarrow> Some False)
      | JS_Null \<Rightarrow> Some (op2 = JS_Null)
      | JS_Undefined \<Rightarrow> Some (op2 = JS_Undefined)
      | JS_String p1 \<Rightarrow>
          (case op2 of JS_String p2 \<Rightarrow> map_option (\<lambda>r. r = 0) (js_string_compare p1 p2) | _ \<Rightarrow> Some False)
      | JS_Symbol p1 \<Rightarrow> (case op2 of JS_Symbol p2 \<Rightarrow> Some (p1 = p2) | _ \<Rightarrow> Some False)
      | JS_Object p1 \<Rightarrow> (case op2 of JS_Object p2 \<Rightarrow> Some (p1 = p2) | _ \<Rightarrow> Some False)
      | JS_Int i1 \<Rightarrow>
          (case op2 of
             JS_Int i2 \<Rightarrow> Some (number_test (f64_of_int (sint i1)) (f64_of_int (sint i2)) eq_mode)
           | JS_Float64 d2 \<Rightarrow> Some (number_test (f64_of_int (sint i1)) d2 eq_mode)
           | _ \<Rightarrow> Some False)
      | JS_Float64 d1 \<Rightarrow>
          (case op2 of
             JS_Float64 d2 \<Rightarrow> Some (number_test d1 d2 eq_mode)
           | JS_Int i2 \<Rightarrow> Some (number_test d1 (f64_of_int (sint i2)) eq_mode)
           | _ \<Rightarrow> Some False)
      | JS_BigInt a \<Rightarrow> (case op2 of JS_BigInt b \<Rightarrow> Some (a = b) | _ \<Rightarrow> Some False)
      | JS_Exception \<Rightarrow> Some False)"

definition js_strict_eq :: "js_value \<Rightarrow> js_value \<Rightarrow> bool option" where
  "js_strict_eq op1 op2 = js_strict_eq2 op1 op2 JS_EQ_STRICT"

definition js_same_value :: "js_value \<Rightarrow> js_value \<Rightarrow> bool option" where
  "js_same_value op1 op2 = js_strict_eq2 op1 op2 JS_EQ_SAME_VALUE"

definition js_same_value_zero :: "js_value \<Rightarrow> js_value \<Rightarrow> bool option" where
  "js_same_value_zero op1 op2 = js_strict_eq2 op1 op2 JS_EQ_SAME_VALUE_ZERO"

section \<open>Hashing\<close>

text \<open>The loops run over the rest of the string; \<open>i\<close> is the index of the C loop.\<close>

function hash_string8 :: "bytes \<Rightarrow> nat \<Rightarrow> nat \<Rightarrow> u32 \<Rightarrow> u32 option" where
  "hash_string8 str len i h =
     (if i < len then do { c \<leftarrow> rd str i; hash_string8 str len (i + 1) (h * 263 + ucast c) } else Some h)"
  by auto
termination by (relation "measure (\<lambda>(str, len, i, h). len - i)") auto

function hash_string16 :: "bytes \<Rightarrow> nat \<Rightarrow> nat \<Rightarrow> u32 \<Rightarrow> u32 option" where
  "hash_string16 str len i h =
     (if i < len then do { c \<leftarrow> rd16 str i; hash_string16 str len (i + 1) (h * 263 + ucast c) } else Some h)"
  by auto
termination by (relation "measure (\<lambda>(str, len, i, h). len - i)") auto

declare hash_string8.simps [simp del] hash_string16.simps [simp del]

definition hash_string :: "JSString \<Rightarrow> u32 \<Rightarrow> u32 option" where
  "hash_string str h =
     (if js_wide str then hash_string16 (js_u str) (js_len str) 0 h
      else hash_string8 (js_u str) (js_len str) 0 h)"

definition map_normalize_key :: "js_value \<Rightarrow> js_value" where
  "map_normalize_key key = (case key of JS_Float64 d \<Rightarrow> if f64_is_zero d then JS_Int 0 else key | _ \<Rightarrow> key)"

definition hash_float64 :: "f64 \<Rightarrow> u32" where
  "hash_float64 d = (ucast d XOR ucast (drop_bit 32 d)) * 3163"

text \<open>The product of an integer key with 3163 is one of type \<open>int\<close>; it is taken to wrap.  The
  address of an object is its 64-bit pointer.\<close>

definition map_hash_key :: "js_value \<Rightarrow> u32 option" where
  "map_hash_key key =
     map_option (\<lambda>h. h XOR word_of_int (js_tag key))
       (case key of
          JS_Bool b \<Rightarrow> Some (if b then 1 else 0)
        | JS_String p \<Rightarrow> hash_string p 0
        | JS_Object p \<Rightarrow> Some (ucast (of_nat p * 3163 :: u64))
        | JS_Symbol p \<Rightarrow> Some (ucast (of_nat p * 3163 :: u64))
        | JS_Int i \<Rightarrow> Some (hash_float64 (f64_of_int (sint (i * 3163))))
        | JS_Float64 d \<Rightarrow> Some (hash_float64 (if isnan d then JS_FLOAT64_NAN else d))
        | _ \<Rightarrow> Some 0)"

section \<open>Integers as doubles\<close>

lemma ilog2_bounds: "0 < n \<Longrightarrow> 2 ^ ilog2 n \<le> n \<and> n < 2 ^ Suc (ilog2 n)"
proof (induction n rule: ilog2.induct)
  case (1 n)
  show ?case
  proof (cases "n < 2")
    case True
    then show ?thesis using 1 by (simp add: ilog2.simps)
  next
    case False
    then have "2 ^ ilog2 (n div 2) \<le> n div 2 \<and> n div 2 < 2 ^ Suc (ilog2 (n div 2))"
      using 1 by auto
    then show ?thesis using False by (subst (1 2) ilog2.simps) auto
  qed
qed

lemma exp_field_mod: "0 \<le> x \<Longrightarrow> x \<le> 52 \<Longrightarrow> (3071 + x) mod 2048 = 1023 + x" for x :: int
  using mod_add_self2 [of "1023 + x" 2048] by simp

text \<open>The three fields of the double of a non-zero integer.\<close>

lemma f64_fields_split:
  fixes i :: int
  assumes "i \<noteq> 0" "\<bar>i\<bar> < 2 ^ 53"
  obtains m where "f64_fields i = (if i < 0 then 2 ^ 63 else 0) + (1023 + int (ilog2 (nat \<bar>i\<bar>))) * 2 ^ 52 + m"
    "0 \<le> m" "m < 2 ^ 52" "\<bar>i\<bar> * 2 ^ (52 - ilog2 (nat \<bar>i\<bar>)) = 2 ^ 52 + m" "ilog2 (nat \<bar>i\<bar>) \<le> 52"
proof -
  define n e where "n = nat \<bar>i\<bar>" and "e = ilog2 n"
  have n: "\<bar>i\<bar> = int n" "0 < n" using assms(1) by (auto simp: n_def)
  have b: "2 ^ e \<le> n" "n < 2 ^ Suc e" using ilog2_bounds [OF n(2)] by (auto simp: e_def)
  have "n < 2 ^ 53" using assms(2) n(1) by simp
  then have "(2::nat) ^ e < 2 ^ 53" by (rule le_less_trans [OF b(1)])
  then have e: "e \<le> 52" using power_less_imp_less_exp [of "2::nat" e 53] by simp
  have "(2::nat) ^ 52 = 2 ^ e * 2 ^ (52 - e)" using e by (simp flip: power_add)
  also have "\<dots> \<le> n * 2 ^ (52 - e)" using b(1) by simp
  finally have lo: "2 ^ 52 \<le> n * 2 ^ (52 - e)" .
  have "n * 2 ^ (52 - e) < 2 ^ Suc e * 2 ^ (52 - e)" using b(2) by simp
  also have "\<dots> = 2 ^ 53" using e by (simp flip: power_Suc power_add)
  finally have hi: "n * 2 ^ (52 - e) < 2 ^ 53" .
  define m where "m = int (n * 2 ^ (52 - e)) - 2 ^ 52"
  have "(2::int) ^ 52 \<le> int q \<and> int q < 2 ^ 53" if "2 ^ 52 \<le> q" "q < 2 ^ 53" for q :: nat
    using that by simp
  from this [OF lo hi] have "(2::int) ^ 52 \<le> int (n * 2 ^ (52 - e))" "int (n * 2 ^ (52 - e)) < 2 ^ 53" by blast+
  then have "0 \<le> m" "m < 2 ^ 52" by (auto simp: m_def)
  moreover have "\<bar>i\<bar> * 2 ^ (52 - e) = 2 ^ 52 + m" by (simp add: m_def n)
  moreover from this have "f64_fields i = (if i < 0 then 2 ^ 63 else 0) + (1023 + int e) * 2 ^ 52 + m"
    by (simp add: f64_fields_def Let_def n_def e_def)
  ultimately show thesis using that e by (simp add: n_def e_def)
qed

lemma f64_of_int_parts:
  fixes i :: int
  assumes "i \<noteq> 0" "\<bar>i\<bar> < 2 ^ 53"
  shows "uint (f64_of_int i) = f64_fields i" "f64_exp (f64_of_int i) = 1023 + ilog2 (nat \<bar>i\<bar>)"
proof -
  let ?e = "ilog2 (nat \<bar>i\<bar>)"
  obtain m where m: "f64_fields i = (if i < 0 then 2 ^ 63 else 0) + (1023 + int ?e) * 2 ^ 52 + m"
    "0 \<le> m" "m < 2 ^ 52" "?e \<le> 52"
    using assms by (rule f64_fields_split) blast
  have fit: "0 \<le> f64_fields i" "f64_fields i < 2 ^ 64" using m by auto
  then show u: "uint (f64_of_int i) = f64_fields i"
    using assms(1) by (simp add: f64_of_int_def uint_word_of_int)
  have "int (f64_exp (f64_of_int i)) = f64_fields i div 2 ^ 52 mod 2 ^ 11"
    by (simp add: f64_exp_def unat_and_mask unat_drop_bit zdiv_int zmod_int flip: u)
  also have "\<dots> = (if i < 0 then 3071 + int ?e else 1023 + int ?e) mod 2048" using m by (auto simp: div_add1_eq)
  also have "\<dots> = 1023 + int ?e" using m(4) by (auto simp: exp_field_mod)
  finally show "f64_exp (f64_of_int i) = 1023 + ?e" by simp
qed

lemma f64_of_int_inj:
  fixes i j :: int
  assumes "f64_of_int i = f64_of_int j" "\<bar>i\<bar> < 2 ^ 53" "\<bar>j\<bar> < 2 ^ 53"
  shows "i = j"
proof -
  have zero: "f64_exp 0 = 0" by (simp add: f64_exp_def)
  show ?thesis
  proof (cases "i = 0 \<or> j = 0")
    case True
    then show ?thesis
      using assms f64_of_int_parts(2) [of i] f64_of_int_parts(2) [of j] zero
      by (auto simp: f64_of_int_def split: if_splits)
  next
    case False
    then have nz: "i \<noteq> 0" "j \<noteq> 0" by auto
    have e: "ilog2 (nat \<bar>i\<bar>) = ilog2 (nat \<bar>j\<bar>)"
      using f64_of_int_parts(2) [OF nz(1) assms(2)] f64_of_int_parts(2) [OF nz(2) assms(3)] assms(1) by simp
    obtain m where m: "f64_fields i = (if i < 0 then 2 ^ 63 else 0) + (1023 + int (ilog2 (nat \<bar>i\<bar>))) * 2 ^ 52 + m"
      "0 \<le> m" "m < 2 ^ 52" "\<bar>i\<bar> * 2 ^ (52 - ilog2 (nat \<bar>i\<bar>)) = 2 ^ 52 + m" "ilog2 (nat \<bar>i\<bar>) \<le> 52"
      using nz(1) assms(2) by (rule f64_fields_split) blast
    obtain k where k: "f64_fields j = (if j < 0 then 2 ^ 63 else 0) + (1023 + int (ilog2 (nat \<bar>j\<bar>))) * 2 ^ 52 + k"
      "0 \<le> k" "k < 2 ^ 52" "\<bar>j\<bar> * 2 ^ (52 - ilog2 (nat \<bar>j\<bar>)) = 2 ^ 52 + k"
      using nz(2) assms(3) by (rule f64_fields_split) blast
    have "f64_fields i = f64_fields j"
      using f64_of_int_parts(1) [OF nz(1) assms(2)] f64_of_int_parts(1) [OF nz(2) assms(3)] assms(1) by simp
    then have s: "(i < 0) = (j < 0)" "m = k" using m(1-3,5) k(1-3) e by (auto split: if_splits)
    then have "\<bar>i\<bar> * 2 ^ (52 - ilog2 (nat \<bar>i\<bar>)) = \<bar>j\<bar> * 2 ^ (52 - ilog2 (nat \<bar>i\<bar>))" using m(4) k(4) e by simp
    then have "\<bar>i\<bar> = \<bar>j\<bar>" by simp
    then show ?thesis using s(1) by linarith
  qed
qed

lemma f64_of_int_ordinary:
  fixes i :: int
  assumes "\<bar>i\<bar> < 2 ^ 53"
  shows "\<not> isnan (f64_of_int i)" "f64_is_zero (f64_of_int i) \<longleftrightarrow> i = 0"
proof -
  have zero: "f64_exp 0 = 0" "f64_man 0 = 0" by (simp_all add: f64_exp_def f64_man_def)
  have e: "f64_exp (f64_of_int i) = 1023 + ilog2 (nat \<bar>i\<bar>)" "ilog2 (nat \<bar>i\<bar>) \<le> 52" if "i \<noteq> 0"
    using f64_of_int_parts(2) [OF that assms] f64_fields_split [OF that assms] by blast+
  show "\<not> isnan (f64_of_int i)" using e zero by (cases "i = 0") (auto simp: isnan_def f64_of_int_def)
  show "f64_is_zero (f64_of_int i) \<longleftrightarrow> i = 0"
    using e(1) zero by (cases "i = 0") (auto simp: f64_is_zero_def f64_of_int_def)
qed

lemma sint32_small: "\<bar>sint (i :: u32)\<bar> < 2 ^ 53"
  using sint_lt [of i] sint_ge [of i] by simp

lemmas f64_of_int32 = f64_of_int_ordinary [OF sint32_small]

section \<open>Strings as keys\<close>

definition units_hash :: "u16 list \<Rightarrow> u32 \<Rightarrow> u32" where
  "units_hash us h = foldl (\<lambda>h c. h * 263 + ucast c) h us"

lemma ucast_u8_u16: "(ucast (ucast (c :: u8) :: u16) :: u32) = ucast c"
  by (rule bit_word_eqI) (auto simp: bit_simps dest: bit_imp_le_length)

lemma hash_string8_units:
  "len \<le> length str \<Longrightarrow> i \<le> len \<Longrightarrow> hash_string8 str len i h = Some (units_hash (drop i (units8 str len)) h)"
proof (induction str len i h rule: hash_string8.induct)
  case (1 str len i h)
  show ?case
  proof (cases "i < len")
    case True
    then have "drop i (units8 str len) = ucast (str ! i) # drop (i + 1) (units8 str len)"
      using 1 by (simp add: units8_def Cons_nth_drop_Suc [symmetric])
    then show ?thesis using 1 True ucast_u8_u16 by (simp add: hash_string8.simps [of str len i] units_hash_def)
  next
    case False
    then show ?thesis using 1 by (simp add: hash_string8.simps units_hash_def units8_def)
  qed
qed

lemma hash_string16_units:
  "2 * len \<le> length str \<Longrightarrow> i \<le> len \<Longrightarrow> hash_string16 str len i h = Some (units_hash (drop i (units16 str len)) h)"
proof (induction str len i h rule: hash_string16.induct)
  case (1 str len i h)
  show ?case
  proof (cases "i < len")
    case True
    then have rd: "rd16 str i = Some (the (rd16 str i))" using 1 by (intro rd16_the) simp
    have "drop i (units16 str len) = the (rd16 str i) # drop (i + 1) (units16 str len)"
      using True by (subst Cons_nth_drop_Suc [symmetric]) (simp_all add: units16_def)
    then show ?thesis using 1(1) [OF True rd] 1(2) True
      by (subst hash_string16.simps, subst rd) (simp add: units_hash_def)
  next
    case False
    then show ?thesis using 1 by (simp add: hash_string16.simps units_hash_def units16_def)
  qed
qed

lemma hash_string_units: "js_string_ok p \<Longrightarrow> hash_string p h = Some (units_hash (js_units p) h)"
  using hash_string8_units [of "js_len p" "js_u p" 0 h] hash_string16_units [of "js_len p" "js_u p" 0 h]
  by (simp add: hash_string_def js_units_def js_string_ok_def payload_size_def split: if_splits)

section \<open>Keys\<close>

text \<open>The class of a key under \<open>SameValueZero\<close>.\<close>

datatype key_class =
    Class_number f64
  | Class_bool bool
  | Class_null
  | Class_undefined
  | Class_exception
  | Class_object nat
  | Class_string "u16 list"
  | Class_symbol nat
  | Class_bigint int

definition number_class :: "f64 \<Rightarrow> f64" where
  "number_class d = (if isnan d then JS_FLOAT64_NAN else if f64_is_zero d then 0 else d)"

fun key_id :: "js_value \<Rightarrow> key_class" where
  "key_id (JS_Int i) = Class_number (number_class (f64_of_int (sint i)))"
| "key_id (JS_Float64 d) = Class_number (number_class d)"
| "key_id (JS_Bool b) = Class_bool b"
| "key_id JS_Null = Class_null"
| "key_id JS_Undefined = Class_undefined"
| "key_id JS_Exception = Class_exception"
| "key_id (JS_Object p) = Class_object p"
| "key_id (JS_String p) = Class_string (js_units p)"
| "key_id (JS_Symbol p) = Class_symbol p"
| "key_id (JS_BigInt a) = Class_bigint a"

text \<open>A value that may be compared, and one that is stored as the engine stores numbers:
  those with a 32-bit integer value as integers.\<close>

fun comparable :: "js_value \<Rightarrow> bool" where
  "comparable (JS_String p) = js_string_ok p"
| "comparable JS_Exception = False"
| "comparable _ = True"

definition int32_f64 :: "f64 \<Rightarrow> bool" where
  "int32_f64 d \<longleftrightarrow> f64_is_zero d \<or> (\<exists>i :: u32. d = f64_of_int (sint i))"

definition key_ok :: "js_value \<Rightarrow> bool" where
  "key_ok v \<longleftrightarrow> comparable v \<and> (\<forall>d. v = JS_Float64 d \<longrightarrow> \<not> int32_f64 d)"

lemma nan_not_zero: "isnan d \<Longrightarrow> \<not> f64_is_zero d"
  by (simp add: isnan_def f64_is_zero_def)

lemma nan_constant: "isnan JS_FLOAT64_NAN" "\<not> isnan 0" "f64_is_zero 0"
  by (simp_all add: isnan_def f64_exp_def f64_man_def JS_FLOAT64_NAN_def f64_is_zero_def unat_and_mask unat_drop_bit)

lemma number_test_class: "number_test d1 d2 JS_EQ_SAME_VALUE_ZERO \<longleftrightarrow> number_class d1 = number_class d2"
  using nan_not_zero nan_constant by (auto simp: number_test_def number_class_def f64_eq_def)

lemma same_value_zero_class:
  assumes "comparable a" "comparable b"
  shows "js_same_value_zero a b = Some (key_id a = key_id b)"
proof (cases "\<exists>p q. a = JS_String p \<and> b = JS_String q")
  case True
  then show ?thesis
    using assms js_string_compare_units units_cmp_sign by (auto simp: js_same_value_zero_def js_strict_eq2_def)
next
  case False
  then show ?thesis
    using assms by (cases a; cases b) (auto simp: js_same_value_zero_def js_strict_eq2_def number_test_class)
qed

lemma int_class_inj: "number_class (f64_of_int (sint i)) = number_class (f64_of_int (sint j)) \<Longrightarrow> i = j" for i j :: u32
  using nan_constant f64_of_int32 [of i] f64_of_int32 [of j] f64_of_int_inj [OF _ sint32_small [of i] sint32_small [of j]] signed_word_eqI
  by (auto simp: number_class_def split: if_splits)

lemma int_class_float:
  fixes i :: u32
  assumes "number_class (f64_of_int (sint i)) = number_class d"
  shows "int32_f64 d"
  using assms f64_of_int32 [of i] nan_constant
  by (auto simp: number_class_def int32_f64_def split: if_splits)

lemma hash_key_class:
  assumes "key_ok a" "key_ok b" "key_id a = key_id b"
  shows "map_hash_key a = map_hash_key b"
  using assms
  by (cases a; cases b)
    (auto simp: key_ok_def map_hash_key_def hash_string_units js_tag_def dest: int_class_inj int_class_float int_class_float [OF sym],
     auto simp: number_class_def int32_f64_def split: if_splits)

section \<open>What a hash table needs of its keys\<close>

locale hashed_keys =
  fixes same :: "'k \<Rightarrow> 'k \<Rightarrow> bool option" and hash :: "'k \<Rightarrow> u32 option"
    and valid :: "'k \<Rightarrow> bool" and class_of :: "'k \<Rightarrow> 'c"
  assumes same_class: "valid a \<Longrightarrow> valid b \<Longrightarrow> same a b = Some (class_of a = class_of b)"
    and hash_defined: "valid a \<Longrightarrow> hash a \<noteq> None"
    and hash_class: "valid a \<Longrightarrow> valid b \<Longrightarrow> class_of a = class_of b \<Longrightarrow> hash a = hash b"
begin

text \<open>Searching the bucket of a key finds what searching all keys finds.\<close>

lemma find_in_bucket:
  assumes "\<And>x. x \<in> set xs \<Longrightarrow> P x \<Longrightarrow> valid (key x)" "valid k"
  shows "find (\<lambda>x. class_of (key x) = class_of k) (filter (\<lambda>x. P x \<and> f (hash (key x)) = f (hash k)) xs) =
    find (\<lambda>x. P x \<and> class_of (key x) = class_of k) xs"
  using assms(1)
proof (induction xs)
  case (Cons x xs)
  have "f (hash (key x)) = f (hash k)" if "P x" "class_of (key x) = class_of k"
    using hash_class [OF Cons.prems [of x] assms(2)] that by simp
  then show ?case using Cons by auto
qed simp

lemma hash_obtain:
  assumes "valid k"
  obtains h where "hash k = Some h"
  using hash_defined [OF assms] by blast

end

interpretation mk: hashed_keys js_same_value_zero map_hash_key key_ok key_id
proof
  show "js_same_value_zero a b = Some (key_id a = key_id b)" if "key_ok a" "key_ok b" for a b
    using that by (intro same_value_zero_class) (auto simp: key_ok_def)
  show "map_hash_key a \<noteq> None" if "key_ok a" for a
    using that by (cases a) (auto simp: map_hash_key_def key_ok_def hash_string_units)
  show "map_hash_key a = map_hash_key b" if "key_ok a" "key_ok b" "key_id a = key_id b" for a b
    using that by (rule hash_key_class)
qed

end
