(* ===== verification/Js_Map.thy ===== *)
theory Js_Map
  imports Js_Value
begin

text \<open>
  \<open>Map\<close>, \<open>Set\<close>, \<open>WeakMap\<close>, \<open>WeakSet\<close> and their iterators (\<open>quickjs.c\<close>, \<open>JSMapState\<close>,
  \<open>JSMapRecord\<close>, \<open>JSMapIteratorData\<close>).  A map keeps its records in a list in order of
  insertion and in the buckets of a hash table.  A record that an iterator stands on stays
  in the list as a zombie when it is deleted, until its last reference goes; a record of a
  weak map is also on the chain of weak references of its key object.

  The heap of records is explicit, so that every use of a freed record is the value \<open>None\<close>.
  A list of links is the list of the addresses of its members (\<open>List_Links\<close> has the pointer
  level).  Objects are addresses; the state of a map object is found under the address of
  the object, together with the \<open>magic\<close> of its class.  The answers of the allocator are
  arguments.  The reference counts of keys and values are not represented: releasing a
  value has no effect here.
\<close>

section \<open>Data\<close>

record JSMapRecord =
  mr_ref_count :: int
  mr_empty :: bool
  mr_map :: nat
  mr_key :: js_value
  mr_value :: js_value

record JSMapState =
  is_weak :: bool
  records :: "nat list"
  record_count :: u32
  hash_table :: "nat list list"
  hash_size :: u32
  record_count_threshold :: u32

datatype JSIteratorKindEnum = JS_ITERATOR_KIND_KEY | JS_ITERATOR_KIND_VALUE | JS_ITERATOR_KIND_KEY_AND_VALUE

record JSMapIteratorData =
  it_obj :: "nat option"
  it_kind :: JSIteratorKindEnum
  cur_record :: "nat option"

type_synonym mr_heap_t = "nat \<Rightarrow> JSMapRecord option"

text \<open>The part of the runtime that the maps use: records, map objects with their class,
  chains of weak references, and the iterator objects (\<open>None\<close> once freed).\<close>

record map_rt =
  mr_heap :: mr_heap_t
  map_objs :: "nat \<Rightarrow> (nat \<times> JSMapState) option"
  first_weak_ref :: "nat \<Rightarrow> nat list"
  iterators :: "JSMapIteratorData option list"

abbreviation MAGIC_SET :: nat where
  "MAGIC_SET \<equiv> 1"

abbreviation MAGIC_WEAK :: nat where
  "MAGIC_WEAK \<equiv> 2"

definition upd_mr :: "nat \<Rightarrow> JSMapRecord option \<Rightarrow> map_rt \<Rightarrow> map_rt" where
  "upd_mr r v rt = rt\<lparr>mr_heap := (mr_heap rt)(r := v)\<rparr>"

definition upd_map :: "nat \<Rightarrow> JSMapState \<Rightarrow> map_rt \<Rightarrow> map_rt" where
  "upd_map m s rt = rt\<lparr>map_objs := (map_objs rt)(m := map_option (\<lambda>(c, _). (c, s)) (map_objs rt m))\<rparr>"

definition map_state :: "map_rt \<Rightarrow> nat \<Rightarrow> JSMapState option" where
  "map_state rt m = map_option snd (map_objs rt m)"

text \<open>\<open>link.next\<close> of a member: the following member, or \<open>Some None\<close> for the head.\<close>

fun link_next :: "nat list \<Rightarrow> nat \<Rightarrow> nat option option" where
  "link_next [] r = None"
| "link_next (x # xs) r = (if x = r then Some (if xs = [] then None else Some (hd xs)) else link_next xs r)"

definition link_first :: "nat list \<Rightarrow> nat option" where
  "link_first xs = (if xs = [] then None else Some (hd xs))"

section \<open>Hash table\<close>

definition bucket_index :: "u32 \<Rightarrow> u32 \<Rightarrow> nat" where
  "bucket_index n h = unat (h AND (n - 1))"

fun map_find_loop :: "mr_heap_t \<Rightarrow> js_value \<Rightarrow> nat list \<Rightarrow> nat option option" where
  "map_find_loop heap key [] = Some None"
| "map_find_loop heap key (el # els) = do {
     mr \<leftarrow> heap el;
     eq \<leftarrow> js_same_value_zero (mr_key mr) key;
     if eq then Some (Some el) else map_find_loop heap key els }"

definition map_find_record :: "mr_heap_t \<Rightarrow> JSMapState \<Rightarrow> js_value \<Rightarrow> nat option option" where
  "map_find_record heap s key = do {
     h \<leftarrow> map_hash_key key;
     els \<leftarrow> rd (hash_table s) (bucket_index (hash_size s) h);
     map_find_loop heap key els }"

fun map_rehash_loop :: "mr_heap_t \<Rightarrow> u32 \<Rightarrow> nat list \<Rightarrow> nat list list \<Rightarrow> nat list list option" where
  "map_rehash_loop heap new_hash_size [] t = Some t"
| "map_rehash_loop heap new_hash_size (el # els) t = do {
     mr \<leftarrow> heap el;
     if \<not> mr_empty mr then do {
       h \<leftarrow> map_hash_key (mr_key mr);
       b \<leftarrow> rd t (bucket_index new_hash_size h);
       t \<leftarrow> wr t (bucket_index new_hash_size h) (b @ [el]);
       map_rehash_loop heap new_hash_size els t }
     else map_rehash_loop heap new_hash_size els t }"

definition grown_size :: "u32 \<Rightarrow> u32" where
  "grown_size n = (if n = 1 then 4 else n * 2)"

text \<open>\<open>slack\<close> is the answer of \<open>js_realloc2\<close>: nothing, or the bytes beyond those asked for; a list
  head has 16 bytes.\<close>

definition map_hash_resize :: "mr_heap_t \<Rightarrow> JSMapState \<Rightarrow> nat option \<Rightarrow> JSMapState option" where
  "map_hash_resize heap s slack =
     (case slack of
        None \<Rightarrow> Some s
      | Some n \<Rightarrow> do {
          let new_hash_size = grown_size (hash_size s) + of_nat (n div 16);
          t \<leftarrow> map_rehash_loop heap new_hash_size (records s) (replicate (unat new_hash_size) []);
          Some (s\<lparr>hash_table := t, hash_size := new_hash_size, record_count_threshold := new_hash_size * 2\<rparr>) })"

section \<open>Records\<close>

definition JS_VALUE_GET_OBJ :: "js_value \<Rightarrow> nat option" where
  "JS_VALUE_GET_OBJ v = (case v of JS_Object p \<Rightarrow> Some p | _ \<Rightarrow> None)"

text \<open>The answers of the allocator: the address of a new record, and the slack of a resized
  table.\<close>

type_synonym map_mem = "nat option \<times> nat option"

text \<open>The new record's value is set by the caller.\<close>

definition map_add_record :: "map_rt \<Rightarrow> nat \<Rightarrow> js_value \<Rightarrow> map_mem \<Rightarrow> (map_rt \<times> nat option) option" where
  "map_add_record rt m key mem =
     (case fst mem of
        None \<Rightarrow> Some (rt, None)
      | Some r \<Rightarrow> do {
          s \<leftarrow> map_state rt m;
          rt \<leftarrow> (if is_weak s then do {
                   p \<leftarrow> JS_VALUE_GET_OBJ key;
                   Some (rt\<lparr>first_weak_ref := (first_weak_ref rt)(p := r # first_weak_ref rt p)\<rparr>) }
                 else Some rt);
          let rt = upd_mr r (Some \<lparr>mr_ref_count = 1, mr_empty = False, mr_map = m, mr_key = key, mr_value = JS_Undefined\<rparr>) rt;
          h \<leftarrow> map_hash_key key;
          b \<leftarrow> rd (hash_table s) (bucket_index (hash_size s) h);
          t \<leftarrow> wr (hash_table s) (bucket_index (hash_size s) h) (b @ [r]);
          let s = s\<lparr>hash_table := t, records := records s @ [r], record_count := record_count s + 1\<rparr>;
          s \<leftarrow> (if record_count s \<ge> record_count_threshold s then map_hash_resize (mr_heap rt) s (snd mem) else Some s);
          Some (upd_map m s rt, Some r) })"

definition delete_weak_ref :: "map_rt \<Rightarrow> nat \<Rightarrow> map_rt option" where
  "delete_weak_ref rt r = do {
     mr \<leftarrow> mr_heap rt r;
     p \<leftarrow> JS_VALUE_GET_OBJ (mr_key mr);
     assert_c (r \<in> set (first_weak_ref rt p));
     Some (rt\<lparr>first_weak_ref := (first_weak_ref rt)(p := remove1 r (first_weak_ref rt p))\<rparr>) }"

definition map_delete_record :: "map_rt \<Rightarrow> nat \<Rightarrow> nat \<Rightarrow> map_rt option" where
  "map_delete_record rt m r = do {
     mr \<leftarrow> mr_heap rt r;
     if mr_empty mr then Some rt
     else do {
       s \<leftarrow> map_state rt m;
       let s = s\<lparr>hash_table := map (remove1 r) (hash_table s)\<rparr>;
       rt \<leftarrow> (if is_weak s then delete_weak_ref rt r else Some rt);
       if mr_ref_count mr - 1 = 0 then
         Some (upd_map m (s\<lparr>records := remove1 r (records s), record_count := record_count s - 1\<rparr>) (upd_mr r None rt))
       else
         Some (upd_map m (s\<lparr>record_count := record_count s - 1\<rparr>)
           (upd_mr r (Some (mr\<lparr>mr_ref_count := mr_ref_count mr - 1, mr_empty := True,
              mr_key := JS_Undefined, mr_value := JS_Undefined\<rparr>)) rt)) } }"

definition map_decref_record :: "map_rt \<Rightarrow> nat \<Rightarrow> map_rt option" where
  "map_decref_record rt r = do {
     mr \<leftarrow> mr_heap rt r;
     if mr_ref_count mr - 1 = 0 then do {
       assert_c (mr_empty mr);
       s \<leftarrow> map_state rt (mr_map mr);
       Some (upd_map (mr_map mr) (s\<lparr>records := remove1 r (records s)\<rparr>) (upd_mr r None rt)) }
     else Some (upd_mr r (Some (mr\<lparr>mr_ref_count := mr_ref_count mr - 1\<rparr>)) rt) }"

text \<open>The two passes over the chain of weak references of a dying object.\<close>

fun reset_weak_pass1 :: "nat list \<Rightarrow> map_rt \<Rightarrow> map_rt option" where
  "reset_weak_pass1 [] rt = Some rt"
| "reset_weak_pass1 (r # rs) rt = do {
     mr \<leftarrow> mr_heap rt r;
     s \<leftarrow> map_state rt (mr_map mr);
     assert_c (is_weak s);
     assert_c (\<not> mr_empty mr);
     reset_weak_pass1 rs (upd_map (mr_map mr)
       (s\<lparr>hash_table := map (remove1 r) (hash_table s), records := remove1 r (records s)\<rparr>) rt) }"

fun reset_weak_pass2 :: "nat list \<Rightarrow> map_rt \<Rightarrow> map_rt option" where
  "reset_weak_pass2 [] rt = Some rt"
| "reset_weak_pass2 (r # rs) rt = do { mr \<leftarrow> mr_heap rt r; reset_weak_pass2 rs (upd_mr r None rt) }"

definition reset_weak_ref :: "map_rt \<Rightarrow> nat \<Rightarrow> map_rt option" where
  "reset_weak_ref rt p = do {
     rt \<leftarrow> reset_weak_pass1 (first_weak_ref rt p) rt;
     rt \<leftarrow> reset_weak_pass2 (first_weak_ref rt p) rt;
     Some (rt\<lparr>first_weak_ref := (first_weak_ref rt)(p := [])\<rparr>) }"

section \<open>Methods of map objects\<close>

text \<open>\<open>JS_GetOpaque2\<close>: the map object, or \<open>None\<close> for a value of another class, which throws.\<close>

definition JS_GetOpaque2 :: "map_rt \<Rightarrow> js_value \<Rightarrow> nat \<Rightarrow> (nat \<times> JSMapState) option" where
  "JS_GetOpaque2 rt v magic =
     (case v of
        JS_Object p \<Rightarrow> (case map_objs rt p of Some (c, s) \<Rightarrow> if c = magic then Some (p, s) else None | None \<Rightarrow> None)
      | _ \<Rightarrow> None)"

text \<open>The part of \<open>js_map_constructor\<close> that makes an empty map for the new object \<open>obj\<close>; \<open>mem\<close> says
  whether the two allocations succeed.\<close>

definition js_map_init :: "map_rt \<Rightarrow> nat \<Rightarrow> nat \<Rightarrow> bool \<times> bool \<Rightarrow> map_rt \<times> js_value" where
  "js_map_init rt obj magic mem =
     (if \<not> fst mem \<or> \<not> snd mem then (rt, JS_Exception)
      else (rt\<lparr>map_objs := (map_objs rt)(obj \<mapsto> (magic,
              \<lparr>is_weak = odd (magic div 2), records = [], record_count = 0, hash_table = [[]], hash_size = 1,
               record_count_threshold = 4\<rparr>))\<rparr>, JS_Object obj))"

definition js_map_set :: "map_rt \<Rightarrow> js_value \<Rightarrow> js_value list \<Rightarrow> nat \<Rightarrow> map_mem \<Rightarrow> (map_rt \<times> js_value) option" where
  "js_map_set rt this_val argv magic mem =
     (case JS_GetOpaque2 rt this_val magic of
        None \<Rightarrow> Some (rt, JS_Exception)
      | Some (m, s) \<Rightarrow> do {
          key \<leftarrow> map_option map_normalize_key (rd argv 0);
          if is_weak s \<and> \<not> JS_IsObject key then Some (rt, JS_Exception)
          else do {
            val \<leftarrow> (if odd magic then Some JS_Undefined else rd argv 1);
            found \<leftarrow> map_find_record (mr_heap rt) s key;
            (rt, found) \<leftarrow> (case found of Some r \<Rightarrow> Some (rt, Some r) | None \<Rightarrow> map_add_record rt m key mem);
            (case found of
               None \<Rightarrow> Some (rt, JS_Exception)
             | Some r \<Rightarrow> do {
                 mr \<leftarrow> mr_heap rt r;
                 Some (upd_mr r (Some (mr\<lparr>mr_value := val\<rparr>)) rt, this_val) }) } })"

definition js_map_get :: "map_rt \<Rightarrow> js_value \<Rightarrow> js_value list \<Rightarrow> nat \<Rightarrow> js_value option" where
  "js_map_get rt this_val argv magic =
     (case JS_GetOpaque2 rt this_val magic of
        None \<Rightarrow> Some JS_Exception
      | Some (m, s) \<Rightarrow> do {
          key \<leftarrow> map_option map_normalize_key (rd argv 0);
          found \<leftarrow> map_find_record (mr_heap rt) s key;
          (case found of
             None \<Rightarrow> Some JS_Undefined
           | Some r \<Rightarrow> do { mr \<leftarrow> mr_heap rt r; Some (mr_value mr) }) })"

definition js_map_has :: "map_rt \<Rightarrow> js_value \<Rightarrow> js_value list \<Rightarrow> nat \<Rightarrow> js_value option" where
  "js_map_has rt this_val argv magic =
     (case JS_GetOpaque2 rt this_val magic of
        None \<Rightarrow> Some JS_Exception
      | Some (m, s) \<Rightarrow> do {
          key \<leftarrow> map_option map_normalize_key (rd argv 0);
          found \<leftarrow> map_find_record (mr_heap rt) s key;
          Some (JS_Bool (found \<noteq> None)) })"

definition js_map_delete :: "map_rt \<Rightarrow> js_value \<Rightarrow> js_value list \<Rightarrow> nat \<Rightarrow> (map_rt \<times> js_value) option" where
  "js_map_delete rt this_val argv magic =
     (case JS_GetOpaque2 rt this_val magic of
        None \<Rightarrow> Some (rt, JS_Exception)
      | Some (m, s) \<Rightarrow> do {
          key \<leftarrow> map_option map_normalize_key (rd argv 0);
          found \<leftarrow> map_find_record (mr_heap rt) s key;
          (case found of
             None \<Rightarrow> Some (rt, JS_Bool False)
           | Some r \<Rightarrow> do { rt \<leftarrow> map_delete_record rt m r; Some (rt, JS_Bool True) }) })"

text \<open>\<open>list_for_each_safe\<close>: the next member is read before the body runs.  The loop visits every
  record at most once, so the number of records is enough fuel.\<close>

primrec map_clear_loop :: "nat \<Rightarrow> map_rt \<Rightarrow> nat \<Rightarrow> nat option \<Rightarrow> map_rt option" where
  "map_clear_loop 0 rt m el = (if el = None then Some rt else None)"
| "map_clear_loop (Suc fuel) rt m el =
     (case el of
        None \<Rightarrow> Some rt
      | Some r \<Rightarrow> do {
          s \<leftarrow> map_state rt m;
          el1 \<leftarrow> link_next (records s) r;
          rt \<leftarrow> map_delete_record rt m r;
          map_clear_loop fuel rt m el1 })"

definition js_map_clear :: "map_rt \<Rightarrow> js_value \<Rightarrow> nat \<Rightarrow> (map_rt \<times> js_value) option" where
  "js_map_clear rt this_val magic =
     (case JS_GetOpaque2 rt this_val magic of
        None \<Rightarrow> Some (rt, JS_Exception)
      | Some (m, s) \<Rightarrow> do {
          rt \<leftarrow> map_clear_loop (length (records s)) rt m (link_first (records s));
          Some (rt, JS_Undefined) })"

definition js_map_get_size :: "map_rt \<Rightarrow> js_value \<Rightarrow> nat \<Rightarrow> js_value" where
  "js_map_get_size rt this_val magic =
     (case JS_GetOpaque2 rt this_val magic of None \<Rightarrow> JS_Exception | Some (m, s) \<Rightarrow> JS_NewUint32 (record_count s))"

text \<open>\<open>forEach\<close>: \<open>func\<close> is the callback (the value, the key and the map), which may use all the
  operations here.  It may add records for ever, so the loop has fuel.\<close>

type_synonym map_callback = "js_value \<Rightarrow> js_value \<Rightarrow> js_value \<Rightarrow> map_rt \<Rightarrow> (map_rt \<times> js_value) option"

primrec map_forEach_loop ::
  "nat \<Rightarrow> map_callback \<Rightarrow> nat \<Rightarrow> nat \<Rightarrow> nat option \<Rightarrow> map_rt \<Rightarrow> (map_rt \<times> js_value) option" where
  "map_forEach_loop 0 func magic m el rt = None"
| "map_forEach_loop (Suc fuel) func magic m el rt =
     (case el of
        None \<Rightarrow> Some (rt, JS_Undefined)
      | Some r \<Rightarrow> do {
          mr \<leftarrow> mr_heap rt r;
          if \<not> mr_empty mr then do {
            let rt = upd_mr r (Some (mr\<lparr>mr_ref_count := mr_ref_count mr + 1\<rparr>)) rt;
            let arg1 = mr_key mr;
            let arg0 = (if magic \<noteq> 0 then arg1 else mr_value mr);
            (rt, ret) \<leftarrow> func arg0 arg1 (JS_Object m) rt;
            s \<leftarrow> map_state rt m;
            el \<leftarrow> link_next (records s) r;
            rt \<leftarrow> map_decref_record rt r;
            if ret = JS_Exception then Some (rt, ret) else map_forEach_loop fuel func magic m el rt }
          else do {
            s \<leftarrow> map_state rt m;
            el \<leftarrow> link_next (records s) r;
            map_forEach_loop fuel func magic m el rt } })"

text \<open>\<open>func\<close> is \<open>None\<close> for an argument that is not a function.\<close>

definition js_map_forEach ::
  "nat \<Rightarrow> map_rt \<Rightarrow> js_value \<Rightarrow> map_callback option \<Rightarrow> nat \<Rightarrow> (map_rt \<times> js_value) option" where
  "js_map_forEach fuel rt this_val func magic =
     (case JS_GetOpaque2 rt this_val magic of
        None \<Rightarrow> Some (rt, JS_Exception)
      | Some (m, s) \<Rightarrow>
          (case func of
             None \<Rightarrow> Some (rt, JS_Exception)
           | Some f \<Rightarrow> map_forEach_loop fuel f magic m (link_first (records s)) rt))"

fun map_finalizer_loop :: "bool \<Rightarrow> nat list \<Rightarrow> map_rt \<Rightarrow> map_rt option" where
  "map_finalizer_loop weak [] rt = Some rt"
| "map_finalizer_loop weak (r # rs) rt = do {
     mr \<leftarrow> mr_heap rt r;
     rt \<leftarrow> (if \<not> mr_empty mr \<and> weak then delete_weak_ref rt r else Some rt);
     map_finalizer_loop weak rs (upd_mr r None rt) }"

definition js_map_finalizer :: "map_rt \<Rightarrow> nat \<Rightarrow> map_rt option" where
  "js_map_finalizer rt m =
     (case map_state rt m of
        None \<Rightarrow> Some rt
      | Some s \<Rightarrow> do {
          rt \<leftarrow> map_finalizer_loop (is_weak s) (records s) rt;
          Some (rt\<lparr>map_objs := (map_objs rt)(m := None)\<rparr>) })"

section \<open>Iterators\<close>

text \<open>The index of the new iterator object in \<open>iterators\<close> is its address; \<open>ok\<close> says whether the
  allocations succeed.\<close>

definition js_create_map_iterator ::
  "map_rt \<Rightarrow> js_value \<Rightarrow> nat \<Rightarrow> JSIteratorKindEnum \<Rightarrow> bool \<Rightarrow> map_rt \<times> nat option" where
  "js_create_map_iterator rt this_val magic kind ok =
     (case JS_GetOpaque2 rt this_val magic of
        None \<Rightarrow> (rt, None)
      | Some (m, s) \<Rightarrow>
          if \<not> ok then (rt, None)
          else (rt\<lparr>iterators := iterators rt @ [Some \<lparr>it_obj = Some m, it_kind = kind, cur_record = None\<rparr>]\<rparr>,
                Some (length (iterators rt))))"

text \<open>What \<open>next\<close> returns: the end, a value, or an array of two values.\<close>

datatype map_next = Next_done | Next_value js_value | Next_pair js_value js_value | Next_exception

text \<open>The loop that skips zombies; it passes over each member at most once.\<close>

primrec map_next_loop :: "nat \<Rightarrow> mr_heap_t \<Rightarrow> nat list \<Rightarrow> nat option \<Rightarrow> nat option option" where
  "map_next_loop 0 heap rs el = (if el = None then Some None else None)"
| "map_next_loop (Suc fuel) heap rs el =
     (case el of
        None \<Rightarrow> Some None
      | Some r \<Rightarrow> do {
          mr \<leftarrow> heap r;
          if \<not> mr_empty mr then Some (Some r)
          else do { el \<leftarrow> link_next rs r; map_next_loop fuel heap rs el } })"

definition upd_iter :: "nat \<Rightarrow> JSMapIteratorData option \<Rightarrow> map_rt \<Rightarrow> map_rt" where
  "upd_iter i v rt = rt\<lparr>iterators := (iterators rt)[i := v]\<rparr>"

text \<open>\<open>this_val\<close> is the address of an iterator object, or \<open>None\<close> for any other value; \<open>ok\<close> says
  whether the array of two values can be made.\<close>

definition js_map_iterator_next :: "map_rt \<Rightarrow> nat option \<Rightarrow> nat \<Rightarrow> bool \<Rightarrow> (map_rt \<times> map_next) option" where
  "js_map_iterator_next rt this_val magic ok = (case this_val of None \<Rightarrow> Some (rt, Next_exception) | Some i \<Rightarrow> do {
     it \<leftarrow> rd (iterators rt) i;
     it \<leftarrow> it;
     (case it_obj it of
        None \<Rightarrow> Some (rt, Next_done)
      | Some m \<Rightarrow> do {
          s \<leftarrow> map_state rt m;
          (el, rt) \<leftarrow> (case cur_record it of
              None \<Rightarrow> Some (link_first (records s), rt)
            | Some r \<Rightarrow> do {
                el \<leftarrow> link_next (records s) r;
                rt \<leftarrow> map_decref_record rt r;
                Some (el, rt) });
          s \<leftarrow> map_state rt m;
          el \<leftarrow> map_next_loop (length (records s)) (mr_heap rt) (records s) el;
          (case el of
             None \<Rightarrow> Some (upd_iter i (Some (it\<lparr>cur_record := None, it_obj := None\<rparr>)) rt, Next_done)
           | Some r \<Rightarrow> do {
               mr \<leftarrow> mr_heap rt r;
               let rt = upd_mr r (Some (mr\<lparr>mr_ref_count := mr_ref_count mr + 1\<rparr>)) rt;
               let rt = upd_iter i (Some (it\<lparr>cur_record := Some r\<rparr>)) rt;
               let val = (if magic \<noteq> 0 then mr_key mr else mr_value mr);
               Some (rt, (case it_kind it of
                  JS_ITERATOR_KIND_KEY \<Rightarrow> Next_value (mr_key mr)
                | JS_ITERATOR_KIND_VALUE \<Rightarrow> Next_value val
                | JS_ITERATOR_KIND_KEY_AND_VALUE \<Rightarrow> if ok then Next_pair (mr_key mr) val else Next_exception)) }) }) })"

text \<open>The finalizer of an iterator, whose map is live unless both go in one sweep.\<close>

definition js_map_iterator_finalizer :: "map_rt \<Rightarrow> nat \<Rightarrow> map_rt option" where
  "js_map_iterator_finalizer rt i = do {
     it \<leftarrow> rd (iterators rt) i;
     it \<leftarrow> it;
     rt \<leftarrow> (case (it_obj it, cur_record it) of
         (Some m, Some r) \<Rightarrow> (if map_objs rt m \<noteq> None then map_decref_record rt r else Some rt)
       | _ \<Rightarrow> Some rt);
     Some (upd_iter i None rt) }"

section \<open>Well-formed maps\<close>

definition live :: "mr_heap_t \<Rightarrow> nat \<Rightarrow> bool" where
  "live heap r = (case heap r of Some mr \<Rightarrow> \<not> mr_empty mr | None \<Rightarrow> False)"

definition rkey :: "mr_heap_t \<Rightarrow> nat \<Rightarrow> js_value" where
  "rkey heap r = mr_key (the (heap r))"

definition rval :: "mr_heap_t \<Rightarrow> nat \<Rightarrow> js_value" where
  "rval heap r = mr_value (the (heap r))"

definition in_bucket :: "mr_heap_t \<Rightarrow> u32 \<Rightarrow> nat \<Rightarrow> nat \<Rightarrow> bool" where
  "in_bucket heap n i r \<longleftrightarrow> live heap r \<and> bucket_index n (the (map_hash_key (rkey heap r))) = i"

text \<open>The hash table that the records determine.\<close>

definition buckets :: "mr_heap_t \<Rightarrow> u32 \<Rightarrow> nat list \<Rightarrow> nat list list" where
  "buckets heap n rs = map (\<lambda>i. filter (in_bucket heap n i) rs) [0..<unat n]"

definition live_records :: "mr_heap_t \<Rightarrow> JSMapState \<Rightarrow> nat list" where
  "live_records heap s = filter (live heap) (records s)"

text \<open>The entries of a map in order of insertion.\<close>

definition entries :: "mr_heap_t \<Rightarrow> JSMapState \<Rightarrow> (js_value \<times> js_value) list" where
  "entries heap s = map (\<lambda>r. (rkey heap r, rval heap r)) (live_records heap s)"

definition entries_ok :: "bool \<Rightarrow> (js_value \<times> js_value) list \<Rightarrow> bool" where
  "entries_ok weak es \<longleftrightarrow>
     (\<forall>k \<in> fst ` set es. key_ok k \<and> (weak \<longrightarrow> JS_IsObject k)) \<and> distinct (map (key_id \<circ> fst) es)"

definition map_ok :: "mr_heap_t \<Rightarrow> nat \<Rightarrow> JSMapState \<Rightarrow> bool" where
  "map_ok heap m s \<longleftrightarrow>
     distinct (records s) \<and>
     (\<forall>r \<in> set (records s). \<exists>mr. heap r = Some mr \<and> mr_map mr = m) \<and>
     hash_size s \<noteq> 0 \<and> hash_table s = buckets heap (hash_size s) (records s) \<and>
     entries_ok (is_weak s) (entries heap s) \<and>
     (\<not> is_weak s \<longrightarrow> record_count s = of_nat (length (entries heap s)))"

lemma bucket_index_less: "n \<noteq> 0 \<Longrightarrow> bucket_index n h < unat n"
proof -
  assume n: "n \<noteq> 0"
  have "unat (h AND (n - 1)) \<le> unat (n - 1)" by (simp add: word_and_le1 flip: word_le_nat_alt)
  moreover have "unat (n - 1) = unat n - 1" using n by (simp add: unat_minus_one)
  moreover have "0 < unat n" using n by (simp add: unat_gt_0)
  ultimately show ?thesis unfolding bucket_index_def by linarith
qed

lemma length_buckets [simp]: "length (buckets heap n rs) = unat n"
  by (simp add: buckets_def)

lemma nth_buckets: "i < unat n \<Longrightarrow> buckets heap n rs ! i = filter (in_bucket heap n i) rs"
  by (simp add: buckets_def)

lemma live_cong: "heap' r = heap r \<Longrightarrow> live heap' r = live heap r \<and> rkey heap' r = rkey heap r \<and> rval heap' r = rval heap r"
  by (simp add: live_def rkey_def rval_def)

text \<open>Everything about a map depends on its own records only.\<close>

lemma map_state_cong:
  assumes "\<And>r. r \<in> set (records s) \<Longrightarrow> heap' r = heap r"
  shows "live_records heap' s = live_records heap s" "entries heap' s = entries heap s"
    "buckets heap' n (records s) = buckets heap n (records s)" "map_ok heap' m s \<longleftrightarrow> map_ok heap m s"
proof -
  have same: "live heap' r = live heap r \<and> rkey heap' r = rkey heap r \<and> rval heap' r = rval heap r"
    if "r \<in> set (records s)" for r using that by (intro live_cong assms)
  show lr: "live_records heap' s = live_records heap s" unfolding live_records_def using same by (intro filter_cong) auto
  have sub: "set (live_records heap s) \<subseteq> set (records s)" by (auto simp: live_records_def)
  show en: "entries heap' s = entries heap s" unfolding entries_def lr using same sub by (intro map_cong) auto
  show b: "buckets heap' n (records s) = buckets heap n (records s)" for n
    unfolding buckets_def using same by (intro map_cong filter_cong refl) (auto simp: in_bucket_def)
  then show "map_ok heap' m s \<longleftrightarrow> map_ok heap m s"
    unfolding map_ok_def using en assms by auto
qed

section \<open>Searching and rehashing\<close>

lemma live_record: "live heap r \<Longrightarrow> heap r \<noteq> None"
  by (auto simp: live_def split: option.splits)

lemma entry_of_record: "r \<in> set (records s) \<Longrightarrow> live heap r \<Longrightarrow> (rkey heap r, rval heap r) \<in> set (entries heap s)"
  by (auto simp: entries_def live_records_def)

lemma live_key_ok:
  assumes "map_ok heap m s" "r \<in> set (records s)" "live heap r"
  shows "key_ok (rkey heap r)"
  using entry_of_record [OF assms(2,3)] assms(1) by (force simp: map_ok_def entries_ok_def)

lemma map_find_loop_find:
  assumes "\<And>r. r \<in> set els \<Longrightarrow> heap r \<noteq> None \<and> key_ok (rkey heap r)" "key_ok key"
  shows "map_find_loop heap key els = Some (find (\<lambda>r. key_id (rkey heap r) = key_id key) els)"
  using assms(1)
proof (induction els)
  case (Cons r els)
  obtain mr where mr: "heap r = Some mr" using Cons.prems [of r] by auto
  then have "key_ok (mr_key mr)" using Cons.prems [of r] by (simp add: rkey_def)
  then show ?case using Cons mr mk.same_class [OF _ assms(2)] by (simp add: rkey_def)
qed simp

lemma find_record:
  assumes ok: "map_ok heap m s" and key: "key_ok key"
  shows "map_find_record heap s key = Some (find (\<lambda>r. live heap r \<and> key_id (rkey heap r) = key_id key) (records s))"
proof -
  obtain h where h: "map_hash_key key = Some h" using key by (rule mk.hash_obtain)
  let ?i = "bucket_index (hash_size s) h"
  have n: "?i < unat (hash_size s)" using ok by (intro bucket_index_less) (simp add: map_ok_def)
  have t: "hash_table s = buckets heap (hash_size s) (records s)" using ok by (simp add: map_ok_def)
  have good: "heap r \<noteq> None \<and> key_ok (rkey heap r)" if "r \<in> set (filter (in_bucket heap (hash_size s) ?i) (records s))" for r
    using that live_key_ok [OF ok] live_record [of heap r] by (auto simp: in_bucket_def)
  have "find (\<lambda>r. key_id (rkey heap r) = key_id key) (filter (in_bucket heap (hash_size s) ?i) (records s)) =
      find (\<lambda>r. live heap r \<and> key_id (rkey heap r) = key_id key) (records s)"
    using mk.find_in_bucket [of "records s" "live heap" "rkey heap" key "\<lambda>h. bucket_index (hash_size s) (the h)"]
      live_key_ok [OF ok] key h by (simp add: in_bucket_def [abs_def])
  moreover have "map_find_loop heap key (filter (in_bucket heap (hash_size s) ?i) (records s)) =
      Some (find (\<lambda>r. key_id (rkey heap r) = key_id key) (filter (in_bucket heap (hash_size s) ?i) (records s)))"
    using good key by (rule map_find_loop_find)
  ultimately show ?thesis using n by (simp add: map_find_record_def h t nth_buckets)
qed

lemma buckets_snoc:
  assumes "n \<noteq> 0"
  shows "buckets heap n (rs @ [r]) =
    (if live heap r then let i = bucket_index n (the (map_hash_key (rkey heap r)))
       in (buckets heap n rs)[i := buckets heap n rs ! i @ [r]] else buckets heap n rs)"
  using bucket_index_less [OF assms, of "the (map_hash_key (rkey heap r))"]
  by (auto simp: Let_def nth_buckets nth_list_update in_bucket_def intro!: nth_equalityI)

lemma rehash_loop:
  assumes "n \<noteq> 0" "\<And>r. r \<in> set rs \<Longrightarrow> heap r \<noteq> None" "\<And>r. r \<in> set rs \<Longrightarrow> live heap r \<Longrightarrow> key_ok (rkey heap r)"
  shows "map_rehash_loop heap n rs (buckets heap n pre) = Some (buckets heap n (pre @ rs))"
  using assms(2,3)
proof (induction rs arbitrary: pre)
  case (Cons r rs)
  obtain mr where mr: "heap r = Some mr" using Cons.prems(1) [of r] by auto
  have IH: "map_rehash_loop heap n rs (buckets heap n (pre @ [r])) = Some (buckets heap n (pre @ r # rs))"
    using Cons.IH [of "pre @ [r]"] Cons.prems by simp
  show ?case
  proof (cases "mr_empty mr")
    case True
    then have "\<not> live heap r" using mr by (simp add: live_def)
    then show ?thesis using IH mr True by (simp add: buckets_snoc [OF assms(1)])
  next
    case False
    then have l: "live heap r" "rkey heap r = mr_key mr" using mr by (simp_all add: live_def rkey_def)
    then obtain h where h: "map_hash_key (mr_key mr) = Some h" using Cons.prems(2) [of r] mk.hash_obtain by auto
    then show ?thesis
      using IH mr False l bucket_index_less [OF assms(1), of h] by (simp add: buckets_snoc [OF assms(1)] Let_def)
  qed
qed simp

lemma buckets_Nil: "replicate (unat n) [] = buckets heap n []"
  by (simp add: buckets_def map_replicate_const)

text \<open>Growing the table keeps the map; \<open>resize_fits\<close> says that the new size does not wrap to zero.\<close>

definition resize_fits :: "u32 \<Rightarrow> nat option \<Rightarrow> bool" where
  "resize_fits n slack \<longleftrightarrow> (\<forall>k. slack = Some k \<longrightarrow> grown_size n + of_nat (k div 16) \<noteq> 0)"

lemma hash_resize:
  assumes ok: "map_ok heap m s" and fits: "resize_fits (hash_size s) slack"
  obtains s' where "map_hash_resize heap s slack = Some s'" "map_ok heap m s'"
    "records s' = records s" "is_weak s' = is_weak s" "record_count s' = record_count s"
proof (cases slack)
  case None
  then show thesis using that [of s] ok by (simp add: map_hash_resize_def)
next
  case (Some k)
  let ?n = "grown_size (hash_size s) + of_nat (k div 16)"
  have n: "?n \<noteq> 0" using fits Some by (simp add: resize_fits_def)
  have "heap r \<noteq> None" if "r \<in> set (records s)" for r using ok that by (auto simp: map_ok_def)
  then have "map_rehash_loop heap ?n (records s) (replicate (unat ?n) []) = Some (buckets heap ?n (records s))"
    using rehash_loop [OF n, of "records s" heap "[]"] live_key_ok [OF ok] by (simp add: buckets_Nil [of _ heap])
  then show thesis
    using that [of "s\<lparr>hash_table := buckets heap ?n (records s), hash_size := ?n, record_count_threshold := ?n * 2\<rparr>"] Some ok n
    by (simp add: map_hash_resize_def Let_def map_ok_def entries_def live_records_def)
qed

section \<open>Changes of a map\<close>

lemma map_ok_fresh: "map_ok heap m s \<Longrightarrow> heap r = None \<Longrightarrow> r \<notin> set (records s)"
  by (auto simp: map_ok_def)

lemma heap_add_same: "r \<notin> set rs \<Longrightarrow> x \<in> set rs \<Longrightarrow> (heap(r := v)) x = heap x"
  by auto

text \<open>A new record at the end.\<close>

lemma map_ok_add:
  assumes ok: "map_ok heap m s" and fresh: "heap r = None" and key: "key_ok (mr_key mr)" "is_weak s \<Longrightarrow> JS_IsObject (mr_key mr)"
    and new: "key_id (mr_key mr) \<notin> key_id ` fst ` set (entries heap s)" and mr: "mr_map mr = m" "\<not> mr_empty mr"
    and i: "i = bucket_index (hash_size s) (the (map_hash_key (mr_key mr)))"
    and s': "s' = s\<lparr>hash_table := (hash_table s)[i := hash_table s ! i @ [r]], records := records s @ [r],
      record_count := record_count s + 1\<rparr>"
  shows "map_ok (heap(r \<mapsto> mr)) m s'" "entries (heap(r \<mapsto> mr)) s' = entries heap s @ [(mr_key mr, mr_value mr)]"
proof -
  let ?h = "heap(r \<mapsto> mr)"
  have r: "r \<notin> set (records s)" using ok fresh by (rule map_ok_fresh)
  then have same: "?h x = heap x" if "x \<in> set (records s)" for x using that by auto
  note old = map_state_cong [of s ?h heap, OF same]
  have l: "live ?h r" "rkey ?h r = mr_key mr" "rval ?h r = mr_value mr" using mr by (simp_all add: live_def rkey_def rval_def)
  have "entries ?h s' = entries ?h s @ [(mr_key mr, mr_value mr)]" using l by (simp add: entries_def live_records_def s')
  then show en: "entries ?h s' = entries heap s @ [(mr_key mr, mr_value mr)]" using old(2) by simp
  have n: "hash_size s \<noteq> 0" using ok by (simp add: map_ok_def)
  have "buckets ?h (hash_size s) (records s @ [r]) = hash_table s'"
    using ok l old(3) by (simp add: buckets_snoc [OF n] map_ok_def s' i Let_def)
  moreover have "entries_ok (is_weak s) (entries heap s @ [(mr_key mr, mr_value mr)])"
    using ok key new by (auto simp: entries_ok_def map_ok_def image_image)
  ultimately show "map_ok ?h m s'" using ok r mr en by (auto simp: map_ok_def s')
qed

text \<open>A record that leaves the buckets: it is freed, or it stays as a zombie.\<close>

lemma entries_without:
  assumes ok: "map_ok heap m s" and r: "r \<in> set (records s)" "live heap r"
  shows "map (\<lambda>x. (rkey heap x, rval heap x)) (filter (\<lambda>x. x \<noteq> r) (live_records heap s)) =
    filter (\<lambda>(k, v). key_id k \<noteq> key_id (rkey heap r)) (entries heap s)"
proof -
  have "inj_on (\<lambda>x. key_id (rkey heap x)) (set (live_records heap s))"
    using ok by (simp add: map_ok_def entries_ok_def entries_def distinct_map comp_def)
  then have "key_id (rkey heap x) \<noteq> key_id (rkey heap r) \<longleftrightarrow> x \<noteq> r" if "x \<in> set (live_records heap s)" for x
    using that r by (auto simp: live_records_def inj_on_def)
  then have "filter (\<lambda>x. x \<noteq> r) (live_records heap s) =
      filter (\<lambda>x. key_id (rkey heap x) \<noteq> key_id (rkey heap r)) (live_records heap s)"
    by (intro filter_cong) auto
  then show ?thesis by (simp add: entries_def filter_map comp_def)
qed

lemma entries_ok_filter: "entries_ok weak es \<Longrightarrow> entries_ok weak (filter P es)"
  by (auto simp: entries_ok_def distinct_map_filter image_iff)

lemma length_without:
  assumes "distinct (map f xs)" "x \<in> set xs"
  shows "Suc (length (filter (\<lambda>y. f y \<noteq> f x) xs)) = length xs"
proof -
  have "length (filter (\<lambda>y. f y = f x) xs) = 1"
    using assms distinct_length_filter [of "map f xs" "\<lambda>z. z = f x"]
    by (simp add: filter_map comp_def)
  then show ?thesis using sum_length_filter_compl [of "\<lambda>y. f y = f x" xs] by simp
qed

lemma map_ok_kill:
  assumes ok: "map_ok heap m s" and r: "r \<in> set (records s)" "live heap r"
    and dead: "v = None \<and> rs = remove1 r (records s) \<or> (\<exists>mr. v = Some mr \<and> mr_empty mr \<and> mr_map mr = m) \<and> rs = records s"
    and s': "s' = s\<lparr>hash_table := map (remove1 r) (hash_table s), records := rs, record_count := c\<rparr>"
    and c: "\<not> is_weak s \<Longrightarrow> c = record_count s - 1"
  shows "map_ok (heap(r := v)) m s'"
    "entries (heap(r := v)) s' = filter (\<lambda>(k, v). key_id k \<noteq> key_id (rkey heap r)) (entries heap s)"
proof -
  let ?h = "heap(r := v)"
  have d: "distinct (records s)" using ok by (simp add: map_ok_def)
  have l: "\<not> live ?h r" using dead by (auto simp: live_def)
  then have gone: "filter Q rs = filter Q (records s)" if "\<not> Q r" for Q
    using that dead by (auto simp: filter_remove1 remove1_filter_not)
  have off: "live ?h x \<longleftrightarrow> x \<noteq> r \<and> live heap x" "x \<noteq> r \<Longrightarrow> rkey ?h x = rkey heap x \<and> rval ?h x = rval heap x" for x
    using l by (auto simp: live_def rkey_def rval_def)
  have lr: "live_records ?h s' = filter (\<lambda>x. x \<noteq> r) (live_records heap s)"
    using gone [of "live ?h"] l by (auto simp: live_records_def s' off intro!: filter_cong)
  have "entries ?h s' = map (\<lambda>x. (rkey heap x, rval heap x)) (filter (\<lambda>x. x \<noteq> r) (live_records heap s))"
    unfolding entries_def lr using off(2) by (intro map_cong) auto
  then show en: "entries ?h s' = filter (\<lambda>(k, v). key_id k \<noteq> key_id (rkey heap r)) (entries heap s)"
    using entries_without [OF ok r] by simp
  have b: "remove1 r (filter (in_bucket heap n i) (records s)) = filter (in_bucket ?h n i) rs" for n i
  proof -
    have "\<not> in_bucket ?h n i r" using l by (simp add: in_bucket_def)
    then have "filter (in_bucket ?h n i) rs = filter (in_bucket ?h n i) (records s)" by (rule gone)
    also have "\<dots> = filter (\<lambda>x. x \<noteq> r) (filter (in_bucket heap n i) (records s))"
      using off by (auto simp: in_bucket_def intro!: filter_cong)
    also have "\<dots> = remove1 r (filter (in_bucket heap n i) (records s))"
      using d by (simp add: distinct_remove1_removeAll removeAll_filter_not_eq eq_commute [of r])
    finally show ?thesis by simp
  qed
  then have "hash_table s' = buckets ?h (hash_size s) rs" using ok by (simp add: s' map_ok_def buckets_def)
  moreover have len: "Suc (length (entries ?h s')) = length (entries heap s)"
    using length_without [of "key_id \<circ> fst" "entries heap s" "(rkey heap r, rval heap r)"] ok entry_of_record [OF r]
    unfolding en by (simp add: map_ok_def entries_ok_def case_prod_unfold)
  moreover have "\<forall>x \<in> set rs. \<exists>mr. ?h x = Some mr \<and> mr_map mr = m"
    using ok dead d by (auto simp: map_ok_def)
  moreover have "distinct rs" using dead d by auto
  moreover have "entries_ok (is_weak s) (entries ?h s')" unfolding en using ok by (intro entries_ok_filter) (simp add: map_ok_def)
  moreover from len have "of_nat (length (entries ?h s')) = of_nat (length (entries heap s)) - (1 :: u32)"
    by (metis add_diff_cancel_left' of_nat_Suc)
  ultimately show "map_ok ?h m s'"
    using ok c unfolding map_ok_def by (auto simp: s')
qed

text \<open>A zombie that is freed.\<close>

lemma map_ok_drop:
  assumes ok: "map_ok heap m s" and r: "\<not> live heap r" and s': "s' = s\<lparr>records := remove1 r (records s)\<rparr>"
  shows "map_ok (heap(r := None)) m s'" "entries (heap(r := None)) s' = entries heap s"
proof -
  let ?h = "heap(r := None)"
  have d: "distinct (records s)" using ok by (simp add: map_ok_def)
  have off: "live ?h x \<longleftrightarrow> live heap x" "live heap x \<Longrightarrow> rkey ?h x = rkey heap x \<and> rval ?h x = rval heap x" for x
    using r by (auto simp: live_def rkey_def rval_def)
  have "live_records ?h s' = live_records heap s"
    using r by (simp add: live_records_def s' off filter_remove1 remove1_filter_not cong: filter_cong)
  then show en: "entries ?h s' = entries heap s"
    unfolding entries_def using off(2) by (intro map_cong) (auto simp: live_records_def)
  have "filter (in_bucket ?h n i) (remove1 r (records s)) = filter (in_bucket heap n i) (records s)" for n i
    using off r by (auto simp: filter_remove1 remove1_filter_not in_bucket_def intro!: filter_cong)
  then have "hash_table s' = buckets ?h (hash_size s) (records s')" using ok by (simp add: s' map_ok_def buckets_def)
  then show "map_ok ?h m s'" using ok d en unfolding map_ok_def by (auto simp: s')
qed

text \<open>A record whose count or value changes.\<close>

lemma map_ok_touch:
  assumes ok: "map_ok heap m s" and r: "heap r = Some mr" "mr_map mr' = mr_map mr" "mr_empty mr' = mr_empty mr" "mr_key mr' = mr_key mr"
  shows "map_ok (heap(r \<mapsto> mr')) m s"
    "entries (heap(r \<mapsto> mr')) s = map (\<lambda>x. (rkey heap x, if x = r then mr_value mr' else rval heap x)) (live_records heap s)"
proof -
  let ?h = "heap(r \<mapsto> mr')"
  have off: "live ?h x \<longleftrightarrow> live heap x" "rkey ?h x = rkey heap x" "rval ?h x = (if x = r then mr_value mr' else rval heap x)" for x
    using r by (auto simp: live_def rkey_def rval_def)
  have lr: "live_records ?h s = live_records heap s" by (simp add: live_records_def off cong: filter_cong)
  show "entries ?h s = map (\<lambda>x. (rkey heap x, if x = r then mr_value mr' else rval heap x)) (live_records heap s)"
    unfolding entries_def lr off ..
  then have k: "map fst (entries ?h s) = map fst (entries heap s)" by (simp add: entries_def)
  then have "entries_ok w (entries ?h s) = entries_ok w (entries heap s)" for w
    unfolding entries_ok_def by (simp only: set_map [symmetric] map_map [symmetric])
  moreover have "length (entries ?h s) = length (entries heap s)" using k by (metis length_map)
  moreover have "buckets ?h n rs = buckets heap n rs" for n rs
    by (simp add: buckets_def in_bucket_def [abs_def] off)
  ultimately show "map_ok ?h m s" using ok r unfolding map_ok_def by auto
qed

end
