(* ===== verification/Js_Map_Refine.thy ===== *)
theory Js_Map_Refine
  imports Js_Map
begin

text \<open>
  The invariant of the runtime's maps and the refinement of their operations: a map object
  is the list of its entries in order of insertion, keys are compared by their class, and
  whatever sequence of operations runs, no freed record is used, no assertion fails, and the
  reference counts of the records are those that the iterators account for.
\<close>

section \<open>Invariant of the runtime\<close>

definition pinned :: "nat \<Rightarrow> JSMapIteratorData option \<Rightarrow> bool" where
  "pinned r o1 = (case o1 of Some it \<Rightarrow> cur_record it = Some r | None \<Rightarrow> False)"

definition pins :: "JSMapIteratorData option list \<Rightarrow> nat \<Rightarrow> nat" where
  "pins its r = length (filter (pinned r) its)"

text \<open>Every map is well-formed, and every allocated record is in the list of its map.\<close>

definition maps_ok :: "map_rt \<Rightarrow> bool" where
  "maps_ok rt \<longleftrightarrow>
     (\<forall>m c s. map_objs rt m = Some (c, s) \<longrightarrow> map_ok (mr_heap rt) m s \<and> is_weak s = odd (c div 2)) \<and>
     (\<forall>r mr. mr_heap rt r = Some mr \<longrightarrow> (\<exists>c s. map_objs rt (mr_map mr) = Some (c, s) \<and> r \<in> set (records s)))"

text \<open>The count of a record is one for the map, unless it is a zombie, and one for every iterator
  that stands on it; iterators stand on records of their own map, which is not weak.\<close>

definition pins_ok :: "map_rt \<Rightarrow> bool" where
  "pins_ok rt \<longleftrightarrow>
     (\<forall>r mr. mr_heap rt r = Some mr \<longrightarrow>
        mr_ref_count mr = (if mr_empty mr then 0 else 1) + int (pins (iterators rt) r) \<and> 0 < mr_ref_count mr) \<and>
     (\<forall>it. Some it \<in> set (iterators rt) \<longrightarrow>
        (\<forall>m. it_obj it = Some m \<longrightarrow> (\<exists>c s. map_objs rt m = Some (c, s) \<and> \<not> is_weak s)) \<and>
        (\<forall>r. cur_record it = Some r \<longrightarrow> (\<exists>mr. mr_heap rt r = Some mr \<and> it_obj it = Some (mr_map mr))))"

definition weak_map :: "(nat \<Rightarrow> (nat \<times> JSMapState) option) \<Rightarrow> nat \<Rightarrow> bool" where
  "weak_map objs m = (case objs m of Some (c, s) \<Rightarrow> is_weak s | None \<Rightarrow> False)"

definition weak_key :: "mr_heap_t \<Rightarrow> (nat \<Rightarrow> (nat \<times> JSMapState) option) \<Rightarrow> nat \<Rightarrow> nat option" where
  "weak_key heap objs r =
     (case heap r of
        None \<Rightarrow> None
      | Some mr \<Rightarrow> if \<not> mr_empty mr \<and> weak_map objs (mr_map mr) then JS_VALUE_GET_OBJ (mr_key mr) else None)"

text \<open>The chain of weak references of an object has exactly the records of weak maps with this
  key.\<close>

definition weak_ok :: "map_rt \<Rightarrow> bool" where
  "weak_ok rt \<longleftrightarrow>
     (\<forall>p. distinct (first_weak_ref rt p) \<and>
          (\<forall>r. r \<in> set (first_weak_ref rt p) \<longleftrightarrow> weak_key (mr_heap rt) (map_objs rt) r = Some p))"

definition rt_ok :: "map_rt \<Rightarrow> bool" where
  "rt_ok rt \<longleftrightarrow> maps_ok rt \<and> pins_ok rt \<and> weak_ok rt"

text \<open>The maps as the program sees them.\<close>

definition map_entries :: "map_rt \<Rightarrow> nat \<Rightarrow> (js_value \<times> js_value) list option" where
  "map_entries rt m = map_option (\<lambda>(c, s). entries (mr_heap rt) s) (map_objs rt m)"

lemma rt_okD:
  assumes "rt_ok rt" "map_objs rt m = Some (c, s)"
  shows "map_ok (mr_heap rt) m s" "is_weak s = odd (c div 2)"
  using assms unfolding rt_ok_def maps_ok_def by blast+

lemma record_owner:
  assumes "maps_ok rt" "mr_heap rt r = Some mr" "map_objs rt m = Some (c, s)"
  shows "r \<in> set (records s) \<longleftrightarrow> mr_map mr = m"
proof -
  obtain c' s' where "map_objs rt (mr_map mr) = Some (c', s')" "r \<in> set (records s')"
    using assms(1,2) unfolding maps_ok_def by blast
  moreover have "map_ok (mr_heap rt) m s" using assms(1,3) unfolding maps_ok_def by blast
  ultimately show ?thesis using assms(2,3) unfolding map_ok_def by fastforce
qed

text \<open>A change of one map and one of its records.\<close>

lemma maps_ok_update:
  assumes ok: "maps_ok rt" and m: "map_objs rt m = Some (c, s)" and own: "\<And>mr. mr_heap rt r = Some mr \<Longrightarrow> mr_map mr = m"
    and s': "map_ok ((mr_heap rt)(r := v)) m s'" "is_weak s' = is_weak s"
    and rs: "\<And>x. x \<noteq> r \<Longrightarrow> x \<in> set (records s) \<Longrightarrow> x \<in> set (records s')"
    and v: "\<And>mr. v = Some mr \<Longrightarrow> mr_map mr = m \<and> r \<in> set (records s')"
    and rt': "mr_heap rt' = (mr_heap rt)(r := v)" "map_objs rt' = (map_objs rt)(m \<mapsto> (c, s'))"
  shows "maps_ok rt'" "map_entries rt' = (map_entries rt)(m \<mapsto> entries ((mr_heap rt)(r := v)) s')"
proof -
  have other: "((mr_heap rt)(r := v)) x = mr_heap rt x"
    if t: "m' \<noteq> m" "map_objs rt m' = Some (c', t)" "x \<in> set (records t)" for m' c' t x
  proof -
    have "map_ok (mr_heap rt) m' t" using ok t(2) unfolding maps_ok_def by blast
    then obtain mr where "mr_heap rt x = Some mr" "mr_map mr = m'" using t(3) unfolding map_ok_def by blast
    then have "x \<noteq> r" using own t(1) by blast
    then show ?thesis by simp
  qed
  have "map_ok (mr_heap rt') m' t \<and> is_weak t = odd (c' div 2)" if "map_objs rt' m' = Some (c', t)" for m' c' t
  proof (cases "m' = m")
    case True
    then show ?thesis using that s' m ok rt' unfolding maps_ok_def by auto
  next
    case False
    then have t: "map_objs rt m' = Some (c', t)" using that rt' by simp
    then have "map_ok (mr_heap rt) m' t" "is_weak t = odd (c' div 2)" using ok unfolding maps_ok_def by blast+
    then show ?thesis using map_state_cong(4) [of t "mr_heap rt'" "mr_heap rt"] other [OF False t] rt' by simp
  qed
  moreover have "\<exists>c' t. map_objs rt' (mr_map mr) = Some (c', t) \<and> x \<in> set (records t)" if "mr_heap rt' x = Some mr" for x mr
  proof (cases "x = r")
    case True
    then show ?thesis using v that rt' by auto
  next
    case False
    then have x: "mr_heap rt x = Some mr" using that rt' by simp
    then obtain c' t where "map_objs rt (mr_map mr) = Some (c', t)" "x \<in> set (records t)"
      using ok unfolding maps_ok_def by blast
    then show ?thesis using rs [OF False] m rt' by (cases "mr_map mr = m") auto
  qed
  ultimately show "maps_ok rt'" unfolding maps_ok_def by blast
  show "map_entries rt' = (map_entries rt)(m \<mapsto> entries ((mr_heap rt)(r := v)) s')"
  proof
    fix m'
    show "map_entries rt' m' = ((map_entries rt)(m \<mapsto> entries ((mr_heap rt)(r := v)) s')) m'"
    proof (cases "m' = m \<or> map_objs rt m' = None")
      case False
      then obtain c' t where t: "map_objs rt m' = Some (c', t)" "m' \<noteq> m" by auto
      then show ?thesis
        using map_state_cong(2) [of t "(mr_heap rt)(r := v)" "mr_heap rt"] other [OF t(2,1)] rt' by (simp add: map_entries_def)
    qed (auto simp: map_entries_def rt')
  qed
qed

lemma pins_none: "pins its r = 0 \<longleftrightarrow> (\<forall>it. Some it \<in> set its \<longrightarrow> cur_record it \<noteq> Some r)"
  by (force simp: pins_def pinned_def filter_empty_conv split: option.splits)

lemma pins_fresh: "pins_ok rt \<Longrightarrow> mr_heap rt r = None \<Longrightarrow> pins (iterators rt) r = 0"
  unfolding pins_none pins_ok_def by fastforce

lemma pins_ok_update:
  assumes ok: "pins_ok rt" and m: "map_objs rt m = Some (c, s)" and own: "\<And>mr. mr_heap rt r = Some mr \<Longrightarrow> mr_map mr = m"
    and v: "v = None \<Longrightarrow> pins (iterators rt) r = 0"
      "\<And>mr. v = Some mr \<Longrightarrow> mr_map mr = m \<and> 0 < mr_ref_count mr \<and>
         mr_ref_count mr = (if mr_empty mr then 0 else 1) + int (pins (iterators rt) r)"
    and rt': "mr_heap rt' = (mr_heap rt)(r := v)" "map_objs rt' = (map_objs rt)(m \<mapsto> (c, s'))"
      "iterators rt' = iterators rt" "is_weak s' = is_weak s"
  shows "pins_ok rt'"
proof -
  have "mr_ref_count mr = (if mr_empty mr then 0 else 1) + int (pins (iterators rt') x) \<and> 0 < mr_ref_count mr"
    if x: "mr_heap rt' x = Some mr" for x mr
  proof (cases "x = r")
    case False
    then have "mr_heap rt x = Some mr" using x rt'(1) by simp
    then show ?thesis using ok unfolding pins_ok_def rt'(3) by blast
  qed (use v(2) rt'(1,3) x in auto)
  moreover have "\<exists>c t. map_objs rt' m' = Some (c, t) \<and> \<not> is_weak t"
    if "Some it \<in> set (iterators rt)" "it_obj it = Some m'" for it m'
    using that ok m rt'(2,4) unfolding pins_ok_def by (cases "m' = m") fastforce+
  moreover have "\<exists>mr. mr_heap rt' x = Some mr \<and> it_obj it = Some (mr_map mr)"
    if it: "Some it \<in> set (iterators rt)" "cur_record it = Some x" for it x
  proof -
    obtain mr where mr: "mr_heap rt x = Some mr" "it_obj it = Some (mr_map mr)" using ok it unfolding pins_ok_def by blast
    show ?thesis
    proof (cases "x = r")
      case True
      then have "v \<noteq> None" using v(1) it unfolding pins_none by blast
      then show ?thesis using True mr own v(2) rt'(1) by auto
    qed (use mr rt'(1) in simp)
  qed
  ultimately show ?thesis unfolding pins_ok_def rt'(3) by blast
qed

text \<open>The weak references after a change of the record \<open>r\<close> of the map \<open>m\<close>.\<close>

lemma weak_key_update:
  assumes m: "objs m = Some (c, s)" "is_weak s' = is_weak s"
  shows "weak_key (heap(r := v)) (objs(m \<mapsto> (c, s'))) x =
    (if x = r then weak_key ((\<lambda>_. None)(r := v)) objs r else weak_key heap objs x)"
proof -
  have "weak_map (objs(m \<mapsto> (c, s'))) = weak_map objs" using m by (simp add: weak_map_def fun_eq_iff)
  then show ?thesis by (simp add: weak_key_def cong: option.case_cong)
qed

lemma weak_ok_update:
  assumes ok: "weak_ok rt" and m: "map_objs rt m = Some (c, s)" "is_weak s' = is_weak s"
    and rt': "mr_heap rt' = (mr_heap rt)(r := v)" "map_objs rt' = (map_objs rt)(m \<mapsto> (c, s'))"
    and same: "first_weak_ref rt' = first_weak_ref rt"
      "weak_key ((\<lambda>_. None)(r := v)) (map_objs rt) r = weak_key (mr_heap rt) (map_objs rt) r"
  shows "weak_ok rt'"
  using ok same unfolding weak_ok_def rt' weak_key_update [of "map_objs rt" m c s s', OF m] by simp

lemma not_weak_key:
  assumes "map_objs rt m = Some (c, s)" "\<not> is_weak s" "\<And>mr. heap r = Some mr \<Longrightarrow> mr_map mr = m"
  shows "weak_key heap (map_objs rt) r = None"
  using assms by (auto simp: weak_key_def weak_map_def split: option.splits)

section \<open>Adding a record\<close>

lemma upd_map_apply: "map_objs rt m = Some (c, s) \<Longrightarrow> map_objs (upd_map m s' rt) = (map_objs rt)(m \<mapsto> (c, s'))"
  by (simp add: upd_map_def)

lemma upd_fields [simp]:
  "mr_heap (upd_map m s rt) = mr_heap rt" "iterators (upd_map m s rt) = iterators rt"
  "first_weak_ref (upd_map m s rt) = first_weak_ref rt" "mr_heap (upd_mr r v rt) = (mr_heap rt)(r := v)"
  "map_objs (upd_mr r v rt) = map_objs rt" "iterators (upd_mr r v rt) = iterators rt"
  "first_weak_ref (upd_mr r v rt) = first_weak_ref rt" "iterators (upd_iter i o1 rt) = (iterators rt)[i := o1]"
  "mr_heap (upd_iter i o1 rt) = mr_heap rt" "map_objs (upd_iter i o1 rt) = map_objs rt"
  "first_weak_ref (upd_iter i o1 rt) = first_weak_ref rt"
  by (simp_all add: upd_map_def upd_mr_def upd_iter_def)

lemma map_state_simp [simp]: "map_objs rt m = Some (c, s) \<Longrightarrow> map_state rt m = Some s"
  by (simp add: map_state_def)

definition new_record :: "nat \<Rightarrow> js_value \<Rightarrow> JSMapRecord" where
  "new_record m key = \<lparr>mr_ref_count = 1, mr_empty = False, mr_map = m, mr_key = key, mr_value = JS_Undefined\<rparr>"

lemma object_key: "JS_IsObject key \<Longrightarrow> \<exists>p. key = JS_Object p \<and> JS_VALUE_GET_OBJ key = Some p"
  by (cases key) (auto simp: JS_IsObject_def JS_VALUE_GET_OBJ_def)

text \<open>Where the record of a weak map is added to the chain of its key.\<close>

lemma add_weak:
  assumes ok: "weak_ok rt" and m: "map_objs rt m = Some (c, s)" "is_weak s' = is_weak s" and r: "mr_heap rt r = None"
    and w: "w = (if is_weak s then (first_weak_ref rt)(p := r # first_weak_ref rt p) else first_weak_ref rt)"
    and key: "is_weak s \<Longrightarrow> key = JS_Object p"
    and rt': "mr_heap rt' = (mr_heap rt)(r \<mapsto> new_record m key)" "map_objs rt' = (map_objs rt)(m \<mapsto> (c, s'))"
      "first_weak_ref rt' = w"
  shows "weak_ok rt'"
proof -
  have old: "weak_key (mr_heap rt) (map_objs rt) r = None" using r by (simp add: weak_key_def)
  have new: "weak_key ((\<lambda>_. None)(r \<mapsto> new_record m key)) (map_objs rt) r = (if is_weak s then Some p else None)"
    using m key by (auto simp: weak_key_def weak_map_def new_record_def JS_VALUE_GET_OBJ_def)
  show ?thesis
    unfolding weak_ok_def rt' weak_key_update [of "map_objs rt" m c s s', OF m] new
    using ok old by (auto simp: weak_ok_def w split: if_splits)
qed

lemma add_record_run:
  assumes "fst mem = Some r" "map_objs rt m = Some (c, s)" "map_hash_key key = Some h"
    and "bucket_index (hash_size s) h < length (hash_table s)"
    and "s1 = s\<lparr>hash_table := (hash_table s)[bucket_index (hash_size s) h := hash_table s ! bucket_index (hash_size s) h @ [r]],
            records := records s @ [r], record_count := record_count s + 1\<rparr>"
    and "(if record_count s1 \<ge> record_count_threshold s1
          then map_hash_resize ((mr_heap rt)(r \<mapsto> new_record m key)) s1 (snd mem) else Some s1) = Some s2"
    and "is_weak s \<Longrightarrow> JS_VALUE_GET_OBJ key = Some p"
    and "w = (if is_weak s then (first_weak_ref rt)(p := r # first_weak_ref rt p) else first_weak_ref rt)"
  shows "map_add_record rt m key mem =
    Some (\<lparr>mr_heap = (mr_heap rt)(r \<mapsto> new_record m key), map_objs = (map_objs rt)(m \<mapsto> (c, s2)), first_weak_ref = w,
      iterators = iterators rt\<rparr>, Some r)"
  using assms
  by (cases "is_weak s"; cases rt)
    (simp_all add: map_add_record_def map_state_def upd_mr_def upd_map_def Let_def new_record_def split: if_splits)

lemma add_record:
  assumes ok: "rt_ok rt" and m: "map_objs rt m = Some (c, s)" and key: "key_ok key" "is_weak s \<Longrightarrow> JS_IsObject key"
    and new: "key_id key \<notin> key_id ` fst ` set (entries (mr_heap rt) s)"
    and mem: "fst mem = Some r" "mr_heap rt r = None" "resize_fits (hash_size s) (snd mem)"
  obtains rt' s' where "map_add_record rt m key mem = Some (rt', Some r)" "rt_ok rt'"
    "map_objs rt' = (map_objs rt)(m \<mapsto> (c, s'))" "mr_heap rt' = (mr_heap rt)(r \<mapsto> new_record m key)"
    "map_entries rt' = (map_entries rt)(m \<mapsto> entries (mr_heap rt) s @ [(key, JS_Undefined)])"
    "iterators rt' = iterators rt" "records s' = records s @ [r]" "is_weak s' = is_weak s"
proof -
  let ?heap = "(mr_heap rt)(r \<mapsto> new_record m key)"
  have mok: "map_ok (mr_heap rt) m s" using ok m by (rule rt_okD)
  obtain h where h: "map_hash_key key = Some h" using key(1) by (rule mk.hash_obtain)
  define i where "i = bucket_index (hash_size s) h"
  define s1 where "s1 = s\<lparr>hash_table := (hash_table s)[i := hash_table s ! i @ [r]], records := records s @ [r],
    record_count := record_count s + 1\<rparr>"
  have i: "i < length (hash_table s)" using mok bucket_index_less [of "hash_size s" h] by (simp add: map_ok_def i_def)
  have s1: "map_ok ?heap m s1" "entries ?heap s1 = entries (mr_heap rt) s @ [(key, JS_Undefined)]"
    using map_ok_add [OF mok mem(2), of "new_record m key" i s1] key new h by (simp_all add: new_record_def s1_def i_def)
  obtain s2 where s2: "(if record_count s1 \<ge> record_count_threshold s1 then map_hash_resize ?heap s1 (snd mem) else Some s1) = Some s2"
    "map_ok ?heap m s2" "records s2 = records s @ [r]" "is_weak s2 = is_weak s"
  proof (cases "record_count s1 \<ge> record_count_threshold s1")
    case True
    have "resize_fits (hash_size s1) (snd mem)" using mem(3) by (simp add: s1_def)
    from s1(1) this obtain s2 where
      "map_hash_resize ?heap s1 (snd mem) = Some s2" "map_ok ?heap m s2" "records s2 = records s1" "is_weak s2 = is_weak s1"
      by (rule hash_resize) blast
    then show thesis using that True by (simp add: s1_def)
  qed (use that s1 in \<open>simp add: s1_def\<close>)
  have en: "entries ?heap s2 = entries (mr_heap rt) s @ [(key, JS_Undefined)]"
    using s1(2) s2(3) by (simp add: entries_def live_records_def s1_def)
  obtain p where p: "is_weak s \<Longrightarrow> key = JS_Object p \<and> JS_VALUE_GET_OBJ key = Some p" using key(2) object_key by blast
  define w where "w = (if is_weak s then (first_weak_ref rt)(p := r # first_weak_ref rt p) else first_weak_ref rt)"
  define rt' where "rt' = \<lparr>mr_heap = ?heap, map_objs = (map_objs rt)(m \<mapsto> (c, s2)), first_weak_ref = w, iterators = iterators rt\<rparr>"
  have run: "map_add_record rt m key mem = Some (rt', Some r)"
    unfolding rt'_def by (rule add_record_run [OF mem(1) m h i [unfolded i_def] s1_def [unfolded i_def] s2(1) _ w_def]) (use p in blast)
  have none: "mr_map mr = m" if "mr_heap rt r = Some mr" for mr using that mem(2) by simp
  have maps: "maps_ok rt' \<and> map_entries rt' = (map_entries rt)(m \<mapsto> entries ?heap s2)"
    using maps_ok_update [OF _ m none s2(2), where rt' = rt'] ok s2(3,4) by (simp add: rt_ok_def rt'_def new_record_def)
  have "pins_ok rt'"
    using pins_ok_update [OF _ m none, where v = "Some (new_record m key)" and rt' = rt' and s' = s2] ok s2(4) pins_fresh [OF _ mem(2)]
    by (simp add: rt_ok_def rt'_def new_record_def)
  moreover have "weak_ok rt'"
    using add_weak [OF _ m s2(4) mem(2) w_def, of key rt'] ok p by (simp add: rt_ok_def rt'_def)
  ultimately have "rt_ok rt'" using maps by (simp add: rt_ok_def)
  then show thesis
    using maps en s2(3,4) that [OF run, of s2] by (simp add: rt'_def)
qed

section \<open>Maps as lists of entries\<close>

definition al_has :: "js_value \<Rightarrow> (js_value \<times> js_value) list \<Rightarrow> bool" where
  "al_has k es \<longleftrightarrow> key_id k \<in> key_id ` fst ` set es"

definition al_get :: "js_value \<Rightarrow> (js_value \<times> js_value) list \<Rightarrow> js_value" where
  "al_get k es = (case find (\<lambda>e. key_id (fst e) = key_id k) es of None \<Rightarrow> JS_Undefined | Some e \<Rightarrow> snd e)"

definition al_put :: "js_value \<Rightarrow> js_value \<Rightarrow> (js_value \<times> js_value) list \<Rightarrow> (js_value \<times> js_value) list" where
  "al_put k v es = map (\<lambda>e. if key_id (fst e) = key_id k then (fst e, v) else e) es"

definition al_set :: "js_value \<Rightarrow> js_value \<Rightarrow> (js_value \<times> js_value) list \<Rightarrow> (js_value \<times> js_value) list" where
  "al_set k v es = (if al_has k es then al_put k v es else es @ [(k, v)])"

definition al_remove :: "js_value \<Rightarrow> (js_value \<times> js_value) list \<Rightarrow> (js_value \<times> js_value) list" where
  "al_remove k es = filter (\<lambda>(k', v). key_id k' \<noteq> key_id k) es"

lemma find_filter: "find P (filter Q xs) = find (\<lambda>x. Q x \<and> P x) xs"
  by (induction xs) simp_all

lemma find_map: "find P (map f xs) = map_option f (find (\<lambda>x. P (f x)) xs)"
  by (induction xs) simp_all

lemma al_absent:
  assumes "\<not> al_has k es"
  shows "al_put k v es = es" "al_remove k es = es" "al_get k es = JS_Undefined"
proof -
  have ne: "key_id (fst e) \<noteq> key_id k" if "e \<in> set es" for e
    using assms that by (auto simp: al_has_def image_image) (metis fst_conv image_eqI)
  show "al_put k v es = es" using ne by (auto simp: al_put_def intro!: map_idI)
  show "al_remove k es = es" unfolding al_remove_def using ne by (intro filter_True) auto
  have "find (\<lambda>e. key_id (fst e) = key_id k) es = None" using ne by (auto simp: find_None_iff)
  then show "al_get k es = JS_Undefined" by (simp add: al_get_def)
qed

text \<open>The record that the search finds.\<close>

lemma found_record:
  assumes ok: "map_ok heap m s" and key: "key_ok key"
  obtains (absent) "map_find_record heap s key = Some None" "\<not> al_has key (entries heap s)"
  | (present) r where "map_find_record heap s key = Some (Some r)" "r \<in> set (records s)" "live heap r"
    "key_id (rkey heap r) = key_id key" "al_has key (entries heap s)" "al_get key (entries heap s) = rval heap r"
proof -
  let ?P = "\<lambda>r. key_id (rkey heap r) = key_id key"
  have f: "map_find_record heap s key = Some (find ?P (live_records heap s))"
    unfolding find_record [OF ok key] live_records_def find_filter ..
  have e: "find (\<lambda>e. key_id (fst e) = key_id key) (entries heap s) = map_option (\<lambda>r. (rkey heap r, rval heap r)) (find ?P (live_records heap s))"
    by (simp add: entries_def find_map)
  show thesis
  proof (cases "find ?P (live_records heap s)")
    case None
    then have "\<not> al_has key (entries heap s)" by (auto simp: al_has_def entries_def find_None_iff image_image)
    then show thesis using None f absent by simp
  next
    case (Some r)
    then have r: "r \<in> set (live_records heap s)" "?P r" by (auto simp: find_Some_iff)
    then have "al_has key (entries heap s)" by (auto simp: al_has_def entries_def image_image intro: rev_image_eqI)
    then show thesis using Some f e r present [of r] by (simp add: live_records_def al_get_def)
  qed
qed

lemma entries_put:
  assumes ok: "map_ok heap m s" and r: "r \<in> set (records s)" "live heap r" "key_id (rkey heap r) = key_id key"
  shows "map (\<lambda>x. (rkey heap x, if x = r then v else rval heap x)) (live_records heap s) = al_put key v (entries heap s)"
proof -
  have "inj_on (\<lambda>x. key_id (rkey heap x)) (set (live_records heap s))"
    using ok by (simp add: map_ok_def entries_ok_def entries_def distinct_map comp_def)
  then have "key_id (rkey heap x) = key_id key \<longleftrightarrow> x = r" if "x \<in> set (live_records heap s)" for x
    using that r by (auto simp: live_records_def inj_on_def)
  then show ?thesis by (simp add: al_put_def entries_def)
qed

section \<open>Changes of one record\<close>

lemma touch_record:
  assumes ok: "rt_ok rt" and m: "map_objs rt m = Some (c, s)" and r: "r \<in> set (records s)" "mr_heap rt r = Some mr"
  shows "rt_ok (upd_mr r (Some (mr\<lparr>mr_value := v\<rparr>)) rt)"
    "live (mr_heap rt) r \<Longrightarrow> key_id (mr_key mr) = key_id key \<Longrightarrow>
     map_entries (upd_mr r (Some (mr\<lparr>mr_value := v\<rparr>)) rt) = (map_entries rt)(m \<mapsto> al_put key v (entries (mr_heap rt) s))"
proof -
  let ?mr = "mr\<lparr>mr_value := v\<rparr>" let ?rt = "upd_mr r (Some (mr\<lparr>mr_value := v\<rparr>)) rt"
  have parts: "maps_ok rt" "pins_ok rt" "weak_ok rt" using ok by (simp_all add: rt_ok_def)
  have own: "mr_map mr' = m" if "mr_heap rt r = Some mr'" for mr'
    using record_owner [OF parts(1) that m] r by simp
  have same: "(map_objs rt)(m \<mapsto> (c, s)) = map_objs rt" using m by auto
  have t: "map_ok ((mr_heap rt)(r \<mapsto> ?mr)) m s"
    "entries ((mr_heap rt)(r \<mapsto> ?mr)) s = map (\<lambda>x. (rkey (mr_heap rt) x, if x = r then v else rval (mr_heap rt) x)) (live_records (mr_heap rt) s)"
    using map_ok_touch [OF rt_okD(1) [OF ok m] r(2), of ?mr] by simp_all
  have maps: "maps_ok ?rt" "map_entries ?rt = (map_entries rt)(m \<mapsto> entries ((mr_heap rt)(r \<mapsto> ?mr)) s)"
    using maps_ok_update [OF parts(1) m own t(1) refl, where rt' = ?rt] own [OF r(2)] r(1) same by simp_all
  have "mr_ref_count mr = (if mr_empty mr then 0 else 1) + int (pins (iterators rt) r) \<and> 0 < mr_ref_count mr"
    using parts(2) r(2) unfolding pins_ok_def by blast
  then have "pins_ok ?rt"
    using pins_ok_update [OF parts(2) m own, where rt' = ?rt and v = "Some ?mr" and s' = s] own [OF r(2)] same by simp
  moreover have "weak_ok ?rt"
    using weak_ok_update [OF parts(3) m refl, where rt' = ?rt and v = "Some ?mr" and r = r] r(2) same by (simp add: weak_key_def)
  ultimately show "rt_ok ?rt" using maps(1) by (simp add: rt_ok_def)
  show "map_entries ?rt = (map_entries rt)(m \<mapsto> al_put key v (entries (mr_heap rt) s))"
    if "live (mr_heap rt) r" "key_id (mr_key mr) = key_id key"
    using entries_put [OF rt_okD(1) [OF ok m] r(1) that(1), of key v] that(2) r(2) maps(2) t(2) by (simp add: rkey_def)
qed

section \<open>Deleting a record\<close>

lemma weak_ok_kill:
  assumes ok: "weak_ok rt" and m: "map_objs rt m = Some (c, s)" "is_weak s" "is_weak s'"
    and r: "mr_heap rt r = Some mr" "mr_map mr = m" "\<not> mr_empty mr" "JS_VALUE_GET_OBJ (mr_key mr) = Some p"
    and v: "v = None \<or> (\<exists>mr'. v = Some mr' \<and> mr_empty mr')"
    and rt': "mr_heap rt' = (mr_heap rt)(r := v)" "map_objs rt' = (map_objs rt)(m \<mapsto> (c, s'))"
      "first_weak_ref rt' = (first_weak_ref rt)(p := remove1 r (first_weak_ref rt p))"
  shows "weak_ok rt'"
proof -
  have sw: "is_weak s' = is_weak s" using m by simp
  have "weak_key ((\<lambda>_. None)(r := v)) (map_objs rt) r = None" using v by (auto simp: weak_key_def)
  then show ?thesis
    unfolding weak_ok_def rt' weak_key_update [of "map_objs rt" m c s s', OF m(1) sw]
    using ok r m(1,2) by (auto simp: weak_ok_def weak_key_def weak_map_def)
qed

lemma delete_weak_ref_run:
  assumes ok: "weak_ok rt" and m: "map_objs rt m = Some (c, s)" "is_weak s"
    and r: "mr_heap rt r = Some mr" "mr_map mr = m" "\<not> mr_empty mr" "JS_VALUE_GET_OBJ (mr_key mr) = Some p"
  shows "delete_weak_ref rt r = Some (rt\<lparr>first_weak_ref := (first_weak_ref rt)(p := remove1 r (first_weak_ref rt p))\<rparr>)"
proof -
  have "weak_key (mr_heap rt) (map_objs rt) r = Some p" using m r by (simp add: weak_key_def weak_map_def)
  then have "r \<in> set (first_weak_ref rt p)" using ok unfolding weak_ok_def by blast
  then show ?thesis using r by (simp add: delete_weak_ref_def)
qed

lemma delete_record:
  assumes ok: "rt_ok rt" and m: "map_objs rt m = Some (c, s)" and r: "r \<in> set (records s)" "live (mr_heap rt) r"
  obtains rt' s' v where "map_delete_record rt m r = Some rt'" "rt_ok rt'" "map_objs rt' = (map_objs rt)(m \<mapsto> (c, s'))"
    "map_entries rt' = (map_entries rt)(m \<mapsto> al_remove (rkey (mr_heap rt) r) (entries (mr_heap rt) s))"
    "iterators rt' = iterators rt" "mr_heap rt' = (mr_heap rt)(r := v)"
    "records s' = (if v = None then remove1 r (records s) else records s)"
    "\<And>mr'. v = Some mr' \<Longrightarrow> mr_empty mr'"
proof -
  have parts: "maps_ok rt" "pins_ok rt" "weak_ok rt" using ok by (simp_all add: rt_ok_def)
  note mok = rt_okD(1) [OF ok m]
  obtain mr where mr: "mr_heap rt r = Some mr" "\<not> mr_empty mr" using r(2) by (auto simp: live_def split: option.splits)
  have own: "mr_map mr' = m" if "mr_heap rt r = Some mr'" for mr' using record_owner [OF parts(1) that m] r by simp
  have cnt: "mr_ref_count mr = 1 + int (pins (iterators rt) r)" using parts(2) mr unfolding pins_ok_def by auto
  define v where "v = (if mr_ref_count mr - 1 = 0 then None
    else Some (mr\<lparr>mr_ref_count := mr_ref_count mr - 1, mr_empty := True, mr_key := JS_Undefined, mr_value := JS_Undefined\<rparr>))"
  define rs where "rs = (if v = None then remove1 r (records s) else records s)"
  define s' where "s' = s\<lparr>hash_table := map (remove1 r) (hash_table s), records := rs, record_count := record_count s - 1\<rparr>"
  have obj: "\<exists>p. is_weak s \<longrightarrow> JS_VALUE_GET_OBJ (mr_key mr) = Some p"
    using entry_of_record [OF r] mok mr object_key [of "mr_key mr"] by (force simp: map_ok_def entries_ok_def rkey_def)
  then obtain p where p: "is_weak s \<Longrightarrow> JS_VALUE_GET_OBJ (mr_key mr) = Some p" by blast
  define w where "w = (if is_weak s then (first_weak_ref rt)(p := remove1 r (first_weak_ref rt p)) else first_weak_ref rt)"
  define rt' where "rt' = \<lparr>mr_heap = (mr_heap rt)(r := v), map_objs = (map_objs rt)(m \<mapsto> (c, s')), first_weak_ref = w, iterators = iterators rt\<rparr>"
  have run: "map_delete_record rt m r = Some rt'"
    using mr m delete_weak_ref_run [OF parts(3) m _ mr(1) own [OF mr(1)] mr(2) p]
    by (cases "is_weak s"; cases rt)
      (simp_all add: map_delete_record_def rt'_def s'_def rs_def v_def w_def upd_mr_def upd_map_def map_state_def Let_def)
  have dead: "v = None \<and> rs = remove1 r (records s) \<or> (\<exists>mr. v = Some mr \<and> mr_empty mr \<and> mr_map mr = m) \<and> rs = records s"
    using own [OF mr(1)] by (auto simp: v_def rs_def)
  note kill = map_ok_kill [OF mok r dead s'_def]
  have maps: "maps_ok rt'" "map_entries rt' = (map_entries rt)(m \<mapsto> entries ((mr_heap rt)(r := v)) s')"
    using maps_ok_update [OF parts(1) m own kill(1), where rt' = rt'] own [OF mr(1)] r(1)
    by (auto simp: rt'_def s'_def rs_def v_def)
  have pin: "v = None \<Longrightarrow> pins (iterators rt) r = 0" using cnt by (auto simp: v_def split: if_splits)
  have "mr_map mr' = m \<and> 0 < mr_ref_count mr' \<and>
      mr_ref_count mr' = (if mr_empty mr' then 0 else 1) + int (pins (iterators rt) r)" if "v = Some mr'" for mr'
    using that cnt own [OF mr(1)] by (auto simp: v_def split: if_splits)
  then have "pins_ok rt'" using pin by (intro pins_ok_update [OF parts(2) m own, where s' = s']) (simp_all add: rt'_def s'_def)
  moreover have "weak_ok rt'"
  proof (cases "is_weak s")
    case True
    then show ?thesis
      using weak_ok_kill [OF parts(3) m True, of s' r mr p v rt'] mr own [OF mr(1)] p by (auto simp: rt'_def s'_def w_def v_def)
  next
    case False
    have "weak_key ((\<lambda>_. None)(r := v)) (map_objs rt) r = weak_key (mr_heap rt) (map_objs rt) r"
      using not_weak_key [OF m False, of "mr_heap rt" r] not_weak_key [OF m False, of "(\<lambda>_. None)(r := v)" r] own dead by auto
    then show ?thesis using weak_ok_update [OF parts(3) m, where rt' = rt' and r = r and v = v and s' = s'] False
      by (simp add: rt'_def s'_def w_def)
  qed
  ultimately have "rt_ok rt'" using maps(1) by (simp add: rt_ok_def)
  then show thesis
    using that [OF run, of s' v] maps(2) kill(2) dead by (auto simp: rt'_def s'_def rs_def al_remove_def)
qed

section \<open>Moving an iterator\<close>

lemma pins_list_update:
  "i < length its \<Longrightarrow> pins (its[i := o1]) r + (if pinned r (its ! i) then 1 else 0) = pins its r + (if pinned r o1 then 1 else 0)"
proof (induction its arbitrary: i)
  case (Cons x its)
  then show ?case by (cases i) (auto simp: pins_def)
qed simp

text \<open>A change of the iterator \<open>i\<close> together with the only record it stands or stood on.\<close>

lemma pins_ok_cursor:
  assumes ok: "pins_ok rt" and m: "map_objs rt m = Some (c, s)" "\<not> is_weak s" and own: "\<And>mr. mr_heap rt r = Some mr \<Longrightarrow> mr_map mr = m"
    and i: "i < length (iterators rt)" and only: "\<And>x. x \<noteq> r \<Longrightarrow> \<not> pinned x (iterators rt ! i) \<and> \<not> pinned x o1"
    and v: "v = None \<Longrightarrow> pins ((iterators rt)[i := o1]) r = 0"
      "\<And>mr. v = Some mr \<Longrightarrow> mr_map mr = m \<and> 0 < mr_ref_count mr \<and>
         mr_ref_count mr = (if mr_empty mr then 0 else 1) + int (pins ((iterators rt)[i := o1]) r)"
    and o1: "\<And>it m'. o1 = Some it \<Longrightarrow> it_obj it = Some m' \<Longrightarrow> m' = m"
      "\<And>it x. o1 = Some it \<Longrightarrow> cur_record it = Some x \<Longrightarrow> x = r \<and> it_obj it = Some m"
    and rt': "mr_heap rt' = (mr_heap rt)(r := v)" "map_objs rt' = (map_objs rt)(m \<mapsto> (c, s'))"
      "iterators rt' = (iterators rt)[i := o1]" "is_weak s' = is_weak s"
  shows "pins_ok rt'"
proof -
  let ?its = "(iterators rt)[i := o1]"
  have same: "pins ?its x = pins (iterators rt) x" if "x \<noteq> r" for x
    using pins_list_update [OF i, of o1 x] only [OF that] by simp
  have "mr_ref_count mr = (if mr_empty mr then 0 else 1) + int (pins ?its x) \<and> 0 < mr_ref_count mr"
    if x: "mr_heap rt' x = Some mr" for x mr
  proof (cases "x = r")
    case False
    then have "mr_heap rt x = Some mr" using x rt'(1) by simp
    then show ?thesis using ok same [OF False] unfolding pins_ok_def by metis
  qed (use v(2) rt'(1) x in auto)
  moreover have "\<exists>c t. map_objs rt' m' = Some (c, t) \<and> \<not> is_weak t"
    if it: "Some it \<in> set ?its" "it_obj it = Some m'" for it m'
  proof (cases "m' = m")
    case True
    then show ?thesis using m rt'(2,4) by simp
  next
    case False
    then have "Some it \<in> set (iterators rt)"
      using it o1(1) set_update_subset_insert [of "iterators rt" i o1] by fastforce
    then show ?thesis using ok it(2) False rt'(2) unfolding pins_ok_def by simp
  qed
  moreover have "\<exists>mr. mr_heap rt' x = Some mr \<and> it_obj it = Some (mr_map mr)"
    if it: "Some it \<in> set ?its" "cur_record it = Some x" for it x
  proof (cases "x = r")
    case True
    then have "v \<noteq> None" using v(1) it unfolding pins_none by blast
    moreover have "it_obj it = Some m"
    proof (cases "o1 = Some it")
      case False
      then have "Some it \<in> set (iterators rt)" using it(1) set_update_subset_insert [of "iterators rt" i o1] by auto
      then obtain mr where "mr_heap rt x = Some mr" "it_obj it = Some (mr_map mr)" using ok it(2) unfolding pins_ok_def by blast
      then show ?thesis using own True by simp
    qed (use o1(2) it in blast)
    ultimately show ?thesis using True v(2) rt'(1) by auto
  next
    case False
    then have "o1 \<noteq> Some it" using o1(2) it(2) by blast
    then have "Some it \<in> set (iterators rt)" using it(1) set_update_subset_insert [of "iterators rt" i o1] by auto
    then obtain mr where "mr_heap rt x = Some mr" "it_obj it = Some (mr_map mr)" using ok it(2) unfolding pins_ok_def by blast
    then show ?thesis using False rt'(1) by simp
  qed
  ultimately show ?thesis unfolding pins_ok_def rt'(3) by blast
qed

lemma iterator_facts:
  assumes "rt_ok rt" "i < length (iterators rt)" "iterators rt ! i = Some it"
  shows "it_obj it = Some m \<Longrightarrow> \<exists>c s. map_objs rt m = Some (c, s) \<and> \<not> is_weak s"
    "cur_record it = Some r \<Longrightarrow> \<exists>mr. mr_heap rt r = Some mr \<and> it_obj it = Some (mr_map mr)"
proof -
  have "Some it \<in> set (iterators rt)" using assms(2,3) by (metis nth_mem)
  then show "it_obj it = Some m \<Longrightarrow> \<exists>c s. map_objs rt m = Some (c, s) \<and> \<not> is_weak s"
    "cur_record it = Some r \<Longrightarrow> \<exists>mr. mr_heap rt r = Some mr \<and> it_obj it = Some (mr_map mr)"
    using assms(1) unfolding rt_ok_def pins_ok_def by blast+
qed

text \<open>Leaving a record.  \<open>o1\<close> is the iterator afterwards, which stands nowhere.\<close>

lemma release_record:
  assumes ok: "rt_ok rt" and i: "i < length (iterators rt)" "iterators rt ! i = Some it"
    and r: "cur_record it = Some r" "it_obj it = Some m" "map_objs rt m = Some (c, s)"
    and o1: "\<And>it'. o1 = Some it' \<Longrightarrow> cur_record it' = None \<and> (it_obj it' = None \<or> it_obj it' = Some m)"
  obtains rt1 s1 v where "map_decref_record rt r = Some rt1" "rt_ok (upd_iter i o1 rt1)" "map_entries rt1 = map_entries rt"
    "iterators rt1 = iterators rt" "mr_heap rt1 = (mr_heap rt)(r := v)" "map_objs rt1 = (map_objs rt)(m \<mapsto> (c, s1))"
    "records s1 = (if v = None then remove1 r (records s) else records s)" "is_weak s1 = is_weak s"
proof -
  have parts: "maps_ok rt" "pins_ok rt" "weak_ok rt" using ok by (simp_all add: rt_ok_def)
  note mok = rt_okD(1) [OF ok r(3)]
  obtain mr where mr: "mr_heap rt r = Some mr" "mr_map mr = m" using iterator_facts(2) [OF ok i r(1)] r(2) by auto
  have own: "mr_map mr' = m" if "mr_heap rt r = Some mr'" for mr' using that mr by simp
  have rin: "r \<in> set (records s)" using record_owner [OF parts(1) mr(1) r(3)] mr(2) by simp
  have weak: "\<not> is_weak s" using iterator_facts(1) [OF ok i r(2)] r(3) by auto
  have cnt: "mr_ref_count mr = (if mr_empty mr then 0 else 1) + int (pins (iterators rt) r)"
    using parts(2) mr unfolding pins_ok_def by blast
  have pin: "pins (iterators rt) r = Suc (pins ((iterators rt)[i := o1]) r)"
    using pins_list_update [OF i(1), of o1 r] i(2) r(1) o1 by (auto simp: pinned_def split: option.splits)
  have only: "\<not> pinned x (iterators rt ! i) \<and> \<not> pinned x o1" if "x \<noteq> r" for x
    using that i(2) r(1) o1 by (auto simp: pinned_def split: option.splits)
  define v where "v = (if mr_ref_count mr - 1 = 0 then None else Some (mr\<lparr>mr_ref_count := mr_ref_count mr - 1\<rparr>))"
  define s1 where "s1 = (if v = None then s\<lparr>records := remove1 r (records s)\<rparr> else s)"
  define rt1 where "rt1 = upd_map m s1 (upd_mr r v rt)"
  have zombie: "mr_empty mr" if "v = None" using that cnt pin by (auto simp: v_def split: if_splits)
  have f: "mr_heap rt1 = (mr_heap rt)(r := v)" "map_objs rt1 = (map_objs rt)(m \<mapsto> (c, s1))"
    using r(3) by (simp_all add: rt1_def upd_map_def upd_mr_def)
  have run: "map_decref_record rt r = Some rt1"
  proof (cases "v = None")
    case True
    then show ?thesis using mr zombie r(3)
      by (simp add: map_decref_record_def v_def rt1_def s1_def map_state_def split: if_splits)
  next
    case False
    then have "rt1 = upd_mr r v rt" using r(3) by (cases rt) (auto simp: rt1_def s1_def upd_map_def upd_mr_def)
    then show ?thesis using False mr by (simp add: map_decref_record_def v_def split: if_splits)
  qed
  have "map_ok ((mr_heap rt)(r := v)) m s1 \<and> entries ((mr_heap rt)(r := v)) s1 = entries (mr_heap rt) s"
  proof (cases "v = None")
    case True
    then have "\<not> live (mr_heap rt) r" using zombie mr by (simp add: live_def)
    then show ?thesis using map_ok_drop [OF mok] True by (simp add: s1_def)
  next
    case False
    let ?mr = "mr\<lparr>mr_ref_count := mr_ref_count mr - 1\<rparr>"
    have "entries ((mr_heap rt)(r \<mapsto> ?mr)) s = entries (mr_heap rt) s"
      using map_ok_touch(2) [OF mok mr(1), of ?mr] mr(1) by (auto simp: entries_def rval_def)
    then show ?thesis using map_ok_touch(1) [OF mok mr(1), of ?mr] False by (simp add: s1_def v_def split: if_splits)
  qed
  then have t: "map_ok ((mr_heap rt)(r := v)) m s1" "entries ((mr_heap rt)(r := v)) s1 = entries (mr_heap rt) s" by auto
  have sw: "is_weak s1 = is_weak s" by (simp add: s1_def)
  have "maps_ok rt1 \<and> map_entries rt1 = (map_entries rt)(m \<mapsto> entries (mr_heap rt) s)"
    using maps_ok_update [OF parts(1) r(3) own t(1) sw _ _ f] t(2) mr(2) rin by (auto simp: s1_def v_def split: if_splits)
  moreover have "(map_entries rt)(m \<mapsto> entries (mr_heap rt) s) = map_entries rt" using r(3) by (auto simp: map_entries_def)
  ultimately have maps: "maps_ok (upd_iter i o1 rt1)" "map_entries rt1 = map_entries rt" by (simp_all add: maps_ok_def)
  have "mr_map mr' = m \<and> 0 < mr_ref_count mr' \<and>
      mr_ref_count mr' = (if mr_empty mr' then 0 else 1) + int (pins ((iterators rt)[i := o1]) r)" if "v = Some mr'" for mr'
    using that cnt pin mr(2) by (auto simp: v_def split: if_splits)
  moreover have "v = None \<Longrightarrow> pins ((iterators rt)[i := o1]) r = 0" using cnt pin by (auto simp: v_def split: if_splits)
  ultimately have "pins_ok (upd_iter i o1 rt1)"
    using o1 f sw by (intro pins_ok_cursor [OF parts(2) r(3) weak own i(1) only, where v = v and s' = s1]) (auto simp: rt1_def)
  moreover have "weak_ok (upd_iter i o1 rt1)"
    using weak_ok_update [OF parts(3) r(3) sw, where rt' = "upd_iter i o1 rt1" and r = r and v = v]
      not_weak_key [OF r(3) weak, of "mr_heap rt" r] not_weak_key [OF r(3) weak, of "(\<lambda>_. None)(r := v)" r] own f mr(2)
    by (auto simp: rt1_def v_def split: if_splits)
  ultimately have "rt_ok (upd_iter i o1 rt1)" using maps(1) by (simp add: rt_ok_def)
  then show thesis using that [OF run _ maps(2) _ f] sw by (simp add: rt1_def s1_def)
qed

text \<open>Stepping on a record.\<close>

lemma pin_record:
  assumes ok: "rt_ok rt" and i: "i < length (iterators rt)" "iterators rt ! i = Some it0" "cur_record it0 = None"
    and m: "it_obj it0 = Some m" "map_objs rt m = Some (c, s)" and r: "mr_heap rt r = Some mr" "mr_map mr = m"
    and it: "it_obj it = Some m" "cur_record it = Some r"
    and rt': "rt' = upd_iter i (Some it) (upd_mr r (Some (mr\<lparr>mr_ref_count := mr_ref_count mr + 1\<rparr>)) rt)"
  shows "rt_ok rt'" "map_entries rt' = map_entries rt"
proof -
  let ?mr = "mr\<lparr>mr_ref_count := mr_ref_count mr + 1\<rparr>" let ?heap = "(mr_heap rt)(r \<mapsto> ?mr)"
  have parts: "maps_ok rt" "pins_ok rt" "weak_ok rt" using ok by (simp_all add: rt_ok_def)
  note mok = rt_okD(1) [OF ok m(2)]
  have own: "mr_map mr' = m" if "mr_heap rt r = Some mr'" for mr' using that r by simp
  have rin: "r \<in> set (records s)" using record_owner [OF parts(1) r(1) m(2)] r(2) by simp
  have weak: "\<not> is_weak s" using iterator_facts(1) [OF ok i(1,2) m(1)] m(2) by auto
  have cnt: "mr_ref_count mr = (if mr_empty mr then 0 else 1) + int (pins (iterators rt) r) \<and> 0 < mr_ref_count mr"
    using parts(2) r unfolding pins_ok_def by blast
  have pin: "pins ((iterators rt)[i := Some it]) r = Suc (pins (iterators rt) r)"
    using pins_list_update [OF i(1), of "Some it" r] i it by (simp add: pinned_def)
  have f: "mr_heap rt' = ?heap" "map_objs rt' = (map_objs rt)(m \<mapsto> (c, s))" using m(2) by (auto simp: rt')
  have t: "map_ok ?heap m s" "entries ?heap s = entries (mr_heap rt) s"
    using map_ok_touch [OF mok r(1), of ?mr] r(1) by (auto simp: entries_def rval_def)
  have "maps_ok rt'" "map_entries rt' = (map_entries rt)(m \<mapsto> entries (mr_heap rt) s)"
    using maps_ok_update [OF parts(1) m(2) own t(1) refl _ _ f] t(2) r(2) rin by auto
  moreover have "(map_entries rt)(m \<mapsto> entries (mr_heap rt) s) = map_entries rt" using m(2) by (auto simp: map_entries_def)
  moreover have "pins_ok rt'"
    using i it cnt pin r(2) f
    by (intro pins_ok_cursor [OF parts(2) m(2) weak own i(1), where v = "Some ?mr" and s' = s and ?o1.0 = "Some it"])
      (auto simp: rt' pinned_def)
  moreover have "weak_ok rt'"
    using weak_ok_update [OF parts(3) m(2) refl f] r(1) by (simp add: rt' weak_key_def)
  ultimately show "rt_ok rt'" "map_entries rt' = map_entries rt" by (simp_all add: rt_ok_def)
qed

lemma link_next_split:
  assumes "distinct (pre @ r # post)"
  shows "link_next (pre @ r # post) r = Some (link_first post)"
  using assms by (induction pre) (auto simp: link_first_def)

lemma next_loop:
  assumes "distinct (pre @ post)" "\<And>x. x \<in> set post \<Longrightarrow> heap x \<noteq> None" "length post \<le> fuel"
  shows "map_next_loop fuel heap (pre @ post) (link_first post) = Some (find (live heap) post)"
  using assms
proof (induction post arbitrary: pre fuel)
  case Nil
  then show ?case by (cases fuel) (simp_all add: link_first_def)
next
  case (Cons r post)
  obtain f where f: "fuel = Suc f" using Cons.prems(3) by (cases fuel) auto
  obtain mr where mr: "heap r = Some mr" using Cons.prems(2) [of r] by auto
  have "map_next_loop f heap (pre @ r # post) (link_first post) = Some (find (live heap) post)"
    using Cons.IH [of "pre @ [r]" f] Cons.prems f by simp
  moreover have "link_next (pre @ r # post) r = Some (link_first post)" using Cons.prems(1) by (rule link_next_split)
  moreover have "live heap r \<longleftrightarrow> \<not> mr_empty mr" using mr by (simp add: live_def)
  ultimately show ?case using f mr by (simp add: link_first_def)
qed

text \<open>The records that an iterator has still to visit.\<close>

definition after_cursor :: "nat option \<Rightarrow> nat list \<Rightarrow> nat list" where
  "after_cursor cur rs = (case cur of None \<Rightarrow> rs | Some r \<Rightarrow> tl (dropWhile (\<lambda>x. x \<noteq> r) rs))"

definition iter_todo :: "map_rt \<Rightarrow> JSMapIteratorData \<Rightarrow> (js_value \<times> js_value) list" where
  "iter_todo rt it =
     (case it_obj it of
        None \<Rightarrow> []
      | Some m \<Rightarrow> (case map_objs rt m of
            None \<Rightarrow> []
          | Some (c, s) \<Rightarrow> map (\<lambda>r. (rkey (mr_heap rt) r, rval (mr_heap rt) r)) (filter (live (mr_heap rt)) (after_cursor (cur_record it) (records s)))))"

lemma after_cursor_split: "distinct (pre @ r # post) \<Longrightarrow> after_cursor (Some r) (pre @ r # post) = post"
proof (induction pre)
  case (Cons x pre)
  then show ?case by (auto simp: after_cursor_def)
qed (simp add: after_cursor_def)

lemma find_split_filter:
  assumes "find P xs = Some x"
  obtains ys zs where "xs = ys @ x # zs" "filter P xs = x # filter P zs" "P x"
  using assms
proof (induction xs arbitrary: thesis)
  case (Cons a xs)
  show ?case
  proof (cases "P a")
    case True
    then show ?thesis using Cons.prems(2) Cons.prems(1) [of "[]" xs] by simp
  next
    case False
    then obtain ys zs where "xs = ys @ x # zs" "filter P xs = x # filter P zs" "P x" using Cons.IH Cons.prems(2) by auto
    then show ?thesis using Cons.prems(1) [of "a # ys" zs] False by simp
  qed
qed simp

text \<open>New, changed and freed iterators that stand nowhere.\<close>

lemma rt_ok_iters:
  assumes ok: "rt_ok rt" and rt': "mr_heap rt' = mr_heap rt" "map_objs rt' = map_objs rt" "first_weak_ref rt' = first_weak_ref rt"
    and pins: "\<And>x. pins (iterators rt') x = pins (iterators rt) x"
    and new: "\<And>j. Some j \<in> set (iterators rt') \<Longrightarrow> Some j \<in> set (iterators rt) \<or>
      cur_record j = None \<and> (\<forall>m. it_obj j = Some m \<longrightarrow> (\<exists>c s. map_objs rt m = Some (c, s) \<and> \<not> is_weak s))"
  shows "rt_ok rt'"
proof -
  have "pins_ok rt" using ok by (simp add: rt_ok_def)
  then have "pins_ok rt'" unfolding pins_ok_def rt' pins using new by fastforce
  then show ?thesis using ok by (simp add: rt_ok_def maps_ok_def weak_ok_def rt')
qed

text \<open>Leaving the current record, if there is one: the iterator stands before the records that
  are still to visit.\<close>

lemma cursor_start:
  assumes ok: "rt_ok rt" and i: "i < length (iterators rt)" "iterators rt ! i = Some it"
    and m: "it_obj it = Some m" "map_objs rt m = Some (c, s)"
  obtains rt1 s1 pre post where
    "(case cur_record it of None \<Rightarrow> Some (link_first (records s), rt)
      | Some r \<Rightarrow> do { el \<leftarrow> link_next (records s) r; rt \<leftarrow> map_decref_record rt r; Some (el, rt) }) = Some (link_first post, rt1)"
    "\<And>it'. cur_record it' = None \<Longrightarrow> it_obj it' = None \<or> it_obj it' = Some m \<Longrightarrow> rt_ok (upd_iter i (Some it') rt1)"
    "map_entries rt1 = map_entries rt" "iterators rt1 = iterators rt" "map_objs rt1 m = Some (c, s1)"
    "records s1 = pre @ post" "distinct (pre @ post)" "after_cursor (cur_record it) (records s) = post"
    "\<And>x. x \<in> set post \<Longrightarrow> mr_heap rt1 x = mr_heap rt x \<and> mr_heap rt x \<noteq> None"
proof (cases "cur_record it")
  case None
  have "rt_ok (upd_iter i (Some it') rt)" if "cur_record it' = None" "it_obj it' = None \<or> it_obj it' = Some m" for it'
  proof -
    have weak: "\<not> is_weak s" using iterator_facts(1) [OF ok i m(1)] m(2) by auto
    have "pins ((iterators rt)[i := Some it']) x = pins (iterators rt) x" for x
      using pins_list_update [OF i(1), of "Some it'" x] i(2) None that by (simp add: pinned_def)
    moreover have "Some j \<in> set (iterators rt) \<or> j = it'" if "Some j \<in> set ((iterators rt)[i := Some it'])" for j
      using that set_update_subset_insert [of "iterators rt" i "Some it'"] by auto
    ultimately show ?thesis
      using that m(2) weak by (intro rt_ok_iters [OF ok]) (simp_all, metis option.distinct(1) option.inject)
  qed
  moreover have "distinct (records s)" "\<And>x. x \<in> set (records s) \<Longrightarrow> mr_heap rt x \<noteq> None"
    using rt_okD(1) [OF ok m(2)] unfolding map_ok_def by blast+
  ultimately show thesis using that [of "records s" rt s "[]"] None m by (auto simp: after_cursor_def)
next
  case (Some r)
  have mok: "map_ok (mr_heap rt) m s" using ok m(2) by (rule rt_okD)
  obtain mr where "mr_heap rt r = Some mr" "mr_map mr = m" using iterator_facts(2) [OF ok i Some] m(1) by auto
  then have "r \<in> set (records s)" using record_owner [OF _ _ m(2)] ok by (simp add: rt_ok_def)
  then obtain as bs where rs: "records s = as @ r # bs" by (meson split_list)
  have d: "distinct (as @ r # bs)" using mok rs by (simp add: map_ok_def)
  obtain rt1 s1 v where rel: "map_decref_record rt r = Some rt1" "map_entries rt1 = map_entries rt"
    "iterators rt1 = iterators rt" "mr_heap rt1 = (mr_heap rt)(r := v)" "map_objs rt1 = (map_objs rt)(m \<mapsto> (c, s1))"
    "records s1 = (if v = None then remove1 r (records s) else records s)"
    using ok i Some m by (rule release_record [where ?o1.0 = None]) auto
  have inv: "rt_ok (upd_iter i (Some it') rt1)" if "cur_record it' = None" "it_obj it' = None \<or> it_obj it' = Some m" for it'
    using ok i Some m by (rule release_record [where ?o1.0 = "Some it'"]) (use that rel(1) in auto)
  have s1: "records s1 = (if v = None then as else as @ [r]) @ bs" using rel(6) rs d by (simp add: remove1_append)
  have "mr_heap rt1 x = mr_heap rt x \<and> mr_heap rt x \<noteq> None" if "x \<in> set bs" for x
    using that d mok rs rel(4) by (auto simp: map_ok_def)
  then show thesis
    using that [of bs rt1 s1 "if v = None then as else as @ [r]"] rel inv Some s1 d rs link_next_split [OF d] after_cursor_split [OF d]
    by auto
qed

definition next_result :: "JSIteratorKindEnum \<Rightarrow> nat \<Rightarrow> bool \<Rightarrow> js_value \<times> js_value \<Rightarrow> map_next" where
  "next_result kind magic ok e =
     (let val = (if magic \<noteq> 0 then fst e else snd e)
      in case kind of
           JS_ITERATOR_KIND_KEY \<Rightarrow> Next_value (fst e)
         | JS_ITERATOR_KIND_VALUE \<Rightarrow> Next_value val
         | JS_ITERATOR_KIND_KEY_AND_VALUE \<Rightarrow> if ok then Next_pair (fst e) val else Next_exception)"

lemma upd_iter_twice: "upd_iter i a (upd_mr r v (upd_iter i b rt)) = upd_iter i a (upd_mr r v rt)"
  by (simp add: upd_iter_def upd_mr_def)

lemma map_entries_iter [simp]: "map_entries (upd_iter i a rt) = map_entries rt"
  by (simp add: map_entries_def fun_eq_iff)

text \<open>The iterator visits the entries that are still to visit one after the other.\<close>

lemma iterator_next:
  assumes ok: "rt_ok rt" and i: "i < length (iterators rt)" "iterators rt ! i = Some it"
  obtains rt' it' where
    "js_map_iterator_next rt (Some i) magic mem =
       Some (rt', case iter_todo rt it of [] \<Rightarrow> Next_done | e # es \<Rightarrow> next_result (it_kind it) magic mem e)"
    "rt_ok rt'" "map_entries rt' = map_entries rt" "iterators rt' = (iterators rt)[i := Some it']"
    "iter_todo rt' it' = tl (iter_todo rt it)"
proof (cases "it_obj it")
  case None
  have "(iterators rt)[i := Some it] = iterators rt" using i(2) by (metis list_update_id)
  then show thesis using that [of rt it] ok i None by (simp add: js_map_iterator_next_def iter_todo_def)
next
  case (Some m)
  obtain c s where m: "map_objs rt m = Some (c, s)" using iterator_facts(1) [OF ok i Some] by blast
  obtain rt1 s1 pre post where st: "(case cur_record it of None \<Rightarrow> Some (link_first (records s), rt)
      | Some r \<Rightarrow> do { el \<leftarrow> link_next (records s) r; rt \<leftarrow> map_decref_record rt r; Some (el, rt) }) = Some (link_first post, rt1)"
    "\<And>it'. cur_record it' = None \<Longrightarrow> it_obj it' = None \<or> it_obj it' = Some m \<Longrightarrow> rt_ok (upd_iter i (Some it') rt1)"
    "map_entries rt1 = map_entries rt" "iterators rt1 = iterators rt" "map_objs rt1 m = Some (c, s1)"
    "records s1 = pre @ post" "distinct (pre @ post)" "after_cursor (cur_record it) (records s) = post"
    "\<And>x. x \<in> set post \<Longrightarrow> mr_heap rt1 x = mr_heap rt x \<and> mr_heap rt x \<noteq> None"
    using ok i Some m by (rule cursor_start) blast
  have loop: "map_next_loop (length (records s1)) (mr_heap rt1) (records s1) (link_first post) = Some (find (live (mr_heap rt1)) post)"
    unfolding st(6) using st(7,9) by (intro next_loop) auto
  have same: "filter (live (mr_heap rt1)) post = filter (live (mr_heap rt)) post"
    using st(9) by (intro filter_cong) (auto simp: live_def)
  have todo: "iter_todo rt it = map (\<lambda>r. (rkey (mr_heap rt) r, rval (mr_heap rt) r)) (filter (live (mr_heap rt1)) post)"
    using Some m st(8) same by (simp add: iter_todo_def)
  show thesis
  proof (cases "find (live (mr_heap rt1)) post")
    case None
    then have "iter_todo rt it = []" unfolding todo by (simp add: find_None_iff filter_empty_conv)
    moreover have "rt_ok (upd_iter i (Some (it\<lparr>cur_record := None, it_obj := None\<rparr>)) rt1)" by (rule st(2)) simp_all
    ultimately show thesis
      using that [of "upd_iter i (Some (it\<lparr>cur_record := None, it_obj := None\<rparr>)) rt1" "it\<lparr>cur_record := None, it_obj := None\<rparr>"]
        i Some m st(1,3,4,5) loop None by (simp add: js_map_iterator_next_def map_state_def) (simp add: iter_todo_def)
  next
    case (Some r)
    then obtain ys zs where post: "post = ys @ r # zs" "filter (live (mr_heap rt1)) post = r # filter (live (mr_heap rt1)) zs"
      "live (mr_heap rt1) r" by (rule find_split_filter)
    obtain mr where mr: "mr_heap rt1 r = Some mr" "mr_heap rt r = Some mr" using st(9) [of r] post(1) by auto
    define it0 it' where "it0 = it\<lparr>cur_record := None\<rparr>" and "it' = it\<lparr>cur_record := Some r\<rparr>"
    let ?mr = "mr\<lparr>mr_ref_count := mr_ref_count mr + 1\<rparr>"
    define rt' where "rt' = upd_iter i (Some it') (upd_mr r (Some ?mr) rt1)"
    have ok0: "rt_ok (upd_iter i (Some it0) rt1)" using st(2) \<open>it_obj it = Some m\<close> by (simp add: it0_def)
    have "mr_map mr = m" using ok0 record_owner [of "upd_iter i (Some it0) rt1" r mr m c s1] mr(1) st(5,6) post(1) by (simp add: rt_ok_def)
    moreover have "rt' = upd_iter i (Some it') (upd_mr r (Some ?mr) (upd_iter i (Some it0) rt1))"
      unfolding rt'_def upd_iter_twice ..
    ultimately have ok': "rt_ok rt' \<and> map_entries rt' = map_entries rt1"
      using pin_record [OF ok0, of i it0 m c s1 r mr it' rt'] i st(4,5) mr(1) \<open>it_obj it = Some m\<close> by (simp add: it0_def it'_def)
    have run: "js_map_iterator_next rt (Some i) magic mem = Some (rt', next_result (it_kind it) magic mem (mr_key mr, mr_value mr))"
      using i \<open>it_obj it = Some m\<close> m st(1,5) loop Some mr
      by (simp add: js_map_iterator_next_def map_state_def rt'_def it'_def next_result_def Let_def split: JSIteratorKindEnum.split)
    have "iter_todo rt it = (mr_key mr, mr_value mr) # map (\<lambda>r. (rkey (mr_heap rt) r, rval (mr_heap rt) r)) (filter (live (mr_heap rt1)) zs)"
      unfolding todo post(2) using mr(2) by (simp add: rkey_def rval_def)
    moreover have "iter_todo rt' it' = map (\<lambda>r. (rkey (mr_heap rt) r, rval (mr_heap rt) r)) (filter (live (mr_heap rt1)) zs)"
    proof -
      have "after_cursor (Some r) (records s1) = zs" using st(6,7) post(1) after_cursor_split [of "pre @ ys" r zs] by simp
      moreover have "x \<noteq> r \<and> mr_heap rt1 x = mr_heap rt x" if "x \<in> set zs" for x using that st(7) st(9) [of x] post(1) by auto
      ultimately show ?thesis
        using \<open>it_obj it = Some m\<close> st(5) by (auto simp: iter_todo_def it'_def rt'_def live_def rkey_def rval_def cong: filter_cong)
    qed
    ultimately show thesis
      using that [of rt' it'] run ok' st(3,4) by (simp add: rt'_def)
  qed
qed

section \<open>Methods\<close>

lemma opaque [simp]: "map_objs rt m = Some (magic, s) \<Longrightarrow> JS_GetOpaque2 rt (JS_Object m) magic = Some (m, s)"
  by (simp add: JS_GetOpaque2_def)

lemma map_set:
  assumes ok: "rt_ok rt" and m: "map_objs rt m = Some (magic, s)" and key: "key = map_normalize_key k" "key_ok key"
    and mem: "\<And>r. fst mem = Some r \<Longrightarrow> mr_heap rt r = None" "resize_fits (hash_size s) (snd mem)"
  obtains rt' v where "js_map_set rt (JS_Object m) [k, val] magic mem = Some (rt', v)" "rt_ok rt'" "iterators rt' = iterators rt"
    "(v, map_entries rt') =
       (if is_weak s \<and> \<not> JS_IsObject key \<or> \<not> al_has key (entries (mr_heap rt) s) \<and> fst mem = None then (JS_Exception, map_entries rt)
        else (JS_Object m, (map_entries rt)(m \<mapsto> al_set key (if odd magic then JS_Undefined else val) (entries (mr_heap rt) s))))"
proof (cases "is_weak s \<and> \<not> JS_IsObject key")
  case True
  then show thesis using that [of rt JS_Exception] ok m key by (simp add: js_map_set_def rd_def)
next
  case False
  note mok = rt_okD(1) [OF ok m]
  let ?v = "if odd magic then JS_Undefined else val"
  show thesis
  proof (rule found_record [OF mok key(2)])
    assume none: "map_find_record (mr_heap rt) s key = Some None" "\<not> al_has key (entries (mr_heap rt) s)"
    show thesis
    proof (cases "fst mem")
      case None
      then show thesis
        using that [of rt JS_Exception] ok m key False none by (simp add: js_map_set_def rd_def map_add_record_def)
    next
      case (Some r)
      have new: "key_id key \<notin> key_id ` fst ` set (entries (mr_heap rt) s)" using none(2) by (simp add: al_has_def)
      have w: "is_weak s \<Longrightarrow> JS_IsObject key" using False by blast
      obtain rt1 s1 where add: "map_add_record rt m key mem = Some (rt1, Some r)" "rt_ok rt1"
        "map_objs rt1 = (map_objs rt)(m \<mapsto> (magic, s1))" "mr_heap rt1 = (mr_heap rt)(r \<mapsto> new_record m key)"
        "map_entries rt1 = (map_entries rt)(m \<mapsto> entries (mr_heap rt) s @ [(key, JS_Undefined)])"
        "iterators rt1 = iterators rt" "records s1 = records s @ [r]"
        by (rule add_record [OF ok m key(2) w new Some mem(1) [OF Some] mem(2)]) blast
      have m1: "map_objs rt1 m = Some (magic, s1)" using add(3) by simp
      have en: "entries (mr_heap rt1) s1 = entries (mr_heap rt) s @ [(key, JS_Undefined)]"
        using fun_cong [OF add(5), of m] m1 by (simp add: map_entries_def)
      let ?mr = "new_record m key" let ?rt' = "upd_mr r (Some (?mr\<lparr>mr_value := ?v\<rparr>)) rt1"
      have touch: "rt_ok ?rt'" "map_entries ?rt' = (map_entries rt1)(m \<mapsto> al_put key ?v (entries (mr_heap rt1) s1))"
        using touch_record(1) [OF add(2) m1, of r ?mr ?v] touch_record(2) [OF add(2) m1, of r ?mr key ?v] add(4,7)
        by (simp_all add: live_def new_record_def)
      have "al_put key ?v (entries (mr_heap rt1) s1) = al_set key ?v (entries (mr_heap rt) s)"
        using al_absent(1) [OF none(2)] none(2) unfolding en al_set_def by (simp add: al_put_def)
      then show thesis
        using that [of ?rt' "JS_Object m"] touch add(1,4-6) m key False none Some
        by (simp add: js_map_set_def rd_def)
    qed
  next
    fix r assume r: "map_find_record (mr_heap rt) s key = Some (Some r)" "r \<in> set (records s)" "live (mr_heap rt) r"
      "key_id (rkey (mr_heap rt) r) = key_id key" "al_has key (entries (mr_heap rt) s)"
    obtain mr where mr: "mr_heap rt r = Some mr" using live_record [OF r(3)] by auto
    have "key_id (mr_key mr) = key_id key" using r(4) mr by (simp add: rkey_def)
    then show thesis
      using that [of "upd_mr r (Some (mr\<lparr>mr_value := ?v\<rparr>)) rt" "JS_Object m"] touch_record(1) [OF ok m r(2) mr, of ?v]
        touch_record(2) [OF ok m r(2) mr r(3), of key ?v] m key False r mr
      by (simp add: js_map_set_def rd_def al_set_def)
  qed
qed

lemma map_get_has:
  assumes ok: "rt_ok rt" and m: "map_objs rt m = Some (magic, s)" and key: "key = map_normalize_key k" "key_ok key"
  shows "js_map_get rt (JS_Object m) [k] magic = Some (al_get key (entries (mr_heap rt) s))"
    "js_map_has rt (JS_Object m) [k] magic = Some (JS_Bool (al_has key (entries (mr_heap rt) s)))"
proof -
  have "js_map_get rt (JS_Object m) [k] magic = Some (al_get key (entries (mr_heap rt) s)) \<and>
    js_map_has rt (JS_Object m) [k] magic = Some (JS_Bool (al_has key (entries (mr_heap rt) s)))"
    by (rule found_record [OF rt_okD(1) [OF ok m] key(2)])
      (use m key al_absent(3) in \<open>auto simp: js_map_get_def js_map_has_def rd_def rval_def dest!: live_record\<close>)
  then show "js_map_get rt (JS_Object m) [k] magic = Some (al_get key (entries (mr_heap rt) s))"
    "js_map_has rt (JS_Object m) [k] magic = Some (JS_Bool (al_has key (entries (mr_heap rt) s)))" by auto
qed

lemma map_delete:
  assumes ok: "rt_ok rt" and m: "map_objs rt m = Some (magic, s)" and key: "key = map_normalize_key k" "key_ok key"
  obtains rt' where "js_map_delete rt (JS_Object m) [k] magic = Some (rt', JS_Bool (al_has key (entries (mr_heap rt) s)))"
    "rt_ok rt'" "map_entries rt' = (map_entries rt)(m \<mapsto> al_remove key (entries (mr_heap rt) s))" "iterators rt' = iterators rt"
proof (rule found_record [OF rt_okD(1) [OF ok m] key(2)])
  assume none: "map_find_record (mr_heap rt) s key = Some None" "\<not> al_has key (entries (mr_heap rt) s)"
  have "al_remove key (entries (mr_heap rt) s) = entries (mr_heap rt) s" using none(2) by (rule al_absent)
  moreover have "map_entries rt m = Some (entries (mr_heap rt) s)" using m by (simp add: map_entries_def)
  ultimately have "map_entries rt = (map_entries rt)(m \<mapsto> al_remove key (entries (mr_heap rt) s))" by auto
  then show thesis using that [of rt] ok m key none by (simp add: js_map_delete_def rd_def)
next
  fix r assume r: "map_find_record (mr_heap rt) s key = Some (Some r)" "r \<in> set (records s)" "live (mr_heap rt) r"
    "key_id (rkey (mr_heap rt) r) = key_id key" "al_has key (entries (mr_heap rt) s)"
  have "al_remove (rkey (mr_heap rt) r) = al_remove key" using r(4) by (simp add: al_remove_def fun_eq_iff)
  then obtain rt' where "map_delete_record rt m r = Some rt'" "rt_ok rt'" "iterators rt' = iterators rt"
    "map_entries rt' = (map_entries rt)(m \<mapsto> al_remove key (entries (mr_heap rt) s))"
    using delete_record [OF ok m r(2,3)] by metis
  then show thesis using that [of rt'] m key r by (simp add: js_map_delete_def rd_def)
qed

lemma clear_loop:
  assumes "rt_ok rt" "map_objs rt m = Some (c, s)" "records s = pre @ post" "\<And>x. x \<in> set pre \<Longrightarrow> \<not> live (mr_heap rt) x" "length post \<le> fuel"
  shows "\<exists>rt'. map_clear_loop fuel rt m (link_first post) = Some rt' \<and> rt_ok rt' \<and> map_entries rt' = (map_entries rt)(m \<mapsto> []) \<and>
    iterators rt' = iterators rt"
  using assms
proof (induction post arbitrary: fuel rt s pre)
  case Nil
  then have "map_entries rt m = Some []" by (auto simp: map_entries_def entries_def live_records_def)
  then show ?case using Nil by (cases fuel) (auto simp: link_first_def)
next
  case (Cons r post)
  obtain f where f: "fuel = Suc f" using Cons.prems(5) by (cases fuel) auto
  have mok: "map_ok (mr_heap rt) m s" using Cons.prems(1,2) by (rule rt_okD)
  have d: "distinct (pre @ r # post)" using mok Cons.prems(3) by (simp add: map_ok_def)
  have rin: "r \<in> set (records s)" using Cons.prems(3) by simp
  note nxt = link_next_split [OF d]
  show ?case
  proof (cases "live (mr_heap rt) r")
    case False
    obtain mr where "mr_heap rt r = Some mr" using mok rin unfolding map_ok_def by blast
    then have "map_delete_record rt m r = Some rt" using False by (simp add: map_delete_record_def live_def)
    then have step: "map_clear_loop fuel rt m (link_first (r # post)) = map_clear_loop f rt m (link_first post)"
      using Cons.prems(2,3) f nxt by (simp add: link_first_def)
    have dead: "\<not> live (mr_heap rt) x" if "x \<in> set (pre @ [r])" for x using that Cons.prems(4) False by auto
    show ?thesis unfolding step using Cons.prems(3,5) f by (intro Cons.IH [OF Cons.prems(1,2) _ dead]) auto
  next
    case True
    obtain rt1 s1 v where del: "map_delete_record rt m r = Some rt1" "rt_ok rt1" "map_objs rt1 = (map_objs rt)(m \<mapsto> (c, s1))"
      "map_entries rt1 = (map_entries rt)(m \<mapsto> al_remove (rkey (mr_heap rt) r) (entries (mr_heap rt) s))"
      "iterators rt1 = iterators rt" "mr_heap rt1 = (mr_heap rt)(r := v)"
      "records s1 = (if v = None then remove1 r (records s) else records s)" "\<And>mr'. v = Some mr' \<Longrightarrow> mr_empty mr'"
      using Cons.prems(1,2) rin True by (rule delete_record) blast
    define pre1 where "pre1 = (if v = None then pre else pre @ [r])"
    have rs: "records s1 = pre1 @ post" using del(7) Cons.prems(3) d by (simp add: pre1_def remove1_append)
    have "\<not> live (mr_heap rt1) x" if "x \<in> set pre1" for x
    proof (cases "x = r")
      case True
      then show ?thesis using del(6,8) by (auto simp: live_def split: option.splits)
    next
      case False
      then have "x \<in> set pre" using that by (auto simp: pre1_def split: if_splits)
      then show ?thesis using Cons.prems(4) del(6) False by (simp add: live_def)
    qed
    then have "\<exists>rt'. map_clear_loop f rt1 m (link_first post) = Some rt' \<and> rt_ok rt' \<and>
        map_entries rt' = (map_entries rt1)(m \<mapsto> []) \<and> iterators rt' = iterators rt1"
      using Cons.prems(5) del(3) f by (intro Cons.IH [OF del(2) _ rs]) auto
    moreover have "map_clear_loop fuel rt m (link_first (r # post)) = map_clear_loop f rt1 m (link_first post)"
      using Cons.prems(2,3) f nxt del(1) by (simp add: link_first_def)
    ultimately show ?thesis by (simp only: del(4,5) fun_upd_upd)
  qed
qed

lemma map_clear:
  assumes ok: "rt_ok rt" and m: "map_objs rt m = Some (magic, s)"
  obtains rt' where "js_map_clear rt (JS_Object m) magic = Some (rt', JS_Undefined)" "rt_ok rt'"
    "map_entries rt' = (map_entries rt)(m \<mapsto> [])" "iterators rt' = iterators rt"
  using clear_loop [OF ok m, of "[]" "records s"] that m by (fastforce simp: js_map_clear_def)

lemma map_size:
  assumes ok: "rt_ok rt" and m: "map_objs rt m = Some (magic, s)" "\<not> is_weak s"
  shows "js_map_get_size rt (JS_Object m) magic = JS_NewUint32 (of_nat (length (entries (mr_heap rt) s)))"
  using rt_okD(1) [OF ok m(1)] m by (simp add: js_map_get_size_def map_ok_def)

text \<open>The new object of a map is not yet one.\<close>

lemma map_init:
  assumes ok: "rt_ok rt" and fresh: "map_objs rt m = None" and run: "js_map_init rt m magic mem = (rt', v)"
  shows "rt_ok rt'" "map_entries rt' = (if v = JS_Exception then map_entries rt else (map_entries rt)(m \<mapsto> []))"
    "iterators rt' = iterators rt"
proof -
  have no: "mr_map mr \<noteq> m" if "mr_heap rt r = Some mr" for r mr
    using ok that fresh unfolding rt_ok_def maps_ok_def by fastforce
  have wk: "weak_key (mr_heap rt) ((map_objs rt)(m \<mapsto> x)) r = weak_key (mr_heap rt) (map_objs rt) r" for x r
    using no [of r] by (auto simp: weak_key_def weak_map_def split: option.split)
  let ?s = "\<lparr>is_weak = odd (magic div 2), records = [], record_count = 0, hash_table = [[]], hash_size = 1, record_count_threshold = 4\<rparr>"
  have new: "map_ok (mr_heap rt) m ?s" "entries (mr_heap rt) ?s = []"
    by (simp_all add: map_ok_def buckets_def entries_ok_def entries_def live_records_def)
  let ?rt = "rt\<lparr>map_objs := (map_objs rt)(m \<mapsto> (magic, ?s))\<rparr>"
  have "maps_ok ?rt" using ok new(1) no unfolding rt_ok_def maps_ok_def by auto
  moreover have "pins_ok ?rt" using ok fresh unfolding rt_ok_def pins_ok_def by fastforce
  moreover have "weak_ok ?rt" using ok by (simp add: rt_ok_def weak_ok_def wk)
  ultimately have "rt_ok ?rt" by (simp add: rt_ok_def)
  then show "rt_ok rt'" "map_entries rt' = (if v = JS_Exception then map_entries rt else (map_entries rt)(m \<mapsto> []))"
    "iterators rt' = iterators rt"
    using run ok new(2) by (auto simp: js_map_init_def map_entries_def fun_eq_iff split: if_splits)
qed

lemma create_iterator:
  assumes ok: "rt_ok rt" and m: "map_objs rt m = Some (magic, s)" "\<not> is_weak s"
  shows "rt_ok (fst (js_create_map_iterator rt (JS_Object m) magic kind mem))"
    "map_entries (fst (js_create_map_iterator rt (JS_Object m) magic kind mem)) = map_entries rt"
proof -
  let ?it = "\<lparr>it_obj = Some m, it_kind = kind, cur_record = None\<rparr>"
  have "rt_ok (rt\<lparr>iterators := iterators rt @ [Some ?it]\<rparr>)"
    by (rule rt_ok_iters [OF ok]) (use m in \<open>auto simp: pins_def pinned_def\<close>)
  then show "rt_ok (fst (js_create_map_iterator rt (JS_Object m) magic kind mem))"
    "map_entries (fst (js_create_map_iterator rt (JS_Object m) magic kind mem)) = map_entries rt"
    using ok m by (auto simp: js_create_map_iterator_def map_entries_def fun_eq_iff)
qed

lemma free_iterator:
  assumes ok: "rt_ok rt" and i: "i < length (iterators rt)" "iterators rt ! i = Some it"
  obtains rt' where "js_map_iterator_finalizer rt i = Some rt'" "rt_ok rt'" "map_entries rt' = map_entries rt"
    "iterators rt' = (iterators rt)[i := None]"
proof (cases "cur_record it")
  case None
  have "Some j \<in> set (iterators rt)" if "Some j \<in> set ((iterators rt)[i := None])" for j
    using that set_update_subset_insert [of "iterators rt" i None] by auto
  then have "rt_ok (upd_iter i None rt)"
    using pins_list_update [OF i(1), of None] i(2) None by (intro rt_ok_iters [OF ok]) (auto simp: pinned_def)
  then show thesis using that [of "upd_iter i None rt"] i None by (simp add: js_map_iterator_finalizer_def split: option.split)
next
  case (Some r)
  obtain m where m: "it_obj it = Some m" using iterator_facts(2) [OF ok i Some] by blast
  obtain c s where s: "map_objs rt m = Some (c, s)" using iterator_facts(1) [OF ok i m] by blast
  obtain rt1 where "map_decref_record rt r = Some rt1" "rt_ok (upd_iter i None rt1)" "map_entries rt1 = map_entries rt"
    "iterators rt1 = iterators rt"
    using ok i Some m s by (rule release_record [where ?o1.0 = None]) auto
  then show thesis using that [of "upd_iter i None rt1"] i Some m s by (simp add: js_map_iterator_finalizer_def)
qed

section \<open>The death of a weakly held key\<close>

text \<open>Unlinking and freeing one record of the chain.\<close>

definition weak_strip :: "nat \<Rightarrow> JSMapState \<Rightarrow> JSMapState" where
  "weak_strip r s = s\<lparr>hash_table := map (remove1 r) (hash_table s), records := remove1 r (records s)\<rparr>"

abbreviation with_chain :: "nat \<Rightarrow> nat list \<Rightarrow> map_rt \<Rightarrow> map_rt" where
  "with_chain p L rt \<equiv> rt\<lparr>first_weak_ref := (first_weak_ref rt)(p := L)\<rparr>"

lemma pass1_free:
  assumes "r \<notin> set L"
  shows "reset_weak_pass1 L (upd_mr r None rt) = map_option (upd_mr r None) (reset_weak_pass1 L rt)"
  using assms
proof (induction L arbitrary: rt)
  case (Cons x L)
  have "upd_map m s (upd_mr r None rt) = upd_mr r None (upd_map m s rt)" for m s by (simp add: upd_map_def upd_mr_def)
  moreover have "map_state (upd_mr r None rt) m = map_state rt m" for m by (simp add: map_state_def upd_mr_def)
  ultimately show ?case using Cons by (auto simp: upd_mr_def [of r None rt] split: bind_split)
qed simp

lemma pass1_chain: "reset_weak_pass1 L rt = Some rt' \<Longrightarrow> first_weak_ref rt' = first_weak_ref rt"
  by (induction L arbitrary: rt) (auto simp: bind_eq_Some_conv)

lemma pass1_heap: "reset_weak_pass1 L rt = Some rt' \<Longrightarrow> mr_heap rt' = mr_heap rt"
  by (induction L arbitrary: rt) (auto simp: bind_eq_Some_conv)

text \<open>The two passes free the records of the chain one by one.\<close>

lemma passes_Cons:
  assumes "r \<notin> set L" "mr_heap rt r = Some mr" "map_state rt (mr_map mr) = Some s" "is_weak s" "\<not> mr_empty mr"
  shows "do { rt1 \<leftarrow> reset_weak_pass1 (r # L) rt; reset_weak_pass2 (r # L) rt1 } =
    do { rt1 \<leftarrow> reset_weak_pass1 L (upd_mr r None (upd_map (mr_map mr) (weak_strip r s) rt)); reset_weak_pass2 L rt1 }"
proof (cases "reset_weak_pass1 L (upd_map (mr_map mr) (weak_strip r s) rt)")
  case None
  then show ?thesis using assms by (simp add: pass1_free weak_strip_def)
next
  case (Some rt1)
  then have "mr_heap rt1 r = Some mr" using pass1_heap [OF Some] assms(2) by simp
  then show ?thesis using Some assms by (simp add: pass1_free weak_strip_def)
qed

lemma free_weak_record:
  assumes ok: "rt_ok (with_chain p (r # L) rt)" and mr: "mr_heap rt r = Some mr"
  obtains c s where "map_objs rt (mr_map mr) = Some (c, s)" "is_weak s" "\<not> mr_empty mr"
    "rt_ok (with_chain p L (upd_mr r None (upd_map (mr_map mr) (weak_strip r s) rt)))"
    "map_entries (upd_mr r None (upd_map (mr_map mr) (weak_strip r s) rt)) =
       (map_entries rt)(mr_map mr \<mapsto> al_remove (JS_Object p) (entries (mr_heap rt) s))"
proof -
  let ?rt0 = "with_chain p (r # L) rt" let ?m = "mr_map mr"
  have parts: "maps_ok ?rt0" "pins_ok ?rt0" "weak_ok ?rt0" using ok by (simp_all add: rt_ok_def)
  have "weak_key (mr_heap rt) (map_objs rt) r = Some p"
    using spec [OF parts(3) [unfolded weak_ok_def], of p] by (auto dest: spec [of _ r])
  then obtain c s where m: "map_objs rt ?m = Some (c, s)" "is_weak s" and live: "\<not> mr_empty mr"
    and key: "JS_VALUE_GET_OBJ (mr_key mr) = Some p"
    using mr by (auto simp: weak_key_def weak_map_def split: if_splits option.splits)
  have m0: "map_objs ?rt0 ?m = Some (c, s)" using m by simp
  have kp: "mr_key mr = JS_Object p" using key by (auto simp: JS_VALUE_GET_OBJ_def split: js_value.splits)
  have own: "mr_map mr' = ?m" if "mr_heap ?rt0 r = Some mr'" for mr' using that mr by simp
  have r: "r \<in> set (records s)" "live (mr_heap ?rt0) r"
    using record_owner [OF parts(1) _ m0, of r mr] mr live by (simp_all add: live_def)
  let ?s = "weak_strip r s" let ?rt1 = "upd_mr r None (upd_map ?m ?s rt)"
  have f: "mr_heap (with_chain p L ?rt1) = (mr_heap ?rt0)(r := None)" "map_objs (with_chain p L ?rt1) = (map_objs ?rt0)(?m \<mapsto> (c, ?s))"
    using m by (simp_all add: upd_map_def upd_mr_def)
  have sw: "is_weak ?s = is_weak s" by (simp add: weak_strip_def)
  have "?s = s\<lparr>hash_table := map (remove1 r) (hash_table s), records := remove1 r (records s), record_count := record_count s\<rparr>"
    by (cases s) (simp add: weak_strip_def)
  then have kill: "map_ok ((mr_heap ?rt0)(r := None)) ?m ?s"
    "entries ((mr_heap ?rt0)(r := None)) ?s = al_remove (JS_Object p) (entries (mr_heap rt) s)"
    using map_ok_kill [OF rt_okD(1) [OF ok m0] r, of None "remove1 r (records s)" ?s "record_count s"] m(2) mr kp
    by (simp_all add: al_remove_def rkey_def)
  have maps: "maps_ok (with_chain p L ?rt1)"
    "map_entries (with_chain p L ?rt1) = (map_entries ?rt0)(?m \<mapsto> al_remove (JS_Object p) (entries (mr_heap rt) s))"
    using maps_ok_update [OF parts(1) m0 own kill(1) sw _ _ f] kill(2) by (simp_all add: weak_strip_def)
  have "pins (iterators rt) r = 0"
    unfolding pins_none using parts(2) mr m unfolding pins_ok_def by fastforce
  then have "pins_ok (with_chain p L ?rt1)"
    using f sw by (intro pins_ok_update [OF parts(2) m0 own, where v = None and s' = ?s]) simp_all
  moreover have "weak_ok (with_chain p L ?rt1)"
    using weak_ok_kill [OF parts(3) m0 m(2), of ?s r mr p None "with_chain p L ?rt1"] mr live key f sw m(2) by simp
  ultimately have "rt_ok (with_chain p L ?rt1)" using maps(1) by (simp add: rt_ok_def)
  moreover have "map_entries (with_chain p L ?rt1) = map_entries ?rt1" "map_entries ?rt0 = map_entries rt"
    by (simp_all add: map_entries_def fun_eq_iff)
  ultimately show thesis using that m live maps(2) by simp
qed

text \<open>What the death of the object \<open>p\<close> does to the maps.\<close>

definition drop_weak_key :: "nat \<Rightarrow> map_rt \<Rightarrow> nat \<Rightarrow> (js_value \<times> js_value) list option" where
  "drop_weak_key p rt m =
     map_option (\<lambda>es. if weak_map (map_objs rt) m then al_remove (JS_Object p) es else es) (map_entries rt m)"

lemma al_remove_twice: "al_remove k (al_remove k es) = al_remove k es"
  by (simp add: al_remove_def)

lemma no_weak_entry:
  assumes ok: "rt_ok (with_chain p [] rt)"
  shows "drop_weak_key p rt = map_entries rt"
proof
  fix m
  show "drop_weak_key p rt m = map_entries rt m"
  proof (cases "map_objs rt m")
    case (Some cs)
    then obtain c s where m: "map_objs rt m = Some (c, s)" by (cases cs) auto
    have "\<not> al_has (JS_Object p) (entries (mr_heap rt) s)" if w: "is_weak s"
    proof
      assume "al_has (JS_Object p) (entries (mr_heap rt) s)"
      then obtain r where r: "r \<in> set (records s)" "live (mr_heap rt) r" "key_id (rkey (mr_heap rt) r) = Class_object p"
        by (auto simp: al_has_def entries_def live_records_def)
      obtain mr where mr: "mr_heap rt r = Some mr" "mr_map mr = m"
        using rt_okD(1) [OF ok, of m c s] m r(1) by (auto simp: map_ok_def)
      have "mr_key mr = JS_Object p" using r(3) mr by (cases "mr_key mr") (auto simp: rkey_def)
      then have "weak_key (mr_heap rt) (map_objs rt) r = Some p"
        using mr r(2) m w by (simp add: weak_key_def weak_map_def live_def JS_VALUE_GET_OBJ_def)
      moreover have wk: "weak_ok (with_chain p [] rt)" using ok by (simp add: rt_ok_def)
      ultimately show False using spec [OF wk [unfolded weak_ok_def], of p] by (auto dest: spec [of _ r])
    qed
    then show ?thesis using al_absent(2) m by (auto simp: drop_weak_key_def weak_map_def map_entries_def)
  qed (simp add: drop_weak_key_def map_entries_def)
qed

lemma reset_passes:
  assumes "rt_ok (with_chain p L rt)"
  shows "\<exists>rt'. do { rt1 \<leftarrow> reset_weak_pass1 L rt; reset_weak_pass2 L rt1 } = Some rt' \<and> rt_ok (with_chain p [] rt') \<and>
    map_entries rt' = drop_weak_key p rt \<and> iterators rt' = iterators rt \<and> first_weak_ref rt' = first_weak_ref rt"
  using assms
proof (induction L arbitrary: rt)
  case Nil
  then show ?case using no_weak_entry [OF Nil] by (intro exI [of _ rt] conjI) simp_all
next
  case (Cons r L)
  have wk: "weak_ok (with_chain p (r # L) rt)" using Cons.prems unfolding rt_ok_def by blast
  then have "weak_key (mr_heap rt) (map_objs rt) r = Some p" "r \<notin> set L"
    using spec [OF wk [unfolded weak_ok_def], of p] by (auto dest: spec [of _ r])
  then obtain mr where r: "mr_heap rt r = Some mr" "r \<notin> set L" by (auto simp: weak_key_def split: option.splits)
  obtain c s where st: "map_objs rt (mr_map mr) = Some (c, s)" "is_weak s" "\<not> mr_empty mr"
    "rt_ok (with_chain p L (upd_mr r None (upd_map (mr_map mr) (weak_strip r s) rt)))"
    "map_entries (upd_mr r None (upd_map (mr_map mr) (weak_strip r s) rt)) =
       (map_entries rt)(mr_map mr \<mapsto> al_remove (JS_Object p) (entries (mr_heap rt) s))"
    using Cons.prems r(1) by (rule free_weak_record)
  let ?rt1 = "upd_mr r None (upd_map (mr_map mr) (weak_strip r s) rt)"
  have "weak_map (map_objs ?rt1) = weak_map (map_objs rt)"
    using st(1) by (auto simp: weak_map_def upd_map_def upd_mr_def weak_strip_def fun_eq_iff)
  then have "drop_weak_key p ?rt1 = drop_weak_key p rt"
    using st(1,2) by (auto simp: drop_weak_key_def st(5) fun_eq_iff al_remove_twice weak_map_def map_entries_def)
  then show ?case
    using Cons.IH [OF st(4)] passes_Cons [OF r(2,1) _ st(2,3)] st(1) by simp
qed

lemma reset_weak:
  assumes ok: "rt_ok rt"
  obtains rt' where "reset_weak_ref rt p = Some rt'" "rt_ok rt'" "map_entries rt' = drop_weak_key p rt" "iterators rt' = iterators rt"
proof -
  have "with_chain p (first_weak_ref rt p) rt = rt" by simp
  then obtain rt' where r: "do { rt1 \<leftarrow> reset_weak_pass1 (first_weak_ref rt p) rt; reset_weak_pass2 (first_weak_ref rt p) rt1 } = Some rt'"
    "rt_ok (with_chain p [] rt')" "map_entries rt' = drop_weak_key p rt" "iterators rt' = iterators rt"
    using reset_passes [where p = p and L = "first_weak_ref rt p" and rt = rt] ok by metis
  obtain rt1 where p1: "reset_weak_pass1 (first_weak_ref rt p) rt = Some rt1" using r(1) by (auto simp: bind_eq_Some_conv)
  have "first_weak_ref rt1 = first_weak_ref rt" using p1 pass1_chain by blast
  then have "reset_weak_ref rt p = Some (with_chain p [] rt')" using r(1) p1 by (simp add: reset_weak_ref_def)
  moreover have "map_entries (with_chain p [] rt') = map_entries rt'" by (simp add: map_entries_def fun_eq_iff)
  ultimately show thesis using that r by simp
qed

section \<open>Sequences of operations\<close>

text \<open>The calls that change the maps.  A method is called with the \<open>magic\<close> of its class.\<close>

datatype map_call =
    Call_new nat nat "bool \<times> bool"
  | Call_set nat js_value js_value map_mem
  | Call_delete nat js_value
  | Call_clear nat
  | Call_iterator nat JSIteratorKindEnum bool
  | Call_next nat nat bool
  | Call_free nat
  | Call_key_dies nat

definition magic_of :: "map_rt \<Rightarrow> nat \<Rightarrow> nat" where
  "magic_of rt m = (case map_objs rt m of Some (c, s) \<Rightarrow> c | None \<Rightarrow> 0)"

fun run_call :: "map_call \<Rightarrow> map_rt \<Rightarrow> map_rt option" where
  "run_call (Call_new m magic mem) rt = Some (fst (js_map_init rt m magic mem))"
| "run_call (Call_set m k v mem) rt = map_option fst (js_map_set rt (JS_Object m) [k, v] (magic_of rt m) mem)"
| "run_call (Call_delete m k) rt = map_option fst (js_map_delete rt (JS_Object m) [k] (magic_of rt m))"
| "run_call (Call_clear m) rt = map_option fst (js_map_clear rt (JS_Object m) (magic_of rt m))"
| "run_call (Call_iterator m kind mem) rt = Some (fst (js_create_map_iterator rt (JS_Object m) (magic_of rt m) kind mem))"
| "run_call (Call_next i magic mem) rt = map_option fst (js_map_iterator_next rt (Some i) magic mem)"
| "run_call (Call_free i) rt = js_map_iterator_finalizer rt i"
| "run_call (Call_key_dies p) rt = reset_weak_ref rt p"

text \<open>What the caller and the allocator owe: new objects and records are new, the table does not
  outgrow 32 bits, numbers with a 32-bit integer value come as integers, and the iterator is
  there.  Weak maps have no iterators.\<close>

definition iter_there :: "map_rt \<Rightarrow> nat \<Rightarrow> bool" where
  "iter_there rt i \<longleftrightarrow> i < length (iterators rt) \<and> iterators rt ! i \<noteq> None"

fun call_ok :: "map_call \<Rightarrow> map_rt \<Rightarrow> bool" where
  "call_ok (Call_new m magic mem) rt \<longleftrightarrow> map_objs rt m = None"
| "call_ok (Call_set m k v mem) rt \<longleftrightarrow>
     (case map_objs rt m of
        None \<Rightarrow> False
      | Some (c, s) \<Rightarrow> key_ok (map_normalize_key k) \<and> (case fst mem of Some r \<Rightarrow> mr_heap rt r = None | None \<Rightarrow> True) \<and>
          resize_fits (hash_size s) (snd mem))"
| "call_ok (Call_delete m k) rt \<longleftrightarrow> map_objs rt m \<noteq> None \<and> key_ok (map_normalize_key k)"
| "call_ok (Call_clear m) rt \<longleftrightarrow> map_objs rt m \<noteq> None"
| "call_ok (Call_iterator m kind mem) rt \<longleftrightarrow> map_objs rt m \<noteq> None \<and> \<not> weak_map (map_objs rt) m"
| "call_ok (Call_next i magic mem) rt \<longleftrightarrow> iter_there rt i"
| "call_ok (Call_free i) rt \<longleftrightarrow> iter_there rt i"
| "call_ok (Call_key_dies p) rt \<longleftrightarrow> True"

text \<open>What the calls mean for the lists of entries.\<close>

fun call_spec :: "map_call \<Rightarrow> map_rt \<Rightarrow> nat \<Rightarrow> (js_value \<times> js_value) list option" where
  "call_spec (Call_new m magic mem) rt = (if fst mem \<and> snd mem then (map_entries rt)(m \<mapsto> []) else map_entries rt)"
| "call_spec (Call_set m k v mem) rt =
     (let key = map_normalize_key k; es = the (map_entries rt m)
      in if weak_map (map_objs rt) m \<and> \<not> JS_IsObject key \<or> \<not> al_has key es \<and> fst mem = None then map_entries rt
         else (map_entries rt)(m \<mapsto> al_set key (if odd (magic_of rt m) then JS_Undefined else v) es))"
| "call_spec (Call_delete m k) rt = (map_entries rt)(m \<mapsto> al_remove (map_normalize_key k) (the (map_entries rt m)))"
| "call_spec (Call_clear m) rt = (map_entries rt)(m \<mapsto> [])"
| "call_spec (Call_iterator m kind mem) rt = map_entries rt"
| "call_spec (Call_next i magic mem) rt = map_entries rt"
| "call_spec (Call_free i) rt = map_entries rt"
| "call_spec (Call_key_dies p) rt = drop_weak_key p rt"

definition map_rt_init :: map_rt where
  "map_rt_init = \<lparr>mr_heap = (\<lambda>_. None), map_objs = (\<lambda>_. None), first_weak_ref = (\<lambda>_. []), iterators = []\<rparr>"

inductive map_reach :: "map_rt \<Rightarrow> bool" where
  start: "map_reach map_rt_init"
| call: "map_reach rt \<Longrightarrow> call_ok c rt \<Longrightarrow> run_call c rt = Some rt' \<Longrightarrow> map_reach rt'"

lemma call_refines:
  assumes ok: "rt_ok rt" and c: "call_ok c rt"
  shows "\<exists>rt'. run_call c rt = Some rt' \<and> rt_ok rt' \<and> map_entries rt' = call_spec c rt"
proof (cases c)
  case (Call_new m magic mem)
  obtain rt' v where run: "js_map_init rt m magic mem = (rt', v)" by (cases "js_map_init rt m magic mem")
  moreover have "v = JS_Exception \<longleftrightarrow> \<not> (fst mem \<and> snd mem)" using run by (auto simp: js_map_init_def split: if_splits)
  ultimately show ?thesis using map_init [OF ok _ run] c Call_new by auto
next
  case (Call_set m k v mem)
  then obtain magic s where m: "map_objs rt m = Some (magic, s)" "key_ok (map_normalize_key k)"
    "\<And>r. fst mem = Some r \<Longrightarrow> mr_heap rt r = None" "resize_fits (hash_size s) (snd mem)"
    using c by (auto split: option.splits)
  have "magic_of rt m = magic" "the (map_entries rt m) = entries (mr_heap rt) s" "weak_map (map_objs rt) m = is_weak s"
    using m(1) by (simp_all add: magic_of_def map_entries_def weak_map_def)
  note sim = this
  show ?thesis
    by (rule map_set [OF ok m(1) refl m(2-4), where ?val = v]) (auto simp: Call_set Let_def sim split: if_splits)
next
  case (Call_delete m k)
  then obtain magic s where m: "map_objs rt m = Some (magic, s)" "key_ok (map_normalize_key k)" using c by auto
  show ?thesis
    by (rule map_delete [OF ok m(1) refl m(2)]) (use m in \<open>auto simp: Call_delete magic_of_def map_entries_def\<close>)
next
  case (Call_clear m)
  then obtain magic s where m: "map_objs rt m = Some (magic, s)" using c by auto
  show ?thesis by (rule map_clear [OF ok m]) (use m in \<open>auto simp: Call_clear magic_of_def\<close>)
next
  case (Call_iterator m kind mem)
  then obtain magic s where m: "map_objs rt m = Some (magic, s)" "\<not> is_weak s" using c by (auto simp: weak_map_def)
  then show ?thesis using create_iterator [OF ok m] by (auto simp: Call_iterator magic_of_def)
next
  case (Call_next i magic mem)
  then obtain it where i: "i < length (iterators rt)" "iterators rt ! i = Some it" using c by (auto simp: iter_there_def)
  show ?thesis by (rule iterator_next [OF ok i, of magic mem]) (auto simp: Call_next)
next
  case (Call_free i)
  then obtain it where i: "i < length (iterators rt)" "iterators rt ! i = Some it" using c by (auto simp: iter_there_def)
  show ?thesis by (rule free_iterator [OF ok i]) (auto simp: Call_free)
next
  case (Call_key_dies p)
  show ?thesis by (rule reset_weak [OF ok, of p]) (auto simp: Call_key_dies)
qed

lemma map_reach_ok: "map_reach rt \<Longrightarrow> rt_ok rt"
proof (induction rule: map_reach.induct)
  case start
  show ?case by (simp add: map_rt_init_def rt_ok_def maps_ok_def pins_ok_def weak_ok_def weak_key_def)
next
  case (call rt c rt')
  then show ?case using call_refines [of rt c] by auto
qed

section \<open>Properties\<close>


definition sample_map_rt :: map_rt where
  "sample_map_rt = fst (js_map_init map_rt_init 7 0 (True, True))"

lemma sample_map_reach: "map_reach sample_map_rt"
  by (rule map_reach.call [OF map_reach.start, where c = "Call_new 7 0 (True, True)"])
    (simp_all add: map_rt_init_def sample_map_rt_def)

lemma sample_map_objs: "map_objs sample_map_rt = [7 \<mapsto> (0, \<lparr>is_weak = False, records = [], record_count = 0,
    hash_table = [[]], hash_size = 1, record_count_threshold = 4\<rparr>)]" "mr_heap sample_map_rt = (\<lambda>_. None)"
  by (simp_all add: sample_map_rt_def js_map_init_def map_rt_init_def)

lemma int_key_ok: "key_ok (JS_Int i)"
  by (simp add: key_ok_def)





definition sample_map_iter :: map_rt where
  "sample_map_iter = fst (js_create_map_iterator sample_map_rt (JS_Object 7) 0 JS_ITERATOR_KIND_KEY True)"


section \<open>Two defects\<close>

text \<open>The integer 1 and the double 1.0 are the same key, but they hash differently: once the
  table has several buckets, a map that holds the one does not find the other.\<close>

lemma integer_double_keys_differ:
  "js_same_value_zero (JS_Int 1) (JS_Float64 0x3ff0000000000000) = Some True \<and>
   map_option (bucket_index 4) (map_hash_key (JS_Int 1)) \<noteq> map_option (bucket_index 4) (map_hash_key (JS_Float64 0x3ff0000000000000))"
  by code_simp

text \<open>When a key object of a weak map dies, its record goes but \<open>record_count\<close> keeps counting it:
  the table of a long-lived weak map grows with the keys that ever were in it.\<close>

lemma weak_count_stays:
  "(do { rt \<leftarrow> Some (fst (js_map_init map_rt_init 7 2 (True, True)));
         rt \<leftarrow> map_option fst (js_map_set rt (JS_Object 7) [JS_Object 9, JS_Null] 2 (Some 100, None));
         rt \<leftarrow> reset_weak_ref rt 9;
         s \<leftarrow> map_state rt 7;
         Some (records s, record_count s) }) = Some ([], 1)"
  by code_simp

end
