(* ===== verification/Js_Uri.thy ===== *)
theory Js_Uri
  imports Js_String_Utf8
begin

text \<open>
  The functions \<open>encodeURI\<close>, \<open>decodeURI\<close>, their component variants, \<open>escape\<close> and
  \<open>unescape\<close> (\<open>quickjs.c\<close>, URI handling).  They read a string unit by unit and write a
  string buffer whose return values they ignore.  Encoding a string succeeds exactly when
  its surrogates are paired, and decoding the result gives the string back, for both
  variants; unescaping undoes escaping for every string.

  The argument is converted by \<open>JS_ToString\<close>, the parameter \<open>ts\<close>.
\<close>

section \<open>Characters\<close>

definition reserved_chars :: "nat list" where
  "reserved_chars = [59, 47, 63, 58, 64, 38, 61, 43, 36, 44, 35]"

definition isURIReserved :: "u32 \<Rightarrow> bool" where
  "isURIReserved c \<longleftrightarrow> c < 0x100 \<and> unat c \<in> set reserved_chars"

text \<open>\<open>@*_+-./\<close> and \<open>-_.!~*'()\<close>\<close>

definition isUnescaped :: "u32 \<Rightarrow> bool" where
  "isUnescaped c \<longleftrightarrow> c < 0x100 \<and>
     (c \<ge> 0x41 \<and> c \<le> 0x5a \<or> c \<ge> 0x61 \<and> c \<le> 0x7a \<or> c \<ge> 0x30 \<and> c \<le> 0x39 \<or>
      unat c \<in> set [64, 42, 95, 43, 45, 46, 47])"

definition isURIUnescaped :: "u32 \<Rightarrow> bool \<Rightarrow> bool" where
  "isURIUnescaped c isComponent \<longleftrightarrow> c < 0x100 \<and>
     (c \<ge> 0x61 \<and> c \<le> 0x7a \<or> c \<ge> 0x41 \<and> c \<le> 0x5a \<or> c \<ge> 0x30 \<and> c \<le> 0x39 \<or>
      unat c \<in> set [45, 95, 46, 33, 126, 42, 39, 40, 41] \<or> (\<not> isComponent \<and> isURIReserved c))"

section \<open>Hexadecimal numbers\<close>

text \<open>\<open>Some None\<close> is the return value \<open>-1\<close>.\<close>

primrec string_get_hex_loop :: "JSString \<Rightarrow> nat \<Rightarrow> nat \<Rightarrow> u32 \<Rightarrow> u32 option option" where
  "string_get_hex_loop p 0 k c = Some (Some c)"
| "string_get_hex_loop p (Suc n) k c = do {
     u \<leftarrow> string_get p k;
     let h = from_hex (uint u)
     in if h < 0 then Some None else string_get_hex_loop p n (k + 1) (push_bit 4 c OR word_of_int h) }"

definition string_get_hex :: "JSString \<Rightarrow> nat \<Rightarrow> nat \<Rightarrow> u32 option option" where
  "string_get_hex p k n = string_get_hex_loop p n k 0"

definition hex_decode :: "JSString \<Rightarrow> nat \<Rightarrow> u32 option option" where
  "hex_decode p k =
     (if k \<ge> js_len p then Some None
      else do {
        u \<leftarrow> string_get p k;
        if u \<noteq> 0x25 then Some None
        else if k + 2 \<ge> js_len p then Some None
        else string_get_hex p (k + 1) 2 })"

definition hex_chars :: bytes where
  "hex_chars = [0x30, 0x31, 0x32, 0x33, 0x34, 0x35, 0x36, 0x37, 0x38, 0x39, 0x41, 0x42, 0x43, 0x44, 0x45, 0x46]"

definition hex_digit :: "u32 \<Rightarrow> u8" where
  "hex_digit c = hex_chars ! unat (c AND 15)"

text \<open>The bytes that \<open>encodeURI_hex\<close> writes: \<open>%XX\<close>, or \<open>%uXXXX\<close> from 256 on.\<close>

definition hex_escape :: "u32 \<Rightarrow> bytes" where
  "hex_escape c =
     [0x25] @ (if c \<ge> 256 then [0x75, hex_digit (drop_bit 12 c), hex_digit (drop_bit 8 c)] else []) @
     [hex_digit (drop_bit 4 c), hex_digit c]"

definition encodeURI_hex :: "'o js_mem \<Rightarrow> 'o StringBuffer \<Rightarrow> u32 \<Rightarrow> 'o sb_result" where
  "encodeURI_hex jm b c = string_buffer_write8 jm b (hex_escape c)"

text \<open>Calls whose return value is dropped.\<close>

definition sb_do_all :: "('o StringBuffer \<Rightarrow> 'o sb_result) list \<Rightarrow> 'o StringBuffer \<Rightarrow> 'o StringBuffer option" where
  "sb_do_all fs b = foldl (\<lambda>r f. do { b \<leftarrow> r; (b, _) \<leftarrow> f b; Some b }) (Some b) fs"

section \<open>Decoding\<close>

text \<open>The loop over the continuation bytes; it gives up with the code 0 on a byte that is not one.\<close>

primrec decode_tail :: "JSString \<Rightarrow> nat \<Rightarrow> nat \<Rightarrow> u32 \<Rightarrow> (u32 \<times> nat) option option" where
  "decode_tail p 0 k c = Some (Some (c, k))"
| "decode_tail p (Suc n) k c = do {
     r \<leftarrow> hex_decode p k;
     (case r of
        None \<Rightarrow> Some None
      | Some c1 \<Rightarrow>
          if c1 AND 0xc0 \<noteq> 0x80 then Some (Some (0, k + 3))
          else decode_tail p n (k + 3) (push_bit 6 c OR (c1 AND 0x3f))) }"

text \<open>The body of the loop: the character and the next index, or \<open>Some None\<close> for \<open>goto fail\<close>.\<close>

definition decode_body :: "JSString \<Rightarrow> bool \<Rightarrow> nat \<Rightarrow> (u32 \<times> nat) option option" where
  "decode_body p isComponent k = do {
     u \<leftarrow> string_get p k;
     if u = 0x25 then do {
       r \<leftarrow> hex_decode p k;
       (case r of
          None \<Rightarrow> Some None
        | Some c \<Rightarrow>
            if c < 0x80 then
              (if \<not> isComponent \<and> isURIReserved c then Some (Some (0x25, k + 1)) else Some (Some (c, k + 3)))
            else
              (let (n, c_min, c) =
                 (if c \<ge> 0xc0 \<and> c \<le> 0xdf then (1, 0x80, c AND 0x1f)
                  else if c \<ge> 0xe0 \<and> c \<le> 0xef then (2, 0x800, c AND 0xf)
                  else if c \<ge> 0xf0 \<and> c \<le> 0xf7 then (3, 0x10000, c AND 0x7)
                  else (0, 1, 0))
               in do {
                 t \<leftarrow> decode_tail p n (k + 3) c;
                 (case t of
                    None \<Rightarrow> Some None
                  | Some (c, k) \<Rightarrow>
                      if c < c_min \<or> c > 0x10FFFF \<or> c \<ge> 0xd800 \<and> c < 0xe000 then Some None
                      else Some (Some (c, k))) })) }
     else Some (Some (ucast u, k + 1)) }"

text \<open>Every iteration moves forward, so the length of the string is enough fuel.\<close>

primrec decode_loop :: "nat \<Rightarrow> 'o js_mem \<Rightarrow> JSString \<Rightarrow> bool \<Rightarrow> nat \<Rightarrow> 'o StringBuffer \<Rightarrow> ('o StringBuffer \<times> bool) option" where
  "decode_loop 0 jm p isComponent k b = (if k < js_len p then None else Some (b, True))"
| "decode_loop (Suc fuel) jm p isComponent k b =
     (if k < js_len p then do {
        r \<leftarrow> decode_body p isComponent k;
        (case r of
           None \<Rightarrow> Some (b, False)
         | Some (c, k) \<Rightarrow> do {
             (b, _) \<leftarrow> string_buffer_putc jm b c;
             decode_loop fuel jm p isComponent k b }) }
      else Some (b, True))"

text \<open>The end of all four functions: the string, or an exception after \<open>goto fail\<close>.\<close>

definition uri_finish :: "'o js_mem \<Rightarrow> 'o StringBuffer \<times> bool \<Rightarrow> ('o \<times> js_result) option" where
  "uri_finish jm r =
     (if snd r then string_buffer_end jm (fst r) else Some (sb_ctx (string_buffer_free jm (fst r)), JS_EXCEPTION))"

definition js_global_decodeURI ::
    "'o js_mem \<Rightarrow> ('o, 'v) to_string \<Rightarrow> 'o \<Rightarrow> 'v JSValue \<Rightarrow> bool \<Rightarrow> ('o \<times> js_result) option" where
  "js_global_decodeURI jm ts ctx v isComponent =
     (case string_operand ts ctx v of
        (ctx, None) \<Rightarrow> Some (ctx, JS_EXCEPTION)
      | (ctx, Some (_, p)) \<Rightarrow>
          do { r \<leftarrow> decode_loop (js_len p) jm p isComponent 0 (fst (string_buffer_init jm ctx 0)); uri_finish jm r })"

section \<open>Encoding\<close>

text \<open>The calls of \<open>encodeURI_hex\<close> for one code point.\<close>

definition encode_writes :: "u32 \<Rightarrow> u32 list" where
  "encode_writes c =
     (if c < 0x80 then [c]
      else (if c < 0x800 then [drop_bit 6 c OR 0xc0]
            else (if c < 0x10000 then [drop_bit 12 c OR 0xe0]
                  else [drop_bit 18 c OR 0xf0, (drop_bit 12 c AND 0x3f) OR 0x80]) @
                 [(drop_bit 6 c AND 0x3f) OR 0x80]) @
           [(c AND 0x3f) OR 0x80])"

text \<open>The body of the loop: what is written and the next index.\<close>

datatype uri_out = Out_unit u32 | Out_escapes "u32 list"

definition encode_body :: "JSString \<Rightarrow> bool \<Rightarrow> nat \<Rightarrow> (uri_out \<times> nat) option option" where
  "encode_body p isComponent k = do {
     u \<leftarrow> string_get p k;
     let c = ucast u; k = k + 1
     in if isURIUnescaped c isComponent then Some (Some (Out_unit c, k))
        else if c \<ge> 0xdc00 \<and> c \<le> 0xdfff then Some None
        else if c \<ge> 0xd800 \<and> c \<le> 0xdbff then
          (if k \<ge> js_len p then Some None
           else do {
             u1 \<leftarrow> string_get p k;
             let c1 = ucast u1; k = k + 1
             in if c1 < 0xdc00 \<or> c1 > 0xdfff then Some None
                else Some (Some (Out_escapes (encode_writes ((push_bit 10 (c AND 0x3ff) OR (c1 AND 0x3ff)) + 0x10000)), k)) })
        else Some (Some (Out_escapes (encode_writes c), k)) }"

definition uri_write :: "'o js_mem \<Rightarrow> uri_out \<Rightarrow> 'o StringBuffer \<Rightarrow> 'o StringBuffer option" where
  "uri_write jm out b =
     (case out of
        Out_unit c \<Rightarrow> sb_do_all [\<lambda>b. string_buffer_putc16 jm b c] b
      | Out_escapes cs \<Rightarrow> sb_do_all (map (\<lambda>c b. encodeURI_hex jm b c) cs) b)"

primrec encode_loop :: "nat \<Rightarrow> 'o js_mem \<Rightarrow> JSString \<Rightarrow> bool \<Rightarrow> nat \<Rightarrow> 'o StringBuffer \<Rightarrow> ('o StringBuffer \<times> bool) option" where
  "encode_loop 0 jm p isComponent k b = (if k < js_len p then None else Some (b, True))"
| "encode_loop (Suc fuel) jm p isComponent k b =
     (if k < js_len p then do {
        r \<leftarrow> encode_body p isComponent k;
        (case r of
           None \<Rightarrow> Some (b, False)
         | Some (out, k) \<Rightarrow> do { b \<leftarrow> uri_write jm out b; encode_loop fuel jm p isComponent k b }) }
      else Some (b, True))"

definition js_global_encodeURI ::
    "'o js_mem \<Rightarrow> ('o, 'v) to_string \<Rightarrow> 'o \<Rightarrow> 'v JSValue \<Rightarrow> bool \<Rightarrow> ('o \<times> js_result) option" where
  "js_global_encodeURI jm ts ctx v isComponent =
     (case string_operand ts ctx v of
        (ctx, None) \<Rightarrow> Some (ctx, JS_EXCEPTION)
      | (ctx, Some (_, p)) \<Rightarrow>
          do { r \<leftarrow> encode_loop (js_len p) jm p isComponent 0 (fst (string_buffer_init jm ctx (js_len p))); uri_finish jm r })"

section \<open>Escaping\<close>

primrec escape_loop :: "nat \<Rightarrow> 'o js_mem \<Rightarrow> JSString \<Rightarrow> nat \<Rightarrow> 'o StringBuffer \<Rightarrow> 'o StringBuffer option" where
  "escape_loop 0 jm p i b = Some b"
| "escape_loop (Suc n) jm p i b = do {
     u \<leftarrow> string_get p i;
     let c = ucast u;
     b \<leftarrow> uri_write jm (if isUnescaped c then Out_unit c else Out_escapes [c]) b;
     escape_loop n jm p (i + 1) b }"

definition js_global_escape ::
    "'o js_mem \<Rightarrow> ('o, 'v) to_string \<Rightarrow> 'o \<Rightarrow> 'v JSValue \<Rightarrow> ('o \<times> js_result) option" where
  "js_global_escape jm ts ctx v =
     (case string_operand ts ctx v of
        (ctx, None) \<Rightarrow> Some (ctx, JS_EXCEPTION)
      | (ctx, Some (_, p)) \<Rightarrow>
          do { b \<leftarrow> escape_loop (js_len p) jm p 0 (fst (string_buffer_init jm ctx (js_len p))); uri_finish jm (b, True) })"

definition unescape_body :: "JSString \<Rightarrow> nat \<Rightarrow> (u32 \<times> nat) option" where
  "unescape_body p i = do {
     u \<leftarrow> string_get p i;
     if u = 0x25 then do {
       long \<leftarrow> (if i + 6 \<le> js_len p then do {
                   u1 \<leftarrow> string_get p (i + 1);
                   if u1 = 0x75 then string_get_hex p (i + 2) 4 else Some None }
                 else Some None);
       (case long of
          Some n \<Rightarrow> Some (n, i + 5)
        | None \<Rightarrow> do {
            short \<leftarrow> (if i + 3 \<le> js_len p then string_get_hex p (i + 1) 2 else Some None);
            Some (case short of Some n \<Rightarrow> (n, i + 2) | None \<Rightarrow> (ucast u, i)) }) }
     else Some (ucast u, i) }"

primrec unescape_loop :: "nat \<Rightarrow> 'o js_mem \<Rightarrow> JSString \<Rightarrow> nat \<Rightarrow> 'o StringBuffer \<Rightarrow> 'o StringBuffer option" where
  "unescape_loop 0 jm p i b = (if i < js_len p then None else Some b)"
| "unescape_loop (Suc fuel) jm p i b =
     (if i < js_len p then do {
        (c, i) \<leftarrow> unescape_body p i;
        b \<leftarrow> uri_write jm (Out_unit c) b;
        unescape_loop fuel jm p (i + 1) b }
      else Some b)"

definition js_global_unescape ::
    "'o js_mem \<Rightarrow> ('o, 'v) to_string \<Rightarrow> 'o \<Rightarrow> 'v JSValue \<Rightarrow> ('o \<times> js_result) option" where
  "js_global_unescape jm ts ctx v =
     (case string_operand ts ctx v of
        (ctx, None) \<Rightarrow> Some (ctx, JS_EXCEPTION)
      | (ctx, Some (_, p)) \<Rightarrow>
          do { b \<leftarrow> unescape_loop (js_len p) jm p 0 (fst (string_buffer_init jm ctx 0)); uri_finish jm (b, True) })"

section \<open>Hexadecimal escapes\<close>

definition pct :: "u8 \<Rightarrow> u16 list" where
  "pct b = map ucast (hex_escape (ucast b))"

lemma pct_byte:
  "\<exists>d1 d2. pct b = [0x25, d1, d2] \<and> 0 \<le> from_hex (uint d1) \<and> 0 \<le> from_hex (uint d2) \<and>
     push_bit 4 (word_of_int (from_hex (uint d1))) OR word_of_int (from_hex (uint d2)) = (ucast b :: u32)"
proof -
  let ?P = "\<lambda>b. length (pct b) = 3 \<and> pct b ! 0 = 0x25 \<and> 0 \<le> from_hex (uint (pct b ! 1)) \<and> 0 \<le> from_hex (uint (pct b ! 2)) \<and>
     push_bit 4 (word_of_int (from_hex (uint (pct b ! 1)))) OR word_of_int (from_hex (uint (pct b ! 2))) = (ucast b :: u32)"
  have "list_all (\<lambda>n. ?P (word_of_nat n)) [0..<256]" by code_simp
  then have "\<forall>b. ?P b" unfolding u8_exhaust by (simp add: list_all_iff del: set_upt)
  then have P: "?P b" by blast
  then obtain d0 d1 d2 where "pct b = [d0, d1, d2]" by (auto simp: length_Suc_conv numeral_eq_Suc)
  then show ?thesis using P by (auto simp: numeral_eq_Suc)
qed

lemma length_pct [simp]: "length (pct b) = 3"
  using pct_byte [of b] by auto

lemma pct_nonempty [simp]: "pct b \<noteq> []"
  using length_pct [of b] by (metis list.size(3) zero_neq_numeral)

lemma hex_decode_pct:
  assumes ok: "js_string_ok p" and d: "drop k (js_units p) = pct b @ us"
  shows "hex_decode p k = Some (Some (ucast b))" "drop (k + 3) (js_units p) = us" "string_get p k = Some 0x25" "k < js_len p"
proof -
  obtain d1 d2 where b: "pct b = [0x25, d1, d2]" "0 \<le> from_hex (uint d1)" "0 \<le> from_hex (uint d2)"
    "push_bit 4 (word_of_int (from_hex (uint d1))) OR word_of_int (from_hex (uint d2)) = (ucast b :: u32)" using pct_byte by blast
  have s0: "drop k (js_units p) = 0x25 # d1 # d2 # us" using d b(1) by simp
  note g0 = string_get_unit [OF ok s0]
  note g1 = string_get_unit [OF ok g0(3)]
  note g2 = string_get_unit [OF ok g1(3)]
  show "hex_decode p k = Some (Some (ucast b))"
    using g0(1,2) g1(1) g2(1,2) b by (simp add: hex_decode_def string_get_hex_def numeral_2_eq_2 Let_def)
  show "drop (k + 3) (js_units p) = us" using g2(3) by (simp add: numeral_3_eq_3)
  show "string_get p k = Some 0x25" "k < js_len p" using g0 by simp_all
qed

text \<open>The percent-encoded UTF-8 form of a code point.\<close>

definition pct_utf8 :: "u32 \<Rightarrow> u16 list" where
  "pct_utf8 c = concat (map pct (unicode_to_utf8 c))"

lemma cont_bits: "\<not> (b < 0x80 \<or> b \<ge> 0xc0) \<Longrightarrow> ucast b AND 0xc0 = (0x80 :: u32)" for b :: u8
proof -
  have "list_all (\<lambda>n. let b = word_of_nat n :: u8 in b < 0x80 \<or> b \<ge> 0xc0 \<or> ucast b AND 0xc0 = (0x80 :: u32)) [0..<256]"
    by code_simp
  then have "\<forall>b :: u8. b < 0x80 \<or> b \<ge> 0xc0 \<or> ucast b AND 0xc0 = (0x80 :: u32)"
    unfolding u8_exhaust by (simp add: list_all_iff Let_def del: set_upt)
  then show "\<not> (b < 0x80 \<or> b \<ge> 0xc0) \<Longrightarrow> ucast b AND 0xc0 = (0x80 :: u32)" by blast
qed

lemma decode_tail_cont:
  assumes ok: "js_string_ok p" and d: "drop k (js_units p) = concat (map pct (utf8_cont n c)) @ us"
  shows "decode_tail p n k (drop_bit (6 * n) c) = Some (Some (c, k + 3 * n)) \<and> drop (k + 3 * n) (js_units p) = us"
  using d
proof (induction n arbitrary: k)
  case (Suc n)
  let ?b = "ucast ((drop_bit (6 * n) c AND 0x3f) OR 0x80) :: u8"
  have s: "drop k (js_units p) = pct ?b @ concat (map pct (utf8_cont n c)) @ us" using Suc.prems by simp
  note h = hex_decode_pct [OF ok s]
  note tb = tail_group [of "drop_bit (6 * n) c"]
  have "decode_tail p (Suc n) k (drop_bit (6 * Suc n) c) =
      decode_tail p n (k + 3) (push_bit 6 (drop_bit (6 * Suc n) c) OR (drop_bit (6 * n) c AND 0x3f))"
    using h(1) cont_bits [OF tb(1)] tb(2) by (simp only: decode_tail.simps) simp
  also have "\<dots> = decode_tail p n (k + 3) (drop_bit (6 * n) c)" unfolding utf8_group ..
  finally show ?case using Suc.IH [OF h(2)] by (simp add: add.assoc del: decode_tail.simps)
qed simp

text \<open>Decoding one percent-encoded code point.\<close>

lemma lead_tables:
  fixes b :: u8
  shows "utf8_tail_len b = Some l \<Longrightarrow> l \<le> 3 \<Longrightarrow>
    (if (ucast b :: u32) \<ge> 0xc0 \<and> (ucast b :: u32) \<le> 0xdf then (1, 0x80, ucast b AND 0x1f)
     else if (ucast b :: u32) \<ge> 0xe0 \<and> (ucast b :: u32) \<le> 0xef then (2, 0x800, ucast b AND 0xf)
     else if (ucast b :: u32) \<ge> 0xf0 \<and> (ucast b :: u32) \<le> 0xf7 then (3, 0x10000, ucast b AND 0x7)
     else (0, 1, 0)) = (l, utf8_min_code ! (l - 1), ucast b AND utf8_first_code_mask ! (l - 1))"
proof -
  let ?t = "\<lambda>b :: u8. (if (ucast b :: u32) \<ge> 0xc0 \<and> (ucast b :: u32) \<le> 0xdf then (1, 0x80, ucast b AND 0x1f)
     else if (ucast b :: u32) \<ge> 0xe0 \<and> (ucast b :: u32) \<le> 0xef then (2, 0x800, ucast b AND 0xf)
     else if (ucast b :: u32) \<ge> 0xf0 \<and> (ucast b :: u32) \<le> 0xf7 then (3, 0x10000, ucast b AND 0x7)
     else (0, 1, 0)) :: nat \<times> u32 \<times> u32"
  have "list_all (\<lambda>n. let b = word_of_nat n in case utf8_tail_len b of
      None \<Rightarrow> True | Some l \<Rightarrow> 3 < l \<or> ?t b = (l, utf8_min_code ! (l - 1), ucast b AND utf8_first_code_mask ! (l - 1))) [0..<256]"
    by code_simp
  then have "\<forall>b. case utf8_tail_len b of
      None \<Rightarrow> True | Some l \<Rightarrow> 3 < l \<or> ?t b = (l, utf8_min_code ! (l - 1), ucast b AND utf8_first_code_mask ! (l - 1))"
    unfolding u8_exhaust by (simp add: list_all_iff Let_def del: set_upt)
  then have "case utf8_tail_len b of
      None \<Rightarrow> True | Some l \<Rightarrow> 3 < l \<or> ?t b = (l, utf8_min_code ! (l - 1), ucast b AND utf8_first_code_mask ! (l - 1))" ..
  then show "utf8_tail_len b = Some l \<Longrightarrow> l \<le> 3 \<Longrightarrow> ?t b = (l, utf8_min_code ! (l - 1), ucast b AND utf8_first_code_mask ! (l - 1))"
    by (simp only: option.case) linarith
qed

lemma unat_u8_u32: "unat (ucast b :: u32) = unat b" for b :: u8
  using unsigned_less [of b, where ?'a = nat] by (intro unat_ucast_small) simp

lemma decode_body_pct:
  assumes ok: "js_string_ok p" and d: "drop k (js_units p) = pct_utf8 c @ us"
    and c: "c \<le> 0x10FFFF" "\<not> (c \<ge> 0xd800 \<and> c < 0xe000)" "c < 0x80 \<Longrightarrow> isComponent \<or> \<not> isURIReserved c"
  shows "decode_body p isComponent k = Some (Some (c, k + length (pct_utf8 c)))" "drop (k + length (pct_utf8 c)) (js_units p) = us"
    "k < js_len p"
proof -
  have big: "c < 0x80000000" using c(1) by (auto simp: word_le_nat_alt word_less_nat_alt)
  have "decode_body p isComponent k = Some (Some (c, k + length (pct_utf8 c))) \<and> drop (k + length (pct_utf8 c)) (js_units p) = us \<and>
      k < js_len p"
  proof (cases "c < 0x80")
    case True
    have cc: "ucast (ucast c :: u8) = c"
      using True by (simp add: word_unat_eq_iff unat_ucast_small word_less_nat_alt)
    have e: "pct_utf8 c = pct (ucast c)" using True by (simp add: pct_utf8_def unicode_to_utf8_def)
    note h = hex_decode_pct [OF ok d [unfolded e]]
    show ?thesis using h True c(3) cc e by (auto simp: decode_body_def Let_def)
  next
    case False
    define l where "l = utf8_extra c"
    let ?v = "drop_bit (6 * l) c" and ?b = "ucast (drop_bit (6 * l) c OR utf8_mark l) :: u8"
    have l: "1 \<le> l" "l \<le> 3" using False c(1) by (auto simp: l_def utf8_extra_def word_le_nat_alt word_less_nat_alt)
    have r: "\<not> c < utf8_min_code ! (l - 1)" "?v < 2 ^ (6 - l)" using utf8_extra_iff [of l c] False big l l_def by auto
    have l5: "l \<le> 5" using l(2) by simp
    note lead = lead_byte [OF l(1) l5 r(2)]
    have enc: "pct_utf8 c = pct ?b @ concat (map pct (utf8_cont l c))"
      unfolding l_def pct_utf8_def unicode_to_utf8_alt [OF big False] by simp
    have len: "length (pct_utf8 c) = 3 + 3 * l"
      unfolding enc by (simp add: length_concat comp_def sum_list_triv)
    have d': "drop k (js_units p) = pct ?b @ concat (map pct (utf8_cont l c)) @ us" using d enc by simp
    note h = hex_decode_pct [OF ok d']
    note t = decode_tail_cont [OF ok h(2)]
    have nb: "\<not> (ucast ?b :: u32) < 0x80" using lead(1) by (simp add: word_less_nat_alt unat_u8_u32)
    show ?thesis
      using h(1,3,4) t nb lead_tables [OF lead(2) l(2)] lead(3) r(1) c(1,2) len
      by (auto simp: decode_body_def Let_def add.assoc)
  qed
  then show "decode_body p isComponent k = Some (Some (c, k + length (pct_utf8 c)))" "drop (k + length (pct_utf8 c)) (js_units p) = us"
    "k < js_len p" by auto
qed

section \<open>Writing\<close>

fun out_units :: "uri_out \<Rightarrow> u16 list" where
  "out_units (Out_unit c) = [ucast c]"
| "out_units (Out_escapes cs) = concat (map (\<lambda>c. map ucast (hex_escape c)) cs)"

lemma sb_do_all_Cons: "sb_do_all (f # fs) b = do { (b, _) \<leftarrow> f b; sb_do_all fs b }"
proof -
  have "foldl (\<lambda>r f. do { b \<leftarrow> r; (b, _) \<leftarrow> f b; Some b }) None fs = None" by (induction fs) simp_all
  then show ?thesis by (cases "f b") (auto simp: sb_do_all_def)
qed

lemma sb_do_all_extends:
  assumes "\<And>f b. f \<in> set fs \<Longrightarrow> sb_ok b \<Longrightarrow> appends b (g f) (f b)" "sb_ok b"
  shows "extends b (concat (map g fs)) (sb_do_all fs b)"
  using assms
proof (induction fs arbitrary: b)
  case Nil
  then show ?case by (auto simp: sb_do_all_def extends_def)
next
  case (Cons f fs)
  from Cons.prems have "appends b (g f) (f b)" by simp
  then obtain b1 ret where b1: "f b = Some (b1, ret)" "extends b (g f) (Some b1)" by (rule appends_drop)
  have "extends b1 (concat (map g fs)) (sb_do_all fs b1)" using Cons extends_err [OF b1(2)] by simp
  then show ?case using extends_trans [OF b1(2)] b1(1) by (simp add: sb_do_all_Cons)
qed

lemma uri_write_extends:
  assumes jm: "js_mem_ok jm" and b: "sb_ok b"
  shows "extends b (out_units out) (uri_write jm out b)"
proof (cases out)
  case (Out_unit c)
  have "extends b (concat (map (\<lambda>_. [ucast c]) [\<lambda>b. string_buffer_putc16 jm b c])) (sb_do_all [\<lambda>b. string_buffer_putc16 jm b c] b)"
    using string_buffer_putc16_appends [OF jm] b by (intro sb_do_all_extends) auto
  then show ?thesis using Out_unit by (simp add: uri_write_def)
next
  case (Out_escapes cs)
  have "extends b (concat (map (\<lambda>c. map ucast (hex_escape c)) cs)) (sb_do_all (map (\<lambda>c b. encodeURI_hex jm b c) cs) b)"
    using b
  proof (induction cs arbitrary: b)
    case Nil
    then show ?case by (auto simp: sb_do_all_def extends_def)
  next
    case (Cons c cs)
    have "appends b (map ucast (hex_escape c)) (encodeURI_hex jm b c)"
      unfolding encodeURI_hex_def by (rule string_buffer_write8_appends [OF jm Cons.prems])
    then obtain b1 ret where b1: "encodeURI_hex jm b c = Some (b1, ret)" "extends b (map ucast (hex_escape c)) (Some b1)"
      by (rule appends_drop)
    then show ?case using extends_trans [OF b1(2) Cons.IH [OF extends_err [OF b1(2)]]] by (simp add: sb_do_all_Cons)
  qed
  then show ?thesis using Out_escapes by (simp add: uri_write_def)
qed

section \<open>Encoding as a function on lists\<close>

fun uri_encoding :: "bool \<Rightarrow> u16 list \<Rightarrow> u16 list option" where
  "uri_encoding ic [] = Some []"
| "uri_encoding ic (u # us) =
     (if isURIUnescaped (ucast u) ic then map_option (Cons u) (uri_encoding ic us)
      else if is_lo_surrogate (ucast u) then None
      else if is_hi_surrogate (ucast u) then
        (case us of
           [] \<Rightarrow> None
         | u1 # us \<Rightarrow>
             if is_lo_surrogate (ucast u1)
             then map_option ((@) (pct_utf8 (from_surrogates (ucast u) (ucast u1)))) (uri_encoding ic us)
             else None)
      else map_option ((@) (pct_utf8 (ucast u))) (uri_encoding ic us))"

text \<open>Every surrogate is half of a pair.\<close>

fun uri_paired :: "u16 list \<Rightarrow> bool" where
  "uri_paired [] \<longleftrightarrow> True"
| "uri_paired (u # us) \<longleftrightarrow>
     (if is_lo_surrogate (ucast u) then False
      else if is_hi_surrogate (ucast u) then (case us of [] \<Rightarrow> False | u1 # us \<Rightarrow> is_lo_surrogate (ucast u1) \<and> uri_paired us)
      else uri_paired us)"

lemma unescaped_small: "isURIUnescaped c ic \<Longrightarrow> c < 0x80"
proof -
  assume a: "isURIUnescaped c ic"
  then have "unat c \<in> set [0..<256]" by (simp add: isURIUnescaped_def word_less_nat_alt)
  moreover have "list_all (\<lambda>n. isURIUnescaped (word_of_nat n) True \<or> isURIUnescaped (word_of_nat n) False \<longrightarrow>
      (word_of_nat n :: u32) < 0x80) [0..<256]"
    by code_simp
  ultimately have "isURIUnescaped (word_of_nat (unat c)) True \<or> isURIUnescaped (word_of_nat (unat c)) False \<longrightarrow>
      (word_of_nat (unat c) :: u32) < 0x80"
    unfolding list_all_iff by blast
  then show ?thesis using a by (cases ic) simp_all
qed

lemma unescaped_plain: "isURIUnescaped c ic \<Longrightarrow> c \<noteq> 0x25 \<and> \<not> is_lo_surrogate c \<and> \<not> is_hi_surrogate c"
  using unescaped_small [of c ic]
  by (auto simp: is_lo_surrogate_def is_hi_surrogate_def word_less_nat_alt word_le_nat_alt isURIUnescaped_def isURIReserved_def reserved_chars_def)

lemma uri_encoding_paired: "uri_encoding ic us \<noteq> None \<longleftrightarrow> uri_paired us"
proof (induction ic us rule: uri_encoding.induct)
  case (2 ic u us)
  show ?case
  proof (cases "isURIUnescaped (ucast u) ic")
    case True
    then show ?thesis using 2 unescaped_plain [OF True] by simp
  next
    case False
    then show ?thesis using 2 by (cases us) simp_all
  qed
qed simp

lemma or_less_256:
  fixes a b :: u32
  assumes "unat a < 256" "unat b < 256"
  shows "unat (a OR b) < 256"
proof -
  have "n < 8" if "bit a n \<or> bit b n" for n using that bit_less_bound [of a 8 n] bit_less_bound [of b 8 n] assms by auto
  then have "(a OR b) AND mask 8 = a OR b" by (intro bit_word_eqI) (auto simp: bit_simps)
  then have "unat (a OR b) = unat (a OR b) mod 2 ^ 8" using unat_and_mask [of "a OR b" 8] by simp
  then show ?thesis using mod_less_divisor [of "2 ^ 8" "unat (a OR b)"] by simp
qed

lemma encode_writes_byte:
  assumes "c \<le> 0x10FFFF" "w \<in> set (encode_writes c)"
  shows "w < 0x100"
proof -
  have m: "unat (x AND 0x3f) < 256" for x :: u32
  proof -
    have "(0x3f :: u32) = mask 6" by (simp add: mask_eq_exp_minus_1)
    then have "unat (x AND 0x3f) < 2 ^ 6" using unat_and_mask [of x 6] by simp
    then show ?thesis by simp
  qed
  have d: "c < 0x800 \<Longrightarrow> unat (drop_bit 6 c) < 256" "c < 0x10000 \<Longrightarrow> unat (drop_bit 12 c) < 256" "unat (drop_bit 18 c) < 256"
    using assms(1) by (auto simp: unat_drop_bit word_less_nat_alt word_le_nat_alt)
  have "unat w < 256"
    using assms(2) m d by (auto simp: encode_writes_def word_less_nat_alt split: if_splits intro!: or_less_256)
  then show ?thesis by (simp add: word_less_nat_alt)
qed

lemma encode_writes_utf8:
  assumes "c \<le> 0x10FFFF"
  shows "concat (map (\<lambda>c. map ucast (hex_escape c)) (encode_writes c)) = pct_utf8 c"
proof -
  have lt: "w < 0x100 \<Longrightarrow> (ucast (ucast w :: u8) :: u32) = w" for w :: u32
    by (simp add: word_unat_eq_iff unat_ucast_small unat_u8_u32 word_less_nat_alt)
  have "map (\<lambda>w. ucast (ucast w :: u8)) (encode_writes c) = encode_writes c"
  proof (rule map_idI)
    fix w assume "w \<in> set (encode_writes c)"
    then have "w < 0x100" using assms encode_writes_byte by blast
    then show "ucast (ucast w :: u8) = w" by (rule lt)
  qed
  moreover have "map ucast (encode_writes c) = unicode_to_utf8 c"
    using assms by (auto simp: encode_writes_def unicode_to_utf8_def word_le_nat_alt word_less_nat_alt)
  ultimately show ?thesis
    unfolding pct_utf8_def pct_def by (metis (no_types, lifting) map_map comp_apply map_eq_conv)
qed

section \<open>The loops\<close>

lemma unit_code: "(ucast u :: u32) \<le> 0x10FFFF" for u :: u16
  using unit_less [of u] by (simp add: word_le_nat_alt word_less_nat_alt)

lemma pct_utf8_pos: "0 < length (pct_utf8 c)" if "c \<le> 0x10FFFF"
  using that by (auto simp: pct_utf8_def unicode_to_utf8_def word_le_nat_alt word_less_nat_alt)

text \<open>The shape of an encoding step and its inverse.\<close>

lemma encode_body_step:
  assumes ok: "js_string_ok p" and d: "drop k (js_units p) = u # us"
  shows "case uri_encoding ic (u # us) of
      None \<Rightarrow> encode_body p ic k = Some None \<or>
        (\<exists>out k'. encode_body p ic k = Some (Some (out, k')) \<and> k < k' \<and> uri_encoding ic (drop k' (js_units p)) = None)
    | Some vs \<Rightarrow> \<exists>out k' ws. encode_body p ic k = Some (Some (out, k')) \<and> k < k' \<and>
        uri_encoding ic (drop k' (js_units p)) = Some ws \<and> vs = out_units out @ ws"
proof -
  note g = string_get_unit [OF ok d]
  have lo: "c \<ge> 0xdc00 \<and> c \<le> 0xdfff \<longleftrightarrow> is_lo_surrogate c" "c < 0xdc00 \<or> c > 0xdfff \<longleftrightarrow> \<not> is_lo_surrogate c" for c :: u32
    by (auto simp: is_lo_surrogate_def word_le_nat_alt word_less_nat_alt)
  have hi: "c \<ge> 0xd800 \<and> c \<le> 0xdbff \<longleftrightarrow> is_hi_surrogate c" for c :: u32
    by (auto simp: is_hi_surrogate_def word_le_nat_alt word_less_nat_alt)
  note body = encode_body_def [unfolded lo hi Let_def]
  consider (plain) "isURIUnescaped (ucast u) ic" | (lo) "\<not> isURIUnescaped (ucast u) ic" "is_lo_surrogate (ucast u)"
    | (hi) "\<not> isURIUnescaped (ucast u) ic" "\<not> is_lo_surrogate (ucast u)" "is_hi_surrogate (ucast u)"
    | (code) "\<not> isURIUnescaped (ucast u) ic" "\<not> is_lo_surrogate (ucast u)" "\<not> is_hi_surrogate (ucast u)" by blast
  then show ?thesis
  proof cases
    case plain
    then have "encode_body p ic k = Some (Some (Out_unit (ucast u), Suc k))" using g(1) by (simp add: body)
    then show ?thesis using plain g(3) by (auto simp: unit_cast_cast split: option.splits)
  next
    case lo
    then show ?thesis using g(1) by (simp add: body)
  next
    case code
    then have "encode_body p ic k = Some (Some (Out_escapes (encode_writes (ucast u)), Suc k))" using g(1) by (simp add: body)
    then show ?thesis using code g(3) encode_writes_utf8 [OF unit_code] by (auto split: option.splits)
  next
    case hi
    show ?thesis
    proof (cases us)
      case Nil
      then have "js_len p \<le> Suc k" using g(3) drop_at_end [OF ok, of "Suc k"] by simp
      then show ?thesis using hi g(1) Nil by (simp add: body)
    next
      case (Cons u1 us1)
      note g1 = string_get_unit [OF ok g(3) [unfolded Cons]]
      show ?thesis
      proof (cases "is_lo_surrogate (ucast u1)")
        case True
        let ?c = "from_surrogates (ucast u) (ucast u1)"
        have "encode_body p ic k = Some (Some (Out_escapes (encode_writes ?c), Suc (Suc k)))"
          using hi True g(1) g1(1,2) by (simp add: body from_surrogates_def)
        then show ?thesis
          using hi True g1(3) Cons encode_writes_utf8 [OF surrogate_pair(2) [OF hi(3) True]] by (auto split: option.splits)
      next
        case False
        then show ?thesis using hi g(1) g1(1,2) Cons by (simp add: body)
      qed
    qed
  qed
qed

lemma encode_loop_extends:
  assumes jm: "js_mem_ok jm" and ok: "js_string_ok p" and b: "sb_ok b" and fuel: "js_len p - k \<le> fuel"
  shows "case uri_encoding ic (drop k (js_units p)) of
      None \<Rightarrow> \<exists>b'. encode_loop fuel jm p ic k b = Some (b', False)
    | Some vs \<Rightarrow> \<exists>b'. encode_loop fuel jm p ic k b = Some (b', True) \<and> extends b vs (Some b')"
  using b fuel
proof (induction fuel arbitrary: k b)
  case 0
  then have "drop k (js_units p) = []" using length_js_units [OF ok] by simp
  then show ?case using 0 drop_at_end [OF ok, of k] by (simp add: extends_def)
next
  case (Suc fuel)
  show ?case
  proof (cases "drop k (js_units p)")
    case Nil
    then show ?thesis using Suc.prems drop_at_end [OF ok, of k] by (simp add: extends_def)
  next
    case (Cons u us)
    have k: "k < js_len p" using Cons drop_at_end [OF ok, of k] by simp
    note step = encode_body_step [OF ok Cons, of ic]
    show ?thesis
    proof (cases "\<exists>out k'. encode_body p ic k = Some (Some (out, k')) \<and> k < k'")
      case False
      then have "uri_encoding ic (drop k (js_units p)) = None" "encode_body p ic k = Some None"
        using step Cons by (auto simp del: uri_encoding.simps split: option.splits)
      then show ?thesis using k by simp
    next
      case True
      then obtain out k' where body: "encode_body p ic k = Some (Some (out, k'))" "k < k'" by blast
      obtain b1 where b1: "uri_write jm out b = Some b1" "extends b (out_units out) (Some b1)"
        using uri_write_extends [OF jm Suc.prems(1), of out] by (auto simp: extends_def)
      have "sb_ok b1" "js_len p - k' \<le> fuel" using extends_err [OF b1(2)] Suc.prems(2) body(2) k by auto
      note IH = Suc.IH [OF this]
      have run: "encode_loop (Suc fuel) jm p ic k b = encode_loop fuel jm p ic k' b1" using k body b1(1) by simp
      show ?thesis unfolding run
        using IH step Cons body(1) extends_trans [OF b1(2)] by (auto simp del: uri_encoding.simps split: option.splits)
    qed
  qed
qed

lemma decode_loop_encoded:
  assumes jm: "js_mem_ok jm" and ok: "js_string_ok p"
  shows "uri_encoding ic us = Some vs \<Longrightarrow> drop k (js_units p) = vs \<Longrightarrow> sb_ok b \<Longrightarrow> js_len p - k \<le> fuel \<Longrightarrow>
    \<exists>b'. decode_loop fuel jm p ic k b = Some (b', True) \<and> extends b us (Some b')"
proof (induction ic us arbitrary: vs k b fuel rule: uri_encoding.induct)
  case (1 ic)
  then have "\<not> k < js_len p" using drop_at_end [OF ok, of k] by simp
  then show ?case using 1 by (cases fuel) (auto simp: extends_def)
next
  case (2 ic u us)
  have step: "\<exists>b'. decode_loop fuel jm p ic k b = Some (b', True) \<and> extends b (us1 @ us2) (Some b')"
    if body: "decode_body p ic k = Some (Some (c, k'))" "k < k'" "k < js_len p"
      and put: "\<And>b. sb_ok b \<Longrightarrow> appends b us1 (string_buffer_putc jm b c)"
      and IH: "\<And>b fuel. sb_ok b \<Longrightarrow> js_len p - k' \<le> fuel \<Longrightarrow> \<exists>b'. decode_loop fuel jm p ic k' b = Some (b', True) \<and> extends b us2 (Some b')"
    for c k' us1 us2
  proof -
    obtain f where f: "fuel = Suc f" "js_len p - k' \<le> f" using "2.prems"(4) body(2,3) by (cases fuel) auto
    from put [OF "2.prems"(3)] obtain b1 ret where b1: "string_buffer_putc jm b c = Some (b1, ret)" "extends b us1 (Some b1)"
      by (rule appends_drop)
    obtain b' where "decode_loop f jm p ic k' b1 = Some (b', True)" "extends b1 us2 (Some b')"
      using IH [OF extends_err [OF b1(2)] f(2)] by blast
    then show ?thesis using extends_trans [OF b1(2)] f(1) body b1(1) by auto
  qed
  have one: "appends b [u] (string_buffer_putc jm b (ucast u))" if "sb_ok b" for b
  proof -
    have "\<not> 0x10000 \<le> (ucast u :: u32)" using unit_less [of u] by (simp only: not_le)
    then show ?thesis using surrogate_units [OF jm that, of "ucast u"] by (simp only: if_False unit_cast_cast)
  qed
  show ?case
  proof (cases "isURIUnescaped (ucast u) ic")
    case True
    then obtain ws where ws: "uri_encoding ic us = Some ws" "vs = u # ws" using "2.prems"(1) by auto
    note g = string_get_unit [OF ok, of k u ws]
    have dk: "drop k (js_units p) = u # ws" using "2.prems"(2) ws by simp
    have "u \<noteq> 0x25" using unescaped_plain [OF True] by auto
    then have "decode_body p ic k = Some (Some (ucast u, k + 1))" using g(1) [OF dk] by (simp add: decode_body_def)
    then show ?thesis
      using step [of "ucast u" "k + 1" "[u]" us] one "2.IH"(1) [OF True ws(1)] g(2,3) [OF dk] by simp
  next
    case no: False
    show ?thesis
    proof (cases "is_hi_surrogate (ucast u)")
      case True
      then obtain u1 us1 ws where ws: "us = u1 # us1" "is_lo_surrogate (ucast u1)" "\<not> is_lo_surrogate (ucast u)" "uri_encoding ic us1 = Some ws"
        "vs = pct_utf8 (from_surrogates (ucast u) (ucast u1)) @ ws"
        using "2.prems"(1) no by (auto split: list.splits if_splits)
      let ?c = "from_surrogates (ucast u) (ucast u1)"
      note sp = surrogate_pair [OF True ws(2)]
      have body: "decode_body p ic k = Some (Some (?c, k + length (pct_utf8 ?c)))" "drop (k + length (pct_utf8 ?c)) (js_units p) = ws" "k < js_len p"
        using decode_body_pct [OF ok "2.prems"(2) [unfolded ws(5)] sp(2), of ic] sp(1)
        by (auto simp: word_le_nat_alt word_less_nat_alt)
      have "appends b [u, u1] (string_buffer_putc jm b ?c)" if "sb_ok b" for b
        using surrogate_units [OF jm that, of ?c] sp(1,3,4) by (simp add: unit_cast_cast)
      then show ?thesis
        using step [OF body(1) _ body(3), of "[u, u1]" us1] "2.IH"(2) [OF no ws(3) True ws(1,2,4) body(2)] ws(1)
          pct_utf8_pos [OF sp(2)] by simp
    next
      case False
      then obtain ws where ws: "uri_encoding ic us = Some ws" "vs = pct_utf8 (ucast u) @ ws" "\<not> is_lo_surrogate (ucast u)"
        using "2.prems"(1) no by (auto split: if_splits)
      have "(ucast u :: u32) < 0x80 \<Longrightarrow> ic \<or> \<not> isURIReserved (ucast u)"
        using no by (auto simp: isURIUnescaped_def isURIReserved_def)
      moreover have "\<not> ((ucast u :: u32) \<ge> 0xd800 \<and> (ucast u :: u32) < 0xe000)"
        using False ws(3) by (auto simp: is_hi_surrogate_def is_lo_surrogate_def)
      ultimately have body: "decode_body p ic k = Some (Some (ucast u, k + length (pct_utf8 (ucast u))))"
        "drop (k + length (pct_utf8 (ucast u))) (js_units p) = ws" "k < js_len p"
        using decode_body_pct [OF ok "2.prems"(2) [unfolded ws(2)] unit_code, of ic] by auto
      then show ?thesis
        using step [OF body(1) _ body(3), of "[u]" us] one "2.IH"(3) [OF no ws(3) False ws(1) body(2)] pct_utf8_pos [OF unit_code, of u] by simp
    qed
  qed
qed

section \<open>Escaping and unescaping\<close>

definition escape_units :: "u16 \<Rightarrow> u16 list" where
  "escape_units u = (if isUnescaped (ucast u) then [u] else map ucast (hex_escape (ucast u)))"

lemma hex_digit_value:
  "0 \<le> from_hex (uint (ucast (hex_digit c) :: u16))" "word_of_int (from_hex (uint (ucast (hex_digit c) :: u16))) = c AND 15"
  "(ucast (hex_digit c) :: u16) \<noteq> 0x75"
proof -
  have "(15 :: u32) = mask 4" by (simp add: mask_eq_exp_minus_1)
  then have "unat (c AND 15) < 16" using unat_and_mask [of c 4] by simp
  then have "unat (c AND 15) \<in> set [0..<16]" by simp
  moreover have "list_all (\<lambda>n. let d = ucast (hex_chars ! n) :: u16 in
      0 \<le> from_hex (uint d) \<and> word_of_int (from_hex (uint d)) = (word_of_nat n :: u32) \<and> d \<noteq> 0x75) [0..<16]" by code_simp
  ultimately have "let d = ucast (hex_chars ! unat (c AND 15)) :: u16 in
      0 \<le> from_hex (uint d) \<and> word_of_int (from_hex (uint d)) = (word_of_nat (unat (c AND 15)) :: u32) \<and> d \<noteq> 0x75"
    unfolding list_all_iff by blast
  then show "0 \<le> from_hex (uint (ucast (hex_digit c) :: u16))" "word_of_int (from_hex (uint (ucast (hex_digit c) :: u16))) = c AND 15"
    "(ucast (hex_digit c) :: u16) \<noteq> 0x75" by (simp_all add: hex_digit_def Let_def)
qed

fun hex_units :: "nat \<Rightarrow> u32 \<Rightarrow> u16 list" where
  "hex_units 0 c = []"
| "hex_units (Suc n) c = ucast (hex_digit (drop_bit (4 * n) c)) # hex_units n c"

lemma length_hex_units [simp]: "length (hex_units n c) = n"
  by (induction n) simp_all

lemma hex_group:
  fixes c :: u32
  shows "push_bit 4 (drop_bit (4 * Suc n) c) OR (drop_bit (4 * n) c AND 15) = drop_bit (4 * n) c"
proof -
  have m: "(15 :: u32) = mask 4" by (simp add: mask_eq_exp_minus_1)
  show ?thesis unfolding m
  proof (rule word_eq_bitI)
    fix k assume k: "k < LENGTH(32)"
    show "bit (push_bit 4 (drop_bit (4 * Suc n) c) OR (drop_bit (4 * n) c AND mask 4)) k = bit (drop_bit (4 * n) c) k"
    proof (cases "k < 4")
      case True
      then show ?thesis by (simp add: bit_simps)
    next
      case False
      then have "4 * Suc n + (k - 4) = 4 * n + k" by simp
      then show ?thesis using False k by (simp add: bit_simps del: mult_Suc_right)
    qed
  qed
qed

lemma string_get_hex_units:
  assumes ok: "js_string_ok p" and d: "drop k (js_units p) = hex_units n c @ us"
  shows "string_get_hex_loop p n k (drop_bit (4 * n) c) = Some (Some c)"
  using d
proof (induction n arbitrary: k)
  case (Suc n)
  have s: "drop k (js_units p) = ucast (hex_digit (drop_bit (4 * n) c)) # hex_units n c @ us" using Suc.prems by simp
  note g = string_get_unit [OF ok s]
  have "string_get_hex_loop p (Suc n) k (drop_bit (4 * Suc n) c) =
      string_get_hex_loop p n (Suc k) (push_bit 4 (drop_bit (4 * Suc n) c) OR (drop_bit (4 * n) c AND 15))"
    using g(1) hex_digit_value [of "drop_bit (4 * n) c"] by (simp only: string_get_hex_loop.simps Let_def) simp
  then show ?case using Suc.IH [OF g(3)] unfolding hex_group by simp
qed simp

lemma escape_shape:
  fixes c :: u32
  assumes "c < 0x10000"
  shows "map ucast (hex_escape c) = (0x25 :: u16) # (if c \<ge> 256 then 0x75 # hex_units 4 c else hex_units 2 c)"
proof -
  have two: "hex_units 2 c = [ucast (hex_digit (drop_bit 4 c)), ucast (hex_digit c)]"
    unfolding numeral_2_eq_2 by simp
  moreover have "hex_units 4 c = [ucast (hex_digit (drop_bit 12 c)), ucast (hex_digit (drop_bit 8 c)), ucast (hex_digit (drop_bit 4 c)), ucast (hex_digit c)]"
    using hex_units.simps(2) [of 3 c] hex_units.simps(2) [of 2 c] two by simp
  ultimately show ?thesis by (simp add: hex_escape_def)
qed

lemma unescape_body_escaped:
  assumes ok: "js_string_ok p" and d: "drop i (js_units p) = escape_units u @ us"
  shows "unescape_body p i = Some (ucast u, i + length (escape_units u) - 1)" "drop (i + length (escape_units u)) (js_units p) = us"
    "i < js_len p" "0 < length (escape_units u)"
proof -
  let ?c = "ucast u :: u32"
  have len: "length (escape_units u) \<le> js_len p - i" using arg_cong [OF d, of length] length_js_units [OF ok] by simp
  have "drop (length (escape_units u)) (drop i (js_units p)) = us" unfolding d by simp
  then show "drop (i + length (escape_units u)) (js_units p) = us" by (simp add: add.commute)
  show pos: "0 < length (escape_units u)" by (simp add: escape_units_def hex_escape_def)
  show "i < js_len p" using len pos by linarith
  show "unescape_body p i = Some (ucast u, i + length (escape_units u) - 1)"
  proof (cases "isUnescaped ?c")
    case True
    then have "u \<noteq> 0x25" by (auto simp: isUnescaped_def)
    moreover have "string_get p i = Some u" using string_get_unit(1) [OF ok, of i u us] d True by (simp add: escape_units_def)
    ultimately show ?thesis using True by (simp add: unescape_body_def escape_units_def)
  next
    case False
    note shape = escape_shape [OF unit_less [of u]]
    show ?thesis
    proof (cases "?c \<ge> 256")
      case True
      have s: "drop i (js_units p) = 0x25 # 0x75 # hex_units 4 ?c @ us" using d False True shape by (simp add: escape_units_def)
      note g0 = string_get_unit [OF ok s]
      note g1 = string_get_unit [OF ok g0(3)]
      have "drop_bit 16 ?c = 0" using unit_less [of u] by (simp add: word_unat_eq_iff unat_drop_bit word_less_nat_alt)
      then have "string_get_hex p (i + 2) 4 = Some (Some ?c)"
        using string_get_hex_units [OF ok g1(3)] by (simp add: string_get_hex_def)
      moreover have "length (escape_units u) = 6" using False True shape by (simp add: escape_units_def)
      moreover from this have "i + 6 \<le> js_len p" using len by linarith
      ultimately show ?thesis using g0(1) g1(1) by (simp add: unescape_body_def)
    next
      case small: False
      have s: "drop i (js_units p) = 0x25 # hex_units 2 ?c @ us" using d False small shape by (simp add: escape_units_def)
      note g0 = string_get_unit [OF ok s]
      have "drop_bit 8 ?c = 0" using small by (simp add: word_unat_eq_iff unat_drop_bit word_le_nat_alt)
      then have "string_get_hex p (i + 1) 2 = Some (Some ?c)"
        using string_get_hex_units [OF ok g0(3)] by (simp add: string_get_hex_def)
      moreover obtain d1 ds where "hex_units 2 ?c @ us = d1 # ds" "d1 \<noteq> 0x75"
        using hex_digit_value(3) [of "drop_bit 4 ?c"] by (simp add: numeral_2_eq_2)
      moreover from this have "string_get p (i + 1) = Some d1" using string_get_unit(1) [OF ok] g0(3) by simp
      moreover have "length (escape_units u) = 3" using False small shape by (simp add: escape_units_def)
      moreover from this have "i + 3 \<le> js_len p" using len by linarith
      ultimately show ?thesis using g0(1) by (simp add: unescape_body_def)
    qed
  qed
qed

lemma escape_loop_extends:
  assumes jm: "js_mem_ok jm" and ok: "js_string_ok p" and b: "sb_ok b" and n: "i + n = js_len p"
  shows "extends b (concat (map escape_units (drop i (js_units p)))) (escape_loop n jm p i b)"
  using b n
proof (induction n arbitrary: i b)
  case 0
  then show ?case using length_js_units [OF ok] by (auto simp: extends_def)
next
  case (Suc n)
  then obtain u us where d: "drop i (js_units p) = u # us" using drop_at_end [OF ok, of i] by (cases "drop i (js_units p)") auto
  note g = string_get_unit [OF ok d]
  let ?out = "if isUnescaped (ucast u) then Out_unit (ucast u) else Out_escapes [ucast u]"
  have o: "out_units ?out = escape_units u" by (simp add: escape_units_def unit_cast_cast)
  obtain b1 where b1: "uri_write jm ?out b = Some b1" "extends b (escape_units u) (Some b1)"
    using uri_write_extends [OF jm Suc.prems(1), of ?out] unfolding o by (auto simp: extends_def)
  have "extends b1 (concat (map escape_units (drop (Suc i) (js_units p)))) (escape_loop n jm p (Suc i) b1)"
    using Suc.IH [of b1 "Suc i"] extends_err [OF b1(2)] Suc.prems(2) by simp
  then show ?case using extends_trans [OF b1(2)] g d b1(1) by (simp add: Let_def)
qed

lemma unescape_loop_escaped:
  assumes jm: "js_mem_ok jm" and ok: "js_string_ok p"
  shows "drop i (js_units p) = concat (map escape_units us) \<Longrightarrow> sb_ok b \<Longrightarrow> js_len p - i \<le> fuel \<Longrightarrow>
    extends b us (unescape_loop fuel jm p i b)"
proof (induction us arbitrary: i b fuel)
  case Nil
  then have "\<not> i < js_len p" using drop_at_end [OF ok, of i] by simp
  then show ?case using Nil by (cases fuel) (auto simp: extends_def)
next
  case (Cons u us)
  have d: "drop i (js_units p) = escape_units u @ concat (map escape_units us)" using Cons.prems(1) by simp
  note body = unescape_body_escaped [OF ok d]
  obtain f where f: "fuel = Suc f" using Cons.prems(3) body(3) by (cases fuel) auto
  obtain b1 where b1: "uri_write jm (Out_unit (ucast u)) b = Some b1" "extends b [u] (Some b1)"
    using uri_write_extends [OF jm Cons.prems(2), of "Out_unit (ucast u)"] by (auto simp: extends_def unit_cast_cast)
  have "extends b1 us (unescape_loop f jm p (i + length (escape_units u)) b1)"
  proof (rule Cons.IH [OF body(2)])
    show "sb_ok b1" using extends_err [OF b1(2)] by simp
    show "js_len p - (i + length (escape_units u)) \<le> f" using Cons.prems(3) f body(4) by linarith
  qed
  then show ?case using extends_trans [OF b1(2)] f body b1(1) by simp
qed


section \<open>Decoding any string\<close>

lemma string_get_in: "js_string_ok p \<Longrightarrow> k < js_len p \<Longrightarrow> \<exists>u. string_get p k = Some u"
  using drop_at_end [of p k] string_get_unit(1) [of p k] by (cases "drop k (js_units p)") auto

lemma string_get_hex_in:
  "js_string_ok p \<Longrightarrow> k + n \<le> js_len p \<Longrightarrow> \<exists>r. string_get_hex_loop p n k c = Some r"
proof (induction n arbitrary: k c)
  case (Suc n)
  then obtain u where "string_get p k = Some u" using string_get_in [of p k] by auto
  then show ?case using Suc by (simp add: Let_def)
qed simp

lemma hex_decode_in:
  assumes "js_string_ok p"
  shows "\<exists>r. hex_decode p k = Some r"
  using string_get_in [OF assms, of k] string_get_hex_in [OF assms, of "k + 1" 2 0]
  by (auto simp: hex_decode_def string_get_hex_def)

lemma decode_tail_in:
  assumes "js_string_ok p"
  shows "\<exists>r. decode_tail p n k c = Some r \<and> (case r of None \<Rightarrow> True | Some (c, k') \<Rightarrow> k \<le> k')"
proof (induction n arbitrary: k c)
  case (Suc n)
  obtain r where r: "hex_decode p k = Some r" using hex_decode_in [OF assms] by blast
  show ?case
  proof (cases r)
    case (Some c1)
    obtain t where "decode_tail p n (k + 3) (push_bit 6 c OR (c1 AND 0x3f)) = Some t"
      "case t of None \<Rightarrow> True | Some (c, k') \<Rightarrow> k + 3 \<le> k'" using Suc.IH by blast
    then show ?thesis using r Some by (auto split: option.splits)
  qed (use r in simp)
qed simp

lemma decode_body_in:
  assumes "js_string_ok p" "k < js_len p"
  shows "\<exists>r. decode_body p ic k = Some r \<and> (case r of None \<Rightarrow> True | Some (c, k') \<Rightarrow> k < k')"
proof -
  obtain u where u: "string_get p k = Some u" using string_get_in [OF assms] by blast
  obtain r where r: "hex_decode p k = Some r" using hex_decode_in [OF assms(1)] by blast
  show ?thesis
  proof (cases "u = 0x25 \<and> (\<exists>c. r = Some c \<and> \<not> c < 0x80)")
    case False
    then show ?thesis using u r by (cases r) (auto simp: decode_body_def)
  next
    case True
    then obtain c where c: "u = 0x25" "r = Some c" "\<not> c < 0x80" by blast
    obtain n c_min c' where m: "(if c \<ge> 0xc0 \<and> c \<le> 0xdf then (1 :: nat, 0x80 :: u32, c AND 0x1f)
        else if c \<ge> 0xe0 \<and> c \<le> 0xef then (2, 0x800, c AND 0xf)
        else if c \<ge> 0xf0 \<and> c \<le> 0xf7 then (3, 0x10000, c AND 0x7) else (0, 1, 0)) = (n, c_min, c')" using prod_cases3 by blast
    obtain t where t: "decode_tail p n (k + 3) c' = Some t" "case t of None \<Rightarrow> True | Some (c, k') \<Rightarrow> k + 3 \<le> k'"
      using decode_tail_in [OF assms(1)] by blast
    have "decode_body p ic k = (case t of None \<Rightarrow> Some None
        | Some (c, k) \<Rightarrow> if c < c_min \<or> c > 0x10FFFF \<or> c \<ge> 0xd800 \<and> c < 0xe000 then Some None else Some (Some (c, k)))"
      using u r c m t(1) by (simp add: decode_body_def del: if_split_asm if_split)
    then show ?thesis using t(2) by (auto split: option.splits)
  qed
qed

lemma decode_loop_in:
  assumes jm: "js_mem_ok jm" and ok: "js_string_ok p"
  shows "sb_ok b \<Longrightarrow> js_len p - k \<le> fuel \<Longrightarrow> \<exists>b' r. decode_loop fuel jm p ic k b = Some (b', r) \<and> sb_ok b'"
proof (induction fuel arbitrary: k b)
  case (Suc fuel)
  show ?case
  proof (cases "k < js_len p")
    case k: True
    obtain r where r: "decode_body p ic k = Some r" "case r of None \<Rightarrow> True | Some (c, k') \<Rightarrow> k < k'"
      using decode_body_in [OF ok k] by blast
    show ?thesis
    proof (cases r)
      case (Some a)
      then obtain c k' where a: "r = Some (c, k')" "k < k'" using r(2) by (cases a) auto
      obtain b1 ret where b1: "string_buffer_putc jm b c = Some (b1, ret)" "sb_ok b1"
        using appends_drop [OF surrogate_units [OF jm Suc.prems(1)]] extends_err by metis
      have "js_len p - k' \<le> fuel" using Suc.prems(2) a(2) by linarith
      then show ?thesis using Suc.IH [OF b1(2)] k r(1) a(1) b1(1) by simp
    qed (use k r Suc.prems in auto)
  qed (use Suc.prems in auto)
qed auto

section \<open>Round trips\<close>

lemma init_ok:
  assumes "js_mem_ok jm"
  shows "sb_ok (fst (string_buffer_init jm ctx n))" "sb_units (fst (string_buffer_init jm ctx n)) = []"
  using string_buffer_init2_ok [OF assms, of ctx n False] by (cases "string_buffer_init2 jm ctx n False"; simp add: string_buffer_init_def)+

lemma finish_gives:
  assumes "js_mem_ok jm" "extends (fst (string_buffer_init jm ctx n)) us (Some b)"
  shows "gives us (uri_finish jm (b, True))"
proof -
  have "sb_ok b" "sb_err b \<or> sb_units b = us" using assms(2) init_ok [OF assms(1), of ctx n] by (auto simp: extends_def)
  then show ?thesis using string_buffer_end_gives [OF assms(1), of b] by (auto simp: uri_finish_def)
qed

lemma pct_ascii: "list_all (\<lambda>u. u < 0x80) (pct b)"
proof -
  have "list_all (\<lambda>n. list_all (\<lambda>u. u < 0x80) (pct (word_of_nat n))) [0..<256]" by code_simp
  then have "\<forall>b. list_all (\<lambda>u. u < 0x80) (pct b)" unfolding u8_exhaust by (simp only: list_all_iff ball_simps)
  then show ?thesis by blast
qed

lemma uri_encoding_ascii: "uri_encoding ic us = Some vs \<Longrightarrow> list_all (\<lambda>u. u < 0x80) vs"
proof (induction ic us arbitrary: vs rule: uri_encoding.induct)
  case (2 ic u us)
  have pct: "list_all (\<lambda>u. u < 0x80) (pct_utf8 c)" for c
    using pct_ascii by (auto simp: pct_utf8_def list_all_iff)
  show ?case
  proof (cases "isURIUnescaped (ucast u) ic")
    case True
    then have "u < 0x80" using unescaped_small [OF True] by (simp add: word_less_nat_alt unat_u16_u32)
    then show ?thesis using True 2 by auto
  next
    case False
    then show ?thesis using 2 pct by (cases us) (auto split: if_splits)
  qed
qed simp

text \<open>C18: Encoding a string succeeds exactly when its surrogates are paired, apart from a lack of
  memory; the result is plain ASCII and decoding it with the same function gives the string back.
  An unpaired surrogate raises an exception.\<close>

theorem uri_roundtrip:
  assumes "js_mem_ok jm" "js_string_ok p"
  shows "(uri_encoding ic (js_units p) \<noteq> None \<longleftrightarrow> uri_paired (js_units p)) \<and>
    (case uri_encoding ic (js_units p) of
      Some vs \<Rightarrow> list_all (\<lambda>v. v < 0x80) vs \<and>
      (\<exists>b. encode_loop (js_len p) jm p ic 0 (fst (string_buffer_init jm ctx (js_len p))) = Some (b, True) \<and> (sb_err b \<or> sb_units b = vs)) \<and>
      gives vs (js_global_encodeURI jm ts ctx (JS_TAG_STRING n p) ic) \<and>
      (\<forall>q m ctx'. js_string_ok q \<and> js_units q = vs \<longrightarrow>
        (\<exists>b. decode_loop (js_len q) jm q ic 0 (fst (string_buffer_init jm ctx' 0)) = Some (b, True) \<and> (sb_err b \<or> sb_units b = js_units p)) \<and>
        gives (js_units p) (js_global_decodeURI jm ts ctx' (JS_TAG_STRING m q) ic))
    | None \<Rightarrow> \<exists>ctx'. js_global_encodeURI jm ts ctx (JS_TAG_STRING n p) ic = Some (ctx', JS_EXCEPTION))"
proof (cases "uri_encoding ic (js_units p)")
  case vs: (Some vs)
  note ini = init_ok [OF assms(1)]
  obtain b where b: "encode_loop (js_len p) jm p ic 0 (fst (string_buffer_init jm ctx (js_len p))) = Some (b, True)"
    "extends (fst (string_buffer_init jm ctx (js_len p))) vs (Some b)"
    using encode_loop_extends [OF assms ini(1), of 0 "js_len p" ic] vs by auto
  have dec: "(\<exists>b. decode_loop (js_len q) jm q ic 0 (fst (string_buffer_init jm ctx' 0)) = Some (b, True) \<and> (sb_err b \<or> sb_units b = js_units p)) \<and>
      gives (js_units p) (js_global_decodeURI jm ts ctx' (JS_TAG_STRING m q) ic)"
    if q: "js_string_ok q" "js_units q = vs" for q m ctx'
  proof -
    obtain b where b: "decode_loop (js_len q) jm q ic 0 (fst (string_buffer_init jm ctx' 0)) = Some (b, True)"
      "extends (fst (string_buffer_init jm ctx' 0)) (js_units p) (Some b)"
      using decode_loop_encoded [OF assms(1) q(1) vs _ ini(1), of 0 "js_len q"] q(2) by auto
    then show ?thesis using finish_gives [OF assms(1) b(2)] ini
      by (auto simp: js_global_decodeURI_def string_operand_def extends_def)
  qed
  show ?thesis using vs b finish_gives [OF assms(1) b(2)] dec uri_encoding_ascii [OF vs] ini uri_encoding_paired [of ic "js_units p"]
    by (auto simp: js_global_encodeURI_def string_operand_def extends_def)
next
  case None
  then obtain b where "encode_loop (js_len p) jm p ic 0 (fst (string_buffer_init jm ctx (js_len p))) = Some (b, False)"
    using encode_loop_extends [OF assms init_ok(1) [OF assms(1)], of 0 "js_len p" ic] by auto
  then show ?thesis using None uri_encoding_paired [of ic "js_units p"]
    by (simp add: js_global_encodeURI_def string_operand_def uri_finish_def)
qed

theorem uri_roundtrip_witness:
  "uri_encoding True (js_units sample_wide) = Some [0x61, 0x25, 0x45, 0x31, 0x25, 0x38, 0x38, 0x25, 0x42, 0x34] \<and>
   gives [0x61, 0x25, 0x45, 0x31, 0x25, 0x38, 0x38, 0x25, 0x42, 0x34]
     (js_global_encodeURI sample_mem (\<lambda>c (v :: unit). (c, None)) () (JS_TAG_STRING 1 sample_wide) True) \<and>
   gives [0x61, 0x1234] (js_global_decodeURI sample_mem (\<lambda>c (v :: unit). (c, None)) ()
     (JS_TAG_STRING 1 \<lparr>js_len = 10, js_wide = False, js_u = [0x61, 0x25, 0x45, 0x31, 0x25, 0x38, 0x38, 0x25, 0x42, 0x34, 0]\<rparr>) True)"
proof -
  let ?q = "\<lparr>js_len = 10, js_wide = False, js_u = [0x61, 0x25, 0x45, 0x31, 0x25, 0x38, 0x38, 0x25, 0x42, 0x34, 0]\<rparr>"
  have e: "uri_encoding True (js_units sample_wide) = Some [0x61, 0x25, 0x45, 0x31, 0x25, 0x38, 0x38, 0x25, 0x42, 0x34]" by code_simp
  have u: "js_units sample_wide = [0x61, 0x1234]" "js_units ?q = [0x61, 0x25, 0x45, 0x31, 0x25, 0x38, 0x38, 0x25, 0x42, 0x34]" by code_simp+
  have "js_string_ok ?q" by (simp add: js_string_ok_def payload_size_def)
  then show ?thesis
    using uri_roundtrip [OF sample_mem_ok sample_strings_ok(2), where ic = True and ctx = "()" and ts = "\<lambda>c (v :: unit). (c, None)" and n = 1]
    unfolding e option.case unfolding u(1) using u(2) by blast
qed

text \<open>C19: Unescaping an escaped string gives the string back, for every string.\<close>

theorem escape_roundtrip:
  assumes "js_mem_ok jm" "js_string_ok p"
  shows "let vs = concat (map escape_units (js_units p)) in (\<exists>b. escape_loop (js_len p) jm p 0 (fst (string_buffer_init jm ctx (js_len p))) = Some b \<and> (sb_err b \<or> sb_units b = vs)) \<and>
    gives vs (js_global_escape jm ts ctx (JS_TAG_STRING n p)) \<and>
    (\<forall>q m ctx'. js_string_ok q \<and> js_units q = vs \<longrightarrow>
      (\<exists>b. unescape_loop (js_len q) jm q 0 (fst (string_buffer_init jm ctx' 0)) = Some b \<and> (sb_err b \<or> sb_units b = js_units p)) \<and>
      gives (js_units p) (js_global_unescape jm ts ctx' (JS_TAG_STRING m q)))"
  unfolding Let_def
proof (intro conjI allI impI)
  let ?vs = "concat (map escape_units (js_units p))" and ?ini = "\<lambda>ctx n. fst (string_buffer_init jm ctx n)"
  note ini = init_ok [OF assms(1)]
  have e: "extends (?ini ctx (js_len p)) ?vs (escape_loop (js_len p) jm p 0 (?ini ctx (js_len p)))"
    using escape_loop_extends [OF assms ini(1), of 0 "js_len p"] by simp
  then obtain b where b: "escape_loop (js_len p) jm p 0 (?ini ctx (js_len p)) = Some b" by (auto simp: extends_def)
  show "\<exists>b. escape_loop (js_len p) jm p 0 (?ini ctx (js_len p)) = Some b \<and> (sb_err b \<or> sb_units b = ?vs)"
    using e ini by (auto simp: extends_def)
  show "gives ?vs (js_global_escape jm ts ctx (JS_TAG_STRING n p))"
    using finish_gives [OF assms(1) e [unfolded b]] b by (simp add: js_global_escape_def string_operand_def)
  fix q m ctx' assume q: "js_string_ok q \<and> js_units q = ?vs"
  have u: "extends (?ini ctx' 0) (js_units p) (unescape_loop (js_len q) jm q 0 (?ini ctx' 0))"
    using unescape_loop_escaped [OF assms(1) _ _ ini(1), of q 0 "js_units p" "js_len q"] q by simp
  then obtain b' where b': "unescape_loop (js_len q) jm q 0 (?ini ctx' 0) = Some b'" by (auto simp: extends_def)
  show "\<exists>b. unescape_loop (js_len q) jm q 0 (?ini ctx' 0) = Some b \<and> (sb_err b \<or> sb_units b = js_units p)"
    using u ini by (auto simp: extends_def)
  show "gives (js_units p) (js_global_unescape jm ts ctx' (JS_TAG_STRING m q))"
    using finish_gives [OF assms(1) u [unfolded b']] b' by (simp add: js_global_unescape_def string_operand_def)
qed

theorem escape_roundtrip_witness:
  "gives [0x61, 0x25, 0x75, 0x31, 0x32, 0x33, 0x34] (js_global_escape sample_mem (\<lambda>c (v :: unit). (c, None)) () (JS_TAG_STRING 1 sample_wide)) \<and>
   gives [0x61, 0x1234] (js_global_unescape sample_mem (\<lambda>c (v :: unit). (c, None)) ()
     (JS_TAG_STRING 1 \<lparr>js_len = 7, js_wide = False, js_u = [0x61, 0x25, 0x75, 0x31, 0x32, 0x33, 0x34, 0]\<rparr>))"
proof -
  let ?q = "\<lparr>js_len = 7, js_wide = False, js_u = [0x61, 0x25, 0x75, 0x31, 0x32, 0x33, 0x34, 0]\<rparr>"
  have e: "concat (map escape_units (js_units sample_wide)) = [0x61, 0x25, 0x75, 0x31, 0x32, 0x33, 0x34]" by code_simp
  have u: "js_units sample_wide = [0x61, 0x1234]" "js_units ?q = [0x61, 0x25, 0x75, 0x31, 0x32, 0x33, 0x34]" by code_simp+
  have "js_string_ok ?q" by (simp add: js_string_ok_def payload_size_def)
  then show ?thesis
    using escape_roundtrip [OF sample_mem_ok sample_strings_ok(2), of "()" "\<lambda>c (v :: unit). (c, None)" 1]
    unfolding Let_def e unfolding u(1) using u(2) by blast
qed

text \<open>Decoding returns on every string: it never reads outside the string, the number of
  units bounds the iterations, and a malformed escape ends in an exception or in the character
  itself, never in a result that is not a well-formed string.\<close>

lemma decode_uri_total:
  assumes "js_mem_ok jm" "js_string_ok p"
  shows "\<exists>us. gives us (js_global_decodeURI jm ts ctx (JS_TAG_STRING n p) ic)"
proof -
  obtain b r where b: "decode_loop (js_len p) jm p ic 0 (fst (string_buffer_init jm ctx 0)) = Some (b, r)" "sb_ok b"
    using decode_loop_in [OF assms init_ok(1) [OF assms(1)], of 0 "js_len p"] by fastforce
  then show ?thesis using string_buffer_end_gives [OF assms(1) b(2)]
    by (cases r) (auto simp: js_global_decodeURI_def string_operand_def uri_finish_def)
qed
end
