(* ===== verification/Js_Atom.thy ===== *)
theory Js_Atom
  imports Js_Value Js_String_Utf8
begin

text \<open>
  Atoms (\<open>quickjs.c\<close>, ``JSAtom support''): property names and symbols as small integers.
  An atom is an index into \<open>atom_array\<close>, whose entries point to strings, or a tagged integer.
  String atoms and global symbols are interned through a hash table whose chains are threaded
  through \<open>hash_next\<close>; the unused entries of the array form a list threaded through the array
  itself; an atom is released with the last reference to its string.  The predefined atoms of
  \<open>quickjs-atom.h\<close> take the first indices and are never released.

  Strings are objects of an explicit heap, so that the use of a released string, a free entry
  of the array taken for a pointer, an access outside a table and a failed assertion are the
  value \<open>None\<close>.  The allocator is the parameter of \<open>Js_String\<close>; of the blocks that hold the two
  tables only the answer of the allocator matters, and they are passed to it as zero bytes.
  The allocator may answer anything at any time, so it is not told of released blocks.
  The configuration is the one of the \<open>Makefile\<close>: \<open>CONFIG_BIGNUM\<close> and \<open>CONFIG_ATOMICS\<close> are
  set, \<open>DUMP_LEAKS\<close> is not.
\<close>

section \<open>Data\<close>

type_synonym JSAtom = u32

abbreviation (input) JS_ATOM_TYPE_STRING :: nat where
  "JS_ATOM_TYPE_STRING \<equiv> 1"

abbreviation (input) JS_ATOM_TYPE_GLOBAL_SYMBOL :: nat where
  "JS_ATOM_TYPE_GLOBAL_SYMBOL \<equiv> 2"

abbreviation (input) JS_ATOM_TYPE_SYMBOL :: nat where
  "JS_ATOM_TYPE_SYMBOL \<equiv> 3"

abbreviation (input) JS_ATOM_TYPE_PRIVATE :: nat where
  "JS_ATOM_TYPE_PRIVATE \<equiv> 4"

abbreviation (input) JS_ATOM_HASH_SYMBOL :: u32 where
  "JS_ATOM_HASH_SYMBOL \<equiv> 0"

abbreviation (input) JS_ATOM_HASH_PRIVATE :: u32 where
  "JS_ATOM_HASH_PRIVATE \<equiv> 1"

definition JS_ATOM_HASH_MASK :: u32 where
  "JS_ATOM_HASH_MASK = 2 ^ 30 - 1"

definition JS_ATOM_TAG_INT :: u32 where
  "JS_ATOM_TAG_INT = push_bit 31 1"

definition JS_ATOM_MAX_INT :: u32 where
  "JS_ATOM_MAX_INT = JS_ATOM_TAG_INT - 1"

definition JS_ATOM_MAX :: nat where
  "JS_ATOM_MAX = 2 ^ 30 - 1"

datatype JSAtomKindEnum = JS_ATOM_KIND_STRING | JS_ATOM_KIND_SYMBOL | JS_ATOM_KIND_PRIVATE

text \<open>A string object with the fields it has as an atom; \<open>as_atom_type\<close> is 0 for a string that is
  not one.\<close>

record JSAtomStruct =
  as_ref_count :: int
  as_string :: JSString
  as_atom_type :: nat
  as_hash :: u32
  as_hash_next :: nat

text \<open>An entry of the array: \<open>atom_set_free\<close> tags the index of the next free entry so that it is
  no pointer.\<close>

datatype atom_slot = Free_slot nat | Atom_slot nat

record 'o atom_rt =
  as_heap :: "nat \<Rightarrow> JSAtomStruct option"
  as_fresh :: nat
  atom_hash_size :: nat
  atom_count :: int
  atom_size :: nat
  atom_count_resize :: nat
  atom_hash :: "nat list"
  atom_array :: "atom_slot list"
  atom_free_index :: nat
  at_mem :: 'o

type_synonym 'o atom_result = "('o atom_rt \<times> nat) option"

section \<open>Predefined atoms\<close>

definition js_atom_init :: "string list" where
  "js_atom_init = [
   ''null'', ''false'', ''true'', ''if'', ''else'', ''return'', ''var'', ''this'', ''delete'', ''void'',
   ''typeof'', ''new'', ''in'', ''instanceof'', ''do'', ''while'', ''for'', ''break'', ''continue'',
   ''switch'', ''case'', ''default'', ''throw'', ''try'', ''catch'', ''finally'', ''function'', ''debugger'',
   ''with'', ''class'', ''const'', ''enum'', ''export'', ''extends'', ''import'', ''super'', ''implements'',
   ''interface'', ''let'', ''package'', ''private'', ''protected'', ''public'', ''static'', ''yield'',
   ''await'', '''', ''length'', ''fileName'', ''lineNumber'', ''message'', ''errors'', ''stack'', ''name'',
   ''toString'', ''toLocaleString'', ''valueOf'', ''eval'', ''prototype'', ''constructor'', ''configurable'',
   ''writable'', ''enumerable'', ''value'', ''get'', ''set'', ''of'', ''__proto__'', ''undefined'',
   ''number'', ''boolean'', ''string'', ''object'', ''symbol'', ''integer'', ''unknown'', ''arguments'',
   ''callee'', ''caller'', ''<eval>'', ''<ret>'', ''<var>'', ''<arg_var>'', ''<with>'', ''lastIndex'',
   ''target'', ''index'', ''input'', ''defineProperties'', ''apply'', ''join'', ''concat'', ''split'',
   ''construct'', ''getPrototypeOf'', ''setPrototypeOf'', ''isExtensible'', ''preventExtensions'', ''has'',
   ''deleteProperty'', ''defineProperty'', ''getOwnPropertyDescriptor'', ''ownKeys'', ''add'', ''done'',
   ''next'', ''values'', ''source'', ''flags'', ''global'', ''unicode'', ''raw'', ''new.target'',
   ''this.active_func'', ''<home_object>'', ''<computed_field>'', ''<static_computed_field>'',
   ''<class_fields_init>'', ''<brand>'', ''#constructor'', ''as'', ''from'', ''meta'', ''*default*'', ''*'',
   ''Module'', ''then'', ''resolve'', ''reject'', ''promise'', ''proxy'', ''revoke'', ''async'', ''exec'',
   ''groups'', ''status'', ''reason'', ''globalThis'', ''bigint'', ''bigfloat'', ''bigdecimal'',
   ''roundingMode'', ''maximumSignificantDigits'', ''maximumFractionDigits'', ''not-equal'', ''timed-out'',
   ''ok'', ''toJSON'', ''Object'', ''Array'', ''Error'', ''Number'', ''String'', ''Boolean'', ''Symbol'',
   ''Arguments'', ''Math'', ''JSON'', ''Date'', ''Function'', ''GeneratorFunction'', ''ForInIterator'',
   ''RegExp'', ''ArrayBuffer'', ''SharedArrayBuffer'', ''Uint8ClampedArray'', ''Int8Array'', ''Uint8Array'',
   ''Int16Array'', ''Uint16Array'', ''Int32Array'', ''Uint32Array'', ''BigInt64Array'', ''BigUint64Array'',
   ''Float32Array'', ''Float64Array'', ''DataView'', ''BigInt'', ''BigFloat'', ''BigFloatEnv'',
   ''BigDecimal'', ''OperatorSet'', ''Operators'', ''Map'', ''Set'', ''WeakMap'', ''WeakSet'',
   ''Map Iterator'', ''Set Iterator'', ''Array Iterator'', ''String Iterator'', ''RegExp String Iterator'',
   ''Generator'', ''Proxy'', ''Promise'', ''PromiseResolveFunction'', ''PromiseRejectFunction'',
   ''AsyncFunction'', ''AsyncFunctionResolve'', ''AsyncFunctionReject'', ''AsyncGeneratorFunction'',
   ''AsyncGenerator'', ''EvalError'', ''RangeError'', ''ReferenceError'', ''SyntaxError'', ''TypeError'',
   ''URIError'', ''InternalError'', ''<brand>'', ''Symbol.toPrimitive'', ''Symbol.iterator'',
   ''Symbol.match'', ''Symbol.matchAll'', ''Symbol.replace'', ''Symbol.search'', ''Symbol.split'',
   ''Symbol.toStringTag'', ''Symbol.isConcatSpreadable'', ''Symbol.hasInstance'', ''Symbol.species'',
   ''Symbol.unscopables'', ''Symbol.asyncIterator'', ''Symbol.operatorSet'']"

definition JS_ATOM_END :: nat where
  "JS_ATOM_END = 225"

definition JS_ATOM_empty_string :: nat where
  "JS_ATOM_empty_string = 47"

definition JS_ATOM_Private_brand :: nat where
  "JS_ATOM_Private_brand = 210"

definition JS_ATOM_Symbol_toPrimitive :: nat where
  "JS_ATOM_Symbol_toPrimitive = 211"

text \<open>\<open>(int32_t)v < JS_ATOM_END\<close>: a tagged integer is negative.\<close>

definition AtomIsConst :: "JSAtom \<Rightarrow> bool" where
  "AtomIsConst v \<longleftrightarrow> sint v < int JS_ATOM_END"

definition AtomIsTaggedInt :: "JSAtom \<Rightarrow> bool" where
  "AtomIsTaggedInt v \<longleftrightarrow> v AND JS_ATOM_TAG_INT \<noteq> 0"

definition AtomFromUInt32 :: "u32 \<Rightarrow> JSAtom" where
  "AtomFromUInt32 v = v OR JS_ATOM_TAG_INT"

definition AtomToUInt32 :: "JSAtom \<Rightarrow> u32" where
  "AtomToUInt32 atom = atom AND NOT JS_ATOM_TAG_INT"

section \<open>Memory\<close>

definition struct_set :: "nat \<Rightarrow> JSAtomStruct \<Rightarrow> 'o atom_rt \<Rightarrow> 'o atom_rt" where
  "struct_set p a rt = rt\<lparr>as_heap := (as_heap rt)(p \<mapsto> a)\<rparr>"

definition struct_new :: "JSAtomStruct \<Rightarrow> 'o atom_rt \<Rightarrow> 'o atom_rt \<times> nat" where
  "struct_new a rt = (rt\<lparr>as_heap := (as_heap rt)(as_fresh rt \<mapsto> a), as_fresh := as_fresh rt + 1\<rparr>, as_fresh rt)"

definition atom_malloc :: "'o js_mem \<Rightarrow> nat \<Rightarrow> 'o atom_rt \<Rightarrow> 'o atom_rt \<times> bool" where
  "atom_malloc jm n rt = (case jm_malloc jm (at_mem rt) n of (ctx, b) \<Rightarrow> (rt\<lparr>at_mem := ctx\<rparr>, b \<noteq> None))"

definition atom_realloc :: "'o js_mem \<Rightarrow> nat \<Rightarrow> nat \<Rightarrow> 'o atom_rt \<Rightarrow> 'o atom_rt \<times> bool" where
  "atom_realloc jm old n rt =
     (case jm_realloc jm (at_mem rt) (replicate old 0) n of (ctx, b) \<Rightarrow> (rt\<lparr>at_mem := ctx\<rparr>, b \<noteq> None))"

text \<open>\<open>rt->atom_array[i]\<close> used as a pointer.\<close>

definition atom_at :: "'o atom_rt \<Rightarrow> nat \<Rightarrow> nat option" where
  "atom_at rt i = do { s \<leftarrow> rd (atom_array rt) i; (case s of Atom_slot p \<Rightarrow> Some p | Free_slot _ \<Rightarrow> None) }"

definition struct_at :: "'o atom_rt \<Rightarrow> nat \<Rightarrow> JSAtomStruct option" where
  "struct_at rt i = do { p \<leftarrow> atom_at rt i; as_heap rt p }"

definition hash_place :: "'o atom_rt \<Rightarrow> u32 \<Rightarrow> nat" where
  "hash_place rt h = unat (h AND (word_of_nat (atom_hash_size rt) - 1))"

section \<open>Numeric strings\<close>

definition is_num :: "u16 \<Rightarrow> bool" where
  "is_num c \<longleftrightarrow> c \<ge> 0x30 \<and> c \<le> 0x39"

text \<open>The loop; \<open>Some None\<close> is the answer \<open>FALSE\<close>.\<close>

primrec num_loop :: "JSString \<Rightarrow> nat \<Rightarrow> nat \<Rightarrow> u32 \<Rightarrow> u32 option option" where
  "num_loop p 0 i n = Some (Some n)"
| "num_loop p (Suc k) i n = do {
     c \<leftarrow> string_get p i;
     if \<not> is_num c then Some None
     else let n64 = (ucast n * 10 + (ucast c - 0x30) :: u64)
       in if drop_bit 32 n64 \<noteq> 0 then Some None else num_loop p k (i + 1) (ucast n64) }"

definition is_num_string :: "JSString \<Rightarrow> u32 option option" where
  "is_num_string p =
     (if js_len p = 0 \<or> js_len p > 10 then Some None
      else do {
        c \<leftarrow> string_get p 0;
        if is_num c then
          if c = 0x30 then Some (if js_len p \<noteq> 1 then None else Some 0)
          else num_loop p (js_len p - 1) 1 (ucast c - 0x30)
        else Some None })"

section \<open>The hash table\<close>

partial_function (option) resize_chain ::
    "u32 \<Rightarrow> nat \<Rightarrow> nat list \<Rightarrow> 'o atom_rt \<Rightarrow> (nat list \<times> 'o atom_rt) option" where
  "resize_chain new_hash_mask h new_hash rt =
     (if h = 0 then Some (new_hash, rt)
      else do {
        p \<leftarrow> atom_at rt h;
        a \<leftarrow> as_heap rt p;
        let j = unat (as_hash a AND new_hash_mask);
        front \<leftarrow> rd new_hash j;
        new_hash \<leftarrow> wr new_hash j h;
        resize_chain new_hash_mask (as_hash_next a) new_hash (struct_set p (a\<lparr>as_hash_next := front\<rparr>) rt) })"

primrec resize_loop ::
    "nat \<Rightarrow> nat \<Rightarrow> u32 \<Rightarrow> nat list \<Rightarrow> 'o atom_rt \<Rightarrow> (nat list \<times> 'o atom_rt) option" where
  "resize_loop 0 i new_hash_mask new_hash rt = Some (new_hash, rt)"
| "resize_loop (Suc n) i new_hash_mask new_hash rt = do {
     h \<leftarrow> rd (atom_hash rt) i;
     (new_hash, rt) \<leftarrow> resize_chain new_hash_mask h new_hash rt;
     resize_loop n (i + 1) new_hash_mask new_hash rt }"

text \<open>The new size is an \<open>int\<close>; doubling must not leave its range.\<close>

definition JS_ResizeAtomHash :: "'o js_mem \<Rightarrow> nat \<Rightarrow> 'o atom_rt \<Rightarrow> ('o atom_rt \<times> int) option" where
  "JS_ResizeAtomHash jm new_hash_size rt = do {
     assert_c (new_hash_size < 2 ^ 31);
     assert_c ((word_of_nat new_hash_size :: u32) AND (word_of_nat new_hash_size - 1) = 0);
     (case atom_malloc jm (4 * new_hash_size) rt of
        (rt, False) \<Rightarrow> Some (rt, -1)
      | (rt, True) \<Rightarrow> do {
          (new_hash, rt) \<leftarrow> resize_loop (atom_hash_size rt) 0 (word_of_nat new_hash_size - 1) (replicate new_hash_size 0) rt;
          Some (rt\<lparr>atom_hash := new_hash, atom_hash_size := new_hash_size,
                   atom_count_resize := 2 * new_hash_size\<rparr>, 0) }) }"

partial_function (option) atom_index_loop :: "'o atom_rt \<Rightarrow> nat \<Rightarrow> nat \<Rightarrow> nat \<Rightarrow> nat option" where
  "atom_index_loop rt p i p1 =
     (if p1 = p then Some i
      else do {
        assert_c (i \<noteq> 0);
        a \<leftarrow> as_heap rt p1;
        let i = as_hash_next a;
        p1 \<leftarrow> atom_at rt i;
        atom_index_loop rt p i p1 })"

definition js_get_atom_index :: "'o atom_rt \<Rightarrow> nat \<Rightarrow> nat option" where
  "js_get_atom_index rt p = do {
     a \<leftarrow> as_heap rt p;
     if as_atom_type a \<noteq> JS_ATOM_TYPE_SYMBOL then do {
       i \<leftarrow> rd (atom_hash rt) (hash_place rt (as_hash a));
       p1 \<leftarrow> atom_at rt i;
       atom_index_loop rt p i p1 }
     else Some (as_hash_next a) }"

section \<open>Release\<close>

text \<open>The loop that finds the predecessor of \<open>p\<close> in its chain and takes \<open>p\<close> out; it returns the
  index of \<open>p\<close>.\<close>

partial_function (option) unlink_loop :: "'o atom_rt \<Rightarrow> nat \<Rightarrow> nat \<Rightarrow> nat \<Rightarrow> 'o atom_result" where
  "unlink_loop rt p i p1 = do {
     assert_c (i \<noteq> 0);
     a0 \<leftarrow> as_heap rt p1;
     let i = as_hash_next a0;
     p2 \<leftarrow> atom_at rt i;
     if p2 = p then do {
       a \<leftarrow> as_heap rt p2;
       Some (struct_set p1 (a0\<lparr>as_hash_next := as_hash_next a\<rparr>) rt, i) }
     else unlink_loop rt p i p2 }"

definition unlink_atom :: "'o atom_rt \<Rightarrow> nat \<Rightarrow> JSAtomStruct \<Rightarrow> 'o atom_result" where
  "unlink_atom rt p a =
     (if as_atom_type a \<noteq> JS_ATOM_TYPE_SYMBOL then
        (let h0 = hash_place rt (as_hash a)
         in do {
           i \<leftarrow> rd (atom_hash rt) h0;
           p1 \<leftarrow> atom_at rt i;
           if p1 = p then do {
             t \<leftarrow> wr (atom_hash rt) h0 (as_hash_next a);
             Some (rt\<lparr>atom_hash := t\<rparr>, i) }
           else unlink_loop rt p i p1 })
      else Some (rt, as_hash_next a))"

definition JS_FreeAtomStruct :: "'o atom_rt \<Rightarrow> nat \<Rightarrow> 'o atom_rt option" where
  "JS_FreeAtomStruct rt p = do {
     a \<leftarrow> as_heap rt p;
     (rt, i) \<leftarrow> unlink_atom rt p a;
     t \<leftarrow> wr (atom_array rt) i (Free_slot (atom_free_index rt));
     assert_c (atom_count rt - 1 \<ge> 0);
     Some (rt\<lparr>atom_array := t, atom_free_index := i, as_heap := (as_heap rt)(p := None),
              atom_count := atom_count rt - 1\<rparr>) }"

definition js_free_string :: "'o atom_rt \<Rightarrow> nat \<Rightarrow> 'o atom_rt option" where
  "js_free_string rt p = do {
     a \<leftarrow> as_heap rt p;
     let rt = struct_set p (a\<lparr>as_ref_count := as_ref_count a - 1\<rparr>) rt;
     if as_ref_count a - 1 \<le> 0 then
       if as_atom_type a \<noteq> 0 then JS_FreeAtomStruct rt p
       else Some (rt\<lparr>as_heap := (as_heap rt)(p := None)\<rparr>)
     else Some rt }"

section \<open>Interning\<close>

text \<open>The search along a chain; \<open>Some None\<close> when it ends without a match.\<close>

partial_function (option) find_atom_loop ::
    "'o atom_rt \<Rightarrow> u32 \<Rightarrow> nat \<Rightarrow> JSString \<Rightarrow> nat \<Rightarrow> nat option option" where
  "find_atom_loop rt h atom_type str i =
     (if i = 0 then Some None
      else do {
        a \<leftarrow> struct_at rt i;
        hit \<leftarrow> (if as_hash a = h \<and> as_atom_type a = atom_type \<and> js_len (as_string a) = js_len str
                 then map_option (\<lambda>r. r = 0) (js_string_memcmp (as_string a) str (js_len str))
                 else Some False);
        if hit then Some (Some i) else find_atom_loop rt h atom_type str (as_hash_next a) })"

definition dup_struct :: "'o atom_rt \<Rightarrow> nat \<Rightarrow> 'o atom_rt option" where
  "dup_struct rt i = do {
     p \<leftarrow> atom_at rt i;
     a \<leftarrow> as_heap rt p;
     Some (struct_set p (a\<lparr>as_ref_count := as_ref_count a + 1\<rparr>) rt) }"

text \<open>The array grows by half when there is no free entry.  The multiplication by three is one of
  type \<open>int\<close>.\<close>

definition free_slots :: "nat \<Rightarrow> nat \<Rightarrow> atom_slot list" where
  "free_slots start new_size = map (\<lambda>i. Free_slot (if i = new_size - 1 then 0 else i + 1)) [start..<new_size]"

definition null_atom :: JSAtomStruct where
  "null_atom = \<lparr>as_ref_count = 1, as_string = \<lparr>js_len = 0, js_wide = False, js_u = []\<rparr>,
     as_atom_type = JS_ATOM_TYPE_SYMBOL, as_hash = 0, as_hash_next = 0\<rparr>"

definition atom_grow :: "'o js_mem \<Rightarrow> 'o atom_rt \<Rightarrow> ('o atom_rt \<times> bool) option" where
  "atom_grow jm rt = do {
     assert_c (atom_size rt * 3 < 2 ^ 31);
     let new_size = max 211 (atom_size rt * 3 div 2);
     if new_size > JS_ATOM_MAX then Some (rt, False)
     else (case atom_realloc jm (8 * atom_size rt) (8 * new_size) rt of
         (rt, False) \<Rightarrow> Some (rt, False)
       | (rt, True) \<Rightarrow>
           if atom_size rt = 0 then
             (case atom_malloc jm 16 rt of
                (rt, False) \<Rightarrow> Some (rt, False)
              | (rt, True) \<Rightarrow>
                  (case struct_new null_atom rt of
                     (rt, p) \<Rightarrow>
                       Some (rt\<lparr>atom_count := atom_count rt + 1, atom_size := new_size,
                                atom_array := Atom_slot p # free_slots 1 new_size, atom_free_index := 1\<rparr>, True)))
           else
             Some (rt\<lparr>atom_size := new_size, atom_array := atom_array rt @ free_slots (atom_size rt) new_size,
                      atom_free_index := atom_size rt\<rparr>, True)) }"

text \<open>The structure of the new atom: the string itself when it is not an atom yet, a copy of it
  otherwise, or an empty wide string for a symbol without description.\<close>

definition atom_struct :: "'o js_mem \<Rightarrow> nat option \<Rightarrow> nat \<Rightarrow> 'o atom_rt \<Rightarrow> ('o atom_rt \<times> nat option) option" where
  "atom_struct jm str atom_type rt =
     (case str of
        Some s \<Rightarrow> do {
          a \<leftarrow> as_heap rt s;
          if as_atom_type a = 0 then Some (struct_set s (a\<lparr>as_atom_type := atom_type\<rparr>) rt, Some s)
          else
            (let n = payload_size (js_len (as_string a)) (js_wide (as_string a))
             in (case atom_malloc jm (16 + n) rt of
                   (rt, False) \<Rightarrow> Some (rt, None)
                 | (rt, True) \<Rightarrow> do {
                     u \<leftarrow> rd_block (js_u (as_string a)) 0 n;
                     (case struct_new \<lparr>as_ref_count = 1, as_string = (as_string a)\<lparr>js_u := u\<rparr>,
                          as_atom_type = 0, as_hash = 0, as_hash_next = 0\<rparr> rt of
                        (rt, p) \<Rightarrow> do { rt \<leftarrow> js_free_string rt s; Some (rt, Some p) }) })) }
      | None \<Rightarrow>
          (case atom_malloc jm 16 rt of
             (rt, False) \<Rightarrow> Some (rt, None)
           | (rt, True) \<Rightarrow>
               (case struct_new \<lparr>as_ref_count = 1, as_string = \<lparr>js_len = 0, js_wide = True, js_u = []\<rparr>,
                    as_atom_type = 0, as_hash = 0, as_hash_next = 0\<rparr> rt of
                  (rt, p) \<Rightarrow> Some (rt, Some p))))"

definition atom_enter :: "'o js_mem \<Rightarrow> nat \<Rightarrow> nat \<Rightarrow> u32 \<Rightarrow> nat \<Rightarrow> 'o atom_rt \<Rightarrow> 'o atom_result" where
  "atom_enter jm p atom_type h h1 rt =
     (let i = atom_free_index rt
      in do {
        s \<leftarrow> rd (atom_array rt) i;
        a \<leftarrow> as_heap rt p;
        (case s of
           Atom_slot _ \<Rightarrow> None
         | Free_slot nxt \<Rightarrow> do {
             t \<leftarrow> wr (atom_array rt) i (Atom_slot p);
             let rt = rt\<lparr>atom_free_index := nxt, atom_array := t, atom_count := atom_count rt + 1\<rparr>;
             let a = a\<lparr>as_hash := h, as_hash_next := i, as_atom_type := atom_type\<rparr>;
             if atom_type \<noteq> JS_ATOM_TYPE_SYMBOL then do {
               front \<leftarrow> rd (atom_hash rt) h1;
               t \<leftarrow> wr (atom_hash rt) h1 i;
               let rt = struct_set p (a\<lparr>as_hash_next := front\<rparr>) (rt\<lparr>atom_hash := t\<rparr>);
               if atom_count rt \<ge> int (atom_count_resize rt) then do {
                 (rt, _) \<leftarrow> JS_ResizeAtomHash jm (atom_hash_size rt * 2) rt;
                 Some (rt, i) }
               else Some (rt, i) }
             else Some (struct_set p a rt, i) }) })"

definition free_opt :: "nat option \<Rightarrow> 'o atom_rt \<Rightarrow> 'o atom_rt option" where
  "free_opt str rt = (case str of Some s \<Rightarrow> js_free_string rt s | None \<Rightarrow> Some rt)"

text \<open>A new entry for \<open>str\<close>; after \<open>goto fail\<close> the string is released and the result is
  \<open>JS_ATOM_NULL\<close>.\<close>

definition atom_register :: "'o js_mem \<Rightarrow> nat option \<Rightarrow> nat \<Rightarrow> u32 \<Rightarrow> nat \<Rightarrow> 'o atom_rt \<Rightarrow> 'o atom_result" where
  "atom_register jm str atom_type h h1 rt = do {
     (rt, ok) \<leftarrow> (if atom_free_index rt = 0 then atom_grow jm rt else Some (rt, True));
     if \<not> ok then do { rt \<leftarrow> free_opt str rt; Some (rt, 0) }
     else do {
       (rt, r) \<leftarrow> atom_struct jm str atom_type rt;
       (case r of
          None \<Rightarrow> do { rt \<leftarrow> free_opt str rt; Some (rt, 0) }
        | Some p \<Rightarrow> atom_enter jm p atom_type h h1 rt) } }"

text \<open>The internal constructor \<open>__JS_NewAtom\<close>; it takes over one reference to \<open>str\<close>.\<close>

definition JS_NewAtom_str :: "'o js_mem \<Rightarrow> nat option \<Rightarrow> nat \<Rightarrow> 'o atom_rt \<Rightarrow> 'o atom_result" where
  "JS_NewAtom_str jm str atom_type rt =
     (if atom_type < JS_ATOM_TYPE_SYMBOL then do {
        s \<leftarrow> str;
        a \<leftarrow> as_heap rt s;
        if as_atom_type a = atom_type then do {
          i \<leftarrow> js_get_atom_index rt s;
          Some (if i < JS_ATOM_END then struct_set s (a\<lparr>as_ref_count := as_ref_count a - 1\<rparr>) rt else rt, i) }
        else do {
          h \<leftarrow> hash_string (as_string a) (word_of_nat atom_type);
          let h = h AND JS_ATOM_HASH_MASK;
          let h1 = hash_place rt h;
          i \<leftarrow> rd (atom_hash rt) h1;
          r \<leftarrow> find_atom_loop rt h atom_type (as_string a) i;
          (case r of
             Some i \<Rightarrow> do {
               rt \<leftarrow> (if i < JS_ATOM_END then Some rt else dup_struct rt i);
               rt \<leftarrow> js_free_string rt s;
               Some (rt, i) }
           | None \<Rightarrow> atom_register jm str atom_type h h1 rt) } }
      else
        atom_register jm str JS_ATOM_TYPE_SYMBOL
          (if atom_type = JS_ATOM_TYPE_SYMBOL then JS_ATOM_HASH_SYMBOL else JS_ATOM_HASH_PRIVATE) 0 rt)"

section \<open>Creating strings and atoms\<close>

text \<open>A string value that belongs to the caller.\<close>

definition string_value :: "JSString \<Rightarrow> JSAtomStruct" where
  "string_value q = \<lparr>as_ref_count = 1, as_string = q, as_atom_type = 0, as_hash = 0, as_hash_next = 0\<rparr>"

definition JS_NewAtomInit :: "'o js_mem \<Rightarrow> bytes \<Rightarrow> nat \<Rightarrow> 'o atom_rt \<Rightarrow> 'o atom_result" where
  "JS_NewAtomInit jm str atom_type rt =
     (case js_alloc_string_rt jm (at_mem rt) (length str) False of
        (ctx, None) \<Rightarrow> Some (rt\<lparr>at_mem := ctx\<rparr>, 0)
      | (ctx, Some q) \<Rightarrow> do {
          u \<leftarrow> blit (js_u q) 0 str;
          u \<leftarrow> wr u (length str) 0;
          (case struct_new (string_value (q\<lparr>js_u := u\<rparr>)) (rt\<lparr>at_mem := ctx\<rparr>) of
             (rt, p) \<Rightarrow> JS_NewAtom_str jm (Some p) atom_type rt) })"

text \<open>The type of the predefined atom with index \<open>i\<close>.\<close>

definition init_type :: "nat \<Rightarrow> nat" where
  "init_type i =
     (if i = JS_ATOM_Private_brand then JS_ATOM_TYPE_PRIVATE
      else if i \<ge> JS_ATOM_Symbol_toPrimitive then JS_ATOM_TYPE_SYMBOL else JS_ATOM_TYPE_STRING)"

fun init_loop :: "'o js_mem \<Rightarrow> nat \<Rightarrow> string list \<Rightarrow> 'o atom_rt \<Rightarrow> ('o atom_rt \<times> int) option" where
  "init_loop jm i [] rt = Some (rt, 0)"
| "init_loop jm i (p # ps) rt = do {
     (rt, a) \<leftarrow> JS_NewAtomInit jm (map of_char p) (init_type i) rt;
     if a = 0 then Some (rt, -1) else init_loop jm (i + 1) ps rt }"

definition JS_InitAtoms :: "'o js_mem \<Rightarrow> 'o atom_rt \<Rightarrow> ('o atom_rt \<times> int) option" where
  "JS_InitAtoms jm rt = do {
     (rt, r) \<leftarrow> JS_ResizeAtomHash jm 256
       (rt\<lparr>atom_hash_size := 0, atom_hash := [], atom_count := 0, atom_size := 0, atom_free_index := 0\<rparr>);
     if r \<noteq> 0 then Some (rt, -1) else init_loop jm 1 js_atom_init rt }"

text \<open>\<open>__JS_FindAtom\<close> compares the bytes of a C string with the narrow strings of the table.\<close>

partial_function (option) find_bytes_loop :: "'o atom_rt \<Rightarrow> u32 \<Rightarrow> bytes \<Rightarrow> nat \<Rightarrow> nat option option" where
  "find_bytes_loop rt h str i =
     (if i = 0 then Some None
      else do {
        a \<leftarrow> struct_at rt i;
        hit \<leftarrow> (if as_hash a = h \<and> as_atom_type a = JS_ATOM_TYPE_STRING \<and> js_len (as_string a) = length str \<and>
                   \<not> js_wide (as_string a)
                 then map_option (\<lambda>u. u = str) (rd_block (js_u (as_string a)) 0 (length str))
                 else Some False);
        if hit then Some (Some i) else find_bytes_loop rt h str (as_hash_next a) })"

definition JS_FindAtom :: "'o atom_rt \<Rightarrow> bytes \<Rightarrow> 'o atom_result" where
  "JS_FindAtom rt str = do {
     h \<leftarrow> hash_string8 str (length str) 0 (word_of_nat JS_ATOM_TYPE_STRING);
     let h = h AND JS_ATOM_HASH_MASK;
     i \<leftarrow> rd (atom_hash rt) (hash_place rt h);
     r \<leftarrow> find_bytes_loop rt h str i;
     (case r of
        Some i \<Rightarrow> do { rt \<leftarrow> (if i < JS_ATOM_END then Some rt else dup_struct rt i); Some (rt, i) }
      | None \<Rightarrow> Some (rt, 0)) }"

section \<open>The interface\<close>

definition JS_DupAtom :: "'o atom_rt \<Rightarrow> JSAtom \<Rightarrow> 'o atom_rt option" where
  "JS_DupAtom rt v = (if \<not> AtomIsConst v then dup_struct rt (unat v) else Some rt)"

definition JS_FreeAtom_internal :: "'o atom_rt \<Rightarrow> nat \<Rightarrow> 'o atom_rt option" where
  "JS_FreeAtom_internal rt i = do {
     p \<leftarrow> atom_at rt i;
     a \<leftarrow> as_heap rt p;
     let rt = struct_set p (a\<lparr>as_ref_count := as_ref_count a - 1\<rparr>) rt;
     if as_ref_count a - 1 > 0 then Some rt else JS_FreeAtomStruct rt p }"

definition JS_FreeAtom :: "'o atom_rt \<Rightarrow> JSAtom \<Rightarrow> 'o atom_rt option" where
  "JS_FreeAtom rt v = (if \<not> AtomIsConst v then JS_FreeAtom_internal rt (unat v) else Some rt)"

definition JS_AtomGetKind :: "'o atom_rt \<Rightarrow> JSAtom \<Rightarrow> JSAtomKindEnum option" where
  "JS_AtomGetKind rt v =
     (if AtomIsTaggedInt v then Some JS_ATOM_KIND_STRING
      else do {
        a \<leftarrow> struct_at rt (unat v);
        if as_atom_type a = JS_ATOM_TYPE_STRING then Some JS_ATOM_KIND_STRING
        else if as_atom_type a = JS_ATOM_TYPE_GLOBAL_SYMBOL then Some JS_ATOM_KIND_SYMBOL
        else if as_atom_type a = JS_ATOM_TYPE_SYMBOL then
          if as_hash a = JS_ATOM_HASH_SYMBOL then Some JS_ATOM_KIND_SYMBOL
          else if as_hash a = JS_ATOM_HASH_PRIVATE then Some JS_ATOM_KIND_PRIVATE
          else None
        else None })"

definition JS_AtomIsString :: "'o atom_rt \<Rightarrow> JSAtom \<Rightarrow> bool option" where
  "JS_AtomIsString rt v = map_option (\<lambda>k. k = JS_ATOM_KIND_STRING) (JS_AtomGetKind rt v)"

definition JS_NewAtomStr :: "'o js_mem \<Rightarrow> nat \<Rightarrow> 'o atom_rt \<Rightarrow> ('o atom_rt \<times> JSAtom) option" where
  "JS_NewAtomStr jm p rt = do {
     a \<leftarrow> as_heap rt p;
     r \<leftarrow> is_num_string (as_string a);
     (case r of
        Some n \<Rightarrow>
          if n \<le> JS_ATOM_MAX_INT then do { rt \<leftarrow> js_free_string rt p; Some (rt, AtomFromUInt32 n) }
          else map_option (\<lambda>(rt, i). (rt, word_of_nat i)) (JS_NewAtom_str jm (Some p) JS_ATOM_TYPE_STRING rt)
      | None \<Rightarrow> map_option (\<lambda>(rt, i). (rt, word_of_nat i)) (JS_NewAtom_str jm (Some p) JS_ATOM_TYPE_STRING rt)) }"

text \<open>The string of a C string: \<open>JS_NewStringLen\<close>, whose result for no bytes is the atom of the
  empty string.\<close>

definition new_string_value :: "'o js_mem \<Rightarrow> bytes \<Rightarrow> 'o atom_rt \<Rightarrow> ('o atom_rt \<times> nat option) option" where
  "new_string_value jm buf rt =
     (if buf = [] then do {
        rt' \<leftarrow> dup_struct rt JS_ATOM_empty_string;
        p \<leftarrow> atom_at rt JS_ATOM_empty_string;
        Some (rt', Some p) }
      else do {
        (ctx, r) \<leftarrow> JS_NewStringLen jm (at_mem rt) buf;
        (case r of
           JS_EXCEPTION \<Rightarrow> Some (rt\<lparr>at_mem := ctx\<rparr>, None)
         | JS_STRING q \<Rightarrow> (case struct_new (string_value q) (rt\<lparr>at_mem := ctx\<rparr>) of (rt, p) \<Rightarrow> Some (rt, Some p))) })"

definition is_digit8 :: "u8 \<Rightarrow> bool" where
  "is_digit8 c \<longleftrightarrow> c \<ge> 0x30 \<and> c \<le> 0x39"

definition JS_NewAtomLen :: "'o js_mem \<Rightarrow> bytes \<Rightarrow> 'o atom_rt \<Rightarrow> ('o atom_rt \<times> JSAtom) option" where
  "JS_NewAtomLen jm str rt = do {
     (rt, atom) \<leftarrow> (if str = [] \<or> \<not> is_digit8 (hd str) then JS_FindAtom rt str else Some (rt, 0));
     if atom \<noteq> 0 then Some (rt, word_of_nat atom)
     else do {
       (rt, v) \<leftarrow> new_string_value jm str rt;
       (case v of
          None \<Rightarrow> Some (rt, 0)
        | Some p \<Rightarrow> JS_NewAtomStr jm p rt) } }"

text \<open>\<open>snprintf(buf, size, "%u", n)\<close>.\<close>

fun decimal :: "nat \<Rightarrow> bytes" where
  "decimal n = (if n < 10 then [0x30 + word_of_nat n] else decimal (n div 10) @ [0x30 + word_of_nat (n mod 10)])"

declare decimal.simps [simp del]

definition JS_NewAtomUInt32 :: "'o js_mem \<Rightarrow> u32 \<Rightarrow> 'o atom_rt \<Rightarrow> ('o atom_rt \<times> JSAtom) option" where
  "JS_NewAtomUInt32 jm n rt =
     (if n \<le> JS_ATOM_MAX_INT then Some (rt, AtomFromUInt32 n)
      else do {
        (rt, v) \<leftarrow> new_string_value jm (decimal (unat n)) rt;
        (case v of
           None \<Rightarrow> Some (rt, 0)
         | Some p \<Rightarrow> map_option (\<lambda>(rt, i). (rt, word_of_nat i)) (JS_NewAtom_str jm (Some p) JS_ATOM_TYPE_STRING rt)) })"

definition JS_NewAtomInt64 :: "'o js_mem \<Rightarrow> u64 \<Rightarrow> 'o atom_rt \<Rightarrow> ('o atom_rt \<times> JSAtom) option" where
  "JS_NewAtomInt64 jm n rt =
     (if n \<le> ucast JS_ATOM_MAX_INT then Some (rt, AtomFromUInt32 (ucast n))
      else do {
        (rt, v) \<leftarrow> new_string_value jm
          (if sint n < 0 then 0x2d # decimal (nat (- sint n)) else decimal (nat (sint n))) rt;
        (case v of
           None \<Rightarrow> Some (rt, 0)
         | Some p \<Rightarrow> map_option (\<lambda>(rt, i). (rt, word_of_nat i)) (JS_NewAtom_str jm (Some p) JS_ATOM_TYPE_STRING rt)) })"

text \<open>The value of a symbol is the address of its structure; \<open>None\<close> in the result is an
  exception.\<close>

definition JS_NewSymbol :: "'o js_mem \<Rightarrow> nat option \<Rightarrow> nat \<Rightarrow> 'o atom_rt \<Rightarrow> ('o atom_rt \<times> nat option) option" where
  "JS_NewSymbol jm p atom_type rt = do {
     (rt, atom) \<leftarrow> JS_NewAtom_str jm p atom_type rt;
     if atom = 0 then Some (rt, None) else do { q \<leftarrow> atom_at rt atom; Some (rt, Some q) } }"

definition JS_NewSymbolFromAtom :: "'o js_mem \<Rightarrow> JSAtom \<Rightarrow> nat \<Rightarrow> 'o atom_rt \<Rightarrow> ('o atom_rt \<times> nat option) option" where
  "JS_NewSymbolFromAtom jm descr atom_type rt = do {
     assert_c (\<not> AtomIsTaggedInt descr);
     assert_c (unat descr < atom_size rt);
     p \<leftarrow> atom_at rt (unat descr);
     rt \<leftarrow> dup_struct rt (unat descr);
     JS_NewSymbol jm (Some p) atom_type rt }"

datatype atom_value = Value_string nat | Value_symbol nat

definition JS_AtomToValue_internal ::
    "'o js_mem \<Rightarrow> JSAtom \<Rightarrow> bool \<Rightarrow> 'o atom_rt \<Rightarrow> ('o atom_rt \<times> atom_value option) option" where
  "JS_AtomToValue_internal jm atom force_string rt =
     (if AtomIsTaggedInt atom then do {
        (rt, v) \<leftarrow> new_string_value jm (decimal (unat (AtomToUInt32 atom))) rt;
        Some (rt, map_option Value_string v) }
      else do {
        assert_c (unat atom < atom_size rt);
        a \<leftarrow> struct_at rt (unat atom);
        let i = (if as_atom_type a \<noteq> JS_ATOM_TYPE_STRING \<and> force_string \<and> js_len (as_string a) = 0 \<and> js_wide (as_string a)
                 then JS_ATOM_empty_string else unat atom);
        p \<leftarrow> atom_at rt i;
        rt \<leftarrow> dup_struct rt i;
        Some (rt, Some (if as_atom_type a = JS_ATOM_TYPE_STRING \<or> force_string then Value_string p else Value_symbol p)) })"

definition JS_AtomToValue :: "'o js_mem \<Rightarrow> JSAtom \<Rightarrow> 'o atom_rt \<Rightarrow> ('o atom_rt \<times> atom_value option) option" where
  "JS_AtomToValue jm atom rt = JS_AtomToValue_internal jm atom False rt"

definition JS_AtomToString :: "'o js_mem \<Rightarrow> JSAtom \<Rightarrow> 'o atom_rt \<Rightarrow> ('o atom_rt \<times> atom_value option) option" where
  "JS_AtomToString jm atom rt = JS_AtomToValue_internal jm atom True rt"

definition JS_AtomIsArrayIndex :: "'o atom_rt \<Rightarrow> JSAtom \<Rightarrow> u32 option option" where
  "JS_AtomIsArrayIndex rt atom =
     (if AtomIsTaggedInt atom then Some (Some (AtomToUInt32 atom))
      else do {
        assert_c (unat atom < atom_size rt);
        a \<leftarrow> struct_at rt (unat atom);
        if as_atom_type a = JS_ATOM_TYPE_STRING then
          map_option (\<lambda>r. (case r of Some val \<Rightarrow> if val \<noteq> -1 then Some val else None | None \<Rightarrow> None))
            (is_num_string (as_string a))
        else Some None })"

definition JS_AtomSymbolHasDescription :: "'o atom_rt \<Rightarrow> JSAtom \<Rightarrow> bool option" where
  "JS_AtomSymbolHasDescription rt v =
     (if AtomIsTaggedInt v then Some False
      else do {
        a \<leftarrow> struct_at rt (unat v);
        Some ((as_atom_type a = JS_ATOM_TYPE_SYMBOL \<and> as_hash a = JS_ATOM_HASH_SYMBOL \<or>
               as_atom_type a = JS_ATOM_TYPE_GLOBAL_SYMBOL) \<and>
              \<not> (js_len (as_string a) = 0 \<and> js_wide (as_string a))) })"

end
