(* ===== verification/Js_Atom_Table.thy ===== *)
theory Js_Atom_Table
  imports Js_Atom
begin

text \<open>
  The invariant of the atom table and its preservation.  The chains of the hash table and the
  list of the free entries are both threaded lists: lists of indices that a successor function
  links, ending in the index 0.
\<close>

section \<open>Threaded lists\<close>

fun chain :: "(nat \<Rightarrow> nat) \<Rightarrow> nat \<Rightarrow> nat list \<Rightarrow> bool" where
  "chain nx i [] \<longleftrightarrow> i = 0"
| "chain nx i (j # js) \<longleftrightarrow> i = j \<and> j \<noteq> 0 \<and> chain nx (nx j) js"

lemma chain_zero [simp]: "chain nx 0 js \<longleftrightarrow> js = []"
  by (cases js) auto

lemma chain_Cons: "chain nx i js \<Longrightarrow> i \<noteq> 0 \<Longrightarrow> \<exists>ks. js = i # ks \<and> chain nx (nx i) ks"
  by (cases js) auto

lemma chain_next_cong: "chain nx i js \<Longrightarrow> (\<And>j. j \<in> set js \<Longrightarrow> nx' j = nx j) \<Longrightarrow> chain nx' i js"
  by (induction js arbitrary: i) auto

lemma chain_nonzero: "chain nx i js \<Longrightarrow> 0 \<notin> set js"
  by (induction js arbitrary: i) auto

lemma chain_unique: "chain nx i js \<Longrightarrow> chain nx i ks \<Longrightarrow> js = ks"
proof (induction js arbitrary: i ks)
  case (Cons j js)
  then show ?case by (cases ks) auto
qed (auto dest: chain_Cons)

lemma chain_remove:
  assumes "chain nx i (js @ a # b # ks)" "distinct (js @ a # b # ks)"
  shows "chain (nx(a := nx b)) i (js @ a # ks)"
  using assms
proof (induction js arbitrary: i)
  case Nil
  then have "chain (nx(a := nx b)) (nx b) ks" by (auto intro: chain_next_cong)
  then show ?case using Nil by (simp add: fun_upd_def)
qed auto

lemma chain_successor: "chain nx i (js @ a # b # ks) \<Longrightarrow> nx a = b"
  by (induction js arbitrary: i) auto

text \<open>A table of chains.\<close>

definition table :: "(nat \<Rightarrow> nat) \<Rightarrow> nat list \<Rightarrow> (nat \<Rightarrow> nat list) \<Rightarrow> bool" where
  "table nx T cs \<longleftrightarrow> (\<forall>b < length T. chain nx (T ! b) (cs b))"

lemma table_push:
  assumes "table nx T cs" "b < length T" "i \<noteq> 0" "\<And>b'. b' < length T \<Longrightarrow> i \<notin> set (cs b')"
  shows "table (nx(i := T ! b)) (T[b := i]) (cs(b := i # cs b))"
  unfolding table_def
proof (intro allI impI)
  fix b' assume b': "b' < length (T[b := i])"
  have other: "chain (nx(i := T ! b)) (T ! c) (cs c)" if "c < length T" for c
  proof (rule chain_next_cong)
    show "chain nx (T ! c) (cs c)" using assms(1) that by (simp add: table_def)
    show "(nx(i := T ! b)) j = nx j" if "j \<in> set (cs c)" for j
      using assms(4) [OF \<open>c < length T\<close>] that by auto
  qed
  show "chain (nx(i := T ! b)) (T[b := i] ! b') ((cs(b := i # cs b)) b')"
  proof (cases "b' = b")
    case True
    then show ?thesis using other [OF assms(2)] assms(2,3) by simp
  next
    case False
    then show ?thesis using other [of b'] b' by simp
  qed
qed

lemma table_empty: "table nx (replicate n 0) (\<lambda>b. [])"
  by (simp add: table_def)

section \<open>Reading and writing the state\<close>

lemma struct_set_fields [simp]:
  "as_heap (struct_set p a rt) = (as_heap rt)(p \<mapsto> a)" "as_fresh (struct_set p a rt) = as_fresh rt"
  "atom_hash_size (struct_set p a rt) = atom_hash_size rt" "atom_count (struct_set p a rt) = atom_count rt"
  "atom_size (struct_set p a rt) = atom_size rt" "atom_count_resize (struct_set p a rt) = atom_count_resize rt"
  "atom_hash (struct_set p a rt) = atom_hash rt" "atom_array (struct_set p a rt) = atom_array rt"
  "atom_free_index (struct_set p a rt) = atom_free_index rt" "at_mem (struct_set p a rt) = at_mem rt"
  by (simp_all add: struct_set_def)

lemma atom_at_Some: "atom_at rt i = Some p \<longleftrightarrow> i < length (atom_array rt) \<and> atom_array rt ! i = Atom_slot p"
  by (auto simp: atom_at_def rd_def split: atom_slot.splits)

lemma atom_at_cong: "atom_array rt' = atom_array rt \<Longrightarrow> atom_at rt' i = atom_at rt i"
  by (simp add: atom_at_def)

lemma atom_at_set [simp]: "atom_at (struct_set p a rt) i = atom_at rt i"
  by (rule atom_at_cong) simp

definition hash_next :: "'o atom_rt \<Rightarrow> nat \<Rightarrow> nat" where
  "hash_next rt i = as_hash_next (the (struct_at rt i))"

definition free_next :: "'o atom_rt \<Rightarrow> nat \<Rightarrow> nat" where
  "free_next rt i = (case atom_array rt ! i of Free_slot n \<Rightarrow> n | Atom_slot _ \<Rightarrow> 0)"

definition slots_inj :: "'o atom_rt \<Rightarrow> bool" where
  "slots_inj rt \<longleftrightarrow> (\<forall>i j p. atom_at rt i = Some p \<longrightarrow> atom_at rt j = Some p \<longrightarrow> i = j)"

lemma slots_injD: "slots_inj rt \<Longrightarrow> atom_at rt i = Some p \<Longrightarrow> atom_at rt j = Some p \<Longrightarrow> i = j"
  by (auto simp: slots_inj_def)

lemma struct_at_Some: "struct_at rt i = Some a \<longleftrightarrow> (\<exists>p. atom_at rt i = Some p \<and> as_heap rt p = Some a)"
  by (cases "atom_at rt i") (auto simp: struct_at_def)

lemma hash_next_at: "atom_at rt i = Some p \<Longrightarrow> as_heap rt p = Some a \<Longrightarrow> hash_next rt i = as_hash_next a"
  by (simp add: hash_next_def struct_at_def)

lemma hash_next_set:
  assumes "slots_inj rt" "atom_at rt i = Some p"
  shows "hash_next (struct_set p a rt) = (hash_next rt)(i := as_hash_next a)"
proof
  fix j show "hash_next (struct_set p a rt) j = ((hash_next rt)(i := as_hash_next a)) j"
    using assms slots_injD [OF assms(1), of i p j]
    by (cases "atom_at rt j") (auto simp: hash_next_def struct_at_def)
qed

section \<open>States that differ in counts and links\<close>

definition struct_like :: "JSAtomStruct \<Rightarrow> JSAtomStruct \<Rightarrow> bool" where
  "struct_like a b \<longleftrightarrow> as_string a = as_string b \<and> as_atom_type a = as_atom_type b \<and> as_hash a = as_hash b"

definition rt_like :: "'o atom_rt \<Rightarrow> 'o atom_rt \<Rightarrow> bool" where
  "rt_like rt rt' \<longleftrightarrow> atom_array rt' = atom_array rt \<and> atom_size rt' = atom_size rt \<and> as_fresh rt' = as_fresh rt \<and>
     atom_free_index rt' = atom_free_index rt \<and> atom_count rt' = atom_count rt \<and>
     (\<forall>p. rel_option struct_like (as_heap rt p) (as_heap rt' p))"

lemma struct_like_refl [simp]: "struct_like a a"
  by (simp add: struct_like_def)

lemma struct_like_trans: "struct_like a b \<Longrightarrow> struct_like b c \<Longrightarrow> struct_like a c"
  by (simp add: struct_like_def)

lemma rel_struct_refl [simp]: "rel_option struct_like x x"
  by (cases x) auto

lemma rt_like_refl [simp]: "rt_like rt rt"
  by (simp add: rt_like_def)

lemma rt_like_trans: "rt_like r1 r2 \<Longrightarrow> rt_like r2 r3 \<Longrightarrow> rt_like r1 r3"
  unfolding rt_like_def by (metis option.rel_transp struct_like_trans transpI transpE)

lemma rt_like_set:
  assumes "as_heap rt p = Some a" "struct_like a b"
  shows "rt_like rt (struct_set p b rt)"
  using assms by (simp add: rt_like_def)

lemma rt_like_at: "rt_like rt rt' \<Longrightarrow> atom_at rt' i = atom_at rt i"
  by (rule atom_at_cong) (simp add: rt_like_def)

lemma rt_like_heap:
  assumes "rt_like rt rt'" "as_heap rt p = Some a"
  obtains b where "as_heap rt' p = Some b" "struct_like a b"
  using assms by (auto simp: rt_like_def) (metis option_rel_Some1)

lemma rt_like_back:
  assumes "rt_like rt rt'" "as_heap rt' p = Some b"
  obtains a where "as_heap rt p = Some a" "struct_like a b"
  using assms by (auto simp: rt_like_def) (metis option_rel_Some2)

section \<open>The invariant\<close>

text \<open>The hash of an interned atom.\<close>

definition atom_hash_of :: "nat \<Rightarrow> u16 list \<Rightarrow> u32" where
  "atom_hash_of t us = units_hash us (word_of_nat t) AND JS_ATOM_HASH_MASK"

definition hashed :: "JSAtomStruct \<Rightarrow> bool" where
  "hashed a \<longleftrightarrow> as_atom_type a = JS_ATOM_TYPE_STRING \<or> as_atom_type a = JS_ATOM_TYPE_GLOBAL_SYMBOL"

definition atom_units :: "JSAtomStruct \<Rightarrow> u16 list" where
  "atom_units a = js_units (as_string a)"

text \<open>Largest size of the array from which \<open>atom_size * 3\<close> stays in the range of \<open>int\<close>.\<close>

definition atom_size_limit :: nat where
  "atom_size_limit = 715827882"

text \<open>What holds of one object: atoms are exactly the objects in the array, with the hash their type asks for.\<close>

definition struct_ok :: "'o atom_rt \<Rightarrow> nat \<Rightarrow> JSAtomStruct \<Rightarrow> bool" where
  "struct_ok rt p a \<longleftrightarrow> p < as_fresh rt \<and> as_atom_type a \<le> JS_ATOM_TYPE_SYMBOL \<and>
     (as_atom_type a \<noteq> 0 \<longleftrightarrow> (\<exists>i. atom_at rt i = Some p)) \<and>
     (atom_at rt 0 = Some p \<longrightarrow> as_atom_type a = JS_ATOM_TYPE_SYMBOL) \<and>
     (atom_at rt 0 \<noteq> Some p \<longrightarrow> js_string_ok (as_string a)) \<and>
     (hashed a \<longrightarrow> as_hash a = atom_hash_of (as_atom_type a) (atom_units a)) \<and>
     (as_atom_type a = JS_ATOM_TYPE_SYMBOL \<longrightarrow> as_hash a = JS_ATOM_HASH_SYMBOL \<or> as_hash a = JS_ATOM_HASH_PRIVATE)"

definition keys_unique :: "'o atom_rt \<Rightarrow> bool" where
  "keys_unique rt \<longleftrightarrow> (\<forall>p q a b. as_heap rt p = Some a \<longrightarrow> as_heap rt q = Some b \<longrightarrow> hashed a \<longrightarrow>
     as_atom_type b = as_atom_type a \<longrightarrow> atom_units b = atom_units a \<longrightarrow> p = q)"

definition atoms_core :: "'o atom_rt \<Rightarrow> bool" where
  "atoms_core rt \<longleftrightarrow> length (atom_array rt) = atom_size rt \<and> atom_size rt \<le> atom_size_limit \<and>
     (\<forall>p a. as_heap rt p = Some a \<longrightarrow> struct_ok rt p a) \<and>
     (\<forall>i p. atom_at rt i = Some p \<longrightarrow> as_heap rt p \<noteq> None) \<and>
     slots_inj rt \<and> keys_unique rt \<and>
     (0 < atom_size rt \<longrightarrow> atom_at rt 0 \<noteq> None) \<and>
     atom_count rt = int (card {i. atom_at rt i \<noteq> None})"

definition atoms_free :: "'o atom_rt \<Rightarrow> nat list \<Rightarrow> bool" where
  "atoms_free rt fs \<longleftrightarrow> chain (free_next rt) (atom_free_index rt) fs \<and> distinct fs \<and>
     set fs = {i. i < length (atom_array rt) \<and> atom_at rt i = None}"

definition hash_size_ok :: "'o atom_rt \<Rightarrow> bool" where
  "hash_size_ok rt \<longleftrightarrow> length (atom_hash rt) = atom_hash_size rt \<and> (\<exists>k \<le> 30. atom_hash_size rt = 2 ^ k) \<and>
     atom_count_resize rt = 2 * atom_hash_size rt"

definition atoms_hash :: "'o atom_rt \<Rightarrow> (nat \<Rightarrow> nat list) \<Rightarrow> bool" where
  "atoms_hash rt cs \<longleftrightarrow> table (hash_next rt) (atom_hash rt) cs \<and>
     (\<forall>b. distinct (cs b) \<and>
        set (cs b) = {i. \<exists>a. struct_at rt i = Some a \<and> hashed a \<and> hash_place rt (as_hash a) = b}) \<and>
     (\<forall>i a. struct_at rt i = Some a \<longrightarrow> as_atom_type a = JS_ATOM_TYPE_SYMBOL \<longrightarrow> as_hash_next a = i)"

definition atoms_ok :: "'o atom_rt \<Rightarrow> bool" where
  "atoms_ok rt \<longleftrightarrow> atoms_core rt \<and> (\<exists>fs. atoms_free rt fs) \<and> hash_size_ok rt \<and> (\<exists>cs. atoms_hash rt cs)"

lemma struct_like_parts:
  assumes "struct_like a b"
  shows "hashed b = hashed a" "atom_units b = atom_units a" "as_atom_type b = as_atom_type a" "as_hash b = as_hash a" "as_string b = as_string a"
  using assms by (simp_all add: struct_like_def hashed_def atom_units_def)

lemma struct_ok_like:
  assumes "rt_like rt rt'" "struct_like a b"
  shows "struct_ok rt' p b \<longleftrightarrow> struct_ok rt p a"
  using assms(1) by (simp add: struct_ok_def struct_like_parts [OF assms(2)] rt_like_at [OF assms(1)]) (simp add: rt_like_def)

lemma core_slot:
  assumes "atoms_core rt" "atom_at rt i = Some p"
  obtains a where "as_heap rt p = Some a" "struct_ok rt p a"
proof -
  have "as_heap rt p \<noteq> None" using assms unfolding atoms_core_def by blast
  then show thesis using that assms(1) by (auto simp: atoms_core_def)
qed

lemma atoms_core_like:
  assumes l: "rt_like rt rt'" and c: "atoms_core rt"
  shows "atoms_core rt'"
proof -
  have "struct_ok rt' p b" if "as_heap rt' p = Some b" for p b
    using rt_like_back [OF l that] struct_ok_like [OF l] c by (metis atoms_core_def)
  moreover have "keys_unique rt'" unfolding keys_unique_def
  proof (intro allI impI)
    fix p q a b assume h: "as_heap rt' p = Some a" "as_heap rt' q = Some b"
      and k: "hashed a" "as_atom_type b = as_atom_type a" "atom_units b = atom_units a"
    obtain a' where a: "as_heap rt p = Some a'" "struct_like a' a" using rt_like_back [OF l h(1)] .
    obtain b' where b: "as_heap rt q = Some b'" "struct_like b' b" using rt_like_back [OF l h(2)] .
    show "p = q" using c a(1) b(1) k unfolding struct_like_parts [OF a(2)] struct_like_parts [OF b(2)]
      by (auto simp: atoms_core_def keys_unique_def)
  qed
  moreover have "as_heap rt' p \<noteq> None" if "atom_at rt' i = Some p" for i p
  proof -
    obtain a where "as_heap rt p = Some a" using core_slot [OF c] \<open>atom_at rt' i = Some p\<close> unfolding rt_like_at [OF l] by blast
    then show ?thesis using rt_like_heap [OF l] by (metis option.distinct(1))
  qed
  moreover have "slots_inj rt'" using c by (simp add: atoms_core_def slots_inj_def rt_like_at [OF l])
  ultimately show ?thesis using c l unfolding atoms_core_def rt_like_at [OF l] by (simp add: rt_like_def)
qed

lemma atoms_free_like: "rt_like rt rt' \<Longrightarrow> atoms_free rt' fs = atoms_free rt fs"
  by (simp add: atoms_free_def rt_like_at) (simp add: rt_like_def free_next_def [abs_def])

text \<open>What the parts of the invariant say.\<close>

lemma core_struct: "atoms_core rt \<Longrightarrow> as_heap rt p = Some a \<Longrightarrow> struct_ok rt p a"
  by (simp add: atoms_core_def)

lemma core_inj: "atoms_core rt \<Longrightarrow> slots_inj rt"
  by (simp add: atoms_core_def)

lemma core_in_array:
  assumes "atoms_core rt" "as_heap rt p = Some a" "as_atom_type a \<noteq> 0"
  obtains i where "atom_at rt i = Some p"
  using core_struct [OF assms(1,2)] assms(3) by (auto simp: struct_ok_def)

lemma hash_place_less: "hash_size_ok rt \<Longrightarrow> hash_place rt h < length (atom_hash rt)"
proof -
  assume ok: "hash_size_ok rt"
  then obtain k where k: "k \<le> 30" "atom_hash_size rt = 2 ^ k" by (auto simp: hash_size_ok_def)
  have "(word_of_nat (2 ^ k) - 1 :: u32) = mask k" by (simp add: mask_eq_exp_minus_1)
  then show "hash_place rt h < length (atom_hash rt)" using ok k by (simp add: hash_place_def unat_and_mask hash_size_ok_def)
qed
section \<open>Rebuilding the hash table\<close>

text \<open>Only the links of the entries \<open>R\<close> differ.\<close>

definition relinked :: "'o atom_rt \<Rightarrow> 'o atom_rt \<Rightarrow> nat set \<Rightarrow> bool" where
  "relinked rt rt' R \<longleftrightarrow> rt_like rt rt' \<and> atom_hash rt' = atom_hash rt \<and> atom_hash_size rt' = atom_hash_size rt \<and>
     atom_count_resize rt' = atom_count_resize rt \<and> (\<forall>i. i \<notin> R \<longrightarrow> hash_next rt' i = hash_next rt i) \<and>
     (\<forall>p. map_option as_ref_count (as_heap rt' p) = map_option as_ref_count (as_heap rt p))"

lemma relinked_refl [simp]: "relinked rt rt R"
  by (simp add: relinked_def)

lemma relinked_trans: "relinked r1 r2 A \<Longrightarrow> relinked r2 r3 B \<Longrightarrow> relinked r1 r3 (A \<union> B)"
  unfolding relinked_def using rt_like_trans by (metis UnI1 UnI2)

lemma relinked_mono: "relinked r1 r2 A \<Longrightarrow> A \<subseteq> B \<Longrightarrow> relinked r1 r2 B"
  unfolding relinked_def by blast

lemma relinked_set:
  assumes "slots_inj rt" "atom_at rt i = Some p" "as_heap rt p = Some a"
  shows "relinked rt (struct_set p (a\<lparr>as_hash_next := n\<rparr>) rt) {i}"
  unfolding relinked_def hash_next_set [OF assms(1,2)]
  using rt_like_set [OF assms(3)] assms(3) by (auto simp: struct_like_def)

lemma like_struct_at:
  assumes "rt_like rt rt'" "struct_at rt i = Some a"
  obtains b where "struct_at rt' i = Some b" "struct_like a b"
  using assms(2) rt_like_heap [OF assms(1)] unfolding struct_at_Some rt_like_at [OF assms(1)] by metis

lemma like_struct_back:
  assumes "rt_like rt rt'" "struct_at rt' i = Some b"
  obtains a where "struct_at rt i = Some a" "struct_like a b"
  using assms(2) rt_like_back [OF assms(1)] unfolding struct_at_Some rt_like_at [OF assms(1)] by metis

definition place :: "u32 \<Rightarrow> 'o atom_rt \<Rightarrow> nat \<Rightarrow> nat" where
  "place m rt i = unat (as_hash (the (struct_at rt i)) AND m)"

lemma place_like: "rt_like rt rt' \<Longrightarrow> struct_at rt i \<noteq> None \<Longrightarrow> place m rt' i = place m rt i"
proof -
  assume l: "rt_like rt rt'" and "struct_at rt i \<noteq> None"
  then obtain a where a: "struct_at rt i = Some a" by blast
  obtain b where "struct_at rt' i = Some b" "struct_like a b" by (rule like_struct_at [OF l a])
  then show "place m rt' i = place m rt i" using a by (simp add: place_def struct_like_def)
qed

lemma slots_inj_like: "rt_like rt rt' \<Longrightarrow> slots_inj rt' = slots_inj rt"
  by (simp add: slots_inj_def rt_like_at)

text \<open>A table whose chains hold the entries \<open>S\<close> by their place.\<close>

definition holds :: "u32 \<Rightarrow> 'o atom_rt \<Rightarrow> nat list \<Rightarrow> (nat \<Rightarrow> nat list) \<Rightarrow> nat set \<Rightarrow> bool" where
  "holds m rt T cs S \<longleftrightarrow> table (hash_next rt) T cs \<and>
     (\<forall>b. distinct (cs b) \<and> set (cs b) = {i \<in> S. place m rt i = b})"

lemma holds_like:
  assumes "holds m rt T cs S" "relinked rt rt' R" "S \<inter> R = {}" "\<And>i. i \<in> S \<Longrightarrow> struct_at rt i \<noteq> None"
  shows "holds m rt' T cs S"
proof -
  have like: "rt_like rt rt'" using assms(2) by (simp add: relinked_def)
  have c: "set (cs b) \<subseteq> S" for b using assms(1) by (auto simp: holds_def)
  have "chain (hash_next rt') (T ! b) (cs b)" if "b < length T" for b
  proof (rule chain_next_cong)
    show "chain (hash_next rt) (T ! b) (cs b)" using assms(1) that by (simp add: holds_def table_def)
    show "hash_next rt' j = hash_next rt j" if "j \<in> set (cs b)" for j
      using assms(2,3) c [of b] that by (auto simp: relinked_def)
  qed
  moreover have "{i \<in> S. place m rt' i = b} = {i \<in> S. place m rt i = b}" for b
    using place_like [OF like assms(4)] by auto
  ultimately show ?thesis using assms(1) by (simp add: holds_def table_def)
qed

lemma holds_push:
  assumes h: "holds m rt T cs S" and inj: "slots_inj rt" and at: "atom_at rt i = Some p" "as_heap rt p = Some a"
    and new: "i \<notin> S" "i \<noteq> 0" "unat (as_hash a AND m) < length T" and S: "\<And>i. i \<in> S \<Longrightarrow> struct_at rt i \<noteq> None"
  defines "j \<equiv> unat (as_hash a AND m)"
  shows "holds m (struct_set p (a\<lparr>as_hash_next := T ! j\<rparr>) rt) (T[j := i]) (cs(j := i # cs j)) (insert i S)"
proof -
  let ?rt = "struct_set p (a\<lparr>as_hash_next := T ! j\<rparr>) rt"
  have s: "struct_at rt i = Some a" using at by (simp add: struct_at_Some)
  have c: "i \<notin> set (cs b)" for b using h new(1) by (auto simp: holds_def)
  have nx: "hash_next ?rt = (hash_next rt)(i := T ! j)" unfolding hash_next_set [OF inj at(1)] by simp
  have tab: "table (hash_next ?rt) (T[j := i]) (cs(j := i # cs j))"
    unfolding nx
  proof (rule table_push)
    show "table (hash_next rt) T cs" using h by (simp add: holds_def)
    show "j < length T" unfolding j_def by (rule new(3))
  qed (use new c in blast)+
  have like: "rt_like rt ?rt" by (rule rt_like_set [OF at(2)]) (simp add: struct_like_def)
  have pl: "place m ?rt k = place m rt k" if "k \<in> insert i S" for k
  proof (rule place_like [OF like])
    show "struct_at rt k \<noteq> None" using S s that by (cases "k = i") auto
  qed
  have eq: "{k \<in> insert i S. place m ?rt k = b} = {k \<in> insert i S. place m rt k = b}" for b
  proof (rule Collect_cong)
    show "k \<in> insert i S \<and> place m ?rt k = b \<longleftrightarrow> k \<in> insert i S \<and> place m rt k = b" for k
      using pl [of k] by (cases "k \<in> insert i S") (simp_all only: simp_thms)
  qed
  have j: "place m rt i = j" using s by (simp add: place_def j_def)
  have sets: "set ((cs(j := i # cs j)) b) = {k \<in> insert i S. place m ?rt k = b}" for b
  proof -
    have "set (cs b) = {k \<in> S. place m rt k = b}" using h by (simp add: holds_def)
    moreover have "{k \<in> insert i S. place m rt k = b} = (if b = j then insert i {k \<in> S. place m rt k = b} else {k \<in> S. place m rt k = b})"
      unfolding j [symmetric] by auto
    ultimately show ?thesis unfolding eq by (cases "b = j") simp_all
  qed
  have dist: "distinct ((cs(j := i # cs j)) b)" for b
  proof -
    have "distinct (cs b)" using h by (simp add: holds_def)
    then show ?thesis using c [of b] by (cases "b = j") simp_all
  qed
  show ?thesis unfolding holds_def
  proof (intro conjI allI)
    show "table (hash_next ?rt) (T[j := i]) (cs(j := i # cs j))" by (rule tab)
  qed (rule sets dist)+
qed

lemma resize_chain_moves:
  assumes "slots_inj rt" "chain (hash_next rt) h rest" "distinct rest"
    "\<And>i. i \<in> set rest \<union> S \<Longrightarrow> struct_at rt i \<noteq> None" "\<And>i. i \<in> set rest \<Longrightarrow> place m rt i < length new"
    "holds m rt new ncs S" "S \<inter> set rest = {}"
  shows "\<exists>new' rt' ncs'. resize_chain m h new rt = Some (new', rt') \<and> length new' = length new \<and>
    holds m rt' new' ncs' (S \<union> set rest) \<and> relinked rt rt' (set rest) \<and> at_mem rt' = at_mem rt"
  using assms
proof (induction rest arbitrary: h new rt ncs S)
  case Nil
  then show ?case by (auto simp: resize_chain.simps [of m 0])
next
  case (Cons i rest)
  have hi: "h = i" "i \<noteq> 0" "chain (hash_next rt) (hash_next rt i) rest" using Cons.prems(2) by auto
  obtain a where s: "struct_at rt i = Some a" using Cons.prems(4) [of i] by auto
  then obtain p where at: "atom_at rt i = Some p" "as_heap rt p = Some a" by (auto simp: struct_at_Some)
  let ?j = "unat (as_hash a AND m)"
  let ?rt = "struct_set p (a\<lparr>as_hash_next := new ! ?j\<rparr>) rt"
  have j: "?j < length new" using Cons.prems(5) [of i] s by (simp add: place_def)
  have r1: "relinked rt ?rt {i}" by (rule relinked_set [OF Cons.prems(1) at])
  then have like: "rt_like rt ?rt" by (simp add: relinked_def)
  have f1: "holds m ?rt (new[?j := i]) (ncs(?j := i # ncs ?j)) (insert i S)"
  proof (rule holds_push [OF Cons.prems(6,1) at _ hi(2) j])
    show "i \<notin> S" using Cons.prems(7) by auto
    show "struct_at rt k \<noteq> None" if "k \<in> S" for k using Cons.prems(4) that by auto
  qed
  have f2: "chain (hash_next ?rt) (as_hash_next a) rest"
    using hi(3) Cons.prems(3) unfolding hash_next_at [OF at]
    by (auto simp: hash_next_set [OF Cons.prems(1) at(1)] intro: chain_next_cong)
  have f3: "struct_at ?rt k \<noteq> None" if "k \<in> set rest \<union> insert i S" for k
  proof -
    have "k \<in> set (i # rest) \<union> S" using that by auto
    then obtain b where "struct_at rt k = Some b" using Cons.prems(4) by blast
    then show ?thesis using like_struct_at [OF like] by (metis option.distinct(1))
  qed
  have f4: "place m ?rt k < length (new[?j := i])" if "k \<in> set rest" for k
    using Cons.prems(4,5) [of k] that place_like [OF like] by simp
  have f5: "insert i S \<inter> set rest = {}" "distinct rest" "slots_inj ?rt"
    using Cons.prems(1,3,7) slots_inj_like [OF like] by auto
  obtain new' rt' ncs' where IH: "resize_chain m (as_hash_next a) (new[?j := i]) ?rt = Some (new', rt')"
    "length new' = length (new[?j := i])" "holds m rt' new' ncs' (insert i S \<union> set rest)" "relinked ?rt rt' (set rest)" "at_mem rt' = at_mem ?rt"
    using Cons.IH [OF f5(3) f2 f5(2) f3 f4 f1 f5(1)] by blast
  have "resize_chain m h new rt = Some (new', rt')"
    using IH(1) hi(1,2) at j by (subst resize_chain.simps) simp
  moreover have "relinked rt rt' (set (i # rest))" using relinked_trans [OF r1 IH(4)] by simp
  ultimately show ?case using IH by auto
qed
lemma relinked_chain:
  assumes "relinked rt rt' R" "chain (hash_next rt) h js" "set js \<inter> R = {}"
  shows "chain (hash_next rt') h js"
  by (rule chain_next_cong [OF assms(2)]) (use assms(1,3) in \<open>auto simp: relinked_def\<close>)

text \<open>The old chains in the buckets from \<open>i\<close> on.\<close>

definition old_chains :: "u32 \<Rightarrow> nat \<Rightarrow> 'o atom_rt \<Rightarrow> (nat \<Rightarrow> nat list) \<Rightarrow> nat \<Rightarrow> nat \<Rightarrow> bool" where
  "old_chains m n rt cs i len \<longleftrightarrow>
     (\<forall>b. i \<le> b \<longrightarrow> b < n \<longrightarrow> b < length (atom_hash rt) \<and> chain (hash_next rt) (atom_hash rt ! b) (cs b) \<and> distinct (cs b) \<and>
        (\<forall>k \<in> set (cs b). struct_at rt k \<noteq> None \<and> place m rt k < len) \<and>
        (\<forall>b'. i \<le> b' \<longrightarrow> b' < n \<longrightarrow> b' \<noteq> b \<longrightarrow> set (cs b) \<inter> set (cs b') = {}))"

lemma old_chains_step:
  assumes o: "old_chains m n rt cs i len" and r: "relinked rt rt' (set (cs i))" and i: "i < n"
  shows "old_chains m n rt' cs (Suc i) len"
  unfolding old_chains_def
proof (intro allI impI conjI ballI)
  have like: "rt_like rt rt'" using r by (simp add: relinked_def)
  fix b assume b: "Suc i \<le> b" "b < n"
  have disj: "set (cs c) \<inter> set (cs c') = {}" if "i \<le> c" "c < n" "i \<le> c'" "c' < n" "c' \<noteq> c" for c c'
    using o that unfolding old_chains_def by blast
  have ob: "b < length (atom_hash rt)" "chain (hash_next rt) (atom_hash rt ! b) (cs b)" "distinct (cs b)"
    "\<And>k. k \<in> set (cs b) \<Longrightarrow> struct_at rt k \<noteq> None \<and> place m rt k < len"
    using o b unfolding old_chains_def by (meson Suc_leD)+
  have di: "set (cs b) \<inter> set (cs i) = {}" using disj [of b i] b i by simp
  have h: "atom_hash rt' = atom_hash rt" using r by (simp add: relinked_def)
  show "b < length (atom_hash rt')" "distinct (cs b)" using ob h by simp_all
  show "chain (hash_next rt') (atom_hash rt' ! b) (cs b)" unfolding h by (rule relinked_chain [OF r ob(2) di])
  show "set (cs b) \<inter> set (cs b') = {}" if "Suc i \<le> b'" "b' < n" "b' \<noteq> b" for b'
    using disj [of b b'] b that by simp
  fix k assume k: "k \<in> set (cs b)"
  then obtain a where a: "struct_at rt k = Some a" using ob(4) by blast
  obtain c where c: "struct_at rt' k = Some c" "struct_like a c" by (rule like_struct_at [OF like a])
  then show "struct_at rt' k \<noteq> None" by simp
  show "place m rt' k < len" using place_like [OF like, of k m] a ob(4) [OF k] by simp
qed

lemma resize_loop_moves:
  assumes "slots_inj rt" "old_chains m (i + n) rt cs i (length new)" "holds m rt new ncs S"
    "\<And>k. k \<in> S \<Longrightarrow> struct_at rt k \<noteq> None" "\<And>b. i \<le> b \<Longrightarrow> b < i + n \<Longrightarrow> S \<inter> set (cs b) = {}"
  shows "\<exists>new' rt' ncs'. resize_loop n i m new rt = Some (new', rt') \<and> length new' = length new \<and>
    holds m rt' new' ncs' (S \<union> (\<Union>b \<in> {i..<i + n}. set (cs b))) \<and> relinked rt rt' (\<Union>b \<in> {i..<i + n}. set (cs b)) \<and> at_mem rt' = at_mem rt"
  using assms
proof (induction n arbitrary: i new rt ncs S)
  case 0
  then show ?case by auto
next
  case (Suc n)
  have ob: "i < length (atom_hash rt)" "chain (hash_next rt) (atom_hash rt ! i) (cs i)" "distinct (cs i)"
    "\<And>k. k \<in> set (cs i) \<Longrightarrow> struct_at rt k \<noteq> None" "\<And>k. k \<in> set (cs i) \<Longrightarrow> place m rt k < length new"
    using Suc.prems(2) unfolding old_chains_def by (meson le_refl less_add_same_cancel1 zero_less_Suc)+
  have live: "struct_at rt k \<noteq> None" if "k \<in> set (cs i) \<union> S" for k using that ob(4) Suc.prems(4) by blast
  have disj: "S \<inter> set (cs i) = {}" using Suc.prems(5) [of i] by simp
  obtain new1 rt1 ncs1 where r1: "resize_chain m (atom_hash rt ! i) new rt = Some (new1, rt1)" "length new1 = length new"
    "holds m rt1 new1 ncs1 (S \<union> set (cs i))" "relinked rt rt1 (set (cs i))" "at_mem rt1 = at_mem rt"
    using resize_chain_moves [OF Suc.prems(1) ob(2,3) live ob(5) Suc.prems(3) disj] by blast
  have like: "rt_like rt rt1" using r1(4) by (simp add: relinked_def)
  have inj: "slots_inj rt1" using Suc.prems(1) slots_inj_like [OF like] by simp
  have o1: "old_chains m (Suc i + n) rt1 cs (Suc i) (length new1)"
    unfolding r1(2) using old_chains_step [OF Suc.prems(2) r1(4)] by simp
  have live1: "struct_at rt1 k \<noteq> None" if k: "k \<in> S \<union> set (cs i)" for k
  proof -
    obtain a where "struct_at rt k = Some a" using live [of k] k by blast
    then show ?thesis using like_struct_at [OF like] by (metis option.distinct(1))
  qed
  have disj1: "(S \<union> set (cs i)) \<inter> set (cs b) = {}" if "Suc i \<le> b" "b < Suc i + n" for b
  proof -
    have "set (cs i) \<inter> set (cs b) = {}" using Suc.prems(2) that unfolding old_chains_def
      by (metis Suc_leD Suc_n_not_le_n add_Suc_shift le_refl less_add_same_cancel1 zero_less_Suc)
    then show ?thesis using Suc.prems(5) [of b] that by auto
  qed
  obtain new' rt' ncs' where r2: "resize_loop n (Suc i) m new1 rt1 = Some (new', rt')" "length new' = length new1"
    "holds m rt' new' ncs' (S \<union> set (cs i) \<union> (\<Union>b \<in> {Suc i..<Suc i + n}. set (cs b)))"
    "relinked rt1 rt' (\<Union>b \<in> {Suc i..<Suc i + n}. set (cs b))" "at_mem rt' = at_mem rt1"
    using Suc.IH [OF inj o1 r1(3) live1 disj1] by blast
  have u: "{i..<i + Suc n} = insert i {Suc i..<Suc i + n}" by auto
  have "resize_loop (Suc n) i m new rt = Some (new', rt')" using ob(1) r1(1) r2(1) by simp
  moreover have "holds m rt' new' ncs' (S \<union> (\<Union>b \<in> {i..<i + Suc n}. set (cs b)))" using r2(3) unfolding u by (simp add: Un_assoc)
  moreover have "relinked rt rt' (\<Union>b \<in> {i..<i + Suc n}. set (cs b))" using relinked_trans [OF r1(4) r2(4)] unfolding u by simp
  ultimately show ?case using r1(2,5) r2(2,5) by auto
qed
definition hashed_at :: "'o atom_rt \<Rightarrow> nat set" where
  "hashed_at rt = {i. \<exists>a. struct_at rt i = Some a \<and> hashed a}"

definition symbol_links :: "'o atom_rt \<Rightarrow> bool" where
  "symbol_links rt \<longleftrightarrow> (\<forall>i a. struct_at rt i = Some a \<longrightarrow> as_atom_type a = JS_ATOM_TYPE_SYMBOL \<longrightarrow> as_hash_next a = i)"

definition same_refs :: "'o atom_rt \<Rightarrow> 'o atom_rt \<Rightarrow> bool" where
  "same_refs rt rt' \<longleftrightarrow> (\<forall>p. map_option as_ref_count (as_heap rt' p) = map_option as_ref_count (as_heap rt p))"

text \<open>The chains hold the interned atoms, in any distribution.\<close>

definition chains_ok :: "'o atom_rt \<Rightarrow> (nat \<Rightarrow> nat list) \<Rightarrow> bool" where
  "chains_ok rt cs \<longleftrightarrow> length (atom_hash rt) = atom_hash_size rt \<and>
     (\<forall>b < atom_hash_size rt. chain (hash_next rt) (atom_hash rt ! b) (cs b) \<and> distinct (cs b) \<and>
        (\<forall>b' < atom_hash_size rt. b' \<noteq> b \<longrightarrow> set (cs b) \<inter> set (cs b') = {})) \<and>
     (\<Union>b < atom_hash_size rt. set (cs b)) = hashed_at rt \<and> symbol_links rt"

lemma hash_place_place: "struct_at rt i = Some a \<Longrightarrow> place (word_of_nat (atom_hash_size rt) - 1) rt i = hash_place rt (as_hash a)"
  by (simp add: place_def hash_place_def)

lemma atoms_hash_alt:
  "atoms_hash rt cs \<longleftrightarrow> holds (word_of_nat (atom_hash_size rt) - 1) rt (atom_hash rt) cs (hashed_at rt) \<and> symbol_links rt"
proof -
  have "{i \<in> hashed_at rt. place (word_of_nat (atom_hash_size rt) - 1) rt i = b} =
    {i. \<exists>a. struct_at rt i = Some a \<and> hashed a \<and> hash_place rt (as_hash a) = b}" for b
    unfolding hashed_at_def using hash_place_place by auto
  then show ?thesis by (simp add: atoms_hash_def holds_def symbol_links_def)
qed

lemma atoms_hash_chains:
  assumes h: "atoms_hash rt cs" and s: "hash_size_ok rt"
  shows "chains_ok rt cs"
proof -
  have c: "table (hash_next rt) (atom_hash rt) cs" "\<And>b. distinct (cs b)"
    "\<And>b. set (cs b) = {i. \<exists>a. struct_at rt i = Some a \<and> hashed a \<and> hash_place rt (as_hash a) = b}"
    using h by (simp_all add: atoms_hash_def)
  have l: "length (atom_hash rt) = atom_hash_size rt" using s by (simp add: hash_size_ok_def)
  have "(\<Union>b < atom_hash_size rt. set (cs b)) = hashed_at rt"
  proof -
    have "i \<in> (\<Union>b < atom_hash_size rt. set (cs b))" if i: "i \<in> hashed_at rt" for i
    proof -
      obtain a where a: "struct_at rt i = Some a" "hashed a" using i by (auto simp: hashed_at_def)
      then have "i \<in> set (cs (hash_place rt (as_hash a)))" using c(3) by auto
      then show ?thesis using hash_place_less [OF s] l by auto
    qed
    moreover have "set (cs b) \<subseteq> hashed_at rt" for b using c(3) by (auto simp: hashed_at_def)
    ultimately show ?thesis by blast
  qed
  moreover have "set (cs b) \<inter> set (cs b') = {}" if "b' \<noteq> b" for b b' using that c(3) by auto
  moreover have "symbol_links rt" using h by (simp add: atoms_hash_alt)
  ultimately show ?thesis using c(1,2) l by (simp add: chains_ok_def table_def)
qed

lemma hashed_at_like: "rt_like rt rt' \<Longrightarrow> hashed_at rt' = hashed_at rt"
proof -
  assume l: "rt_like rt rt'"
  have "i \<in> hashed_at rt'" if i: "i \<in> hashed_at rt" for i
  proof -
    obtain a where a: "struct_at rt i = Some a" "hashed a" using i by (auto simp: hashed_at_def)
    obtain b where "struct_at rt' i = Some b" "struct_like a b" by (rule like_struct_at [OF l a(1)])
    then show ?thesis using a(2) by (auto simp: hashed_at_def struct_like_parts)
  qed
  moreover have "i \<in> hashed_at rt" if i: "i \<in> hashed_at rt'" for i
  proof -
    obtain b where b: "struct_at rt' i = Some b" "hashed b" using i by (auto simp: hashed_at_def)
    obtain a where "struct_at rt i = Some a" "struct_like a b" by (rule like_struct_back [OF l b(1)])
    then show ?thesis using b(2) by (auto simp: hashed_at_def struct_like_parts)
  qed
  ultimately show "hashed_at rt' = hashed_at rt" by blast
qed

lemma symbol_links_relinked:
  assumes "relinked rt rt' R" "R \<subseteq> hashed_at rt" "symbol_links rt"
  shows "symbol_links rt'"
  unfolding symbol_links_def
proof (intro allI impI)
  have l: "rt_like rt rt'" using assms(1) by (simp add: relinked_def)
  fix i b assume b: "struct_at rt' i = Some b" "as_atom_type b = JS_ATOM_TYPE_SYMBOL"
  obtain a where a: "struct_at rt i = Some a" "struct_like a b" by (rule like_struct_back [OF l b(1)])
  then have t: "as_atom_type a = JS_ATOM_TYPE_SYMBOL" using b(2) by (simp add: struct_like_def)
  then have "i \<notin> R" using a(1) assms(2) by (auto simp: hashed_at_def hashed_def)
  then have "hash_next rt' i = hash_next rt i" using assms(1) by (simp add: relinked_def)
  then show "as_hash_next b = i" using a(1) b(1) t assms(3) by (simp add: hash_next_def symbol_links_def)
qed

lemma malloc_fields:
  "atom_malloc jm n rt = (rt1, ok) \<Longrightarrow> rt1 = rt\<lparr>at_mem := at_mem rt1\<rparr>"
  "atom_realloc jm m n rt = (rt1, ok) \<Longrightarrow> rt1 = rt\<lparr>at_mem := at_mem rt1\<rparr>"
  by (auto simp: atom_malloc_def atom_realloc_def split: prod.splits)

lemma power_mask: "(word_of_nat (2 ^ k) - 1 :: u32) = mask k"
  by (simp add: mask_eq_exp_minus_1)

lemma power_and_mask: "(word_of_nat (2 ^ k) :: u32) AND mask k = 0"
  by (rule bit_word_eqI) (simp add: bit_simps)

lemma ResizeAtomHash_ok:
  assumes inj: "slots_inj rt" and c: "chains_ok rt cs" and k: "k \<le> 30"
  shows "\<exists>rt' r. JS_ResizeAtomHash jm (2 ^ k) rt = Some (rt', r) \<and> rt_like rt rt' \<and> same_refs rt rt' \<and>
    (r = 0 \<and> hash_size_ok rt' \<and> (\<exists>cs. atoms_hash rt' cs) \<or> r = -1 \<and> rt' = rt\<lparr>at_mem := at_mem rt'\<rparr>)"
proof -
  let ?m = "mask k :: u32"
  have lim: "(2 :: nat) ^ k < 2 ^ 31" using k by (intro power_strict_increasing) simp_all
  obtain rt1 ok where m: "atom_malloc jm (4 * 2 ^ k) rt = (rt1, ok)" by fastforce
  have rt1: "rt1 = rt\<lparr>at_mem := at_mem rt1\<rparr>" by (rule malloc_fields(1) [OF m])
  obtain ctx where e: "rt1 = rt\<lparr>at_mem := ctx\<rparr>" using rt1 by blast
  have f: "atom_at rt1 i = atom_at rt i" "struct_at rt1 i = struct_at rt i" "hash_next rt1 = hash_next rt" "place ?m rt1 i = place ?m rt i" for i
    by (simp_all add: e atom_at_def struct_at_def hash_next_def [abs_def] place_def)
  have l1: "rt_like rt rt1" "same_refs rt rt1" by (simp_all add: e rt_like_def same_refs_def)
  show ?thesis
  proof (cases ok)
    case False
    then have "JS_ResizeAtomHash jm (2 ^ k) rt = Some (rt1, -1)"
      using m lim power_and_mask [of k] by (simp add: JS_ResizeAtomHash_def power_mask mask_eq_exp_minus_1)
    then show ?thesis using l1 rt1 by auto
  next
    case True
    let ?n = "atom_hash_size rt1"
    have n: "?n = atom_hash_size rt" "atom_hash rt1 = atom_hash rt" by (simp_all add: e)
    have pl: "place ?m rt1 i < 2 ^ k" for i by (simp add: place_def unat_and_mask)
    have u: "(\<Union>b < atom_hash_size rt. set (cs b)) = hashed_at rt" using c by (simp add: chains_ok_def)
    have old: "old_chains ?m (0 + ?n) rt1 cs 0 (length (replicate (2 ^ k) (0 :: nat)))"
      unfolding old_chains_def n f
    proof (intro allI impI conjI ballI)
      fix b assume b: "b < 0 + atom_hash_size rt"
      then show "b < length (atom_hash rt)" "chain (hash_next rt) (atom_hash rt ! b) (cs b)" "distinct (cs b)"
        using c by (simp_all add: chains_ok_def)
      show "set (cs b) \<inter> set (cs b') = {}" if "b' < 0 + atom_hash_size rt" "b' \<noteq> b" for b'
        using c b that by (simp add: chains_ok_def)
      fix i assume i: "i \<in> set (cs b)"
      then have "i \<in> hashed_at rt" using b u by auto
      then show "struct_at rt i \<noteq> None" by (auto simp: hashed_at_def)
      show "place ?m rt i < length (replicate (2 ^ k) (0 :: nat))" using pl [of i] by (simp add: f)
    qed
    have ini: "holds ?m rt1 (replicate (2 ^ k) 0) (\<lambda>b. []) {}" by (simp add: holds_def table_empty)
    have inj1: "slots_inj rt1" using inj slots_inj_like [OF l1(1)] by simp
    obtain new' rt' ncs' where r: "resize_loop ?n 0 ?m (replicate (2 ^ k) 0) rt1 = Some (new', rt')" "length new' = 2 ^ k"
      "holds ?m rt' new' ncs' (\<Union>b \<in> {0..<?n}. set (cs b))" "relinked rt1 rt' (\<Union>b \<in> {0..<?n}. set (cs b))"
      using resize_loop_moves [OF inj1 old ini] by auto
    have uu: "(\<Union>b \<in> {0..<?n}. set (cs b)) = hashed_at rt" using u unfolding n by (simp add: atLeast0LessThan)
    let ?rt = "rt'\<lparr>atom_hash := new', atom_hash_size := 2 ^ k, atom_count_resize := 2 * 2 ^ k\<rparr>"
    have g: "atom_at ?rt i = atom_at rt' i" "struct_at ?rt i = struct_at rt' i" "hash_next ?rt = hash_next rt'" "place ?m ?rt i = place ?m rt' i" for i
      by (simp_all add: atom_at_def struct_at_def hash_next_def [abs_def] place_def)
    have run: "JS_ResizeAtomHash jm (2 ^ k) rt = Some (?rt, 0)"
      using m True lim power_and_mask [of k] r(1) by (simp add: JS_ResizeAtomHash_def power_mask mask_eq_exp_minus_1)
    have l2: "rt_like rt1 rt'" "same_refs rt1 rt'" using r(4) by (simp_all add: relinked_def same_refs_def)
    then have "rt_like rt1 ?rt" "same_refs rt1 ?rt" by (simp_all add: rt_like_def same_refs_def)
    then have like: "rt_like rt ?rt" "same_refs rt ?rt" using rt_like_trans [OF l1(1)] l1(2) by (simp_all add: same_refs_def)
    have "hashed_at ?rt = hashed_at rt" by (rule hashed_at_like [OF like(1)])
    then have "holds ?m ?rt new' ncs' (hashed_at ?rt)" using r(3) by (simp add: uu holds_def g)
    moreover have "symbol_links ?rt"
    proof -
      have "symbol_links rt1" using c by (simp add: chains_ok_def symbol_links_def f)
      then have "symbol_links rt'" using symbol_links_relinked [OF r(4)] hashed_at_like [OF l1(1)] uu by simp
      then show ?thesis by (simp add: symbol_links_def g)
    qed
    ultimately have "atoms_hash ?rt ncs'" by (simp add: atoms_hash_alt power_mask [simplified])
    moreover have "hash_size_ok ?rt" using r(2) k by (auto simp: hash_size_ok_def)
    ultimately show ?thesis using run like by blast
  qed
qed
section \<open>Release\<close>

text \<open>The fields of the objects that the links do not belong to.\<close>

definition views :: "'o atom_rt \<Rightarrow> nat \<Rightarrow> (int \<times> JSString \<times> nat \<times> u32) option" where
  "views rt p = map_option (\<lambda>a. (as_ref_count a, as_string a, as_atom_type a, as_hash a)) (as_heap rt p)"

lemma views_like: "rt_like rt rt' \<Longrightarrow> same_refs rt rt' \<Longrightarrow> views rt' = views rt"
proof
  fix p assume "rt_like rt rt'" "same_refs rt rt'"
  then have "rel_option struct_like (as_heap rt p) (as_heap rt' p)"
    "map_option as_ref_count (as_heap rt' p) = map_option as_ref_count (as_heap rt p)" by (simp_all add: rt_like_def same_refs_def)
  then show "views rt' p = views rt p" by (cases "as_heap rt p"; cases "as_heap rt' p") (simp_all add: views_def struct_like_def)
qed

lemma unlink_loop_finds:
  assumes "slots_inj rt" "chain (hash_next rt) i (i # rest)" "distinct (i # rest)"
    "\<And>j. j \<in> set (i # rest) \<Longrightarrow> struct_at rt j \<noteq> None" "atom_at rt i = Some p1" "atom_at rt t = Some p" "t \<in> set rest"
  shows "\<exists>js ks i0 p0 a0. i # rest = js @ i0 # t # ks \<and> atom_at rt i0 = Some p0 \<and> as_heap rt p0 = Some a0 \<and>
    unlink_loop rt p i p1 = Some (struct_set p0 (a0\<lparr>as_hash_next := hash_next rt t\<rparr>) rt, t)"
  using assms
proof (induction rest arbitrary: i p1)
  case (Cons j rest)
  obtain a1 where a1: "as_heap rt p1 = Some a1" using Cons.prems(4) [of i] Cons.prems(5) by (auto simp: struct_at_def)
  have i: "i \<noteq> 0" "as_hash_next a1 = j" "chain (hash_next rt) j (j # rest)"
    using Cons.prems(2) by (auto simp: hash_next_at [OF Cons.prems(5) a1])
  obtain p2 a2 where p2: "atom_at rt j = Some p2" "as_heap rt p2 = Some a2"
    using Cons.prems(4) [of j] by (auto simp: struct_at_Some)
  show ?case
  proof (cases "t = j")
    case True
    then have "p2 = p" using Cons.prems(6) p2 by simp
    then have "unlink_loop rt p i p1 = Some (struct_set p1 (a1\<lparr>as_hash_next := hash_next rt t\<rparr>) rt, t)"
      using a1 i p2 True by (subst unlink_loop.simps) (simp add: hash_next_at [OF p2])
    then show ?thesis using True Cons.prems(5) a1 by (metis append_Nil)
  next
    case False
    then have ne: "p2 \<noteq> p" using slots_injD [OF Cons.prems(1) p2(1)] Cons.prems(6) by blast
    have "unlink_loop rt p i p1 = unlink_loop rt p j p2"
      using a1 i p2 ne by (subst unlink_loop.simps) simp
    moreover obtain js ks i0 p0 a0 where "j # rest = js @ i0 # t # ks" "atom_at rt i0 = Some p0" "as_heap rt p0 = Some a0"
      "unlink_loop rt p j p2 = Some (struct_set p0 (a0\<lparr>as_hash_next := hash_next rt t\<rparr>) rt, t)"
      using Cons.IH [OF Cons.prems(1) i(3) _ _ p2(1) Cons.prems(6)] Cons.prems(3,4,7) False by auto
    ultimately show ?thesis by (metis append_Cons)
  qed
qed simp

lemma remove1_split: "distinct (js @ i0 # t # ks) \<Longrightarrow> remove1 t (js @ i0 # t # ks) = js @ i0 # ks"
  by (auto simp: remove1_append)

lemma unlink_atom_ok:
  assumes core: "atoms_core rt" and s: "hash_size_ok rt" and h: "atoms_hash rt cs"
    and at: "atom_at rt t = Some p" and a: "as_heap rt p = Some a" and k: "hashed a"
  defines "b \<equiv> hash_place rt (as_hash a)"
  shows "\<exists>rt'. unlink_atom rt p a = Some (rt', t) \<and> rt_like rt rt' \<and> same_refs rt rt' \<and> hash_size_ok rt' \<and>
    atom_hash_size rt' = atom_hash_size rt \<and>
    table (hash_next rt') (atom_hash rt') (cs(b := remove1 t (cs b))) \<and> symbol_links rt' \<and> t \<noteq> 0"
proof -
  note inj = core_inj [OF core]
  have b: "b < length (atom_hash rt)" unfolding b_def by (rule hash_place_less [OF s])
  have ch: "chain (hash_next rt) (atom_hash rt ! c) (cs c)" if "c < length (atom_hash rt)" for c
    using h that by (simp add: atoms_hash_def table_def)
  have cs: "distinct (cs c)" "set (cs c) = {i. \<exists>a. struct_at rt i = Some a \<and> hashed a \<and> hash_place rt (as_hash a) = c}" for c
    using h by (simp_all add: atoms_hash_def)
  have st: "struct_at rt t = Some a" using at a by (simp add: struct_at_def)
  then have t: "t \<in> set (cs b)" using k cs(2) by (auto simp: b_def)
  then obtain i rest where e: "cs b = i # rest" "atom_hash rt ! b = i" using ch [OF b] by (cases "cs b") auto
  have t0: "t \<noteq> 0" using chain_nonzero [OF ch [OF b]] t by metis
  have ty: "as_atom_type a \<noteq> JS_ATOM_TYPE_SYMBOL" using k by (auto simp: hashed_def)
  obtain p1 where p1: "atom_at rt i = Some p1" using e(1) cs(2) [of b] by (auto simp: struct_at_Some)
  show ?thesis
  proof (cases "t = i")
    case True
    let ?rt = "rt\<lparr>atom_hash := (atom_hash rt)[b := as_hash_next a]\<rparr>"
    have g: "hash_next ?rt = hash_next rt" "struct_at ?rt i = struct_at rt i" for i
      by (simp_all add: hash_next_def [abs_def] struct_at_def atom_at_def)
    have "p1 = p" using True at p1 by simp
    then have run: "unlink_atom rt p a = Some (?rt, t)"
      using ty b e(2) p1 True by (simp add: unlink_atom_def b_def [symmetric] Let_def)
    have "chain (hash_next rt) (as_hash_next a) rest"
      using ch [OF b] e True hash_next_at [OF at a] by simp
    then have "chain (hash_next rt) ((atom_hash rt)[b := as_hash_next a] ! c) ((cs(b := remove1 t (cs b))) c)" if "c < length (atom_hash rt)" for c
      using ch [OF that] e True b by (cases "c = b") simp_all
    then have "table (hash_next ?rt) (atom_hash ?rt) (cs(b := remove1 t (cs b)))" by (simp add: table_def g)
    moreover have "rt_like rt ?rt" "same_refs rt ?rt" "hash_size_ok ?rt" using s by (simp_all add: rt_like_def same_refs_def hash_size_ok_def)
    moreover have "symbol_links ?rt" using h by (simp add: symbol_links_def atoms_hash_def g)
    ultimately show ?thesis using run t0 by auto
  next
    case False
    have live: "struct_at rt j \<noteq> None" if j: "j \<in> set (i # rest)" for j using cs(2) [of b] j e(1) by auto
    have ir: "chain (hash_next rt) i (i # rest)" "distinct (i # rest)" "t \<in> set rest"
      using ch [OF b] cs(1) [of b] e t False by auto
    obtain js ks i0 p0 a0 where u: "i # rest = js @ i0 # t # ks" "atom_at rt i0 = Some p0" "as_heap rt p0 = Some a0"
      "unlink_loop rt p i p1 = Some (struct_set p0 (a0\<lparr>as_hash_next := hash_next rt t\<rparr>) rt, t)"
      using unlink_loop_finds [OF inj ir(1,2) live p1 at ir(3)] by blast
    let ?rt = "struct_set p0 (a0\<lparr>as_hash_next := hash_next rt t\<rparr>) rt"
    have r: "relinked rt ?rt {i0}" by (rule relinked_set [OF inj u(2,3)])
    have nx: "hash_next ?rt = (hash_next rt)(i0 := hash_next rt t)" unfolding hash_next_set [OF inj u(2)] by simp
    have "p1 \<noteq> p" using False slots_injD [OF inj p1] at by blast
    then have run: "unlink_atom rt p a = Some (?rt, t)"
      using ty b e(2) p1 u(4) by (simp add: unlink_atom_def b_def [symmetric] Let_def)
    have i0: "i0 \<in> set (cs b)" using u(1) e(1) by simp
    have "chain (hash_next ?rt) (atom_hash rt ! c) ((cs(b := remove1 t (cs b))) c)" if c: "c < length (atom_hash rt)" for c
    proof (cases "c = b")
      case True
      have d: "distinct (js @ i0 # t # ks)" using cs(1) [of b] e(1) u(1) by simp
      then have "remove1 t (cs b) = js @ i0 # ks" using e(1) u(1) remove1_split by simp
      then show ?thesis using chain_remove [OF _ d, of "hash_next rt"] ch [OF b] e u(1) True unfolding nx by simp
    next
      case False
      then have "i0 \<notin> set (cs c)" using i0 cs(2) [of b] cs(2) [of c] by auto
      then show ?thesis using relinked_chain [OF r ch [OF c]] False by simp
    qed
    then have "table (hash_next ?rt) (atom_hash ?rt) (cs(b := remove1 t (cs b)))" by (simp add: table_def)
    moreover have "rt_like rt ?rt" "same_refs rt ?rt" using r by (simp_all add: relinked_def same_refs_def)
    moreover have "hash_size_ok ?rt" using s by (simp add: hash_size_ok_def)
    moreover have "symbol_links ?rt"
    proof (rule symbol_links_relinked [OF r])
      show "{i0} \<subseteq> hashed_at rt" using i0 cs(2) [of b] by (auto simp: hashed_at_def)
      show "symbol_links rt" using h by (simp add: atoms_hash_alt)
    qed
    ultimately show ?thesis using run t0 by auto
  qed
qed
definition released :: "'o atom_rt \<Rightarrow> nat \<Rightarrow> nat \<Rightarrow> 'o atom_rt" where
  "released rt t p = rt\<lparr>atom_array := (atom_array rt)[t := Free_slot (atom_free_index rt)], atom_free_index := t,
     as_heap := (as_heap rt)(p := None), atom_count := atom_count rt - 1\<rparr>"

lemma finite_live: "finite {i. atom_at rt i \<noteq> None}"
  by (rule finite_subset [of _ "{..<length (atom_array rt)}"]) (auto simp: atom_at_Some)

lemma released_at:
  assumes "slots_inj rt" "atom_at rt t = Some p"
  shows "atom_at (released rt t p) i = (if i = t then None else atom_at rt i)"
    "struct_at (released rt t p) i = (if i = t then None else struct_at rt i)"
proof -
  have t: "t < length (atom_array rt)" using assms(2) by (simp add: atom_at_Some)
  show at: "atom_at (released rt t p) i = (if i = t then None else atom_at rt i)" for i
    using t by (simp add: atom_at_def released_def rd_def)
  show "struct_at (released rt t p) i = (if i = t then None else struct_at rt i)"
  proof (cases "i = t \<or> atom_at rt i = None")
    case False
    then obtain q where q: "i \<noteq> t" "atom_at rt i = Some q" by blast
    then have "q \<noteq> p" using slots_injD [OF assms(1,2)] by blast
    then show ?thesis using q at by (simp add: struct_at_def released_def)
  qed (auto simp: struct_at_def at)
qed

lemma released_core:
  assumes core: "atoms_core rt" and at: "atom_at rt t = Some p" and t: "t \<noteq> 0"
  shows "atoms_core (released rt t p)" "1 \<le> atom_count rt"
proof -
  note inj = core_inj [OF core]
  note rat = released_at [OF inj at]
  have card: "card {i. atom_at rt i \<noteq> None} = Suc (card {i. atom_at (released rt t p) i \<noteq> None})"
  proof -
    have "{i. atom_at (released rt t p) i \<noteq> None} = {i. atom_at rt i \<noteq> None} - {t}" by (auto simp: rat)
    then show ?thesis using card_Suc_Diff1 [OF finite_live, of t rt] at by simp
  qed
  then show "1 \<le> atom_count rt" using core by (simp add: atoms_core_def)
  have "struct_ok (released rt t p) q a" if "as_heap (released rt t p) q = Some a" for q a
  proof -
    have q: "q \<noteq> p" "as_heap rt q = Some a" using that by (auto simp: released_def split: if_splits)
    have "(\<exists>i. atom_at (released rt t p) i = Some q) \<longleftrightarrow> (\<exists>i. atom_at rt i = Some q)"
      using q(1) at rat(1) by (metis option.distinct(1) option.inject)
    moreover have "as_fresh (released rt t p) = as_fresh rt" by (simp add: released_def)
    ultimately show ?thesis using core_struct [OF core q(2)] t by (simp add: struct_ok_def rat)
  qed
  moreover have "as_heap (released rt t p) q \<noteq> None" if "atom_at (released rt t p) i = Some q" for i q
  proof -
    have i: "i \<noteq> t" "atom_at rt i = Some q" using that by (auto simp: rat split: if_splits)
    then have "q \<noteq> p" using slots_injD [OF inj at] by blast
    then show ?thesis using core_slot [OF core i(2)] by (auto simp: released_def)
  qed
  moreover have "slots_inj (released rt t p)" using inj by (auto simp: slots_inj_def rat split: if_splits)
  moreover have "keys_unique (released rt t p)"
  proof -
    have "keys_unique rt" using core by (simp add: atoms_core_def)
    then show ?thesis unfolding keys_unique_def by (simp add: released_def)
  qed
  moreover have "atom_at (released rt t p) 0 \<noteq> None" if "0 < atom_size (released rt t p)"
    using core that t by (simp add: rat atoms_core_def) (simp add: released_def)
  moreover have "length (atom_array (released rt t p)) = atom_size (released rt t p)" "atom_size (released rt t p) \<le> atom_size_limit"
    "atom_count (released rt t p) = atom_count rt - 1" using core by (simp_all add: atoms_core_def released_def)
  moreover have "atom_count rt = int (card {i. atom_at rt i \<noteq> None})" using core unfolding atoms_core_def by blast
  ultimately show "atoms_core (released rt t p)" unfolding atoms_core_def card by auto
qed

lemma released_free:
  assumes inj: "slots_inj rt" and at: "atom_at rt t = Some p" and t: "t \<noteq> 0" and f: "atoms_free rt fs"
  shows "atoms_free (released rt t p) (t # fs)"
proof -
  have tl: "t < length (atom_array rt)" using at by (simp add: atom_at_Some)
  have nt: "t \<notin> set fs" using f at by (simp add: atoms_free_def)
  have "chain (free_next (released rt t p)) (atom_free_index rt) fs"
  proof (rule chain_next_cong)
    show "chain (free_next rt) (atom_free_index rt) fs" using f by (simp add: atoms_free_def)
    show "free_next (released rt t p) j = free_next rt j" if "j \<in> set fs" for j
      using that nt by (cases "j = t") (simp_all add: free_next_def released_def)
  qed
  moreover have "free_next (released rt t p) t = atom_free_index rt" using tl by (simp add: free_next_def released_def)
  moreover have "set (t # fs) = {i. i < length (atom_array (released rt t p)) \<and> atom_at (released rt t p) i = None}"
  proof -
    have "length (atom_array (released rt t p)) = length (atom_array rt)" by (simp add: released_def)
    moreover have "set fs = {i. i < length (atom_array rt) \<and> atom_at rt i = None}" using f by (simp add: atoms_free_def)
    ultimately show ?thesis using tl at by (auto simp: released_at(1) [OF inj at])
  qed
  moreover have "distinct fs" "atom_free_index (released rt t p) = t" using f by (simp_all add: atoms_free_def released_def)
  ultimately show ?thesis unfolding atoms_free_def using t nt by simp
qed

lemma like_hashed:
  assumes l: "rt_like rt rt'"
  shows "(\<exists>c. struct_at rt' i = Some c \<and> hashed c \<and> f (as_hash c) = b) \<longleftrightarrow> (\<exists>c. struct_at rt i = Some c \<and> hashed c \<and> f (as_hash c) = b)"
proof (cases "struct_at rt i")
  case None
  then have "struct_at rt' i = None" using like_struct_back [OF l, of i] by (cases "struct_at rt' i") auto
  then show ?thesis using None by simp
next
  case (Some a)
  obtain c where "struct_at rt' i = Some c" "struct_like a c" by (rule like_struct_at [OF l Some])
  then show ?thesis using Some by (simp add: struct_like_parts)
qed

lemma FreeAtomStruct_ok:
  assumes ok: "atoms_ok rt" and at: "atom_at rt t = Some p" and t: "t \<noteq> 0"
  shows "\<exists>rt'. JS_FreeAtomStruct rt p = Some rt' \<and> atoms_ok rt' \<and> views rt' = (views rt)(p := None) \<and>
    atom_at rt' = (atom_at rt)(t := None) \<and> as_fresh rt' = as_fresh rt \<and> atom_size rt' = atom_size rt \<and>
    atom_hash_size rt' = atom_hash_size rt"
proof -
  obtain fs cs where inv: "atoms_core rt" "atoms_free rt fs" "hash_size_ok rt" "atoms_hash rt cs" using ok by (auto simp: atoms_ok_def)
  obtain a where a: "as_heap rt p = Some a" "struct_ok rt p a" by (rule core_slot [OF inv(1) at])
  have links: "symbol_links rt" using inv(4) by (simp add: atoms_hash_alt)
  have sets: "distinct (cs b)" "set (cs b) = {i. \<exists>a. struct_at rt i = Some a \<and> hashed a \<and> hash_place rt (as_hash a) = b}" for b
    using inv(4) by (simp_all add: atoms_hash_def)
  let ?b = "hash_place rt (as_hash a)"
  obtain rt1 cs1 where u: "unlink_atom rt p a = Some (rt1, t)" "rt_like rt rt1" "same_refs rt rt1" "hash_size_ok rt1"
      "atom_hash_size rt1 = atom_hash_size rt" "table (hash_next rt1) (atom_hash rt1) cs1" "symbol_links rt1"
    and cs1: "\<And>b. distinct (cs1 b)" "\<And>b. set (cs1 b) = set (cs b) - {t}"
  proof (cases "hashed a")
    case True
    obtain rt1 where r: "unlink_atom rt p a = Some (rt1, t)" "rt_like rt rt1" "same_refs rt rt1" "hash_size_ok rt1"
      "atom_hash_size rt1 = atom_hash_size rt" "table (hash_next rt1) (atom_hash rt1) (cs(?b := remove1 t (cs ?b)))" "symbol_links rt1"
      using unlink_atom_ok [OF inv(1,3,4) at a(1) True] by blast
    have "set ((cs(?b := remove1 t (cs ?b))) b) = set (cs b) - {t}" for b
    proof (cases "b = ?b")
      case False
      then have "t \<notin> set (cs b)" using at a(1) by (auto simp: sets(2) struct_at_def)
      then show ?thesis using False by simp
    qed (simp add: set_remove1_eq sets(1))
    then show thesis using that [OF r] sets(1) by simp
  next
    case False
    then have "as_atom_type a = 3" using a(2) at by (auto simp: struct_ok_def hashed_def)
    moreover from this have "as_hash_next a = t" using links at a(1) by (simp add: symbol_links_def struct_at_def)
    ultimately have "unlink_atom rt p a = Some (rt, t)" by (simp add: unlink_atom_def)
    moreover have "t \<notin> set (cs b)" for b using False at a(1) by (auto simp: sets(2) struct_at_def)
    ultimately show thesis using that [of rt cs] inv links sets(1) by (simp add: atoms_hash_def same_refs_def)
  qed
  have core1: "atoms_core rt1" by (rule atoms_core_like [OF u(2) inv(1)])
  have at1: "atom_at rt1 t = Some p" using at rt_like_at [OF u(2)] by simp
  have free1: "atoms_free rt1 fs" using inv(2) atoms_free_like [OF u(2)] by simp
  note inj1 = core_inj [OF core1]
  note rat = released_at [OF inj1 at1]
  let ?rt = "released rt1 t p"
  have tl: "t < length (atom_array rt1)" using at1 by (simp add: atom_at_Some)
  have run: "JS_FreeAtomStruct rt p = Some ?rt"
    using a(1) u(1) tl released_core(2) [OF core1 at1 t] by (simp add: JS_FreeAtomStruct_def released_def)
  have hn: "hash_next ?rt i = hash_next rt1 i" if "i \<noteq> t" for i using that by (simp add: hash_next_def rat)
  have "table (hash_next ?rt) (atom_hash ?rt) cs1"
  proof -
    have "chain (hash_next ?rt) (atom_hash rt1 ! b) (cs1 b)" if "b < length (atom_hash rt1)" for b
    proof (rule chain_next_cong)
      show "chain (hash_next rt1) (atom_hash rt1 ! b) (cs1 b)" using u(6) that by (simp add: table_def)
      show "hash_next ?rt j = hash_next rt1 j" if "j \<in> set (cs1 b)" for j using that cs1(2) hn by auto
    qed
    then show ?thesis by (simp add: table_def released_def)
  qed
  moreover have "set (cs1 b) = {i. \<exists>c. struct_at ?rt i = Some c \<and> hashed c \<and> hash_place ?rt (as_hash c) = b}" for b
  proof -
    have hp: "hash_place ?rt h = hash_place rt h" for h using u(5) by (simp add: hash_place_def released_def)
    have "(\<exists>c. struct_at rt1 i = Some c \<and> hashed c \<and> hash_place rt (as_hash c) = b) \<longleftrightarrow>
        (\<exists>c. struct_at rt i = Some c \<and> hashed c \<and> hash_place rt (as_hash c) = b)" for i
      by (rule like_hashed [OF u(2)])
    then show ?thesis unfolding cs1(2) sets(2) hp rat by auto
  qed
  moreover have "symbol_links ?rt" using u(7) by (simp add: symbol_links_def rat)
  ultimately have "atoms_hash ?rt cs1" using cs1(1) by (simp add: atoms_hash_def symbol_links_def)
  moreover have "hash_size_ok ?rt" using u(4) by (simp add: hash_size_ok_def released_def)
  ultimately have "atoms_ok ?rt"
    using released_core(1) [OF core1 at1 t] released_free [OF inj1 at1 t free1] by (auto simp: atoms_ok_def)
  moreover have "views ?rt = (views rt)(p := None)"
    using views_like [OF u(2,3)] by (simp add: fun_eq_iff views_def released_def)
  moreover have "atom_at ?rt = (atom_at rt)(t := None)" using rt_like_at [OF u(2)] by (simp add: fun_eq_iff rat)
  moreover have "as_fresh ?rt = as_fresh rt" "atom_size ?rt = atom_size rt" "atom_hash_size ?rt = atom_hash_size rt"
    using u(2,5) by (simp_all add: released_def rt_like_def)
  ultimately show ?thesis using run by blast
qed
end
