(* ===== verification/Js_Atom_Intern.thy ===== *)
theory Js_Atom_Intern
  imports Js_Atom_Table
begin

text \<open>
  Interning and references.  The references that the rest of the engine holds are counted
  by a function from objects to numbers: a string value or an atom counts for its object,
  except that atoms with a predefined index are not counted.  With these counts every operation
  on atoms keeps the invariant of the table and the agreement of the reference counts.
\<close>

section \<open>References\<close>

definition pinned :: "'o atom_rt \<Rightarrow> nat \<Rightarrow> bool" where
  "pinned rt p \<longleftrightarrow> (\<exists>i < JS_ATOM_END. atom_at rt i = Some p)"

definition ref_ok :: "'o atom_rt \<Rightarrow> (nat \<Rightarrow> nat) \<Rightarrow> nat \<Rightarrow> bool" where
  "ref_ok rt held p \<longleftrightarrow>
     (case views rt p of
        None \<Rightarrow> held p = 0
      | Some (n, _) \<Rightarrow> n = int (held p) + (if pinned rt p then 1 else 0) \<and> 0 < n)"

definition client_ok :: "'o atom_rt \<Rightarrow> (nat \<Rightarrow> nat) \<Rightarrow> bool" where
  "client_ok rt held \<longleftrightarrow> atoms_ok rt \<and> (\<forall>p. ref_ok rt held p)"

text \<open>What an operation leaves of the other objects: strings do not change, atoms keep their index
  as long as they exist, and released objects do not come back.\<close>

definition frame :: "'o atom_rt \<Rightarrow> 'o atom_rt \<Rightarrow> bool" where
  "frame rt rt' \<longleftrightarrow> as_fresh rt \<le> as_fresh rt' \<and>
     (\<forall>p < as_fresh rt. views rt p = None \<longrightarrow> views rt' p = None) \<and>
     (\<forall>p n s t h. views rt p = Some (n, s, t, h) \<longrightarrow>
        views rt' p = None \<or> (\<exists>n' t' h'. views rt' p = Some (n', s, t', h') \<and> (t \<noteq> 0 \<longrightarrow> t' = t \<and> h' = h))) \<and>
     (\<forall>i p. atom_at rt i = Some p \<longrightarrow> views rt' p \<noteq> None \<longrightarrow> atom_at rt' i = Some p) \<and>
     (\<forall>p. pinned rt p \<longrightarrow> views rt p \<noteq> None \<longrightarrow> views rt' p \<noteq> None)"

lemma frame_refl [simp]: "frame rt rt"
  by (auto simp: frame_def)

lemma views_heap: "as_heap rt p = Some a \<Longrightarrow> views rt p = Some (as_ref_count a, as_string a, as_atom_type a, as_hash a)"
  by (simp add: views_def)

lemma views_Some:
  "views rt p = Some (n, s, t, h) \<longleftrightarrow> (\<exists>a. as_heap rt p = Some a \<and> as_ref_count a = n \<and> as_string a = s \<and> as_atom_type a = t \<and> as_hash a = h)"
  by (auto simp: views_def)

lemma views_None: "views rt p = None \<longleftrightarrow> as_heap rt p = None"
  by (simp add: views_def)

lemma core_fresh: "atoms_core rt \<Longrightarrow> views rt p = Some v \<Longrightarrow> p < as_fresh rt"
  by (cases "as_heap rt p") (auto simp: views_def atoms_core_def struct_ok_def)

lemma frameD:
  assumes "frame rt rt'"
  shows "as_fresh rt \<le> as_fresh rt'" "p < as_fresh rt \<Longrightarrow> views rt p = None \<Longrightarrow> views rt' p = None"
    "views rt p = Some (n, s, t, h) \<Longrightarrow>
       views rt' p = None \<or> (\<exists>n' t' h'. views rt' p = Some (n', s, t', h') \<and> (t \<noteq> 0 \<longrightarrow> t' = t \<and> h' = h))"
    "atom_at rt i = Some p \<Longrightarrow> views rt' p \<noteq> None \<Longrightarrow> atom_at rt' i = Some p"
    "pinned rt p \<Longrightarrow> views rt p \<noteq> None \<Longrightarrow> views rt' p \<noteq> None"
  using assms unfolding frame_def by blast+

lemma frame_trans:
  assumes f: "frame r1 r2" and g: "frame r2 r3" and c: "atoms_core r1"
  shows "frame r1 r3"
  unfolding frame_def
proof (intro conjI allI impI)
  show "as_fresh r1 \<le> as_fresh r3" using frameD(1) [OF f] frameD(1) [OF g] by simp
  have gone: "views r3 p = None" if "p < as_fresh r1" "views r2 p = None" for p
    using frameD(2) [OF g _ that(2)] frameD(1) [OF f] that(1) by simp
  show "views r3 p = None" if "p < as_fresh r1" "views r1 p = None" for p
    using gone [OF that(1)] frameD(2) [OF f that] by simp
  show "views r3 p = None \<or> (\<exists>n' t' h'. views r3 p = Some (n', s, t', h') \<and> (t \<noteq> 0 \<longrightarrow> t' = t \<and> h' = h))"
    if v: "views r1 p = Some (n, s, t, h)" for p n s t h
  proof (cases "views r2 p = None")
    case True
    then show ?thesis using gone [OF core_fresh [OF c v]] by simp
  next
    case False
    then obtain n' t' h' where v2: "views r2 p = Some (n', s, t', h')" "t \<noteq> 0 \<longrightarrow> t' = t \<and> h' = h"
      using frameD(3) [OF f v] by (elim disjE) auto
    then show ?thesis using frameD(3) [OF g v2(1)] by auto
  qed
  show "atom_at r3 i = Some p" if i: "atom_at r1 i = Some p" "views r3 p \<noteq> None" for i p
  proof -
    obtain a where "as_heap r1 p = Some a" using core_slot [OF c i(1)] by blast
    then have "p < as_fresh r1" using core_fresh [OF c] views_heap by metis
    then have "views r2 p \<noteq> None" using i(2) by (elim contrapos_nn) (rule gone)
    then show ?thesis using frameD(4) [OF g frameD(4) [OF f i(1)] i(2)] by simp
  qed
  show "views r3 p \<noteq> None" if p: "pinned r1 p" "views r1 p \<noteq> None" for p
  proof -
    have v2: "views r2 p \<noteq> None" by (rule frameD(5) [OF f p])
    obtain i where "i < JS_ATOM_END" "atom_at r1 i = Some p" using p(1) by (auto simp: pinned_def)
    then have "pinned r2 p" using frameD(4) [OF f _ v2] by (auto simp: pinned_def)
    then show ?thesis by (rule frameD(5) [OF g _ v2])
  qed
qed

text \<open>The names of string atoms after an operation: names from before and those of \<open>N\<close>.\<close>

definition names_from :: "'o atom_rt \<Rightarrow> 'o atom_rt \<Rightarrow> u16 list set \<Rightarrow> bool" where
  "names_from rt rt' N \<longleftrightarrow>
     (\<forall>q n s h. views rt' q = Some (n, s, JS_ATOM_TYPE_STRING, h) \<longrightarrow>
        js_units s \<in> N \<or> (\<exists>m. views rt q = Some (m, s, JS_ATOM_TYPE_STRING, h)))"

lemma names_from_refl [simp]: "names_from rt rt N"
  by (auto simp: names_from_def)

lemma names_from_trans: "names_from r1 r2 N \<Longrightarrow> names_from r2 r3 N \<Longrightarrow> names_from r1 r3 N"
  unfolding names_from_def by blast

lemma names_from_mono: "names_from r1 r2 M \<Longrightarrow> M \<subseteq> N \<Longrightarrow> names_from r1 r2 N"
  unfolding names_from_def by blast

lemma names_from_same: "views rt' = views rt \<Longrightarrow> names_from rt rt' N"
  by (simp add: names_from_def)

lemma names_from_update:
  assumes "views rt' = (views rt)(p := x)"
    "\<And>n s h. x = Some (n, s, JS_ATOM_TYPE_STRING, h) \<Longrightarrow> js_units s \<in> N \<or> (\<exists>m. views rt p = Some (m, s, JS_ATOM_TYPE_STRING, h))"
  shows "names_from rt rt' N"
  unfolding names_from_def assms(1) using assms(2) by auto

section \<open>Reference counts\<close>

lemma set_ref:
  fixes n :: int
  assumes ok: "atoms_ok rt" and a: "as_heap rt p = Some a"
  defines "rt' \<equiv> struct_set p (a\<lparr>as_ref_count := n\<rparr>) rt"
  shows "atoms_ok rt'" "views rt' = (views rt)(p := Some (n, as_string a, as_atom_type a, as_hash a))" "atom_at rt' = atom_at rt"
    "frame rt rt'" "as_fresh rt' = as_fresh rt" "names_from rt rt' {}"
proof -
  have like: "rt_like rt rt'" unfolding rt'_def by (rule rt_like_set [OF a]) (simp add: struct_like_def)
  obtain fs cs where inv: "atoms_core rt" "atoms_free rt fs" "hash_size_ok rt" "atoms_hash rt cs" using ok by (auto simp: atoms_ok_def)
  have hn: "hash_next rt' i = hash_next rt i" for i
    using a by (cases "atom_at rt i") (auto simp: hash_next_def struct_at_def rt'_def)
  have "table (hash_next rt') (atom_hash rt') cs"
  proof -
    have "hash_next rt' = hash_next rt" "atom_hash rt' = atom_hash rt" using hn by (auto simp: rt'_def)
    then show ?thesis using inv(4) by (simp add: atoms_hash_def)
  qed
  moreover have "set (cs b) = {i. \<exists>c. struct_at rt' i = Some c \<and> hashed c \<and> hash_place rt' (as_hash c) = b}" for b
  proof -
    have "hash_place rt' = hash_place rt" by (simp add: fun_eq_iff hash_place_def rt'_def)
    then show ?thesis using inv(4) by (simp add: like_hashed [OF like] atoms_hash_def)
  qed
  moreover have "as_hash_next c = i" if c: "struct_at rt' i = Some c" "as_atom_type c = 3" for i c
  proof -
    obtain d where d: "struct_at rt i = Some d" "struct_like d c" by (rule like_struct_back [OF like c(1)])
    then show ?thesis using hn [of i] c inv(4) by (simp add: hash_next_def atoms_hash_def struct_like_def)
  qed
  ultimately have "atoms_hash rt' cs" using inv(4) by (simp add: atoms_hash_def)
  moreover have "hash_size_ok rt'" using inv(3) by (simp add: hash_size_ok_def rt'_def)
  ultimately show "atoms_ok rt'" using atoms_core_like [OF like inv(1)] inv(2) atoms_free_like [OF like] by (auto simp: atoms_ok_def)
  show v: "views rt' = (views rt)(p := Some (n, as_string a, as_atom_type a, as_hash a))" by (simp add: fun_eq_iff views_def rt'_def)
  show at: "atom_at rt' = atom_at rt" by (simp add: fun_eq_iff rt'_def)
  show fr: "as_fresh rt' = as_fresh rt" by (simp add: rt'_def)
  show "frame rt rt'" unfolding frame_def v at fr using views_heap [OF a] by auto
  show "names_from rt rt' {}" by (rule names_from_update [OF v]) (use views_heap [OF a] in auto)
qed

text \<open>Strings that are not atoms come and go without effect on the table.\<close>

lemma strings_change:
  assumes ok: "atoms_ok rt"
    and same: "atom_array rt' = atom_array rt" "atom_size rt' = atom_size rt" "atom_free_index rt' = atom_free_index rt"
      "atom_count rt' = atom_count rt" "atom_hash rt' = atom_hash rt" "atom_hash_size rt' = atom_hash_size rt"
      "atom_count_resize rt' = atom_count_resize rt" "as_fresh rt \<le> as_fresh rt'"
    and atoms: "\<And>i q. atom_at rt i = Some q \<Longrightarrow> as_heap rt' q = as_heap rt q"
    and strings: "\<And>q a. (\<And>i. atom_at rt i \<noteq> Some q) \<Longrightarrow> as_heap rt' q = Some a \<Longrightarrow>
      q < as_fresh rt' \<and> as_atom_type a = 0 \<and> js_string_ok (as_string a)"
  shows "atoms_ok rt'"
proof -
  obtain fs cs where inv: "atoms_core rt" "atoms_free rt fs" "hash_size_ok rt" "atoms_hash rt cs" using ok by (auto simp: atoms_ok_def)
  have at: "atom_at rt' = atom_at rt" by (simp add: fun_eq_iff atom_at_def same)
  have st: "struct_at rt' = struct_at rt"
  proof
    fix i show "struct_at rt' i = struct_at rt i"
      using atoms [of i] by (cases "atom_at rt i") (simp_all add: struct_at_def at)
  qed
  have "struct_ok rt' q a" if a: "as_heap rt' q = Some a" for q a
  proof (cases "\<exists>i. atom_at rt i = Some q")
    case True
    then have "as_heap rt q = Some a" using atoms a by auto
    then show ?thesis using core_struct [OF inv(1)] same(8) by (fastforce simp: struct_ok_def at)
  next
    case False
    then have "q < as_fresh rt'" "as_atom_type a = 0" "js_string_ok (as_string a)" using strings [OF _ a] by blast+
    then show ?thesis using False by (auto simp: struct_ok_def at hashed_def)
  qed
  moreover have "as_heap rt' q \<noteq> None" if q: "atom_at rt' i = Some q" for i q
    using atoms [of i q] core_slot [OF inv(1), of i q] q unfolding at by auto
  moreover have "keys_unique rt'" unfolding keys_unique_def
  proof (intro allI impI)
    fix p q a b assume h: "as_heap rt' p = Some a" "as_heap rt' q = Some b" "hashed a" "as_atom_type b = as_atom_type a"
      and u: "atom_units b = atom_units a"
    have "\<exists>i. atom_at rt i = Some r" if r: "as_heap rt' r = Some c" "as_atom_type c \<noteq> 0" for r c using strings [OF _ r(1)] r(2) by blast
    then obtain i j where "atom_at rt i = Some p" "atom_at rt j = Some q" using h by (metis hashed_def one_neq_zero zero_neq_numeral)
    then show "p = q" using h u atoms inv(1) unfolding atoms_core_def keys_unique_def by metis
  qed
  moreover have "slots_inj rt'" using core_inj [OF inv(1)] by (simp add: slots_inj_def at)
  ultimately have "atoms_core rt'" using inv(1) unfolding atoms_core_def by (simp add: at same)
  moreover have "atoms_free rt' fs"
  proof -
    have "free_next rt' = free_next rt" by (simp add: fun_eq_iff free_next_def same)
    then show ?thesis using inv(2) by (simp add: atoms_free_def at same)
  qed
  moreover have "hash_size_ok rt'" using inv(3) by (simp add: hash_size_ok_def same)
  moreover have "atoms_hash rt' cs"
  proof -
    have "hash_next rt' = hash_next rt" "hash_place rt' = hash_place rt"
      by (simp_all add: fun_eq_iff hash_next_def st hash_place_def same)
    then show ?thesis using inv(4) by (simp add: atoms_hash_def st same)
  qed
  ultimately show ?thesis by (auto simp: atoms_ok_def)
qed

lemma client_core: "client_ok rt held \<Longrightarrow> atoms_core rt"
  by (simp add: client_ok_def atoms_ok_def)

lemma client_held:
  assumes "client_ok rt held" "0 < held p"
  obtains a where "as_heap rt p = Some a" "as_ref_count a = int (held p) + (if pinned rt p then 1 else 0)"
proof -
  have "ref_ok rt held p" using assms(1) by (simp add: client_ok_def)
  then show thesis using that assms(2) by (cases "as_heap rt p") (auto simp: ref_ok_def views_def)
qed

lemma pinned_cong: "atom_at rt' = atom_at rt \<Longrightarrow> pinned rt' = pinned rt"
  by (simp add: fun_eq_iff pinned_def)

lemma ref_ok_cong:
  "views rt' p = views rt p \<Longrightarrow> pinned rt' p = pinned rt p \<Longrightarrow> held' p = held p \<Longrightarrow> ref_ok rt' held' p = ref_ok rt held p"
  unfolding ref_ok_def by (simp only:)

lemma ref_ok_Some:
  "views rt p = Some (n, v) \<Longrightarrow> ref_ok rt held p \<longleftrightarrow> n = int (held p) + (if pinned rt p then 1 else 0) \<and> 0 < n"
  by (simp add: ref_ok_def)

lemma free_string_ok:
  assumes ok: "client_ok rt held" and h: "0 < held s"
  shows "\<exists>rt'. js_free_string rt s = Some rt' \<and> client_ok rt' (held(s := held s - 1)) \<and> frame rt rt' \<and>
    (\<forall>q. q \<noteq> s \<longrightarrow> views rt' q = views rt q) \<and> as_fresh rt' = as_fresh rt \<and> atom_size rt' = atom_size rt \<and>
    atom_hash_size rt' = atom_hash_size rt \<and> (\<forall>j. atom_at rt j = None \<longrightarrow> atom_at rt' j = None) \<and> names_from rt rt' {}"
proof -
  obtain a where a: "as_heap rt s = Some a" "as_ref_count a = int (held s) + (if pinned rt s then 1 else 0)" by (rule client_held [OF assms])
  have aok: "atoms_ok rt" and refs: "\<And>p. ref_ok rt held p" using ok by (simp_all add: client_ok_def)
  define n where "n = as_ref_count a - 1"
  define rt1 where "rt1 = struct_set s (a\<lparr>as_ref_count := n\<rparr>) rt"
  note sr = set_ref [OF aok a(1), of n, folded rt1_def]
  have run: "js_free_string rt s = (if n \<le> 0 then
      if as_atom_type a \<noteq> 0 then JS_FreeAtomStruct rt1 s else Some (rt1\<lparr>as_heap := (as_heap rt1)(s := None)\<rparr>) else Some rt1)"
    using a(1) by (simp add: js_free_string_def n_def rt1_def)
  have pin: "pinned rt1 = pinned rt" by (rule pinned_cong [OF sr(3)])
  show ?thesis
  proof (cases "n \<le> 0")
    case False
    have "ref_ok rt1 (held(s := held s - 1)) p" for p
    proof (cases "p = s")
      case True
      then have "views rt1 p = Some (n, as_string a, as_atom_type a, as_hash a)" unfolding sr(2) by simp
      then show ?thesis using True a(2) h False by (simp add: ref_ok_Some pin of_nat_diff n_def)
    next
      case other: False
      then show ?thesis using refs [of p] ref_ok_cong [of rt1 p rt "held(s := held s - 1)" held] pin unfolding sr(2) by simp
    qed
    then have "client_ok rt1 (held(s := held s - 1))" using sr(1) by (simp add: client_ok_def)
    moreover have "atom_size rt1 = atom_size rt" "atom_hash_size rt1 = atom_hash_size rt" by (simp_all add: rt1_def)
    ultimately show ?thesis using run False sr by simp
  next
    case True
    then have one: "held s = 1" "\<not> pinned rt s" using a(2) h by (auto simp: n_def split: if_splits)
    have refs': "ref_ok rt' (held(s := held s - 1)) p" if v: "views rt' = (views rt)(s := None)"
      and at: "\<And>i q. q \<noteq> s \<Longrightarrow> atom_at rt' i = Some q \<longleftrightarrow> atom_at rt i = Some q" for rt' p
    proof (cases "p = s")
      case False
      then have "pinned rt' p = pinned rt p" using at by (simp add: pinned_def)
      then show ?thesis using refs [of p] False ref_ok_cong [of rt' p rt "held(s := held s - 1)" held] v by simp
    qed (simp add: ref_ok_def v one)
    have fr: "frame rt rt'" if v: "views rt' = (views rt)(s := None)" and f: "as_fresh rt' = as_fresh rt"
      and at: "\<And>i q. q \<noteq> s \<Longrightarrow> atom_at rt' i = Some q \<longleftrightarrow> atom_at rt i = Some q" for rt'
      unfolding frame_def v f using at one(2) by auto
    show ?thesis
    proof (cases "as_atom_type a = 0")
      case zero: True
      let ?rt' = "rt\<lparr>as_heap := (as_heap rt)(s := None)\<rparr>"
      have "atoms_ok ?rt'"
      proof (rule strings_change [OF aok])
        show "as_heap ?rt' q = as_heap rt q" if "atom_at rt i = Some q" for i q
          using core_struct [OF client_core [OF ok] a(1)] zero that by (auto simp: struct_ok_def)
        show "q < as_fresh ?rt' \<and> as_atom_type b = 0 \<and> js_string_ok (as_string b)"
          if q: "\<And>i. atom_at rt i \<noteq> Some q" "as_heap ?rt' q = Some b" for q b
        proof -
          have "as_heap rt q = Some b" using q(2) by (simp split: if_splits)
          then show ?thesis using core_struct [OF client_core [OF ok]] q(1) by (fastforce simp: struct_ok_def)
        qed
      qed simp_all
      moreover have v: "views ?rt' = (views rt)(s := None)" and "atom_at ?rt' = atom_at rt" by (simp_all add: fun_eq_iff views_def atom_at_def)
      moreover have "names_from rt ?rt' {}" by (rule names_from_update [OF v]) simp
      moreover have "js_free_string rt s = Some ?rt'"
        using run True zero by (simp add: rt1_def struct_set_def)
      ultimately show ?thesis using refs' [of ?rt'] fr [of ?rt'] by (auto simp: client_ok_def)
    next
      case atom: False
      obtain t where t: "atom_at rt t = Some s" by (rule core_in_array [OF client_core [OF ok] a(1) atom])
      have t0: "t \<noteq> 0"
      proof
        assume "t = 0"
        then show False using one(2) t by (simp add: pinned_def JS_ATOM_END_def)
      qed
      have t': "atom_at rt1 t = Some s" using t sr(3) by simp
      obtain rt' where r: "JS_FreeAtomStruct rt1 s = Some rt'" "atoms_ok rt'" "views rt' = (views rt1)(s := None)"
        "atom_at rt' = (atom_at rt1)(t := None)" "as_fresh rt' = as_fresh rt1" "atom_size rt' = atom_size rt1" "atom_hash_size rt' = atom_hash_size rt1"
        using FreeAtomStruct_ok [OF sr(1) t' t0] by blast
      have v: "views rt' = (views rt)(s := None)" unfolding r(3) sr(2) by simp
      have at: "atom_at rt' i = Some q \<longleftrightarrow> atom_at rt i = Some q" if "q \<noteq> s" for i q
        unfolding r(4) sr(3) using t that by auto
      have f: "as_fresh rt' = as_fresh rt" using r(5) sr(5) by simp
      have "js_free_string rt s = Some rt'" using run True atom r(1) by simp
      moreover have "atom_size rt' = atom_size rt" "atom_hash_size rt' = atom_hash_size rt" using r(6,7) by (simp_all add: rt1_def)
      moreover have "\<forall>j. atom_at rt j = None \<longrightarrow> atom_at rt' j = None" unfolding r(4) sr(3) by simp
      moreover have "names_from rt rt' {}" by (rule names_from_update [OF v]) simp
      ultimately show ?thesis using r(2) refs' [OF v at] fr [OF v f at] v f by (auto simp: client_ok_def)
    qed
  qed
qed
lemma dup_struct_ok:
  assumes ok: "client_ok rt held" and at: "atom_at rt i = Some p"
  shows "\<exists>rt'. dup_struct rt i = Some rt' \<and> client_ok rt' (held(p := held p + 1)) \<and> frame rt rt' \<and> atom_at rt' = atom_at rt \<and>
    (\<forall>q. q \<noteq> p \<longrightarrow> views rt' q = views rt q) \<and> names_from rt rt' {}"
proof -
  obtain a where a: "as_heap rt p = Some a" by (rule core_slot [OF client_core [OF ok] at])
  have aok: "atoms_ok rt" and refs: "\<And>p. ref_ok rt held p" using ok by (simp_all add: client_ok_def)
  define n where "n = as_ref_count a + 1"
  define rt1 where "rt1 = struct_set p (a\<lparr>as_ref_count := n\<rparr>) rt"
  note sr = set_ref [OF aok a, of n, folded rt1_def]
  have pin: "pinned rt1 = pinned rt" by (rule pinned_cong [OF sr(3)])
  have "ref_ok rt1 (held(p := held p + 1)) q" for q
  proof (cases "q = p")
    case True
    then have "views rt1 q = Some (n, as_string a, as_atom_type a, as_hash a)" unfolding sr(2) by simp
    then show ?thesis using True refs [of p] by (simp add: ref_ok_Some [OF views_heap [OF a]] ref_ok_Some pin n_def)
  next
    case False
    then show ?thesis using refs [of q] ref_ok_cong [of rt1 q rt "held(p := held p + 1)" held] pin unfolding sr(2) by simp
  qed
  then have "client_ok rt1 (held(p := held p + 1))" using sr(1) by (simp add: client_ok_def)
  moreover have "dup_struct rt i = Some rt1" using at a by (simp add: dup_struct_def rt1_def n_def)
  ultimately show ?thesis using sr by (auto simp: fun_eq_iff)
qed

section \<open>Growth\<close>

lemma chain_slots:
  assumes "\<And>i. start \<le> i \<Longrightarrow> i < n \<Longrightarrow> nx i = (if i = n - 1 then 0 else i + 1)" "0 < start" "start < n"
  shows "chain nx start [start..<n]"
  using assms
proof (induction "n - start" arbitrary: start)
  case (Suc k)
  have e: "[start..<n] = start # [Suc start..<n]" using Suc.prems(3) by (rule upt_conv_Cons)
  show ?case
  proof (cases "Suc start < n")
    case True
    then have "chain nx (Suc start) [Suc start..<n]" using Suc by (intro Suc.hyps(1)) auto
    then show ?thesis using Suc.prems True e by auto
  next
    case False
    then show ?thesis using Suc.prems e by auto
  qed
qed simp

lemma extend_ok:
  assumes ok: "atoms_ok rt" and f: "atom_free_index rt = 0" and n: "0 < atom_size rt" "atom_size rt < n" "n \<le> atom_size_limit"
  defines "rt' \<equiv> rt\<lparr>atom_size := n, atom_array := atom_array rt @ free_slots (atom_size rt) n, atom_free_index := atom_size rt\<rparr>"
  shows "atoms_ok rt'" "atom_at rt' = atom_at rt"
proof -
  obtain fs cs where inv: "atoms_core rt" "atoms_free rt fs" "hash_size_ok rt" "atoms_hash rt cs" using ok by (auto simp: atoms_ok_def)
  have len: "length (atom_array rt) = atom_size rt" using inv(1) by (simp add: atoms_core_def)
  have live: "atom_at rt i \<noteq> None" if "i < atom_size rt" for i using inv(2) f that len by (auto simp: atoms_free_def)
  have out: "atom_at rt i = None" if "atom_size rt \<le> i" for i using that len by (simp add: atom_at_def rd_def)
  have slot: "atom_array rt' ! i = Free_slot (if i = n - 1 then 0 else i + 1)" if "atom_size rt \<le> i" "i < n" for i
    using that len by (simp add: rt'_def nth_append free_slots_def)
  show at: "atom_at rt' = atom_at rt"
  proof
    fix i show "atom_at rt' i = atom_at rt i"
    proof (cases "i < atom_size rt")
      case True
      then show ?thesis using len by (simp add: atom_at_def rd_def rt'_def nth_append)
    next
      case False
      then show ?thesis using slot [of i] len by (auto simp: atom_at_def rd_def) (simp_all add: rt'_def free_slots_def)
    qed
  qed
  have h: "as_heap rt' = as_heap rt" "as_fresh rt' = as_fresh rt" "atom_count rt' = atom_count rt" "atom_hash rt' = atom_hash rt"
    "atom_hash_size rt' = atom_hash_size rt" "atom_count_resize rt' = atom_count_resize rt" by (simp_all add: rt'_def)
  have "length (atom_array rt') = n" "atom_size rt' = n" using len n(2) by (simp_all add: rt'_def free_slots_def)
  moreover have "struct_ok rt' = struct_ok rt" "slots_inj rt' = slots_inj rt" "keys_unique rt' = keys_unique rt"
    by (simp_all add: fun_eq_iff struct_ok_def slots_inj_def keys_unique_def at h)
  ultimately have "atoms_core rt'" using inv(1) n unfolding atoms_core_def by (simp add: at h)
  moreover have "atoms_free rt' [atom_size rt..<n]"
    unfolding atoms_free_def
  proof (intro conjI)
    have "atom_free_index rt' = atom_size rt" by (simp add: rt'_def)
    then show "chain (free_next rt') (atom_free_index rt') [atom_size rt..<n]"
      using n(1,2) slot by (auto intro!: chain_slots simp: free_next_def)
    show "set [atom_size rt..<n] = {i. i < length (atom_array rt') \<and> atom_at rt' i = None}"
    proof (rule set_eqI)
      fix x show "x \<in> set [atom_size rt..<n] \<longleftrightarrow> x \<in> {i. i < length (atom_array rt') \<and> atom_at rt' i = None}"
        using live [of x] out [of x] n(2) \<open>length (atom_array rt') = n\<close> unfolding at by (cases "x < atom_size rt") auto
    qed
  qed simp
  moreover have "hash_size_ok rt'" using inv(3) by (simp add: hash_size_ok_def h)
  moreover have "atoms_hash rt' cs"
  proof -
    have "struct_at rt' = struct_at rt" by (simp add: fun_eq_iff struct_at_def at h)
    then have "hash_next rt' = hash_next rt" "hash_place rt' = hash_place rt" "struct_at rt' = struct_at rt"
      by (simp_all add: fun_eq_iff hash_next_def hash_place_def h)
    then show ?thesis using inv(4) by (simp add: atoms_hash_def h)
  qed
  ultimately show "atoms_ok rt'" by (auto simp: atoms_ok_def)
qed

text \<open>The entry of \<open>JS_ATOM_NULL\<close>.\<close>

lemma first_atom_ok:
  assumes ok: "atoms_ok rt" and z: "atom_size rt = 0"
  defines "rt' \<equiv> rt\<lparr>as_heap := (as_heap rt)(as_fresh rt \<mapsto> null_atom), as_fresh := as_fresh rt + 1, atom_count := atom_count rt + 1,
    atom_size := 1, atom_array := [Atom_slot (as_fresh rt)], atom_free_index := 0\<rparr>"
  shows "atoms_ok rt'" "atom_at rt' = (\<lambda>i. if i = 0 then Some (as_fresh rt) else None)"
proof -
  obtain fs cs where inv: "atoms_core rt" "atoms_free rt fs" "hash_size_ok rt" "atoms_hash rt cs" using ok by (auto simp: atoms_ok_def)
  have no: "atom_at rt i = None" for i using inv(1) z by (auto simp: atoms_core_def atom_at_def rd_def)
  show at: "atom_at rt' = (\<lambda>i. if i = 0 then Some (as_fresh rt) else None)" by (simp add: fun_eq_iff atom_at_def rd_def rt'_def)
  have fr: "as_heap rt (as_fresh rt) = None" using core_struct [OF inv(1), of "as_fresh rt"] by (cases "as_heap rt (as_fresh rt)") (auto simp: struct_ok_def)
  have h: "as_heap rt' = (as_heap rt)(as_fresh rt \<mapsto> null_atom)" "as_fresh rt' = Suc (as_fresh rt)" "atom_hash rt' = atom_hash rt"
    "atom_hash_size rt' = atom_hash_size rt" "atom_count_resize rt' = atom_count_resize rt" by (simp_all add: rt'_def)
  have st: "struct_at rt' = (\<lambda>i. if i = 0 then Some null_atom else None)" by (simp add: fun_eq_iff struct_at_def at h)
  have plain: "as_atom_type a = 0 \<and> q < as_fresh rt \<and> js_string_ok (as_string a)" if "as_heap rt q = Some a" for q a
    using core_struct [OF inv(1) that] no by (simp add: struct_ok_def)
  have "struct_ok rt' q a" if q: "as_heap rt' q = Some a" for q a
  proof (cases "q = as_fresh rt")
    case True
    then show ?thesis using q by (auto simp: struct_ok_def at h null_atom_def hashed_def)
  next
    case False
    then show ?thesis using q plain [of q a] by (auto simp: struct_ok_def at h hashed_def)
  qed
  moreover have "keys_unique rt'" unfolding keys_unique_def
  proof (intro allI impI)
    fix p q a b assume a: "as_heap rt' p = Some a" "hashed a"
    then show "p = q" using plain [of p a] by (cases "p = as_fresh rt") (auto simp: h hashed_def null_atom_def)
  qed
  moreover have "slots_inj rt'" by (simp add: slots_inj_def at)
  moreover have "{i. atom_at rt' i \<noteq> None} = {0}" by (auto simp: at)
  moreover have "atom_count rt = 0" using inv(1) no by (simp add: atoms_core_def)
  ultimately have "atoms_core rt'" unfolding atoms_core_def
    by (simp add: at h) (simp add: rt'_def atom_size_limit_def)
  moreover have "atoms_free rt' []"
  proof -
    have "length (atom_array rt') = 1" "atom_free_index rt' = 0" by (simp_all add: rt'_def)
    then show ?thesis by (simp add: atoms_free_def at)
  qed
  moreover have "hash_size_ok rt'" using inv(3) by (simp add: hash_size_ok_def h)
  moreover have "atoms_hash rt' cs"
  proof -
    have "cs b = []" for b using inv(4) no by (auto simp: atoms_hash_def struct_at_def)
    moreover have "table (hash_next rt) (atom_hash rt) cs" using inv(4) by (simp add: atoms_hash_def)
    ultimately have "table (hash_next rt') (atom_hash rt') cs" by (simp add: table_def h)
    moreover have "\<not> hashed null_atom" "as_hash_next null_atom = 0" by (simp_all add: hashed_def null_atom_def)
    ultimately show ?thesis using \<open>\<And>b. cs b = []\<close> by (simp add: atoms_hash_def st)
  qed
  ultimately show "atoms_ok rt'" by (auto simp: atoms_ok_def)
qed
text \<open>The allocator gives no array of pointers that would take \<open>atom_size * 3\<close> out of the range of
  \<open>int\<close>: such an array has more than five gigabytes.\<close>

definition array_limit :: "'o js_mem \<Rightarrow> bool" where
  "array_limit jm \<longleftrightarrow> (\<forall>c p n. 8 * atom_size_limit < n \<longrightarrow> snd (jm_realloc jm c p n) = None)"

lemma atoms_ok_mem: "atoms_ok (rt\<lparr>at_mem := ctx\<rparr>) = atoms_ok rt"
proof -
  have e: "atom_at (rt\<lparr>at_mem := ctx\<rparr>) = atom_at rt" "struct_at (rt\<lparr>at_mem := ctx\<rparr>) = struct_at rt"
    by (simp_all add: fun_eq_iff atom_at_def struct_at_def)
  moreover have "hash_next (rt\<lparr>at_mem := ctx\<rparr>) = hash_next rt" "free_next (rt\<lparr>at_mem := ctx\<rparr>) = free_next rt"
    "hash_place (rt\<lparr>at_mem := ctx\<rparr>) = hash_place rt" "struct_ok (rt\<lparr>at_mem := ctx\<rparr>) = struct_ok rt"
    by (simp_all add: fun_eq_iff hash_next_def free_next_def hash_place_def struct_ok_def e)
  ultimately show ?thesis
    by (simp add: atoms_ok_def atoms_core_def atoms_free_def hash_size_ok_def atoms_hash_def slots_inj_def keys_unique_def)
qed

lemma views_mem [simp]: "views (rt\<lparr>at_mem := ctx\<rparr>) = views rt" "atom_at (rt\<lparr>at_mem := ctx\<rparr>) = atom_at rt"
  by (simp_all add: fun_eq_iff views_def atom_at_def)

lemma client_ok_mem: "client_ok (rt\<lparr>at_mem := ctx\<rparr>) held = client_ok rt held"
  by (simp add: client_ok_def atoms_ok_mem ref_ok_def pinned_def)

lemma frame_same:
  assumes "views rt' = views rt" "atom_at rt' = atom_at rt" "as_fresh rt' = as_fresh rt"
  shows "frame rt rt'"
  unfolding frame_def assms by auto

text \<open>Growth adds no interned atom.\<close>

definition grows :: "'o atom_rt \<Rightarrow> 'o atom_rt \<Rightarrow> bool" where
  "grows rt rt' \<longleftrightarrow> atom_hash_size rt' = atom_hash_size rt \<and>
     (\<forall>p. views rt p \<noteq> None \<longrightarrow> views rt' p = views rt p) \<and>
     (\<forall>p n s t h. views rt' p = Some (n, s, t, h) \<longrightarrow> t \<noteq> JS_ATOM_TYPE_SYMBOL \<longrightarrow> views rt p = Some (n, s, t, h))"

lemma grow_ok:
  assumes ok: "client_ok rt held" and f: "atom_free_index rt = 0" and lim: "array_limit jm"
  shows "\<exists>rt' b. atom_grow jm rt = Some (rt', b) \<and> client_ok rt' held \<and> frame rt rt' \<and> grows rt rt' \<and> (b \<longrightarrow> atom_free_index rt' \<noteq> 0)"
proof -
  define m where "m = max 211 (atom_size rt * 3 div 2)"
  note core = client_core [OF ok]
  have sz: "atom_size rt \<le> atom_size_limit" using core by (simp add: atoms_core_def)
  then have small: "atom_size rt * 3 < 2 ^ 31" by (simp add: atom_size_limit_def)
  have big: "atom_size rt < m" unfolding m_def by (simp add: max_def; presburger)
  have m1: "Suc 0 < m" unfolding m_def by simp
  have aok: "atoms_ok rt" and refs: "\<And>p. ref_ok rt held p" using ok by (simp_all add: client_ok_def)
  have run: "atom_grow jm rt = (if m > JS_ATOM_MAX then Some (rt, False)
     else (case atom_realloc jm (8 * atom_size rt) (8 * m) rt of
         (rt, False) \<Rightarrow> Some (rt, False)
       | (rt, True) \<Rightarrow>
           if atom_size rt = 0 then
             (case atom_malloc jm 16 rt of
                (rt, False) \<Rightarrow> Some (rt, False)
              | (rt, True) \<Rightarrow>
                  (case struct_new null_atom rt of
                     (rt, p) \<Rightarrow>
                       Some (rt\<lparr>atom_count := atom_count rt + 1, atom_size := m,
                                atom_array := Atom_slot p # free_slots 1 m, atom_free_index := 1\<rparr>, True)))
           else
             Some (rt\<lparr>atom_size := m, atom_array := atom_array rt @ free_slots (atom_size rt) m,
                      atom_free_index := atom_size rt\<rparr>, True)))"
    using small unfolding atom_grow_def Let_def m_def by simp
  have mem: "client_ok rt' held \<and> frame rt rt' \<and> grows rt rt'" if "rt' = rt\<lparr>at_mem := ctx\<rparr>" for rt' ctx
    using that ok frame_same [of rt' rt] by (simp add: client_ok_mem grows_def)
  show ?thesis
  proof (cases "m > JS_ATOM_MAX")
    case True
    have "atom_grow jm rt = Some (rt, False)" using run True by simp
    then show ?thesis using ok by (auto simp: grows_def)
  next
    case max: False
    obtain rt1 b1 where r1: "atom_realloc jm (8 * atom_size rt) (8 * m) rt = (rt1, b1)" by fastforce
    obtain c1 where e1: "rt1 = rt\<lparr>at_mem := c1\<rparr>" using malloc_fields(2) [OF r1] by blast
    have n: "m \<le> atom_size_limit" if b1
    proof (rule ccontr)
      assume "\<not> m \<le> atom_size_limit"
      then have "snd (jm_realloc jm (at_mem rt) (replicate (8 * atom_size rt) 0) (8 * m)) = None" using lim by (simp add: array_limit_def)
      then show False using that r1 by (auto simp: atom_realloc_def split: prod.splits)
    qed
    show ?thesis
    proof (cases b1)
      case False
      then have "atom_grow jm rt = Some (rt1, False)" using run max r1 by simp
      then show ?thesis using mem [OF e1] by auto
    next
      case True
      show ?thesis
      proof (cases "atom_size rt = 0")
        case False
        let ?rt = "rt1\<lparr>atom_size := m, atom_array := atom_array rt1 @ free_slots (atom_size rt1) m, atom_free_index := atom_size rt1\<rparr>"
        have x: "atoms_ok ?rt" "atom_at ?rt = atom_at rt1"
          using extend_ok [of rt1 m] aok f False big n [OF True] e1 by (simp_all add: atoms_ok_mem)
        have v: "views ?rt = views rt" "as_fresh ?rt = as_fresh rt" "atom_at ?rt = atom_at rt" "atom_hash_size ?rt = atom_hash_size rt"
          using x(2) e1 by (simp_all add: fun_eq_iff views_def)
        have "pinned ?rt = pinned rt" by (rule pinned_cong [OF v(3)])
        then have "client_ok ?rt held" using x(1) refs ref_ok_cong [of ?rt _ rt held held] v by (simp add: client_ok_def)
        moreover have "frame rt ?rt" by (rule frame_same) (use v in simp_all)
        moreover have "grows rt ?rt" using v by (simp add: grows_def)
        moreover have "atom_grow jm rt = Some (?rt, True)"
          using run max r1 True False e1 by simp
        ultimately show ?thesis using False e1 by auto
      next
        case z: True
        obtain rt2 b2 where r2: "atom_malloc jm 16 rt1 = (rt2, b2)" by fastforce
        obtain c2 where e2: "rt2 = rt\<lparr>at_mem := c2\<rparr>" using malloc_fields(1) [OF r2] e1 by auto
        show ?thesis
        proof (cases b2)
          case False
          then have "atom_grow jm rt = Some (rt2, False)" using run max r1 True z e1 r2 by simp
          then show ?thesis using mem [OF e2] by auto
        next
          case b2: True
          let ?p = "as_fresh rt"
          let ?r0 = "rt2\<lparr>as_heap := (as_heap rt2)(as_fresh rt2 \<mapsto> null_atom), as_fresh := as_fresh rt2 + 1,
            atom_count := atom_count rt2 + 1, atom_size := 1, atom_array := [Atom_slot (as_fresh rt2)], atom_free_index := 0\<rparr>"
          have ok2: "atoms_ok rt2" "atom_size rt2 = 0" "as_fresh rt2 = ?p" using aok z e2 by (simp_all add: atoms_ok_mem)
          have r0: "atoms_ok ?r0" "atom_at ?r0 = (\<lambda>i. if i = 0 then Some ?p else None)"
            using first_atom_ok [OF ok2(1,2)] unfolding ok2(3) by blast+
          let ?rt = "?r0\<lparr>atom_size := m, atom_array := atom_array ?r0 @ free_slots (atom_size ?r0) m, atom_free_index := atom_size ?r0\<rparr>"
          have x: "atoms_ok ?rt" "atom_at ?rt = atom_at ?r0" using extend_ok [OF r0(1), of m] n [OF True] m1 by simp_all
          have at: "atom_at ?rt = (\<lambda>i. if i = 0 then Some ?p else None)" unfolding x(2) by (rule r0(2))
          have fresh: "as_heap rt ?p = None" using core_struct [OF core, of ?p] by (cases "as_heap rt ?p") (auto simp: struct_ok_def)
          have fresh': "views rt ?p = None" using fresh by (simp add: views_None)
          have v: "views ?rt = (views rt)(?p \<mapsto> (1, as_string null_atom, 3, 0))" "as_fresh ?rt = Suc ?p" "atom_hash_size ?rt = atom_hash_size rt"
            using e2 by (simp_all add: fun_eq_iff views_def null_atom_def)
          have no: "atom_at rt i = None" for i using core z by (auto simp: atoms_core_def atom_at_def rd_def)
          have "ref_ok ?rt held q" for q
          proof (cases "q = ?p")
            case True
            have "held ?p = 0" using refs [of ?p] fresh by (simp add: ref_ok_def views_def)
            moreover have "pinned ?rt ?p" unfolding pinned_def at by (auto simp: JS_ATOM_END_def)
            moreover have "views ?rt q = Some (1, as_string null_atom, 3, 0)" unfolding v(1) using True by simp
            ultimately show ?thesis using True by (simp only: ref_ok_Some) simp
          next
            case False
            then have "pinned ?rt q = pinned rt q" unfolding pinned_def at using no by auto
            then show ?thesis using refs [of q] ref_ok_cong [of ?rt q rt held held] False unfolding v(1) by simp
          qed
          then have "client_ok ?rt held" using x(1) by (simp only: client_ok_def simp_thms)
          moreover have "frame rt ?rt" unfolding frame_def v using no fresh' by auto
          moreover have "grows rt ?rt" unfolding grows_def v using fresh' by auto
          moreover have "atom_grow jm rt = Some (?rt, True)"
            using run max r1 True z e1 r2 b2 e2 by (simp add: struct_new_def)
          moreover have "atom_free_index ?rt \<noteq> 0" by simp
          ultimately show ?thesis by blast
        qed
      qed
    qed
  qed
qed
section \<open>Entering an atom\<close>

definition entered :: "'o atom_rt \<Rightarrow> nat \<Rightarrow> JSAtomStruct \<Rightarrow> nat \<Rightarrow> u32 \<Rightarrow> 'o atom_rt" where
  "entered rt p a t h =
     (let i = atom_free_index rt; h1 = hash_place rt h
      in struct_set p (a\<lparr>as_hash := h, as_hash_next := (if t = JS_ATOM_TYPE_SYMBOL then i else atom_hash rt ! h1), as_atom_type := t\<rparr>)
           (rt\<lparr>atom_free_index := free_next rt i, atom_array := (atom_array rt)[i := Atom_slot p], atom_count := atom_count rt + 1,
               atom_hash := (if t = JS_ATOM_TYPE_SYMBOL then atom_hash rt else (atom_hash rt)[h1 := i])\<rparr>))"

text \<open>What the new atom has to satisfy.\<close>

definition enterable :: "'o atom_rt \<Rightarrow> nat \<Rightarrow> JSAtomStruct \<Rightarrow> nat \<Rightarrow> u32 \<Rightarrow> bool" where
  "enterable rt p a t h \<longleftrightarrow> as_heap rt p = Some a \<and> as_atom_type a = 0 \<and> atom_free_index rt \<noteq> 0 \<and>
     (t = JS_ATOM_TYPE_SYMBOL \<and> (h = JS_ATOM_HASH_SYMBOL \<or> h = JS_ATOM_HASH_PRIVATE) \<or>
      (t = JS_ATOM_TYPE_STRING \<or> t = JS_ATOM_TYPE_GLOBAL_SYMBOL) \<and> h = atom_hash_of t (atom_units a) \<and>
      (\<forall>q b. as_heap rt q = Some b \<longrightarrow> as_atom_type b = t \<longrightarrow> atom_units b \<noteq> atom_units a))"

lemma entered_ok:
  assumes ok: "atoms_ok rt" and e: "enterable rt p a t h"
  defines "i \<equiv> atom_free_index rt"
  shows "atoms_ok (entered rt p a t h)" "atom_at (entered rt p a t h) = (atom_at rt)(i := Some p)"
    "views (entered rt p a t h) = (views rt)(p := Some (as_ref_count a, as_string a, t, h))"
    "as_fresh (entered rt p a t h) = as_fresh rt" "atom_array rt ! i = Free_slot (free_next rt i)" "i < length (atom_array rt)" "atom_at rt i = None"
proof -
  obtain fs cs where inv: "atoms_core rt" "atoms_free rt fs" "hash_size_ok rt" "atoms_hash rt cs" using ok by (auto simp: atoms_ok_def)
  have a: "as_heap rt p = Some a" "as_atom_type a = 0" and i0: "i \<noteq> 0" using e by (simp_all add: enterable_def i_def)
  have fs_chain: "chain (free_next rt) i fs" "distinct fs" "set fs = {j. j < length (atom_array rt) \<and> atom_at rt j = None}"
    using inv(2) by (simp_all add: atoms_free_def i_def)
  obtain fs' where fs: "fs = i # fs'" "chain (free_next rt) (free_next rt i) fs'" using chain_Cons [OF fs_chain(1) i0] by blast
  then have "i \<in> set fs" by simp
  then show il: "i < length (atom_array rt)" and ia: "atom_at rt i = None" using fs_chain(3) by auto
  then show "atom_array rt ! i = Free_slot (free_next rt i)" by (auto simp: atom_at_def rd_def free_next_def split: atom_slot.splits)
  have pno: "atom_at rt j \<noteq> Some p" for j using core_struct [OF inv(1) a(1)] a(2) by (auto simp: struct_ok_def)
  define b1 where "b1 = hash_place rt h"
  define a' where "a' = a\<lparr>as_hash := h, as_hash_next := (if t = 3 then i else atom_hash rt ! b1), as_atom_type := t\<rparr>"
  define T where "T = (if t = 3 then atom_hash rt else (atom_hash rt)[b1 := i])"
  define rt' where "rt' = entered rt p a t h"
  have rt': "rt' = struct_set p a' (rt\<lparr>atom_free_index := free_next rt i, atom_array := (atom_array rt)[i := Atom_slot p],
      atom_count := atom_count rt + 1, atom_hash := T\<rparr>)"
    unfolding rt'_def entered_def Let_def i_def [symmetric] b1_def [symmetric] a'_def T_def ..
  show at: "atom_at (entered rt p a t h) = (atom_at rt)(i := Some p)" unfolding rt'_def [symmetric]
    using il by (simp add: fun_eq_iff rt' atom_at_def rd_def)
  have fields: "as_heap rt' = (as_heap rt)(p \<mapsto> a')" "as_fresh rt' = as_fresh rt" "atom_size rt' = atom_size rt"
    "atom_array rt' = (atom_array rt)[i := Atom_slot p]" "atom_count rt' = atom_count rt + 1" "atom_hash rt' = T"
    "atom_hash_size rt' = atom_hash_size rt" "atom_count_resize rt' = atom_count_resize rt" "atom_free_index rt' = free_next rt i"
    by (simp_all add: rt')
  note at = at [folded rt'_def]
  show "as_fresh (entered rt p a t h) = as_fresh rt" unfolding rt'_def [symmetric] by (rule fields(2))
  show "views (entered rt p a t h) = (views rt)(p := Some (as_ref_count a, as_string a, t, h))" unfolding rt'_def [symmetric]
    by (simp add: fun_eq_iff views_def fields a'_def)
  have st: "struct_at rt' j = (if j = i then Some a' else struct_at rt j)" for j
    using pno [of j] by (cases "atom_at rt j") (auto simp: struct_at_def at fields)
  have hn: "hash_next rt' = (hash_next rt)(i := as_hash_next a')" by (simp add: fun_eq_iff hash_next_def st)
  have hp: "hash_place rt' = hash_place rt" by (simp add: fun_eq_iff hash_place_def fields)
  have a'f: "as_atom_type a' = t" "as_hash a' = h" "as_string a' = as_string a" "atom_units a' = atom_units a" by (simp_all add: a'_def atom_units_def)
  have sok: "p < as_fresh rt" "js_string_ok (as_string a)" using core_struct [OF inv(1) a(1)] pno by (simp_all add: struct_ok_def)
  have "struct_ok rt' q b" if q: "as_heap rt' q = Some b" for q b
  proof (cases "q = p")
    case True
    then have "b = a'" using q by (simp add: fields)
    moreover have "atom_at rt' 0 \<noteq> Some p" using pno i0 by (simp add: at)
    moreover have "\<exists>j. atom_at rt' j = Some p" by (auto simp: at)
    ultimately show ?thesis using True sok e by (auto simp: struct_ok_def fields a'f enterable_def hashed_def)
  next
    case False
    then have h: "as_heap rt q = Some b" using q by (simp add: fields)
    have "(\<exists>j. atom_at rt' j = Some q) \<longleftrightarrow> (\<exists>j. atom_at rt j = Some q)" using False ia by (metis at fun_upd_apply option.distinct(1) option.inject)
    then show ?thesis using core_struct [OF inv(1) h] i0 by (simp add: struct_ok_def at fields)
  qed
  moreover have "as_heap rt' q \<noteq> None" if "atom_at rt' j = Some q" for j q
    using that core_slot [OF inv(1), of j q] by (cases "j = i") (auto simp: at fields)
  moreover have "slots_inj rt'" using core_inj [OF inv(1)] pno unfolding slots_inj_def at by (metis fun_upd_apply option.inject)
  moreover have "keys_unique rt'"
  proof -
    have "keys_unique rt" using inv(1) by (simp add: atoms_core_def)
    then have old: "x = y" if "as_heap rt x = Some b" "as_heap rt y = Some c" "hashed b" "as_atom_type c = as_atom_type b" "atom_units c = atom_units b" for x y b c
      using that unfolding keys_unique_def by blast
    have no: False if "as_heap rt q = Some b" "hashed b" "as_atom_type b = t" "atom_units b = atom_units a" for q b
      using that e by (auto simp: enterable_def hashed_def)
    show ?thesis unfolding keys_unique_def
    proof (intro allI impI)
      fix x y b c assume k: "as_heap rt' x = Some b" "as_heap rt' y = Some c" "hashed b" "as_atom_type c = as_atom_type b" "atom_units c = atom_units b"
      have hc: "hashed c" using k(3,4) by (simp add: hashed_def)
      have new: "q = p \<and> d = a' \<or> q \<noteq> p \<and> as_heap rt q = Some d" if "as_heap rt' q = Some d" for q d
        using that by (auto simp: fields split: if_splits)
      show "x = y"
      proof (cases "x = p \<or> y = p")
        case True
        then show ?thesis using new [OF k(1)] new [OF k(2)] no [of x b] no [of y c] k(3-5) hc by (auto simp: a'f)
      next
        case False
        then show ?thesis using new [OF k(1)] new [OF k(2)] old k(3-5) by blast
      qed
    qed
  qed
  moreover have "atom_at rt' 0 \<noteq> None" if "0 < atom_size rt'" using that inv(1) i0 by (simp add: at fields atoms_core_def)
  moreover have "atom_count rt' = int (card {j. atom_at rt' j \<noteq> None})"
  proof -
    have "{j. atom_at rt' j \<noteq> None} = insert i {j. atom_at rt j \<noteq> None}" by (auto simp: at)
    then have "card {j. atom_at rt' j \<noteq> None} = Suc (card {j. atom_at rt j \<noteq> None})"
      using card_insert_disjoint [OF finite_live, of i rt] ia by simp
    moreover have "atom_count rt = int (card {j. atom_at rt j \<noteq> None})" using inv(1) unfolding atoms_core_def by blast
    ultimately show ?thesis by (simp add: fields)
  qed
  moreover have "length (atom_array rt') = atom_size rt'" "atom_size rt' \<le> atom_size_limit" using inv(1) by (simp_all add: fields atoms_core_def)
  ultimately have "atoms_core rt'" unfolding atoms_core_def by blast
  moreover have "atoms_free rt' fs'"
  proof -
    have "chain (free_next rt') (free_next rt i) fs'"
    proof (rule chain_next_cong [OF fs(2)])
      show "free_next rt' j = free_next rt j" if "j \<in> set fs'" for j
        using that fs_chain(2) fs(1) by (cases "j = i") (auto simp: free_next_def fields)
    qed
    moreover have "set fs' = {j. j < length (atom_array rt') \<and> atom_at rt' j = None}"
    proof -
      have "set fs' = set fs - {i}" using fs(1) fs_chain(2) by auto
      then show ?thesis unfolding fs_chain(3) by (auto simp: at fields)
    qed
    ultimately show ?thesis using fs(1) fs_chain(2) by (simp add: atoms_free_def fields)
  qed
  moreover have "hash_size_ok rt'" using inv(3) by (simp add: hash_size_ok_def fields T_def)
  moreover have "\<exists>cs'. atoms_hash rt' cs'"
  proof -
    have tab: "table (hash_next rt) (atom_hash rt) cs" and sets: "\<And>b. distinct (cs b)"
      "\<And>b. set (cs b) = {j. \<exists>a. struct_at rt j = Some a \<and> hashed a \<and> hash_place rt (as_hash a) = b}" and links: "symbol_links rt"
      using inv(4) by (simp_all add: atoms_hash_def symbol_links_def)
    have ino: "i \<notin> set (cs b)" for b using ia by (simp add: sets(2) struct_at_def)
    have links': "symbol_links rt'" using links by (auto simp: symbol_links_def st a'_def)
    show ?thesis
    proof (cases "t = 3")
      case True
      have "chain (hash_next rt') (atom_hash rt ! b) (cs b)" if "b < length (atom_hash rt)" for b
      proof (rule chain_next_cong)
        show "chain (hash_next rt) (atom_hash rt ! b) (cs b)" using tab that by (simp add: table_def)
        show "hash_next rt' j = hash_next rt j" if "j \<in> set (cs b)" for j using that ino [of b] unfolding hn by auto
      qed
      then have "table (hash_next rt') (atom_hash rt') cs" using True by (simp add: table_def fields T_def)
      moreover have "set (cs b) = {j. \<exists>a. struct_at rt' j = Some a \<and> hashed a \<and> hash_place rt' (as_hash a) = b}" for b
      proof -
        have "\<not> hashed a'" using True by (simp add: hashed_def a'f)
        then show ?thesis using ino [of b] unfolding hp st sets(2) by auto
      qed
      ultimately show ?thesis using sets(1) links' by (auto simp: atoms_hash_def symbol_links_def)
    next
      case False
      have b1: "b1 < length (atom_hash rt)" unfolding b1_def by (rule hash_place_less [OF inv(3)])
      have hashed: "hashed a'" using e False by (auto simp: hashed_def a'f enterable_def)
      let ?cs = "cs(b1 := i # cs b1)"
      have "table ((hash_next rt)(i := atom_hash rt ! b1)) ((atom_hash rt)[b1 := i]) ?cs" by (rule table_push [OF tab b1 i0 ino])
      then have "table (hash_next rt') (atom_hash rt') ?cs" using False by (simp add: hn fields T_def a'_def)
      moreover have "distinct (?cs b)" for b using sets(1) [of b] ino [of b] by (cases "b = b1") simp_all
      moreover have "set (?cs b) = {j. \<exists>a. struct_at rt' j = Some a \<and> hashed a \<and> hash_place rt' (as_hash a) = b}" for b
      proof -
        have "{j. \<exists>a. struct_at rt' j = Some a \<and> hashed a \<and> hash_place rt' (as_hash a) = b} = (if b = b1 then insert i (set (cs b)) else set (cs b))"
          using hashed ino [of b] unfolding hp st sets(2) by (auto simp: a'f b1_def)
        then show ?thesis by (cases "b = b1") simp_all
      qed
      ultimately have "atoms_hash rt' ?cs" using links' unfolding atoms_hash_def symbol_links_def by blast
      then show ?thesis by blast
    qed
  qed
  ultimately show "atoms_ok (entered rt p a t h)" unfolding rt'_def [symmetric] by (auto simp: atoms_ok_def)
qed
lemma atom_enter_retyped:
  assumes "as_heap rt s = Some a"
  shows "atom_enter jm s t h h1 (struct_set s (a\<lparr>as_atom_type := t\<rparr>) rt) = atom_enter jm s t h h1 rt"
proof (cases "rd (atom_array rt) (atom_free_index rt)")
  case (Some s1)
  then show ?thesis using assms
    by (cases s1; cases "t = 3") (simp_all add: atom_enter_def struct_set_def Let_def cong: if_cong)
qed (simp add: atom_enter_def Let_def)

lemma core_count: "atoms_core rt \<Longrightarrow> atom_count rt \<le> int atom_size_limit"
proof -
  assume c: "atoms_core rt"
  have "{i. atom_at rt i \<noteq> None} \<subseteq> {..<length (atom_array rt)}" by (auto simp: atom_at_Some)
  then have "card {i. atom_at rt i \<noteq> None} \<le> length (atom_array rt)" using card_mono [OF finite_lessThan] by (metis card_lessThan)
  then show ?thesis using c by (simp add: atoms_core_def)
qed

lemma rehash_bound:
  assumes core: "atoms_core rt" and s: "hash_size_ok rt" and full: "int (atom_count_resize rt) \<le> atom_count rt"
  obtains k where "k \<le> 30" "atom_hash_size rt * 2 = 2 ^ k"
proof -
  obtain k where k: "k \<le> 30" "atom_hash_size rt = 2 ^ k" using s by (auto simp: hash_size_ok_def)
  have "2 * atom_hash_size rt \<le> atom_size_limit" using core_count [OF core] full s by (simp add: hash_size_ok_def)
  then have "(2 :: nat) ^ Suc k < 2 ^ 30" using k(2) by (simp add: atom_size_limit_def)
  then have "Suc k < 30" by (rule power_less_imp_less_exp [rotated]) simp
  then show thesis using that [of "Suc k"] k(2) by simp
qed

lemma enter_ok:
  assumes ok: "atoms_ok rt" and e: "enterable rt p a t h" and h1: "t = JS_ATOM_TYPE_SYMBOL \<or> h1 = hash_place rt h"
  defines "i \<equiv> atom_free_index rt"
  shows "\<exists>rt'. atom_enter jm p t h h1 rt = Some (rt', i) \<and> atoms_ok rt' \<and> atom_at rt' = (atom_at rt)(i := Some p) \<and>
    views rt' = (views rt)(p := Some (as_ref_count a, as_string a, t, h)) \<and> as_fresh rt' = as_fresh rt"
proof -
  define rt1 where "rt1 = entered rt p a t h"
  note en = entered_ok [OF ok e, folded i_def rt1_def]
  have s: "hash_size_ok rt" using ok by (simp add: atoms_ok_def)
  have a: "as_heap rt p = Some a" using e by (simp add: enterable_def)
  show ?thesis
  proof (cases "t = 3")
    case True
    have "atom_enter jm p t h h1 rt = Some (rt1, i)"
      using en(5,6) a True by (simp add: atom_enter_def Let_def i_def [symmetric] rt1_def entered_def)
    then show ?thesis using en by blast
  next
    case False
    have b: "h1 < length (atom_hash rt)" "h1 = hash_place rt h" using False h1 hash_place_less [OF s] by auto
    have run: "atom_enter jm p t h h1 rt = (if atom_count rt1 \<ge> int (atom_count_resize rt1) then do {
        (rt, _) \<leftarrow> JS_ResizeAtomHash jm (atom_hash_size rt1 * 2) rt1; Some (rt, i) } else Some (rt1, i))"
    proof -
      have sw: "a\<lparr>as_hash := h, as_atom_type := t, as_hash_next := n\<rparr> = a\<lparr>as_hash := h, as_hash_next := n, as_atom_type := t\<rparr>" for n by simp
      show ?thesis using en(5,6) a False b
        by (simp add: atom_enter_def Let_def i_def [symmetric] rt1_def entered_def) (simp only: sw simp_thms)
    qed
    show ?thesis
    proof (cases "atom_count rt1 \<ge> int (atom_count_resize rt1)")
      case True
      obtain fs cs where inv: "atoms_core rt1" "atoms_free rt1 fs" "hash_size_ok rt1" "atoms_hash rt1 cs" using en(1) by (auto simp: atoms_ok_def)
      obtain k where k: "k \<le> 30" "atom_hash_size rt1 * 2 = 2 ^ k" by (rule rehash_bound [OF inv(1,3) True])
      obtain rt' r where r: "JS_ResizeAtomHash jm (2 ^ k) rt1 = Some (rt', r)" "rt_like rt1 rt'" "same_refs rt1 rt'"
        "r = 0 \<and> hash_size_ok rt' \<and> (\<exists>cs. atoms_hash rt' cs) \<or> r = -1 \<and> rt' = rt1\<lparr>at_mem := at_mem rt'\<rparr>"
        using ResizeAtomHash_ok [OF core_inj [OF inv(1)] atoms_hash_chains [OF inv(4,3)] k(1)] by blast
      have "atoms_ok rt'"
      proof (cases "r = 0")
        case True
        then show ?thesis using r(4) atoms_core_like [OF r(2) inv(1)] inv(2) atoms_free_like [OF r(2)] by (auto simp: atoms_ok_def)
      next
        case False
        then have "atoms_ok (rt1\<lparr>at_mem := at_mem rt'\<rparr>)" using en(1) by (simp add: atoms_ok_mem)
        then show ?thesis using r(4) False by simp
      qed
      moreover have "atom_at rt' = atom_at rt1" "views rt' = views rt1" "as_fresh rt' = as_fresh rt1"
        using rt_like_at [OF r(2)] views_like [OF r(2,3)] r(2) by (simp_all add: fun_eq_iff) (simp add: rt_like_def)
      ultimately show ?thesis using run True r(1) k(2) en by simp
    qed (use run en in simp)
  qed
qed
section \<open>Searching a chain\<close>

text \<open>Both search loops walk a chain until a test on the structure succeeds.\<close>

locale chain_search =
  fixes loop :: "'o atom_rt \<Rightarrow> nat \<Rightarrow> nat option option"
    and test :: "JSAtomStruct \<Rightarrow> bool option"
  assumes unfold: "loop rt i =
    (if i = 0 then Some None
     else do { a \<leftarrow> struct_at rt i; hit \<leftarrow> test a; if hit then Some (Some i) else loop rt (as_hash_next a) })"
begin

lemma search:
  assumes "chain (hash_next rt) i js" "\<And>j. j \<in> set js \<Longrightarrow> \<exists>a. struct_at rt j = Some a \<and> test a \<noteq> None"
  shows "\<exists>r. loop rt i = Some r \<and>
    (case r of
       Some j \<Rightarrow> j \<in> set js \<and> (\<exists>a. struct_at rt j = Some a \<and> test a = Some True)
     | None \<Rightarrow> (\<forall>j \<in> set js. \<exists>a. struct_at rt j = Some a \<and> test a = Some False))"
  using assms
proof (induction js arbitrary: i)
  case Nil
  then show ?case by (simp add: unfold [of rt 0])
next
  case (Cons j js)
  then obtain a hit where a: "struct_at rt j = Some a" "test a = Some hit" by force
  have i: "i = j" "j \<noteq> 0" "chain (hash_next rt) (as_hash_next a) js" using Cons.prems(1) hash_next_def [of rt j] a(1) by auto
  show ?case
  proof (cases hit)
    case True
    then have "loop rt i = Some (Some j)" using i a by (subst unfold) simp
    then show ?thesis using a True by auto
  next
    case False
    then have "loop rt i = loop rt (as_hash_next a)" using i a by (subst unfold) simp
    moreover obtain r where "loop rt (as_hash_next a) = Some r"
      "case r of Some j \<Rightarrow> j \<in> set js \<and> (\<exists>a. struct_at rt j = Some a \<and> test a = Some True)
       | None \<Rightarrow> (\<forall>j \<in> set js. \<exists>a. struct_at rt j = Some a \<and> test a = Some False)"
      using Cons.IH [OF i(3)] Cons.prems(2) by auto
    ultimately show ?thesis using a False by (auto split: option.splits)
  qed
qed

end

definition string_test :: "u32 \<Rightarrow> nat \<Rightarrow> JSString \<Rightarrow> JSAtomStruct \<Rightarrow> bool option" where
  "string_test h t str a =
     (if as_hash a = h \<and> as_atom_type a = t \<and> js_len (as_string a) = js_len str
      then map_option (\<lambda>r. r = 0) (js_string_memcmp (as_string a) str (js_len str)) else Some False)"

definition bytes_test :: "u32 \<Rightarrow> bytes \<Rightarrow> JSAtomStruct \<Rightarrow> bool option" where
  "bytes_test h str a =
     (if as_hash a = h \<and> as_atom_type a = JS_ATOM_TYPE_STRING \<and> js_len (as_string a) = length str \<and> \<not> js_wide (as_string a)
      then map_option (\<lambda>u. u = str) (rd_block (js_u (as_string a)) 0 (length str)) else Some False)"

interpretation fa: chain_search "\<lambda>rt i. find_atom_loop rt h t str i" "string_test h t str" for h t str
  by unfold_locales (subst find_atom_loop.simps, simp add: string_test_def)

interpretation fb: chain_search "\<lambda>rt i. find_bytes_loop rt h str i" "bytes_test h str" for h str
  by unfold_locales (subst find_bytes_loop.simps, simp add: bytes_test_def)

lemma diff_upto_zero: "length xs = length ys \<Longrightarrow> diff_upto xs ys = 0 \<longleftrightarrow> xs = ys"
  by (induction xs ys rule: diff_upto.induct) (auto simp: word_uint_eq_iff)

lemma string_test_units:
  assumes "js_string_ok (as_string a)" "js_string_ok str"
  shows "string_test h t str a = Some (as_hash a = h \<and> as_atom_type a = t \<and> atom_units a = js_units str)"
proof (cases "js_len (as_string a) = js_len str")
  case True
  then show ?thesis using js_string_memcmp_diff [OF assms, of "js_len str"] length_js_units [OF assms(1)] length_js_units [OF assms(2)]
    diff_upto_zero [of "atom_units a" "js_units str"] by (auto simp: string_test_def atom_units_def)
next
  case False
  then have "atom_units a \<noteq> js_units str" using length_js_units [OF assms(1)] length_js_units [OF assms(2)] by (metis atom_units_def)
  then show ?thesis using False by (simp add: string_test_def)
qed

text \<open>The name of an interned atom.\<close>

definition atom_key :: "'o atom_rt \<Rightarrow> nat \<Rightarrow> (nat \<times> u16 list) option" where
  "atom_key rt i = (case struct_at rt i of Some a \<Rightarrow> if hashed a then Some (as_atom_type a, atom_units a) else None | None \<Rightarrow> None)"

lemma atom_key_Some: "atom_key rt i = Some (t, us) \<longleftrightarrow>
   (\<exists>a. struct_at rt i = Some a \<and> hashed a \<and> as_atom_type a = t \<and> atom_units a = us)"
  by (auto simp: atom_key_def split: option.splits)

text \<open>The bucket of a name holds exactly the atoms with its hash.\<close>

lemma bucket_chain:
  assumes ok: "atoms_ok rt"
  obtains js where "rd (atom_hash rt) (hash_place rt h) = Some (atom_hash rt ! hash_place rt h)"
    "chain (hash_next rt) (atom_hash rt ! hash_place rt h) js"
    "set js = {i. \<exists>a. struct_at rt i = Some a \<and> hashed a \<and> hash_place rt (as_hash a) = hash_place rt h}"
proof -
  obtain cs where inv: "hash_size_ok rt" "atoms_hash rt cs" using ok by (auto simp: atoms_ok_def)
  have "hash_place rt h < length (atom_hash rt)" by (rule hash_place_less [OF inv(1)])
  then show thesis using that [of "cs (hash_place rt h)"] inv(2) by (simp add: atoms_hash_def table_def)
qed

lemma hashed_string_ok:
  assumes core: "atoms_core rt" and a: "struct_at rt i = Some a" "hashed a"
  shows "js_string_ok (as_string a)" "as_hash a = atom_hash_of (as_atom_type a) (atom_units a)"
proof -
  obtain p where p: "atom_at rt i = Some p" "as_heap rt p = Some a" using a(1) by (auto simp: struct_at_Some)
  have "as_atom_type a \<noteq> 3" using a(2) by (auto simp: hashed_def)
  then show "js_string_ok (as_string a)" "as_hash a = atom_hash_of (as_atom_type a) (atom_units a)"
    using core_struct [OF core p(2)] a(2) by (auto simp: struct_ok_def)
qed

lemma find_atom_loop_ok:
  fixes t :: nat
  assumes ok: "atoms_ok rt" and str: "js_string_ok str"
  defines "h \<equiv> atom_hash_of t (js_units str)"
  shows "\<exists>r. find_atom_loop rt h t str (atom_hash rt ! hash_place rt h) = Some r \<and>
    (case r of Some i \<Rightarrow> i \<noteq> 0 \<and> atom_key rt i = Some (t, js_units str) | None \<Rightarrow> (\<forall>i. atom_key rt i \<noteq> Some (t, js_units str)))"
proof -
  have core: "atoms_core rt" using ok by (simp add: atoms_ok_def)
  obtain js where js: "chain (hash_next rt) (atom_hash rt ! hash_place rt h) js"
    "set js = {i. \<exists>a. struct_at rt i = Some a \<and> hashed a \<and> hash_place rt (as_hash a) = hash_place rt h}"
    by (rule bucket_chain [OF ok])
  have test: "\<exists>a. struct_at rt j = Some a \<and> hashed a \<and>
      string_test h t str a = Some (as_hash a = h \<and> as_atom_type a = t \<and> atom_units a = js_units str)" if "j \<in> set js" for j
    using that js(2) string_test_units [OF hashed_string_ok(1) [OF core] str] by fastforce
  obtain r where r: "find_atom_loop rt h t str (atom_hash rt ! hash_place rt h) = Some r"
    "case r of Some j \<Rightarrow> j \<in> set js \<and> (\<exists>a. struct_at rt j = Some a \<and> string_test h t str a = Some True)
     | None \<Rightarrow> (\<forall>j \<in> set js. \<exists>a. struct_at rt j = Some a \<and> string_test h t str a = Some False)"
    using fa.search [OF js(1), of h t str] test by fastforce
  show ?thesis
  proof (cases r)
    case None
    have "atom_key rt i \<noteq> Some (t, js_units str)" for i
    proof
      assume "atom_key rt i = Some (t, js_units str)"
      then obtain a where a: "struct_at rt i = Some a" "hashed a" "as_atom_type a = t" "atom_units a = js_units str"
        by (auto simp: atom_key_Some)
      then have h: "as_hash a = h" using hashed_string_ok(2) [OF core a(1,2)] by (simp add: h_def)
      then have "i \<in> set js" using js(2) a by auto
      then show False using r(2) None test [of i] a h by fastforce
    qed
    then show ?thesis using r(1) None by simp
  next
    case (Some j)
    then have "j \<in> set js" using r(2) by simp
    moreover have "j \<noteq> 0" using chain_nonzero [OF js(1)] \<open>j \<in> set js\<close> by metis
    ultimately show ?thesis using r Some test [of j] by (fastforce simp: atom_key_Some)
  qed
qed
end
