(* ===== verification/Js_Atom_Calls.thy ===== *)
theory Js_Atom_Calls
  imports Js_Atom_Intern
begin

text \<open>
  The calls of the atom interface.  \<open>client_ok\<close> is kept by every call of a client that releases
  only references it holds; a call of \<open>__JS_NewAtom\<close> answers with the one atom of the name.
\<close>

section \<open>The index of an atom\<close>

lemma index_loop_finds:
  assumes "slots_inj rt" "chain (hash_next rt) i js" "\<And>j. j \<in> set js \<Longrightarrow> struct_at rt j \<noteq> None"
    "atom_at rt t = Some p" "t \<in> set js" "atom_at rt i = Some p1"
  shows "atom_index_loop rt p i p1 = Some t"
  using assms(2-)
proof (induction js arbitrary: i p1)
  case (Cons j js)
  have i: "i = j" "j \<noteq> 0" "chain (hash_next rt) (hash_next rt j) js" using Cons.prems(1) by simp_all
  show ?case
  proof (cases "t = j")
    case True
    then show ?thesis using i Cons.prems(3,5) by (subst atom_index_loop.simps) simp
  next
    case False
    then have ne: "p1 \<noteq> p" using slots_injD [OF assms(1) Cons.prems(3)] Cons.prems(5) i(1) by blast
    obtain a where a: "as_heap rt p1 = Some a" using Cons.prems(2) [of j] Cons.prems(5) i(1) by (auto simp: struct_at_def)
    have nx: "hash_next rt j = as_hash_next a" using hash_next_at [OF Cons.prems(5) a] i(1) by simp
    have tjs: "t \<in> set js" using False Cons.prems(4) by simp
    then obtain k ks where k: "js = k # ks" "as_hash_next a = k" using i(3) nx by (cases js) auto
    obtain p2 where p2: "atom_at rt k = Some p2" using Cons.prems(2) [of k] k(1) by (auto simp: struct_at_Some)
    have live: "struct_at rt m \<noteq> None" if "m \<in> set js" for m using Cons.prems(2) that by simp
    have "atom_index_loop rt p k p2 = Some t" using Cons.IH [of k p2] i(3) nx k(2) live Cons.prems(3) tjs p2 by simp
    then show ?thesis using ne i a k(2) p2 by (subst atom_index_loop.simps) simp
  qed
qed simp

lemma get_atom_index_ok:
  assumes ok: "atoms_ok rt" and at: "atom_at rt t = Some p" and a: "as_heap rt p = Some a" "hashed a"
  shows "js_get_atom_index rt p = Some t" "t \<noteq> 0"
proof -
  have core: "atoms_core rt" using ok by (simp add: atoms_ok_def)
  let ?b = "hash_place rt (as_hash a)"
  obtain js where js: "rd (atom_hash rt) ?b = Some (atom_hash rt ! ?b)" "chain (hash_next rt) (atom_hash rt ! ?b) js"
    "set js = {i. \<exists>c. struct_at rt i = Some c \<and> hashed c \<and> hash_place rt (as_hash c) = ?b}" by (rule bucket_chain [OF ok])
  have t: "t \<in> set js" using js(3) at a by (auto simp: struct_at_def)
  then show "t \<noteq> 0" using chain_nonzero [OF js(2)] by metis
  obtain k ks where k: "js = k # ks" "atom_hash rt ! ?b = k" using js(2) t by (cases js) auto
  have live: "struct_at rt j \<noteq> None" if "j \<in> set js" for j using that js(3) by auto
  obtain p1 where p1: "atom_at rt (atom_hash rt ! ?b) = Some p1" using live [of k] k by (auto simp: struct_at_Some)
  have "as_atom_type a \<noteq> 3" using a(2) by (auto simp: hashed_def)
  then show "js_get_atom_index rt p = Some t"
    using index_loop_finds [OF core_inj [OF core] js(2) live at t p1] a(1) js(1) p1 by (simp add: js_get_atom_index_def)
qed

section \<open>New objects\<close>

text \<open>A reference that is handed over, and the reference that an atom counts for.\<close>

definition take_ref :: "nat \<Rightarrow> (nat \<Rightarrow> nat) \<Rightarrow> nat \<Rightarrow> nat" where
  "take_ref s held = held(s := held s - 1)"

definition give_ref :: "nat \<Rightarrow> (nat \<Rightarrow> nat) \<Rightarrow> nat \<Rightarrow> nat" where
  "give_ref s held = held(s := held s + 1)"

definition give_atom :: "'o atom_rt \<Rightarrow> nat \<Rightarrow> (nat \<Rightarrow> nat) \<Rightarrow> nat \<Rightarrow> nat" where
  "give_atom rt i held = (if i < JS_ATOM_END then held else give_ref (the (atom_at rt i)) held)"

lemma client_fresh:
  assumes "client_ok rt held"
  shows "as_heap rt (as_fresh rt) = None" "held (as_fresh rt) = 0" "atom_at rt i \<noteq> Some (as_fresh rt)"
proof -
  note core = client_core [OF assms]
  show h: "as_heap rt (as_fresh rt) = None"
    using core_struct [OF core, of "as_fresh rt"] by (cases "as_heap rt (as_fresh rt)") (auto simp: struct_ok_def)
  have "ref_ok rt held (as_fresh rt)" using assms by (simp add: client_ok_def)
  then show "held (as_fresh rt) = 0" using h by (simp add: ref_ok_def views_def)
  show "atom_at rt i \<noteq> Some (as_fresh rt)" using core_slot [OF core, of i] h by fastforce
qed

lemma new_string_ok:
  assumes ok: "client_ok rt held" and q: "js_string_ok q" and n: "struct_new (string_value q) rt = (rt', p)"
  shows "client_ok rt' (give_ref p held)" "frame rt rt'" "atom_at rt' = atom_at rt" "p = as_fresh rt"
    "views rt' = (views rt)(p \<mapsto> (1, q, 0, 0))" "atom_hash_size rt' = atom_hash_size rt" "atom_free_index rt' = atom_free_index rt"
    "as_heap rt' p = Some (string_value q)" "names_from rt rt' {}"
proof -
  show p: "p = as_fresh rt" using n by (simp add: struct_new_def)
  have e: "rt' = rt\<lparr>as_heap := (as_heap rt)(p \<mapsto> string_value q), as_fresh := Suc p\<rparr>" using n by (auto simp: struct_new_def)
  note fresh = client_fresh [OF ok, folded p]
  show at: "atom_at rt' = atom_at rt" by (simp add: fun_eq_iff e atom_at_def)
  show v: "views rt' = (views rt)(p \<mapsto> (1, q, 0, 0))" by (simp add: fun_eq_iff e views_def string_value_def)
  show "atom_hash_size rt' = atom_hash_size rt" "atom_free_index rt' = atom_free_index rt" "as_heap rt' p = Some (string_value q)"
    by (simp_all add: e)
  show "names_from rt rt' {}" by (rule names_from_update [OF v]) simp
  have aok: "atoms_ok rt" and refs: "\<And>p. ref_ok rt held p" using ok by (simp_all add: client_ok_def)
  have "atoms_ok rt'"
  proof (rule strings_change [OF aok])
    show "as_heap rt' r = as_heap rt r" if "atom_at rt i = Some r" for i r using fresh(3) [of i] that by (auto simp: e)
    show "r < as_fresh rt' \<and> as_atom_type a = 0 \<and> js_string_ok (as_string a)"
      if r: "\<And>i. atom_at rt i \<noteq> Some r" "as_heap rt' r = Some a" for r a
    proof (cases "r = p")
      case False
      then have "as_heap rt r = Some a" using r(2) by (simp add: e)
      then show ?thesis using core_struct [OF client_core [OF ok]] r(1) p by (fastforce simp: struct_ok_def e)
    qed (use r(2) q in \<open>auto simp: e string_value_def\<close>)
  qed (simp_all add: e p)
  moreover have "ref_ok rt' (give_ref p held) r" for r
  proof (cases "r = p")
    case True
    have "\<not> pinned rt' p" using fresh(3) by (auto simp: pinned_def at)
    then show ?thesis using True fresh(2) by (simp add: ref_ok_def v give_ref_def)
  next
    case False
    then show ?thesis using refs [of r] ref_ok_cong [of rt' r rt "give_ref p held" held] pinned_cong [OF at] v by (simp add: give_ref_def)
  qed
  ultimately show "client_ok rt' (give_ref p held)" by (simp add: client_ok_def)
  have "views rt p = None" using fresh(1) by (simp add: views_None)
  then show "frame rt rt'" unfolding frame_def v at by (auto simp: e p)
qed

lemma free_entry:
  assumes "atoms_ok rt"
  shows "atom_free_index rt \<noteq> 0 \<longleftrightarrow> (\<exists>j < atom_size rt. atom_at rt j = None)"
proof -
  obtain fs where fs: "chain (free_next rt) (atom_free_index rt) fs" "set fs = {i. i < length (atom_array rt) \<and> atom_at rt i = None}"
    using assms by (auto simp: atoms_ok_def atoms_free_def)
  have "length (atom_array rt) = atom_size rt" using assms by (simp add: atoms_ok_def atoms_core_def)
  moreover have "atom_free_index rt = 0 \<longleftrightarrow> fs = []" using fs(1) by (cases fs) auto
  moreover have "fs = [] \<longleftrightarrow> set fs = {}" by simp
  ultimately show ?thesis using fs(2) by auto
qed

lemma client_enter:
  assumes ok: "client_ok rt held" and held: "0 < held p" and e: "enterable rt p a t h"
    and h1: "t = JS_ATOM_TYPE_SYMBOL \<or> h1 = hash_place rt h"
  shows "\<exists>rt' i. atom_enter jm p t h h1 rt = Some (rt', i) \<and> i \<noteq> 0 \<and> atom_at rt i = None \<and> atom_at rt' i = Some p \<and>
    views rt' = (views rt)(p := Some (as_ref_count a, as_string a, t, h)) \<and>
    client_ok rt' (give_atom rt' i (take_ref p held)) \<and> frame rt rt'"
proof -
  have aok: "atoms_ok rt" and refs: "\<And>p. ref_ok rt held p" using ok by (simp_all add: client_ok_def)
  define i where "i = atom_free_index rt"
  have a: "as_heap rt p = Some a" "as_atom_type a = 0" and i0: "i \<noteq> 0" using e by (simp_all add: enterable_def i_def)
  obtain rt' where r: "atom_enter jm p t h h1 rt = Some (rt', i)" "atoms_ok rt'" "atom_at rt' = (atom_at rt)(i := Some p)"
    "views rt' = (views rt)(p := Some (as_ref_count a, as_string a, t, h))" "as_fresh rt' = as_fresh rt"
    using enter_ok [OF aok e h1, folded i_def] by blast
  have ia: "atom_at rt i = None" using entered_ok(7) [OF aok e] by (simp add: i_def)
  have pno: "atom_at rt j \<noteq> Some p" for j using core_struct [OF client_core [OF ok] a(1)] a(2) by (auto simp: struct_ok_def)
  have give: "give_atom rt' i (take_ref p held) = (if i < JS_ATOM_END then take_ref p held else held)"
    using held by (simp add: give_atom_def give_ref_def take_ref_def r(3) fun_eq_iff)
  have pinp: "pinned rt' p \<longleftrightarrow> i < JS_ATOM_END" using pno by (auto simp: pinned_def r(3))
  have "ref_ok rt' (give_atom rt' i (take_ref p held)) q" for q
  proof (cases "q = p")
    case True
    have "\<not> pinned rt p" using pno by (auto simp: pinned_def)
    then have "as_ref_count a = int (held p)" using refs [of p] by (simp add: ref_ok_Some [OF views_heap [OF a(1)]])
    then show ?thesis unfolding give using True held pinp by (simp add: ref_ok_def r(4) take_ref_def of_nat_diff)
  next
    case False
    have "pinned rt' q = pinned rt q" unfolding pinned_def r(3) using False ia by (metis fun_upd_apply option.distinct(1) option.inject)
    moreover have "give_atom rt' i (take_ref p held) q = held q" unfolding give using False by (simp add: take_ref_def)
    ultimately show ?thesis using refs [of q] ref_ok_cong [of rt' q rt _ held] False r(4) by simp
  qed
  then have "client_ok rt' (give_atom rt' i (take_ref p held))" using r(2) by (simp add: client_ok_def)
  moreover have "frame rt rt'" unfolding frame_def r(3,4,5) using ia a views_heap [OF a(1)] by auto
  ultimately show ?thesis using r i0 ia by auto
qed

lemma js_units_trunc:
  assumes "js_string_ok q"
  defines "n \<equiv> payload_size (js_len q) (js_wide q)"
  shows "js_units (q\<lparr>js_u := take n (js_u q)\<rparr>) = js_units q" "js_string_ok (q\<lparr>js_u := take n (js_u q)\<rparr>)"
proof -
  show "js_string_ok (q\<lparr>js_u := take n (js_u q)\<rparr>)" using assms by (simp add: js_string_ok_def)
  have "rd16 (take n (js_u q)) i = rd16 (js_u q) i" if "js_wide q" "i < js_len q" for i
  proof -
    have "2 * i + 2 \<le> n" "n \<le> length (js_u q)" using that assms by (simp_all add: payload_size_def js_string_ok_def)
    then show ?thesis by (simp add: rd16_def get_packed_def rd_block_def min_def drop_take)
  qed
  then have "units16 (take n (js_u q)) (js_len q) = units16 (js_u q) (js_len q)" if "js_wide q" using that by (simp add: units16_def)
  moreover have "units8 (take n (js_u q)) (js_len q) = units8 (js_u q) (js_len q)" if "\<not> js_wide q"
    using that by (simp add: units8_def n_def payload_size_def min_def)
  ultimately show "js_units (q\<lparr>js_u := take n (js_u q)\<rparr>) = js_units q" by (simp add: js_units_def)
qed
section \<open>Registering an atom\<close>

definition take_opt :: "nat option \<Rightarrow> (nat \<Rightarrow> nat) \<Rightarrow> nat \<Rightarrow> nat" where
  "take_opt str held = (case str of Some s \<Rightarrow> take_ref s held | None \<Rightarrow> held)"

definition no_name :: "'o atom_rt \<Rightarrow> nat \<Rightarrow> u16 list \<Rightarrow> bool" where
  "no_name rt t us \<longleftrightarrow> (\<forall>q n s h. views rt q = Some (n, s, t, h) \<longrightarrow> js_units s \<noteq> us)"

text \<open>The units of the string that a call is given.\<close>

definition arg_units :: "'o atom_rt \<Rightarrow> nat option \<Rightarrow> u16 list" where
  "arg_units rt str = (case str of Some s \<Rightarrow> (case as_heap rt s of Some a \<Rightarrow> atom_units a | None \<Rightarrow> []) | None \<Rightarrow> [])"

definition may_register :: "'o atom_rt \<Rightarrow> (nat \<Rightarrow> nat) \<Rightarrow> nat option \<Rightarrow> nat \<Rightarrow> u32 \<Rightarrow> bool" where
  "may_register rt held str t h \<longleftrightarrow>
     (case str of Some s \<Rightarrow> 0 < held s \<and> atom_at rt 0 \<noteq> Some s | None \<Rightarrow> True) \<and>
     (t = JS_ATOM_TYPE_SYMBOL \<and> (h = JS_ATOM_HASH_SYMBOL \<or> h = JS_ATOM_HASH_PRIVATE) \<or>
      (t = JS_ATOM_TYPE_STRING \<or> t = JS_ATOM_TYPE_GLOBAL_SYMBOL) \<and> str \<noteq> None \<and> h = atom_hash_of t (arg_units rt str) \<and> no_name rt t (arg_units rt str))"

text \<open>What a call that creates an atom promises.\<close>

definition name_of_type :: "nat \<Rightarrow> u16 list \<Rightarrow> u16 list set" where
  "name_of_type t us = (if t = JS_ATOM_TYPE_STRING then {us} else {})"

definition registered :: "'o atom_rt \<Rightarrow> (nat \<Rightarrow> nat) \<Rightarrow> nat option \<Rightarrow> nat \<Rightarrow> u32 \<Rightarrow> 'o atom_result \<Rightarrow> bool" where
  "registered rt held str t h res \<longleftrightarrow>
     (\<exists>rt' i. res = Some (rt', i) \<and> client_ok rt' (give_atom rt' i (take_opt str held)) \<and> frame rt rt' \<and>
        names_from rt rt' (name_of_type t (arg_units rt str)) \<and> (i < JS_ATOM_END \<longrightarrow> i = 0 \<or> atom_at rt i = None) \<and>
        (i = 0 \<or> (\<exists>p n q. atom_at rt' i = Some p \<and> views rt' p = Some (n, q, t, h) \<and> js_units q = arg_units rt str)))"

lemma give_atom_zero [simp]: "give_atom rt 0 held = held"
  by (simp add: give_atom_def JS_ATOM_END_def)

text \<open>An entry of a predefined atom is not given away.\<close>

lemma pinned_entry:
  assumes f: "frame rt rt1" "atoms_core rt" and i: "i < JS_ATOM_END" "atom_at rt i = Some q"
  shows "atom_at rt1 i = Some q"
proof -
  obtain a where "as_heap rt q = Some a" by (rule core_slot [OF f(2) i(2)])
  then have "views rt q \<noteq> None" by (simp add: views_None)
  moreover have "pinned rt q" using i by (auto simp: pinned_def)
  ultimately show ?thesis using frameD(4) [OF f(1) i(2)] frameD(5) [OF f(1)] by blast
qed

lemma register_fails:
  assumes ok: "client_ok rt1 held" and f: "frame rt rt1" "atoms_core rt" and n: "names_from rt rt1 {}" and s: "case str of Some s \<Rightarrow> 0 < held s | None \<Rightarrow> True"
  shows "registered rt held str t h (do { rt \<leftarrow> free_opt str rt1; Some (rt, 0) })"
proof (cases str)
  case None
  then show ?thesis using ok f(1) names_from_mono [OF n] by (simp add: registered_def free_opt_def take_opt_def)
next
  case (Some s)
  then have "0 < held s" using s by simp
  then obtain rt' where "js_free_string rt1 s = Some rt'" "client_ok rt' (held(s := held s - 1))" "frame rt1 rt'" "names_from rt1 rt' {}"
    using free_string_ok [OF ok] by blast
  then show ?thesis using Some frame_trans [OF f(1) _ f(2)] names_from_mono [OF names_from_trans [OF n]] by (auto simp: registered_def free_opt_def take_opt_def take_ref_def)
qed

lemma enterable_views:
  assumes v: "views rt p = Some (n, q, 0, h0)" and f: "atom_free_index rt \<noteq> 0"
    and k: "t = JS_ATOM_TYPE_SYMBOL \<and> (h = JS_ATOM_HASH_SYMBOL \<or> h = JS_ATOM_HASH_PRIVATE) \<or>
      (t = JS_ATOM_TYPE_STRING \<or> t = JS_ATOM_TYPE_GLOBAL_SYMBOL) \<and> h = atom_hash_of t (js_units q) \<and> no_name rt t (js_units q)"
  obtains a where "enterable rt p a t h" "as_ref_count a = n" "as_string a = q"
proof -
  obtain a where a: "as_heap rt p = Some a" "as_ref_count a = n" "as_string a = q" "as_atom_type a = 0" using v by (auto simp: views_Some)
  have "enterable rt p a t h" using a f k unfolding enterable_def no_name_def views_Some atom_units_def by blast
  then show thesis using that a by blast
qed

lemma register_enter:
  assumes ok: "client_ok rt1 held1" and f: "frame rt rt1" "atoms_core rt" and n: "names_from rt rt1 {}" and e: "enterable rt1 p a t h"
    and h1: "t = JS_ATOM_TYPE_SYMBOL \<or> h1 = hash_place rt1 h" and held: "0 < held1 p" "take_ref p held1 = take_opt str held"
    and u: "js_units (as_string a) = arg_units rt str"
  shows "registered rt held str t h (atom_enter jm p t h h1 rt1)"
proof -
  obtain rt' i where r: "atom_enter jm p t h h1 rt1 = Some (rt', i)" "atom_at rt' i = Some p"
    "views rt' = (views rt1)(p := Some (as_ref_count a, as_string a, t, h))" "client_ok rt' (give_atom rt' i (take_ref p held1))" "frame rt1 rt'"
    "atom_at rt1 i = None" using client_enter [OF ok held(1) e h1] by blast
  have "names_from rt1 rt' (name_of_type t (arg_units rt str))"
    by (rule names_from_update [OF r(3)]) (use u in \<open>auto simp: name_of_type_def\<close>)
  then have "names_from rt rt' (name_of_type t (arg_units rt str))" using names_from_trans [OF names_from_mono [OF n]] by blast
  moreover have "views rt' p = Some (as_ref_count a, as_string a, t, h)" using r(3) by simp
  moreover have "atom_at rt i = None" if "i < JS_ATOM_END" using pinned_entry [OF f that] r(6) by (cases "atom_at rt i") auto
  ultimately show ?thesis using r frame_trans [OF f(1) r(5) f(2)] held(2) u unfolding registered_def by (metis (no_types, lifting))
qed

lemma no_name_grows: "grows rt rt' \<Longrightarrow> t \<noteq> JS_ATOM_TYPE_SYMBOL \<Longrightarrow> no_name rt t us \<Longrightarrow> no_name rt' t us"
  unfolding grows_def no_name_def by blast

lemma hash_place_size: "atom_hash_size rt' = atom_hash_size rt \<Longrightarrow> hash_place rt' h = hash_place rt h"
  by (simp add: hash_place_def)

lemma client_string:
  assumes ok: "client_ok rt held" and s: "0 < held s" "atom_at rt 0 \<noteq> Some s"
  obtains a where "as_heap rt s = Some a" "js_string_ok (as_string a)" "struct_ok rt s a"
proof -
  obtain a where a: "as_heap rt s = Some a" by (rule client_held [OF ok s(1)])
  then show thesis using that core_struct [OF client_core [OF ok] a] s(2) by (simp add: struct_ok_def)
qed
text \<open>A string that is an atom already is copied, and the reference to it is released.\<close>

lemma register_copy:
  assumes ok: "client_ok rt1 held" and fr: "frame rt rt1" "atoms_core rt" and nf: "names_from rt rt1 {}" and free: "atom_free_index rt1 \<noteq> 0"
    and a: "as_heap rt1 s = Some a" "as_atom_type a \<noteq> 0" "js_string_ok (as_string a)" "atom_units a = arg_units rt (Some s)" and s: "0 < held s"
    and k: "t = JS_ATOM_TYPE_SYMBOL \<and> (h = JS_ATOM_HASH_SYMBOL \<or> h = JS_ATOM_HASH_PRIVATE) \<or>
      (t = JS_ATOM_TYPE_STRING \<or> t = JS_ATOM_TYPE_GLOBAL_SYMBOL) \<and> h = atom_hash_of t (atom_units a) \<and> no_name rt1 t (atom_units a)"
    and h1: "t = JS_ATOM_TYPE_SYMBOL \<or> h1 = hash_place rt1 h"
  shows "registered rt held (Some s) t h (do {
    (rt, r) \<leftarrow> atom_struct jm (Some s) t rt1;
    (case r of None \<Rightarrow> do { rt \<leftarrow> free_opt (Some s) rt; Some (rt, 0) } | Some p \<Rightarrow> atom_enter jm p t h h1 rt) })"
proof -
  let ?n = "payload_size (js_len (as_string a)) (js_wide (as_string a))"
  let ?q = "(as_string a)\<lparr>js_u := take ?n (js_u (as_string a))\<rparr>"
  note tr = js_units_trunc [OF a(3)]
  obtain rt2 b where m: "atom_malloc jm (16 + ?n) rt1 = (rt2, b)" by fastforce
  obtain c where e: "rt2 = rt1\<lparr>at_mem := c\<rparr>" using malloc_fields(1) [OF m] by blast
  have ok2: "client_ok rt2 held" using ok by (simp add: e client_ok_mem)
  have same2: "views rt2 = views rt1" "atom_at rt2 = atom_at rt1" "as_heap rt2 = as_heap rt1" "atom_free_index rt2 = atom_free_index rt1"
    "atom_size rt2 = atom_size rt1" "atom_hash_size rt2 = atom_hash_size rt1" "as_fresh rt2 = as_fresh rt1" by (simp_all add: e)
  have fr2: "frame rt rt2" using frame_trans [OF fr(1) frame_same fr(2)] same2 by simp
  have nf2: "names_from rt rt2 {}" by (rule names_from_trans [OF nf names_from_same]) (rule same2(1))
  show ?thesis
  proof (cases b)
    case False
    then have "atom_struct jm (Some s) t rt1 = Some (rt2, None)" using a m by (simp add: atom_struct_def Let_def)
    then show ?thesis using register_fails [OF ok2 fr2 fr(2) nf2, of "Some s"] s by simp
  next
    case True
    obtain rt3 p where n: "struct_new (string_value ?q) rt2 = (rt3, p)" by fastforce
    note ns = new_string_ok [OF ok2 tr(2) n]
    have ps: "p \<noteq> s" using client_fresh(1) [OF ok2] a(1) same2(3) by (auto simp: ns(4))
    obtain rt4 where r4: "js_free_string rt3 s = Some rt4" "client_ok rt4 ((give_ref p held)(s := give_ref p held s - 1))" "frame rt3 rt4"
      "\<And>q. q \<noteq> s \<Longrightarrow> views rt4 q = views rt3 q" "atom_size rt4 = atom_size rt3" "atom_hash_size rt4 = atom_hash_size rt3"
      "\<And>j. atom_at rt3 j = None \<Longrightarrow> atom_at rt4 j = None" "names_from rt3 rt4 {}"
      using free_string_ok [OF ns(1), of s] s ps by (auto simp: give_ref_def)
    let ?held = "(give_ref p held)(s := give_ref p held s - 1)"
    have struct: "atom_struct jm (Some s) t rt1 = Some (rt4, Some p)"
      using a m True n r4(1) by (simp add: atom_struct_def Let_def rd_block_def js_string_ok_def string_value_def)
    have fr3: "frame rt rt3" by (rule frame_trans [OF fr2 ns(2) fr(2)])
    have fr4: "frame rt rt4" by (rule frame_trans [OF fr3 r4(3) fr(2)])
    have v4: "views rt4 p = Some (1, ?q, 0, 0)" using r4(4) [OF ps] ns(5) by simp
    have sz: "atom_size rt3 = atom_size rt1" using n e by (auto simp: struct_new_def)
    have aok: "atoms_ok rt1" "atoms_ok rt4" using ok r4(2) by (simp_all add: client_ok_def)
    have free4: "atom_free_index rt4 \<noteq> 0"
      using free unfolding free_entry [OF aok(1)] free_entry [OF aok(2)] using r4(5,7) ns(3) same2(2) sz by auto
    have k4: "t = JS_ATOM_TYPE_SYMBOL \<and> (h = JS_ATOM_HASH_SYMBOL \<or> h = JS_ATOM_HASH_PRIVATE) \<or>
      (t = JS_ATOM_TYPE_STRING \<or> t = JS_ATOM_TYPE_GLOBAL_SYMBOL) \<and> h = atom_hash_of t (js_units ?q) \<and> no_name rt4 t (js_units ?q)"
    proof (cases "t = 3")
      case False
      then have n1: "no_name rt1 t (atom_units a)" "h = atom_hash_of t (atom_units a)" "t = 1 \<or> t = 2" using k by auto
      have "as_atom_type a \<noteq> t" using n1(1) views_heap [OF a(1)] by (auto simp: no_name_def atom_units_def)
      have "no_name rt4 t (atom_units a)" unfolding no_name_def
      proof (intro allI impI)
        fix q m x g assume v: "views rt4 q = Some (m, x, t, g)"
        have vs: "views rt3 s = Some (as_ref_count a, as_string a, as_atom_type a, as_hash a)"
          using ns(5) ps views_heap [OF a(1)] same2(1) by simp
        consider "q = s" | "q = p" | "q \<noteq> s" "q \<noteq> p" by blast
        then show "js_units x \<noteq> atom_units a"
        proof cases
          case 1
          then show ?thesis using frameD(3) [OF r4(3) vs] v a(2) \<open>as_atom_type a \<noteq> t\<close> by auto
        next
          case 2
          then show ?thesis using v v4 n1(3) by auto
        next
          case 3
          then have "views rt1 q = Some (m, x, t, g)" using v r4(4) [of q] ns(5) same2(1) by simp
          then show ?thesis using n1(1) by (auto simp: no_name_def)
        qed
      qed
      then show ?thesis using n1 tr(1) by (simp add: atom_units_def)
    qed (use k in auto)
    obtain a4 where a4: "enterable rt4 p a4 t h" "as_string a4 = ?q" using enterable_views [OF v4 free4 k4] by metis
    have "registered rt held (Some s) t h (atom_enter jm p t h h1 rt4)"
    proof (rule register_enter [OF r4(2) fr4 fr(2) _ a4(1)])
      show "names_from rt rt4 {}" by (rule names_from_trans [OF names_from_trans [OF nf2 ns(9)] r4(8)])
      show "t = JS_ATOM_TYPE_SYMBOL \<or> h1 = hash_place rt4 h"
        using h1 hash_place_size [of rt4 rt1 h] r4(6) ns(6) same2(6) by simp
      show "0 < ?held p" using ps by (simp add: give_ref_def)
      show "take_ref p ?held = take_opt (Some s) held"
        using ps client_fresh(2) [OF ok2] by (auto simp: fun_eq_iff take_ref_def give_ref_def take_opt_def ns(4))
      show "js_units (as_string a4) = arg_units rt (Some s)" using a4(2) tr(1) a(4) by (simp add: atom_units_def)
    qed
    then show ?thesis using struct by simp
  qed
qed
lemma growsD: "grows rt rt' \<Longrightarrow> views rt p = Some v \<Longrightarrow> views rt' p = Some v"
proof -
  assume g: "grows rt rt'" and v: "views rt p = Some v"
  have "\<forall>p. views rt p \<noteq> None \<longrightarrow> views rt' p = views rt p" using g unfolding grows_def by (elim conjE)
  from this [rule_format, of p] show "views rt' p = Some v" using v by (simp only: option.distinct not_False_eq_True True_implies_equals)
qed

lemma names_from_grows: "grows rt rt' \<Longrightarrow> names_from rt rt' {}"
  unfolding grows_def names_from_def by (metis numeral_eq_one_iff semiring_norm(84))

lemma register_ok:
  assumes ok: "client_ok rt held" and lim: "array_limit jm" and may: "may_register rt held str t h"
    and h1: "t = JS_ATOM_TYPE_SYMBOL \<or> h1 = hash_place rt h"
  shows "registered rt held str t h (atom_register jm str t h h1 rt)"
proof -
  note core = client_core [OF ok]
  obtain rt1 b where g: "(if atom_free_index rt = 0 then atom_grow jm rt else Some (rt, True)) = Some (rt1, b)" "client_ok rt1 held"
    "frame rt rt1" "grows rt rt1" "b \<longrightarrow> atom_free_index rt1 \<noteq> 0"
  proof (cases "atom_free_index rt = 0")
    case True
    then show thesis using grow_ok [OF ok True lim] that by auto
  next
    case False
    then show thesis using that [of rt True] ok by (simp add: grows_def)
  qed
  have nf: "names_from rt rt1 {}" by (rule names_from_grows [OF g(4)])
  have s: "case str of Some s \<Rightarrow> 0 < held s | None \<Rightarrow> True" using may by (auto simp: may_register_def split: option.splits)
  have hp: "t = JS_ATOM_TYPE_SYMBOL \<or> h1 = hash_place rt1 h" using h1 g(4) hash_place_size [of rt1 rt h] by (simp add: grows_def)
  show ?thesis
  proof (cases b)
    case False
    then show ?thesis using register_fails [OF g(2,3) core nf s] g(1) by (simp add: atom_register_def)
  next
    case b: True
    then have free: "atom_free_index rt1 \<noteq> 0" using g(5) by simp
    have run: "atom_register jm str t h h1 rt = do {
        (rt, r) \<leftarrow> atom_struct jm str t rt1;
        (case r of None \<Rightarrow> do { rt \<leftarrow> free_opt str rt; Some (rt, 0) } | Some p \<Rightarrow> atom_enter jm p t h h1 rt) }"
      using g(1) b by (simp add: atom_register_def)
    show ?thesis
    proof (cases str)
      case None
      then have t: "t = 3" "h = 0 \<or> h = 1" using may by (auto simp: may_register_def)
      obtain rt2 c where m: "atom_malloc jm 16 rt1 = (rt2, c)" by fastforce
      obtain d where e: "rt2 = rt1\<lparr>at_mem := d\<rparr>" using malloc_fields(1) [OF m] by blast
      have ok2: "client_ok rt2 held" using g(2) by (simp add: e client_ok_mem)
      have fr2: "frame rt rt2" by (rule frame_trans [OF g(3) frame_same core]) (simp_all add: e)
      have nf2: "names_from rt rt2 {}" by (rule names_from_trans [OF nf names_from_same]) (simp add: e)
      show ?thesis
      proof (cases c)
        case False
        then have "atom_struct jm str t rt1 = Some (rt2, None)" using None m by (simp add: atom_struct_def)
        then show ?thesis using run register_fails [OF ok2 fr2 core nf2 s] by simp
      next
        case True
        let ?q = "\<lparr>js_len = 0, js_wide = True, js_u = []\<rparr>"
        obtain rt3 p where n: "struct_new (string_value ?q) rt2 = (rt3, p)" by fastforce
        have q: "js_string_ok ?q" by (simp add: js_string_ok_def payload_size_def)
        note ns = new_string_ok [OF ok2 q n]
        have struct: "atom_struct jm str t rt1 = Some (rt3, Some p)" using None m True n by (simp add: atom_struct_def string_value_def)
        have fr3: "frame rt rt3" by (rule frame_trans [OF fr2 ns(2) core])
        have v: "views rt3 p = Some (1, ?q, 0, 0)" using ns(5) by simp
        have free3: "atom_free_index rt3 \<noteq> 0" using free ns(7) e by simp
        obtain a where a: "enterable rt3 p a t h" "as_string a = ?q" by (rule enterable_views [OF v free3, of t h]) (use t in auto)
        have "registered rt held str t h (atom_enter jm p t h h1 rt3)"
        proof (rule register_enter [OF ns(1) fr3 core names_from_trans [OF nf2 ns(9)] a(1)])
          show "take_ref p (give_ref p held) = take_opt str held" using None by (simp add: fun_eq_iff take_ref_def give_ref_def take_opt_def)
          show "js_units (as_string a) = arg_units rt str" using a(2) None by (simp add: arg_units_def js_units_def units16_def)
        qed (use t in \<open>simp_all add: give_ref_def\<close>)
        then show ?thesis using run struct by simp
      qed
    next
      case (Some s)
      have held: "0 < held s" "atom_at rt 0 \<noteq> Some s" using may Some by (simp_all add: may_register_def)
      obtain a where a: "as_heap rt s = Some a" "js_string_ok (as_string a)" by (rule client_string [OF ok held])
      have v1: "views rt1 s = Some (as_ref_count a, as_string a, as_atom_type a, as_hash a)"
        by (rule growsD [OF g(4) views_heap [OF a(1)]])
      then obtain a1 where a1: "as_heap rt1 s = Some a1" "as_string a1 = as_string a" "as_atom_type a1 = as_atom_type a" by (auto simp: views_Some)
      have u: "arg_units rt str = atom_units a" using a(1) Some by (simp add: arg_units_def)
      have k1: "t = JS_ATOM_TYPE_SYMBOL \<and> (h = JS_ATOM_HASH_SYMBOL \<or> h = JS_ATOM_HASH_PRIVATE) \<or>
        (t = JS_ATOM_TYPE_STRING \<or> t = JS_ATOM_TYPE_GLOBAL_SYMBOL) \<and> h = atom_hash_of t (atom_units a1) \<and> no_name rt1 t (atom_units a1)"
      proof (cases "t = 3")
        case False
        then have "t = 1 \<or> t = 2" "h = atom_hash_of t (atom_units a)" "no_name rt t (atom_units a)" using may u by (auto simp: may_register_def)
        then show ?thesis using no_name_grows [OF g(4) False] a1(2) by (simp add: atom_units_def)
      qed (use may in \<open>auto simp: may_register_def\<close>)
      show ?thesis
      proof (cases "as_atom_type a = 0")
        case True
        then have v0: "views rt1 s = Some (as_ref_count a, as_string a, 0, as_hash a)" using v1 by simp
        obtain a2 where a2: "enterable rt1 s a2 t h" "as_string a2 = as_string a"
          by (rule enterable_views [OF v0 free k1 [unfolded atom_units_def a1(2)]]) blast
        have "atom_struct jm str t rt1 = Some (struct_set s (a1\<lparr>as_atom_type := t\<rparr>) rt1, Some s)"
          using Some a1 True by (simp add: atom_struct_def)
        moreover have "registered rt held str t h (atom_enter jm s t h h1 rt1)"
          by (rule register_enter [OF g(2,3) core nf a2(1) hp held(1)]) (use Some a2(2) u in \<open>simp_all add: take_opt_def atom_units_def\<close>)
        ultimately show ?thesis using run atom_enter_retyped [OF a1(1)] by simp
      next
        case False
        have "registered rt held (Some s) t h (do {
            (rt, r) \<leftarrow> atom_struct jm (Some s) t rt1;
            (case r of None \<Rightarrow> do { rt \<leftarrow> free_opt (Some s) rt; Some (rt, 0) } | Some p \<Rightarrow> atom_enter jm p t h h1 rt) })"
          by (rule register_copy [OF g(2,3) core nf free a1(1) _ _ _ held(1) k1 hp])
            (use False a1 a(2) u Some in \<open>simp_all add: atom_units_def\<close>)
        then show ?thesis unfolding run unfolding Some .
      qed
    qed
  qed
qed

section \<open>Interning\<close>

lemma key_no_name:
  assumes core: "atoms_core rt" and k: "\<forall>i. atom_key rt i \<noteq> Some (t, us)" and t: "t = 1 \<or> t = 2"
  shows "no_name rt t us"
  unfolding no_name_def
proof (intro allI impI notI)
  fix q n s h assume v: "views rt q = Some (n, s, t, h)" and u: "js_units s = us"
  obtain a where a: "as_heap rt q = Some a" "as_string a = s" "as_atom_type a = t" using v by (auto simp: views_Some)
  obtain i where "atom_at rt i = Some q" by (rule core_in_array [OF core a(1)]) (use a(3) t in auto)
  then have "atom_key rt i = Some (t, us)" using a t u by (auto simp: atom_key_Some struct_at_def hashed_def atom_units_def)
  then show False using k by simp
qed

text \<open>The name that a call asks for, and what it promises: the one atom of that name, or no
  atom when memory runs out and there was none.\<close>

definition interned :: "'o atom_rt \<Rightarrow> (nat \<Rightarrow> nat) \<Rightarrow> nat \<Rightarrow> nat \<Rightarrow> 'o atom_result \<Rightarrow> bool" where
  "interned rt held s t res \<longleftrightarrow>
     (\<exists>rt' i. res = Some (rt', i) \<and> client_ok rt' (give_atom rt' i (take_ref s held)) \<and> frame rt rt' \<and>
        names_from rt rt' (name_of_type t (arg_units rt (Some s))) \<and>
        (if i = 0 then \<forall>j. atom_key rt j \<noteq> Some (t, arg_units rt (Some s)) else atom_key rt' i = Some (t, arg_units rt (Some s))))"

lemma key_views:
  assumes "atom_at rt i = Some p" "views rt p = Some (n, q, t, h)" "t = 1 \<or> t = 2"
  shows "atom_key rt i = Some (t, js_units q)"
  using assms by (auto simp: atom_key_Some struct_at_def views_Some hashed_def atom_units_def)

lemma NewAtom_interns:
  assumes ok: "client_ok rt held" and lim: "array_limit jm" and s: "0 < held s" "atom_at rt 0 \<noteq> Some s"
    and t: "t = JS_ATOM_TYPE_STRING \<or> t = JS_ATOM_TYPE_GLOBAL_SYMBOL"
  shows "interned rt held s t (JS_NewAtom_str jm (Some s) t rt)"
proof -
  note core = client_core [OF ok]
  have aok: "atoms_ok rt" and refs: "\<And>p. ref_ok rt held p" using ok by (simp_all add: client_ok_def)
  obtain a where a: "as_heap rt s = Some a" "js_string_ok (as_string a)" "struct_ok rt s a" by (rule client_string [OF ok s])
  have u: "arg_units rt (Some s) = atom_units a" using a(1) by (simp add: arg_units_def)
  show ?thesis
  proof (cases "as_atom_type a = t")
    case same: True
    then have ha: "hashed a" using t by (simp add: hashed_def)
    obtain i where i: "atom_at rt i = Some s" by (rule core_in_array [OF core a(1)]) (use same t in auto)
    note ix = get_atom_index_ok [OF aok i a(1) ha]
    have key: "atom_key rt i = Some (t, atom_units a)" using i a(1) ha same by (auto simp: atom_key_Some struct_at_def)
    show ?thesis
    proof (cases "i < JS_ATOM_END")
      case False
      then have "JS_NewAtom_str jm (Some s) t rt = Some (rt, i)" using t same a(1) ix(1) by (auto simp: JS_NewAtom_str_def)
      moreover have "give_atom rt i (take_ref s held) = held"
        using False i s(1) by (simp add: give_atom_def give_ref_def take_ref_def fun_eq_iff)
      ultimately show ?thesis using ok key u ix(2) unfolding interned_def by auto
    next
      case True
      define n where "n = as_ref_count a - 1"
      define rt1 where "rt1 = struct_set s (a\<lparr>as_ref_count := n\<rparr>) rt"
      note sr = set_ref [OF aok a(1), of n, folded rt1_def]
      have run: "JS_NewAtom_str jm (Some s) t rt = Some (rt1, i)"
        using t same a(1) ix(1) True by (auto simp: JS_NewAtom_str_def rt1_def n_def)
      have pin: "pinned rt s" using True i by (auto simp: pinned_def)
      have "ref_ok rt1 (take_ref s held) q" for q
      proof (cases "q = s")
        case True
        have "as_ref_count a = int (held s) + 1" using refs [of s] pin by (simp add: ref_ok_Some [OF views_heap [OF a(1)]])
        then show ?thesis using True s(1) pin pinned_cong [OF sr(3)] by (simp add: ref_ok_def sr(2) n_def take_ref_def of_nat_diff)
      next
        case False
        then show ?thesis using refs [of q] ref_ok_cong [of rt1 q rt "take_ref s held" held] pinned_cong [OF sr(3)] sr(2)
          by (simp add: take_ref_def)
      qed
      then have "client_ok rt1 (give_atom rt1 i (take_ref s held))" using sr(1) True by (simp add: client_ok_def give_atom_def)
      moreover have "atom_key rt1 i = Some (t, atom_units a)"
        using key_views [of rt1 i s n "as_string a" t] i t same sr(2,3) by (simp add: atom_units_def)
      ultimately show ?thesis using run sr(4) names_from_mono [OF sr(6)] u ix(2) unfolding interned_def by auto
    qed
  next
    case False
    define h where "h = atom_hash_of t (atom_units a)"
    have hs: "hash_string (as_string a) (word_of_nat t) = Some (units_hash (atom_units a) (word_of_nat t))"
      using hash_string_units [OF a(2)] by (simp add: atom_units_def)
    obtain r where r: "find_atom_loop rt h t (as_string a) (atom_hash rt ! hash_place rt h) = Some r"
      "case r of Some i \<Rightarrow> i \<noteq> 0 \<and> atom_key rt i = Some (t, atom_units a) | None \<Rightarrow> \<forall>i. atom_key rt i \<noteq> Some (t, atom_units a)"
      using find_atom_loop_ok [OF aok a(2), of t] unfolding h_def atom_units_def by blast
    obtain js where rd: "rd (atom_hash rt) (hash_place rt h) = Some (atom_hash rt ! hash_place rt h)" by (rule bucket_chain [OF aok])
    have run: "JS_NewAtom_str jm (Some s) t rt = (case r of
        Some i \<Rightarrow> do { rt \<leftarrow> (if i < JS_ATOM_END then Some rt else dup_struct rt i); rt \<leftarrow> js_free_string rt s; Some (rt, i) }
      | None \<Rightarrow> atom_register jm (Some s) t h (hash_place rt h) rt)"
    proof -
      have "t < 3" using t by auto
      moreover have "units_hash (atom_units a) (word_of_nat t) AND JS_ATOM_HASH_MASK = h" by (simp add: h_def atom_hash_of_def)
      ultimately show ?thesis using a(1) False hs rd r(1) by (simp add: JS_NewAtom_str_def Let_def)
    qed
    show ?thesis
    proof (cases r)
      case None
      have "no_name rt t (atom_units a)" using key_no_name [OF core _ t] r(2) None by simp
      then have "may_register rt held (Some s) t h" using s t u by (auto simp: may_register_def h_def)
      then obtain rt' i where res: "atom_register jm (Some s) t h (hash_place rt h) rt = Some (rt', i)"
        "client_ok rt' (give_atom rt' i (take_opt (Some s) held))" "frame rt rt'" "names_from rt rt' (name_of_type t (arg_units rt (Some s)))"
        "i = 0 \<or> (\<exists>p n q. atom_at rt' i = Some p \<and> views rt' p = Some (n, q, t, h) \<and> js_units q = arg_units rt (Some s))"
        using register_ok [OF ok lim, of "Some s" t h "hash_place rt h"] unfolding registered_def by auto
      have "atom_key rt' i = Some (t, atom_units a)" if "i \<noteq> 0" using res(5) that key_views [OF _ _ t] u by metis
      then show ?thesis using run None res r(2) u by (auto simp: interned_def take_opt_def)
    next
      case (Some i)
      then have key: "i \<noteq> 0" "atom_key rt i = Some (t, atom_units a)" using r(2) by simp_all
      then obtain p b where p: "atom_at rt i = Some p" "as_heap rt p = Some b" "hashed b" "as_atom_type b = t" "atom_units b = atom_units a"
        by (auto simp: atom_key_Some struct_at_Some)
      have ne: "p \<noteq> s" using p(2,4) a(1) False by auto
      obtain rt1 where r1: "(if i < JS_ATOM_END then Some rt else dup_struct rt i) = Some rt1" "client_ok rt1 (give_atom rt i held)" "frame rt rt1"
        "atom_at rt1 = atom_at rt" "names_from rt rt1 {}"
      proof (cases "i < JS_ATOM_END")
        case True
        then show thesis using that [of rt] ok by (simp add: give_atom_def)
      next
        case False
        then show thesis using dup_struct_ok [OF ok p(1)] that p(1) by (auto simp: give_atom_def give_ref_def)
      qed
      have hs: "0 < give_atom rt i held s" using s(1) by (simp add: give_atom_def give_ref_def)
      obtain rt2 where r2: "js_free_string rt1 s = Some rt2" "client_ok rt2 ((give_atom rt i held)(s := give_atom rt i held s - 1))" "frame rt1 rt2"
        "\<forall>q. q \<noteq> s \<longrightarrow> views rt2 q = views rt1 q" "names_from rt1 rt2 {}" using free_string_ok [OF r1(2) hs] by blast
      have v1: "\<exists>n. views rt1 p = Some (n, as_string b, t, as_hash b)"
      proof -
        have "atom_at rt1 i = Some p" using r1(4) p(1) by simp
        then obtain c where "as_heap rt1 p = Some c" by (rule core_slot [OF client_core [OF r1(2)]])
        then have "views rt1 p \<noteq> None" by (simp add: views_None)
        then obtain n' t' h' where v: "views rt1 p = Some (n', as_string b, t', h')"
          "as_atom_type b \<noteq> 0 \<longrightarrow> t' = as_atom_type b \<and> h' = as_hash b"
          using frameD(3) [OF r1(3) views_heap [OF p(2)]] by (elim disjE) auto
        have "as_atom_type b \<noteq> 0" using p(4) t by auto
        then show ?thesis using v p(4) by simp
      qed
      then have v2: "\<exists>n. views rt2 p = Some (n, as_string b, t, as_hash b)" using r2(4) ne by simp
      have at2: "atom_at rt2 i = Some p" using frameD(4) [OF r2(3), of i p] r1(4) p(1) v2 by auto
      have "atom_key rt2 i = Some (t, atom_units a)" using key_views [OF at2 _ t] v2 p(5) by (metis atom_units_def)
      moreover have "(give_atom rt i held)(s := give_atom rt i held s - 1) = give_atom rt2 i (take_ref s held)"
        using ne p(1) at2 by (auto simp: fun_eq_iff give_atom_def give_ref_def take_ref_def)
      moreover have "frame rt rt2" by (rule frame_trans [OF r1(3) r2(3) core])
      moreover have "names_from rt rt2 (name_of_type t (atom_units a))"
        by (rule names_from_mono [OF names_from_trans [OF r1(5) r2(5)]]) simp
      ultimately show ?thesis using run Some r1(1) r2(1,2) key(1) u by (auto simp: interned_def)
    qed
  qed
qed
end
