(* ===== verification/Js_Atom_Names.thy ===== *)
theory Js_Atom_Names
  imports Js_Atom
begin

text \<open>
  Decimal names.  A string is a tagged integer when it is the decimal form of a number below
  \<open>2 ^ 31\<close>: \<open>is_num_string\<close> recognises exactly the decimal forms of 32-bit numbers, so that
  \<open>snprintf\<close> in \<open>JS_AtomToValue\<close> is its inverse.
\<close>

section \<open>Decimal names\<close>

definition digits_value :: "u16 list \<Rightarrow> nat" where
  "digits_value us = foldl (\<lambda>n c. n * 10 + (unat c - 48)) 0 us"

definition decimal_units :: "nat \<Rightarrow> u16 list" where
  "decimal_units n = map ucast (decimal n)"

lemma digits_value_snoc [simp]: "digits_value (us @ [c]) = digits_value us * 10 + (unat c - 48)"
  by (simp add: digits_value_def)

lemma digits_value_Nil [simp]: "digits_value [] = 0"
  by (simp add: digits_value_def)

lemma is_num_unat: "is_num c \<longleftrightarrow> 48 \<le> unat c \<and> unat c \<le> 57"
  by (simp add: is_num_def word_le_nat_alt)

lemma digit_unit:
  assumes "d < 10"
  shows "unat (ucast (0x30 + word_of_nat d :: u8) :: u16) = 48 + d" "is_num (ucast (0x30 + word_of_nat d :: u8))"
proof -
  have "unat (word_of_nat d :: u8) = d" using assms by (simp add: unsigned_of_nat take_bit_nat_eq_self)
  then have "unat (0x30 + word_of_nat d :: u8) = 48 + d" using assms by (subst unat_add_lem [THEN iffD1]) simp_all
  then show u: "unat (ucast (0x30 + word_of_nat d :: u8) :: u16) = 48 + d"
    using assms by (subst unat_ucast_small) simp_all
  then show "is_num (ucast (0x30 + word_of_nat d :: u8))" using assms by (simp add: is_num_unat)
qed

lemma decimal_units_simps:
  "decimal_units n = (if n < 10 then [ucast (0x30 + word_of_nat n :: u8)] else decimal_units (n div 10) @ [ucast (0x30 + word_of_nat (n mod 10) :: u8)])"
  by (simp add: decimal_units_def decimal.simps [of n])

lemma decimal_units_value: "digits_value (decimal_units n) = n \<and> list_all is_num (decimal_units n) \<and> decimal_units n \<noteq> []"
proof (induction n rule: less_induct)
  case (less n)
  show ?case
  proof (cases "n < 10")
    case True
    then show ?thesis by (subst (1 2 3) decimal_units_simps) (simp add: digit_unit digits_value_def)
  next
    case False
    then show ?thesis using less.IH [of "n div 10"]
      by (subst (1 2 3) decimal_units_simps) (simp add: digit_unit)
  qed
qed

lemma digits_value_append: "digits_value (us @ vs) = digits_value us * 10 ^ length vs + digits_value vs"
proof (induction vs rule: rev_induct)
  case (snoc v vs)
  show ?case using snoc.IH by (simp add: append_assoc [symmetric] algebra_simps del: append_assoc)
qed simp

lemma digits_value_bound: "list_all is_num us \<Longrightarrow> digits_value us < 10 ^ length us"
  by (induction us rule: rev_induct) (auto simp: is_num_unat)

lemma digits_value_lower: "us = c # cs \<Longrightarrow> is_num c \<Longrightarrow> c \<noteq> 0x30 \<Longrightarrow> 10 ^ length cs \<le> digits_value us"
proof -
  assume us: "us = c # cs" and c: "is_num c" "c \<noteq> 0x30"
  have "unat c \<noteq> 48" using c(2) by (auto simp: word_unat_eq_iff)
  then have "1 \<le> unat c - 48" using c(1) unfolding is_num_unat by linarith
  then have "10 ^ length cs \<le> (unat c - 48) * 10 ^ length cs" by simp
  moreover have "digits_value us = (unat c - 48) * 10 ^ length cs + digits_value cs"
    using digits_value_append [of "[c]" cs] us by (simp add: digits_value_def [of "[c]"])
  ultimately show "10 ^ length cs \<le> digits_value us" by linarith
qed

text \<open>The canonical decimal form: digits without a leading zero.\<close>

definition canonical_digits :: "u16 list \<Rightarrow> bool" where
  "canonical_digits us \<longleftrightarrow> us \<noteq> [] \<and> list_all is_num us \<and> (hd us = 0x30 \<longrightarrow> length us = 1)"

lemma hd_decimal: "0 < n \<Longrightarrow> hd (decimal_units n) \<noteq> 0x30"
proof (induction n rule: less_induct)
  case (less n)
  show ?case
  proof (cases "n < 10")
    case True
    then have "unat (hd (decimal_units n)) \<noteq> 48" using less.prems by (subst decimal_units_simps) (simp add: digit_unit)
    then show ?thesis by (auto simp: word_unat_eq_iff)
  next
    case False
    then have "decimal_units n = decimal_units (n div 10) @ [ucast (0x30 + word_of_nat (n mod 10) :: u8)]" by (subst decimal_units_simps) simp
    then show ?thesis using less.IH [of "n div 10"] False decimal_units_value [of "n div 10"] by simp
  qed
qed

lemma unit_digit: "is_num c \<Longrightarrow> ucast (0x30 + word_of_nat (unat c - 48) :: u8) = c"
proof -
  assume c: "is_num c"
  then have "unat c - 48 < 10" unfolding is_num_unat by linarith
  from digit_unit(1) [OF this] show ?thesis using c by (simp add: word_unat_eq_iff is_num_unat)
qed

lemma decimal_of_digits: "canonical_digits us \<Longrightarrow> decimal_units (digits_value us) = us"
proof (induction us rule: rev_induct)
  case (snoc c us)
  have c: "is_num c" using snoc.prems by (simp add: canonical_digits_def)
  then have d: "unat c - 48 < 10" unfolding is_num_unat by linarith
  show ?case
  proof (cases "us = []")
    case True
    then show ?thesis using c d by (subst decimal_units_simps) (simp add: digits_value_def unit_digit)
  next
    case False
    then obtain x xs where us: "us = x # xs" by (cases us) auto
    have x: "is_num x" "x \<noteq> 0x30" using snoc.prems us by (auto simp: canonical_digits_def)
    then have can: "canonical_digits us" using snoc.prems us by (auto simp: canonical_digits_def)
    have "1 \<le> digits_value us" using digits_value_lower [OF us x] by (meson le_trans one_le_numeral one_le_power)
    then have "\<not> digits_value (us @ [c]) < 10" by simp
    moreover have "digits_value (us @ [c]) div 10 = digits_value us" "digits_value (us @ [c]) mod 10 = unat c - 48" using d by simp_all
    ultimately show ?thesis using snoc.IH [OF can] unit_digit [OF c] by (subst decimal_units_simps) simp
  qed
qed (simp add: canonical_digits_def)

lemma canonical_decimal: "canonical_digits (decimal_units n)"
proof (cases "n = 0")
  case True
  then show ?thesis by (subst decimal_units_simps) (simp add: canonical_digits_def is_num_def)
next
  case False
  then show ?thesis using hd_decimal [of n] decimal_units_value [of n] by (simp add: canonical_digits_def)
qed

section \<open>Numeric strings\<close>

lemma drop_nth_Suc: "i < length us \<Longrightarrow> drop i us = us ! i # drop (Suc i) us"
  by (simp add: Cons_nth_drop_Suc)

lemma string_get_nth: "js_string_ok p \<Longrightarrow> i < js_len p \<Longrightarrow> string_get p i = Some (js_units p ! i)"
  using string_get_unit(1) [OF _ drop_nth_Suc] length_js_units by metis

lemma digit_step:
  fixes n :: u32
  assumes "is_num c"
  defines "n64 \<equiv> ucast n * 10 + (ucast c - 0x30) :: u64"
  shows "unat n64 = unat n * 10 + (unat c - 48)" "drop_bit 32 n64 = 0 \<longleftrightarrow> unat n64 < 2 ^ 32"
proof -
  have n: "unat (ucast n :: u64) = unat n" by (rule unat_ucast_small) (use unsigned_less [of n, where ?'a = nat] in simp)
  have c: "unat (ucast c :: u64) = unat c" by (rule unat_ucast_small) (use unsigned_less [of c, where ?'a = nat] in simp)
  have b: "unat n < 2 ^ 32" "48 \<le> unat c" "unat c \<le> 57" using unsigned_less [of n, where ?'a = nat] assms(1) by (simp_all add: is_num_unat)
  have m: "unat (ucast n * 10 :: u64) = unat n * 10" using b n by (subst unat_mult_lem [THEN iffD1]) simp_all
  have d: "unat (ucast c - 0x30 :: u64) = unat c - 48" using b c by (subst unat_sub) (simp_all add: word_le_nat_alt)
  show "unat n64 = unat n * 10 + (unat c - 48)" unfolding n64_def using b m d by (subst unat_add_lem [THEN iffD1]) simp_all
  have "drop_bit 32 n64 = 0 \<longleftrightarrow> unat (drop_bit 32 n64) = 0" by (simp add: word_unat_eq_iff)
  also have "\<dots> \<longleftrightarrow> unat n64 div 2 ^ 32 = 0" by (simp add: drop_bit_eq_div unat_div)
  also have "\<dots> \<longleftrightarrow> unat n64 < 2 ^ 32" by (simp add: div_eq_0_iff)
  finally show "drop_bit 32 n64 = 0 \<longleftrightarrow> unat n64 < 2 ^ 32" .
qed

definition num_answer :: "u16 list \<Rightarrow> u32 option" where
  "num_answer us = (if list_all is_num us \<and> digits_value us < 2 ^ 32 then Some (word_of_nat (digits_value us)) else None)"

lemma num_loop_spec:
  assumes p: "js_string_ok p"
  shows "i + k = js_len p \<Longrightarrow> list_all is_num (take i (js_units p)) \<Longrightarrow> digits_value (take i (js_units p)) < 2 ^ 32 \<Longrightarrow>
    unat n = digits_value (take i (js_units p)) \<Longrightarrow> num_loop p k i n = Some (num_answer (js_units p))"
proof (induction k arbitrary: i n)
  case 0
  then have t: "take i (js_units p) = js_units p" using length_js_units [OF p] by simp
  then have "word_of_nat (digits_value (js_units p)) = n" using 0(4) t by (metis of_nat_unat ucast_id)
  then show ?case using 0 t by (simp add: num_answer_def)
next
  case (Suc k)
  let ?us = "js_units p" and ?c = "js_units p ! i"
  have i: "i < js_len p" "i < length ?us" using Suc.prems(1) length_js_units [OF p] by simp_all
  have tk: "take (Suc i) ?us = take i ?us @ [?c]" using i(2) by (rule take_Suc_conv_app_nth)
  have us: "?us = take (Suc i) ?us @ drop (Suc i) ?us" by simp
  note g = string_get_nth [OF p i(1)]
  show ?case
  proof (cases "is_num ?c")
    case False
    then have "\<not> list_all is_num ?us" using i(2) by (auto simp: list_all_iff)
    then show ?thesis using g False by (simp add: num_answer_def)
  next
    case True
    let ?m = "ucast n * 10 + (ucast ?c - 0x30) :: u64"
    note ds = digit_step [OF True, of n]
    have v: "unat ?m = digits_value (take (Suc i) ?us)" using ds(1) Suc.prems(4) tk by simp
    show ?thesis
    proof (cases "unat ?m < 2 ^ 32")
      case lt: True
      have "unat (ucast ?m :: u32) = digits_value (take (Suc i) ?us)" using lt v by (subst unat_ucast_small) simp_all
      moreover have "list_all is_num (take (Suc i) ?us)" using Suc.prems(2) True tk by simp
      ultimately have "num_loop p k (Suc i) (ucast ?m) = Some (num_answer ?us)" using Suc.IH [of "Suc i" "ucast ?m"] Suc.prems(1) lt v by simp
      then show ?thesis using g True ds(2) lt by simp
    next
      case False
      have "digits_value (take (Suc i) ?us) \<le> digits_value ?us"
        using digits_value_append [of "take (Suc i) ?us" "drop (Suc i) ?us"] by (simp add: trans_le_add1)
      then show ?thesis using g True ds(2) False v by (simp add: num_answer_def)
    qed
  qed
qed

lemma is_num_string_answer:
  assumes p: "js_string_ok p"
  shows "is_num_string p = Some (if canonical_digits (js_units p) \<and> digits_value (js_units p) < 2 ^ 32
    then Some (word_of_nat (digits_value (js_units p))) else None)"
proof (cases "js_units p")
  case Nil
  then have "js_len p = 0" using length_js_units [OF p] by simp
  then show ?thesis using Nil by (simp add: is_num_string_def canonical_digits_def)
next
  case (Cons c cs)
  have len: "js_len p = Suc (length cs)" using length_js_units [OF p] Cons by simp
  have g: "string_get p 0 = Some c" using string_get_nth [OF p, of 0] len Cons by simp
  consider "10 < js_len p" | "js_len p \<le> 10" "\<not> is_num c" | "js_len p \<le> 10" "is_num c" "c = 0x30" | "js_len p \<le> 10" "is_num c" "c \<noteq> 0x30" by linarith
  then show ?thesis
  proof cases
    case 1
    have "\<not> digits_value (js_units p) < 2 ^ 32" if can: "canonical_digits (js_units p)"
    proof -
      have c: "is_num c" "c \<noteq> 0x30" using can 1 len Cons by (auto simp: canonical_digits_def)
      have "(10 :: nat) ^ 10 \<le> 10 ^ length cs" using 1 len by (intro power_increasing) simp_all
      then show ?thesis using digits_value_lower [OF Cons c] by simp
    qed
    then show ?thesis using 1 by (auto simp: is_num_string_def)
  next
    case 2
    then show ?thesis using g len Cons by (simp add: is_num_string_def canonical_digits_def)
  next
    case 3
    have "digits_value [0x30] = 0" by (simp add: digits_value_def)
    then show ?thesis using 3 g len Cons by (auto simp: is_num_string_def canonical_digits_def is_num_def)
  next
    case 4
    have u: "unat (ucast c - 0x30 :: u32) = unat c - 48"
    proof -
      have "unat (ucast c :: u32) = unat c" by (rule unat_ucast_small) (use unsigned_less [of c, where ?'a = nat] in simp)
      then show ?thesis using 4(2) by (subst unat_sub) (simp_all add: word_le_nat_alt is_num_unat)
    qed
    have d: "digits_value (take 1 (js_units p)) = unat c - 48" using Cons by (simp add: digits_value_def)
    have "unat c - 48 \<le> 9" using 4(2) unfolding is_num_unat by linarith
    then have "unat c - 48 < 2 ^ 32" by (rule le_less_trans) simp
    then have "num_loop p (length cs) 1 (ucast c - 0x30) = Some (num_answer (js_units p))"
      by (intro num_loop_spec [OF p]) (use len Cons 4(2) u d in simp_all)
    moreover have "canonical_digits (js_units p) \<longleftrightarrow> list_all is_num (js_units p)" using 4(3) Cons by (simp add: canonical_digits_def)
    ultimately show ?thesis using 4 g len by (simp add: is_num_string_def num_answer_def)
  qed
qed

lemma is_num_string_Some:
  assumes "js_string_ok p"
  shows "is_num_string p = Some (Some n) \<longleftrightarrow> js_units p = decimal_units (unat n)" "is_num_string p \<noteq> None"
proof -
  show "is_num_string p \<noteq> None" by (simp add: is_num_string_answer [OF assms])
  have small: "unat n < 2 ^ 32" using unsigned_less [of n, where ?'a = nat] by simp
  show "is_num_string p = Some (Some n) \<longleftrightarrow> js_units p = decimal_units (unat n)"
  proof
    assume "is_num_string p = Some (Some n)"
    then have c: "canonical_digits (js_units p)" "digits_value (js_units p) < 2 ^ 32" "n = word_of_nat (digits_value (js_units p))"
      by (simp_all add: is_num_string_answer [OF assms] split: if_splits)
    then have "unat n = digits_value (js_units p)" by (simp add: unsigned_of_nat take_bit_nat_eq_self)
    then show "js_units p = decimal_units (unat n)" using decimal_of_digits [OF c(1)] by simp
  next
    assume "js_units p = decimal_units (unat n)"
    then show "is_num_string p = Some (Some n)"
      using canonical_decimal [of "unat n"] decimal_units_value [of "unat n"] small by (simp add: is_num_string_answer [OF assms])
  qed
qed

section \<open>The names of the enumeration\<close>

text \<open>The names of string atoms in \<open>quickjs-atom.h\<close> (the first 209) are distinct, and none is a
  number.\<close>

lemma names_low: "distinct (take 105 js_atom_init)"
  unfolding js_atom_init_def by simp

lemma names_high: "distinct (drop 105 (take 209 js_atom_init))"
  unfolding js_atom_init_def by simp

lemma names_cross: "set (take 105 js_atom_init) \<inter> set (drop 105 (take 209 js_atom_init)) = {}"
  unfolding js_atom_init_def by simp

lemma js_atom_init_distinct: "distinct (take 209 js_atom_init)"
proof -
  have "take 209 js_atom_init = take 105 js_atom_init @ drop 105 (take 209 js_atom_init)"
    using append_take_drop_id [of 105 "take 209 js_atom_init"] by (simp add: min_def)
  then show ?thesis using names_low names_high names_cross by (metis distinct_append)
qed

lemma length_js_atom_init: "length js_atom_init = 224"
  by (simp add: js_atom_init_def)

lemma js_atom_init_letters: "list_all (\<lambda>s. s = [] \<or> \<not> is_digit8 (of_char (hd s))) js_atom_init"
  by (simp add: js_atom_init_def is_digit8_def)

definition init_name :: "nat \<Rightarrow> u16 list" where
  "init_name i = map (\<lambda>c. ucast (of_char c :: u8)) (js_atom_init ! (i - 1))"

lemma unat_byte: "unat (ucast (w :: u8) :: u16) = unat w"
  by (rule unat_ucast_small) (use unsigned_less [of w, where ?'a = nat] in simp)

lemma init_name_inj:
  assumes "0 < i" "i < JS_ATOM_Private_brand" "0 < j" "j < JS_ATOM_Private_brand" "init_name i = init_name j"
  shows "i = j"
proof -
  have "inj (\<lambda>c. ucast (of_char c :: u8) :: u16)"
  proof (rule injI)
    fix c d assume "ucast (of_char c :: u8) = (ucast (of_char d :: u8) :: u16)"
    then have "unat (of_char c :: u8) = unat (of_char d :: u8)" by (metis unat_byte)
    moreover have "unat (of_char e :: u8) = of_char e" for e
    proof -
      have "(of_char e :: u8) = word_of_nat (of_char e)" by (simp only: of_nat_of_char)
      then show ?thesis by (simp add: unsigned_of_nat take_bit_nat_eq_self)
    qed
    ultimately show "c = d" by simp
  qed
  then have "js_atom_init ! (i - 1) = js_atom_init ! (j - 1)" using assms(5) by (simp add: init_name_def inj_map_eq_map)
  then have "take 209 js_atom_init ! (i - 1) = take 209 js_atom_init ! (j - 1)"
    using assms(1-4) by (simp add: JS_ATOM_Private_brand_def)
  then have "i - 1 = j - 1" using js_atom_init_distinct assms(1-4)
    by (subst (asm) nth_eq_iff_index_eq) (simp_all add: length_js_atom_init JS_ATOM_Private_brand_def)
  then show ?thesis using assms(1,3) by simp
qed

lemma init_name_not_decimal:
  assumes "0 < i" "i < JS_ATOM_END"
  shows "init_name i \<noteq> decimal_units n"
proof
  assume e: "init_name i = decimal_units n"
  let ?s = "js_atom_init ! (i - 1)"
  have "?s \<in> set js_atom_init" using assms by (simp add: length_js_atom_init JS_ATOM_END_def)
  then have s: "?s = [] \<or> \<not> is_digit8 (of_char (hd ?s))" using js_atom_init_letters by (simp add: list_all_iff)
  have d: "init_name i \<noteq> []" "is_num (hd (init_name i))"
    using e decimal_units_value [of n] by (cases "decimal_units n"; simp)+
  then have "?s \<noteq> []" "is_num (ucast (of_char (hd ?s) :: u8))" by (auto simp: init_name_def hd_map)
  then show False using s by (simp add: is_digit8_def is_num_def word_le_nat_alt unat_byte)
qed

end
