(* ===== verification/Js_Atom_Init.thy ===== *)
theory Js_Atom_Init
  imports Js_Atom_Calls Js_Atom_Names
begin

text \<open>
  The predefined atoms.  \<open>JS_InitAtoms\<close> relies on the order in which \<open>__JS_NewAtom\<close> takes the
  entries of an array without released entries: the atom for the \<open>k\<close>-th name of
  \<open>quickjs-atom.h\<close> must get the index that the enumeration gives to that name.
\<close>

section \<open>The free list before the first release\<close>

definition seq_free :: "'o atom_rt \<Rightarrow> nat \<Rightarrow> bool" where
  "seq_free rt k \<longleftrightarrow> length (atom_array rt) = atom_size rt \<and> (if atom_size rt = 0 then k = 1 else k \<le> atom_size rt) \<and>
     atom_free_index rt = (if k < atom_size rt then k else 0) \<and>
     (\<forall>j. k \<le> j \<longrightarrow> j < atom_size rt \<longrightarrow> atom_array rt ! j = Free_slot (if j = atom_size rt - 1 then 0 else j + 1))"

text \<open>An allocator that refuses nothing but oversized arrays.\<close>

definition generous :: "'o js_mem \<Rightarrow> bool" where
  "generous jm \<longleftrightarrow> (\<forall>c n. snd (jm_malloc jm c n) \<noteq> None) \<and> (\<forall>c p n. n \<le> 8 * atom_size_limit \<longrightarrow> snd (jm_realloc jm c p n) \<noteq> None)"

lemma resize_chain_array:
  assumes "resize_chain m h t rt = Some r"
  shows "atom_array (snd r) = atom_array rt \<and> atom_size (snd r) = atom_size rt \<and> atom_free_index (snd r) = atom_free_index rt"
  using assms
proof (rule resize_chain.raw_induct [rotated])
  fix f :: "u32 \<Rightarrow> nat \<Rightarrow> nat list \<Rightarrow> 'a atom_rt \<Rightarrow> (nat list \<times> 'a atom_rt) option" and m h t rt r
  assume IH: "\<And>m h t rt r. f m h t (rt :: 'a atom_rt) = Some r \<Longrightarrow>
      atom_array (snd r) = atom_array rt \<and> atom_size (snd r) = atom_size rt \<and> atom_free_index (snd r) = atom_free_index rt"
  show "(if h = 0 then Some (t, rt) else do {
      p \<leftarrow> atom_at rt h; a \<leftarrow> as_heap rt p; let j = unat (as_hash a AND m); front \<leftarrow> rd t j; t \<leftarrow> wr t j h;
      f m (as_hash_next a) t (struct_set p (a\<lparr>as_hash_next := front\<rparr>) rt) }) = Some r \<Longrightarrow>
    atom_array (snd r) = atom_array rt \<and> atom_size (snd r) = atom_size rt \<and> atom_free_index (snd r) = atom_free_index rt"
    by (auto simp: Let_def split: if_splits bind_splits dest!: IH)
qed

lemma resize_loop_array:
  "resize_loop n i m t rt = Some r \<Longrightarrow>
   atom_array (snd r) = atom_array rt \<and> atom_size (snd r) = atom_size rt \<and> atom_free_index (snd r) = atom_free_index rt"
proof (induction n arbitrary: i t rt)
  case (Suc n)
  obtain h t1 rt1 where s: "resize_chain m h t rt = Some (t1, rt1)" "resize_loop n (Suc i) m t1 rt1 = Some r"
    using Suc.prems by (auto split: bind_splits)
  show ?case using resize_chain_array [OF s(1)] Suc.IH [OF s(2)] by simp
qed auto

lemma ResizeAtomHash_array:
  assumes "JS_ResizeAtomHash jm n rt = Some (rt', r)"
  shows "atom_array rt' = atom_array rt" "atom_size rt' = atom_size rt" "atom_free_index rt' = atom_free_index rt"
proof -
  obtain rt1 b where m: "atom_malloc jm (4 * n) rt = (rt1, b)" by fastforce
  obtain c where c: "rt1 = rt\<lparr>at_mem := c\<rparr>" using malloc_fields(1) [OF m] by blast
  have "atom_array rt' = atom_array rt \<and> atom_size rt' = atom_size rt \<and> atom_free_index rt' = atom_free_index rt"
    using assms m c resize_loop_array by (cases b) (fastforce simp: JS_ResizeAtomHash_def assert_c_def split: bind_splits if_splits)+
  then show "atom_array rt' = atom_array rt" "atom_size rt' = atom_size rt" "atom_free_index rt' = atom_free_index rt" by simp_all
qed

lemma enter_seq:
  assumes s: "seq_free rt k" "k < atom_size rt" and e: "atom_enter jm p t h h1 rt = Some (rt', i)"
  shows "i = k" "seq_free rt' (Suc k)"
proof -
  have f: "atom_free_index rt = k" "rd (atom_array rt) k = Some (Free_slot (if k = atom_size rt - 1 then 0 else k + 1))"
    using s by (simp_all add: seq_free_def)
  have "i = k \<and> atom_array rt' = (atom_array rt)[k := Atom_slot p] \<and> atom_size rt' = atom_size rt \<and>
      atom_free_index rt' = (if k = atom_size rt - 1 then 0 else k + 1)"
    using e f s(2) s(1) ResizeAtomHash_array
    by (fastforce simp: atom_enter_def Let_def seq_free_def split: bind_splits if_splits)
  then show "i = k" "seq_free rt' (Suc k)" using s by (auto simp: seq_free_def)
qed

lemma atom_malloc_cases:
  assumes "atom_malloc jm n rt = (rt', b)"
  shows "\<exists>c. rt' = rt\<lparr>at_mem := c\<rparr>" "\<not> b \<Longrightarrow> \<not> generous jm"
proof -
  have m: "\<not> b \<Longrightarrow> snd (jm_malloc jm (at_mem rt) n) = None" "\<exists>c. rt' = rt\<lparr>at_mem := c\<rparr>"
    using assms by (auto simp: atom_malloc_def split: prod.splits)
  from m(2) show "\<exists>c. rt' = rt\<lparr>at_mem := c\<rparr>" .
  from m(1) show "\<not> b \<Longrightarrow> \<not> generous jm" unfolding generous_def by blast
qed

lemma atom_realloc_cases:
  assumes "atom_realloc jm m n rt = (rt', b)"
  shows "\<exists>c. rt' = rt\<lparr>at_mem := c\<rparr>" "\<not> b \<Longrightarrow> n \<le> 8 * atom_size_limit \<Longrightarrow> \<not> generous jm"
proof -
  have m: "\<not> b \<Longrightarrow> snd (jm_realloc jm (at_mem rt) (replicate m 0) n) = None" "\<exists>c. rt' = rt\<lparr>at_mem := c\<rparr>"
    using assms by (auto simp: atom_realloc_def split: prod.splits)
  from m(2) show "\<exists>c. rt' = rt\<lparr>at_mem := c\<rparr>" .
  from m(1) show "\<not> b \<Longrightarrow> n \<le> 8 * atom_size_limit \<Longrightarrow> \<not> generous jm" unfolding generous_def by blast
qed

lemma free_slots_nth: "start \<le> j \<Longrightarrow> j < n \<Longrightarrow> free_slots start n ! (j - start) = Free_slot (if j = n - 1 then 0 else j + 1)"
  by (simp add: free_slots_def)

lemma length_free_slots [simp]: "length (free_slots start n) = n - start"
  by (simp add: free_slots_def)

text \<open>What growing does to an array whose entries below \<open>k\<close> are in use.\<close>

definition grown_to :: "'o atom_rt \<Rightarrow> nat \<Rightarrow> 'o atom_rt \<Rightarrow> bool" where
  "grown_to rt k rt' \<longleftrightarrow> seq_free rt' k \<and> (\<forall>s. s \<noteq> as_fresh rt \<longrightarrow> as_heap rt' s = as_heap rt s)"

lemma grow_seq:
  assumes s: "seq_free rt k" "atom_free_index rt = 0" "0 < k" "k \<le> 300" and g: "atom_grow jm rt = Some (rt', b)"
  shows "grown_to rt k rt'" "if b then k < atom_size rt' else \<not> generous jm"
proof -
  define m where "m = max 211 (atom_size rt * 3 div 2)"
  have sz: "atom_size rt = 0 \<and> k = 1 \<or> atom_size rt = k" using s by (auto simp: seq_free_def split: if_splits)
  then have bounds: "\<not> JS_ATOM_MAX < m" "8 * m \<le> 8 * atom_size_limit" "atom_size rt * 3 < 2 ^ 31" "k < m"
    using s(3,4) by (auto simp: m_def JS_ATOM_MAX_def atom_size_limit_def)
  obtain rt1 b1 where r: "atom_realloc jm (8 * atom_size rt) (8 * m) rt = (rt1, b1)" by fastforce
  obtain c where c: "rt1 = rt\<lparr>at_mem := c\<rparr>" using atom_realloc_cases(1) [OF r] by blast
  have run: "atom_grow jm rt = (if b1 then if atom_size rt = 0 then
        (case atom_malloc jm 16 rt1 of (rt2, False) \<Rightarrow> Some (rt2, False)
         | (rt2, True) \<Rightarrow> (case struct_new null_atom rt2 of (rt2, p) \<Rightarrow>
             Some (rt2\<lparr>atom_count := atom_count rt2 + 1, atom_size := m, atom_array := Atom_slot p # free_slots 1 m, atom_free_index := 1\<rparr>, True)))
      else Some (rt1\<lparr>atom_size := m, atom_array := atom_array rt1 @ free_slots (atom_size rt1) m, atom_free_index := atom_size rt1\<rparr>, True)
      else Some (rt1, False))"
    using bounds r c by (cases b1) (simp_all add: atom_grow_def m_def [symmetric] assert_c_def)
  have "grown_to rt k rt' \<and> (if b then k < atom_size rt' else \<not> generous jm)"
  proof (cases b1)
    case False
    then have "rt' = rt1" "\<not> b" using run g by simp_all
    then show ?thesis using False c s(1) atom_realloc_cases(2) [OF r _ bounds(2)] by (simp add: grown_to_def seq_free_def)
  next
    case b1: True
    show ?thesis
    proof (cases "atom_size rt = 0")
      case False
      then have k: "atom_size rt = k" using sz by simp
      have len: "length (atom_array rt) = k" using s(1) k by (simp add: seq_free_def)
      have "(atom_array rt @ free_slots k m) ! j = Free_slot (if j = m - 1 then 0 else j + 1)" if "k \<le> j" "j < m" for j
        using that len free_slots_nth [of k j m] by (simp add: nth_append)
      then show ?thesis using run g b1 False c k len bounds(4) by (auto simp: grown_to_def seq_free_def)
    next
      case True
      then have k: "k = 1" using sz s(3) by auto
      obtain rt2 b2 where m2: "atom_malloc jm 16 rt1 = (rt2, b2)" by fastforce
      obtain d where d: "rt2 = rt1\<lparr>at_mem := d\<rparr>" using atom_malloc_cases(1) [OF m2] by blast
      have "(Atom_slot p # free_slots 1 m) ! j = Free_slot (if j = m - 1 then 0 else j + 1)" if "1 \<le> j" "j < m" for j p
        using that free_slots_nth [of 1 j m] by (cases j) (simp_all split del: if_split)
      then show ?thesis using run g b1 True c d k bounds(4) m2 s(1) atom_malloc_cases(2) [OF m2]
        by (cases b2) (auto simp: grown_to_def seq_free_def struct_new_def)
    qed
  qed
  then show "grown_to rt k rt'" "if b then k < atom_size rt' else \<not> generous jm" by simp_all
qed

text \<open>The index of a new entry.\<close>

lemma register_seq:
  assumes s: "seq_free rt k" "0 < k" "k \<le> 300" and a: "as_heap rt s = Some a" "as_atom_type a = 0" "s < as_fresh rt"
    and r: "atom_register jm (Some s) t h h1 rt = Some (rt', i)"
  shows "i = k \<and> seq_free rt' (Suc k) \<or> i = 0 \<and> \<not> generous jm"
proof -
  obtain rt1 b where g: "(if atom_free_index rt = 0 then atom_grow jm rt else Some (rt, True)) = Some (rt1, b)"
    using r by (auto simp: atom_register_def split: bind_splits)
  have g1: "seq_free rt1 k" "as_heap rt1 s = Some a" "if b then k < atom_size rt1 else \<not> generous jm"
  proof -
    have "grown_to rt k rt1 \<and> (if b then k < atom_size rt1 else \<not> generous jm)"
    proof (cases "atom_free_index rt = 0")
      case True
      then show ?thesis using grow_seq [OF s(1) True s(2,3)] g by simp
    next
      case False
      then show ?thesis using g s(1) by (auto simp: grown_to_def seq_free_def split: if_splits)
    qed
    then show "seq_free rt1 k" "as_heap rt1 s = Some a" "if b then k < atom_size rt1 else \<not> generous jm"
      using a by (auto simp: grown_to_def)
  qed
  show ?thesis
  proof (cases b)
    case False
    then show ?thesis using r g g1(3) by (auto simp: atom_register_def split: bind_splits)
  next
    case True
    have st: "atom_struct jm (Some s) t rt1 = Some (struct_set s (a\<lparr>as_atom_type := t\<rparr>) rt1, Some s)"
      using g1(2) a(2) by (simp add: atom_struct_def)
    have "atom_enter jm s t h h1 (struct_set s (a\<lparr>as_atom_type := t\<rparr>) rt1) = Some (rt', i)"
      using r g True st by (simp add: atom_register_def)
    then have "atom_enter jm s t h h1 rt1 = Some (rt', i)" using atom_enter_retyped [OF g1(2)] by simp
    then show ?thesis using enter_seq [OF g1(1), of jm s t h h1 rt' i] g1(3) True by simp
  qed
qed

lemma NewAtom_seq:
  assumes aok: "atoms_ok rt" and s: "seq_free rt k" "0 < k" "k \<le> 300" and a: "as_heap rt s = Some a" "as_atom_type a = 0"
    "s < as_fresh rt" "js_string_ok (as_string a)" and t: "t \<noteq> 0"
    and r: "JS_NewAtom_str jm (Some s) t rt = Some (rt', i)"
    and new: "t < JS_ATOM_TYPE_SYMBOL \<Longrightarrow> \<forall>j. atom_key rt j \<noteq> Some (t, js_units (as_string a))"
  shows "i = k \<and> seq_free rt' (Suc k) \<or> i = 0 \<and> \<not> generous jm"
proof (cases "t < 3")
  case False
  then show ?thesis using register_seq [OF s a(1-3)] r by (simp add: JS_NewAtom_str_def)
next
  case True
  define h where "h = atom_hash_of t (js_units (as_string a))"
  obtain q where q: "find_atom_loop rt h t (as_string a) (atom_hash rt ! hash_place rt h) = Some q"
    "case q of Some i \<Rightarrow> i \<noteq> 0 \<and> atom_key rt i = Some (t, js_units (as_string a)) | None \<Rightarrow> \<forall>i. atom_key rt i \<noteq> Some (t, js_units (as_string a))"
    using find_atom_loop_ok [OF aok a(4), of t] unfolding h_def by blast
  then have n: "q = None" using new [OF True] by (cases q) auto
  obtain js where rd: "rd (atom_hash rt) (hash_place rt h) = Some (atom_hash rt ! hash_place rt h)" by (rule bucket_chain [OF aok])
  have "hash_string (as_string a) (word_of_nat t) = Some (units_hash (js_units (as_string a)) (word_of_nat t))" by (rule hash_string_units [OF a(4)])
  moreover have "units_hash (js_units (as_string a)) (word_of_nat t) AND JS_ATOM_HASH_MASK = h" by (simp add: h_def atom_hash_of_def)
  ultimately have "atom_register jm (Some s) t h (hash_place rt h) rt = Some (rt', i)"
    using r True a(1,2) t rd q(1) n by (simp add: JS_NewAtom_str_def Let_def)
  then show ?thesis by (rule register_seq [OF s a(1-3)])
qed

section \<open>The predefined atoms\<close>

definition init_kind :: "nat \<Rightarrow> nat" where
  "init_kind i = (if i < JS_ATOM_Private_brand then JS_ATOM_TYPE_STRING else JS_ATOM_TYPE_SYMBOL)"

definition predefined_at :: "'o atom_rt \<Rightarrow> nat \<Rightarrow> bool" where
  "predefined_at rt i \<longleftrightarrow>
     (\<exists>p n q h. atom_at rt i = Some p \<and> views rt p = Some (n, q, init_kind i, h) \<and> js_units q = init_name i \<and>
        (init_kind i = JS_ATOM_TYPE_SYMBOL \<longrightarrow> h = (if i = JS_ATOM_Private_brand then JS_ATOM_HASH_PRIVATE else JS_ATOM_HASH_SYMBOL)))"

definition numeric_free :: "'o atom_rt \<Rightarrow> bool" where
  "numeric_free rt \<longleftrightarrow> (\<forall>q n s h m. views rt q = Some (n, s, JS_ATOM_TYPE_STRING, h) \<longrightarrow> m < 2 ^ 31 \<longrightarrow> js_units s \<noteq> decimal_units m)"

lemma init_kind_type: "init_type i = (if init_kind i = JS_ATOM_TYPE_STRING then JS_ATOM_TYPE_STRING
   else if i = JS_ATOM_Private_brand then JS_ATOM_TYPE_PRIVATE else JS_ATOM_TYPE_SYMBOL)"
  by (simp add: init_type_def init_kind_def JS_ATOM_Private_brand_def JS_ATOM_Symbol_toPrimitive_def)

lemma numeric_free_step:
  "numeric_free rt \<Longrightarrow> names_from rt rt' N \<Longrightarrow> (\<And>us m. us \<in> N \<Longrightarrow> m < 2 ^ 31 \<Longrightarrow> us \<noteq> decimal_units m) \<Longrightarrow> numeric_free rt'"
  unfolding numeric_free_def names_from_def by blast

lemma predefined_frame:
  assumes f: "frame rt rt'" "atoms_core rt" and i: "i < JS_ATOM_END" "predefined_at rt i"
  shows "predefined_at rt' i"
proof -
  obtain p n q h where p: "atom_at rt i = Some p" "views rt p = Some (n, q, init_kind i, h)" "js_units q = init_name i"
    "init_kind i = 3 \<longrightarrow> h = (if i = JS_ATOM_Private_brand then JS_ATOM_HASH_PRIVATE else JS_ATOM_HASH_SYMBOL)"
    using i(2) by (auto simp: predefined_at_def)
  have nz: "init_kind i \<noteq> 0" by (simp add: init_kind_def)
  have "pinned rt p" using i(1) p(1) by (auto simp: pinned_def)
  then have "views rt' p \<noteq> None" using frameD(5) [OF f(1)] p(2) by simp
  then obtain n' where "views rt' p = Some (n', q, init_kind i, h)"
    using frameD(3) [OF f(1) p(2)] nz by (elim disjE) auto
  then show ?thesis using p(3,4) pinned_entry [OF f i(1) p(1)] by (auto simp: predefined_at_def)
qed

text \<open>The state before the \<open>k\<close>-th call of \<open>JS_NewAtomInit\<close>: the client holds no references.\<close>

definition initialised :: "'o atom_rt \<Rightarrow> nat \<Rightarrow> bool" where
  "initialised rt k \<longleftrightarrow> client_ok rt (\<lambda>_. 0) \<and> seq_free rt k \<and> (\<forall>i. 0 < i \<longrightarrow> i < k \<longrightarrow> predefined_at rt i) \<and> numeric_free rt"

lemma used_entry:
  assumes "seq_free rt k" "atom_at rt i = Some p"
  shows "i < k"
  using assms by (auto simp: seq_free_def atom_at_Some linorder_not_less [symmetric] split: if_splits)

lemma new_name:
  assumes core: "atoms_core rt" and sq: "seq_free rt k" and pre: "\<And>i. 0 < i \<Longrightarrow> i < k \<Longrightarrow> predefined_at rt i"
    and k: "k < JS_ATOM_Private_brand" "0 < k"
  shows "atom_key rt j \<noteq> Some (JS_ATOM_TYPE_STRING, init_name k)"
proof
  assume "atom_key rt j = Some (JS_ATOM_TYPE_STRING, init_name k)"
  then obtain a p where a: "atom_at rt j = Some p" "as_heap rt p = Some a" "as_atom_type a = 1" "atom_units a = init_name k"
    by (auto simp: atom_key_Some struct_at_Some)
  have j: "j < k" by (rule used_entry [OF sq a(1)])
  have "atom_at rt 0 \<noteq> Some p" using core_struct [OF core a(2)] a(3) by (auto simp: struct_ok_def)
  then have "j \<noteq> 0" using a(1) by (cases j) auto
  then have "predefined_at rt j" using pre j by simp
  then have "init_name j = init_name k" using a by (auto simp: predefined_at_def views_def atom_units_def)
  then show False using init_name_inj [of j k] j k \<open>j \<noteq> 0\<close> by simp
qed

lemma NewAtomInit_string:
  assumes "js_mem_ok jm"
  shows "(\<exists>ctx. js_alloc_string_rt jm c (length str) False = (ctx, None) \<and> \<not> generous jm) \<or>
    (\<exists>ctx q u v. js_alloc_string_rt jm c (length str) False = (ctx, Some q) \<and> blit (js_u q) 0 str = Some u \<and>
       wr u (length str) 0 = Some v \<and> js_string_ok (q\<lparr>js_u := v\<rparr>) \<and> js_units (q\<lparr>js_u := v\<rparr>) = map ucast str)"
  using assms
proof (cases rule: js_alloc_cases [of jm c "length str" False])
  case (1 ctx)
  then have "snd (jm_malloc jm c (payload_size (length str) False)) = None" by (auto simp: js_alloc_string_rt_def split: prod.splits option.splits)
  then have "\<not> generous jm" unfolding generous_def by blast
  then show ?thesis using 1 by blast
next
  case (2 ctx b)
  have len: "length str + 1 \<le> length b" using 2(2) by (simp add: payload_size_def)
  obtain u where "blit b 0 str = Some u" "length u = length b" "units8 u (length str) = map ucast str"
    using units8_append [of 0 str b] len by (auto simp: units8_def)
  then show ?thesis using 2 len by (simp add: js_string_ok_def payload_size_def js_units_def)
qed

text \<open>One call, for the string \<open>s\<close> that \<open>JS_NewAtomInit\<close> has made of the name.\<close>

lemma init_entered:
  assumes ok: "client_ok rt (give_ref s (\<lambda>_. 0))" and lim: "array_limit jm" and k: "0 < k" "k < JS_ATOM_END"
    and a: "as_heap rt s = Some (string_value q)" "js_string_ok q" "js_units q = init_name k" and z: "atom_at rt 0 \<noteq> Some s"
    and nw: "k < JS_ATOM_Private_brand \<Longrightarrow> \<forall>j. atom_key rt j \<noteq> Some (JS_ATOM_TYPE_STRING, init_name k)" and sq: "seq_free rt k"
  obtains rt' i where "JS_NewAtom_str jm (Some s) (init_type k) rt = Some (rt', i)" "frame rt rt'" "names_from rt rt' {init_name k}"
    "client_ok rt' (\<lambda>_. 0)" "i = k \<and> seq_free rt' (Suc k) \<and> predefined_at rt' k \<or> i = 0 \<and> \<not> generous jm"
proof -
  let ?held = "give_ref s (\<lambda>_. 0)" and ?t = "init_kind k"
  note core = client_core [OF ok]
  have aok: "atoms_ok rt" using ok by (simp add: client_ok_def)
  have held: "0 < ?held s" "take_ref s ?held = (\<lambda>_. 0)" by (auto simp: give_ref_def take_ref_def)
  have fresh: "s < as_fresh rt" using core_struct [OF core a(1)] by (simp add: struct_ok_def)
  have units: "arg_units rt (Some s) = init_name k" using a by (simp add: arg_units_def atom_units_def string_value_def)
  define h where "h = (if ?t = 1 then atom_hash_of 1 (init_name k) else if k = JS_ATOM_Private_brand then 1 else 0)"
  have reg: "\<exists>rt' i p n q. JS_NewAtom_str jm (Some s) (init_type k) rt = Some (rt', i) \<and> frame rt rt' \<and> names_from rt rt' {init_name k} \<and>
      client_ok rt' (give_atom rt' i (\<lambda>_. 0)) \<and> (i = 0 \<or> atom_at rt' i = Some p \<and> views rt' p = Some (n, q, ?t, h) \<and> js_units q = init_name k)"
  proof (cases "k < JS_ATOM_Private_brand")
    case True
    then have t: "init_type k = 1" "?t = 1" by (simp_all add: init_kind_type init_kind_def)
    obtain rt' i where r: "JS_NewAtom_str jm (Some s) 1 rt = Some (rt', i)" "client_ok rt' (give_atom rt' i (\<lambda>_. 0))" "frame rt rt'"
      "names_from rt rt' {init_name k}" "i \<noteq> 0 \<longrightarrow> atom_key rt' i = Some (1, init_name k)"
      using NewAtom_interns [OF ok lim held(1) z, of 1] unfolding interned_def units held(2) by (auto simp: name_of_type_def split: if_splits)
    have "\<exists>p n q. atom_at rt' i = Some p \<and> views rt' p = Some (n, q, 1, h) \<and> js_units q = init_name k" if nz: "i \<noteq> 0"
    proof -
      obtain b p where b: "atom_at rt' i = Some p" "as_heap rt' p = Some b" "hashed b" "as_atom_type b = 1" "atom_units b = init_name k"
        using r(5) nz by (auto simp: atom_key_Some struct_at_Some)
      then have "as_hash b = h" using core_struct [OF client_core [OF r(2)] b(2)] t by (auto simp: struct_ok_def h_def)
      then show ?thesis using b views_heap [OF b(2)] by (auto simp: atom_units_def)
    qed
    then show ?thesis using r t by auto
  next
    case False
    then have t: "?t = 3" by (simp add: init_kind_def)
    have run: "JS_NewAtom_str jm (Some s) (init_type k) rt = atom_register jm (Some s) 3 h 0 rt"
      using False by (simp add: JS_NewAtom_str_def init_kind_type init_kind_def h_def)
    have "may_register rt ?held (Some s) 3 h" using held(1) z t by (simp add: may_register_def h_def)
    from register_ok [OF ok lim this, of 0] show ?thesis
      unfolding run registered_def units t take_opt_def option.case held(2) using names_from_mono [of rt _ _ "{init_name k}"]
      by (fastforce simp: name_of_type_def)
  qed
  then obtain rt' i where r: "JS_NewAtom_str jm (Some s) (init_type k) rt = Some (rt', i)" "frame rt rt'" "names_from rt rt' {init_name k}"
    "client_ok rt' (give_atom rt' i (\<lambda>_. 0))"
    "i = 0 \<or> (\<exists>p n q. atom_at rt' i = Some p \<and> views rt' p = Some (n, q, ?t, h) \<and> js_units q = init_name k)" by blast
  have i: "i = k \<and> seq_free rt' (Suc k) \<or> i = 0 \<and> \<not> generous jm"
  proof (rule NewAtom_seq [OF aok sq k(1) _ a(1) _ fresh _ _ r(1)])
    show "k \<le> 300" using k(2) by (simp add: JS_ATOM_END_def)
    show "init_type k \<noteq> 0" by (simp add: init_type_def)
    show "\<forall>j. atom_key rt j \<noteq> Some (init_type k, js_units (as_string (string_value q)))" if "init_type k < 3"
    proof -
      have p: "k < JS_ATOM_Private_brand" using that by (simp add: init_kind_type init_kind_def split: if_splits)
      then have "init_type k = 1" by (simp add: init_kind_type init_kind_def)
      then show ?thesis using nw [OF p] a(3) by (simp add: string_value_def)
    qed
  qed (use a(2) in \<open>simp_all add: string_value_def\<close>)
  then have "give_atom rt' i (\<lambda>_. 0) = (\<lambda>_. 0)" using k(2) by (auto simp: give_atom_def JS_ATOM_END_def)
  moreover have "predefined_at rt' k" if "i = k" using r(5) that k(1) by (auto simp: predefined_at_def h_def)
  ultimately show thesis using that r i by auto
qed

lemma NewAtomInit_step:
  assumes mem: "js_mem_ok jm" "array_limit jm" and ini: "initialised rt k" and k: "0 < k" "k < JS_ATOM_END"
  shows "\<exists>rt' i. JS_NewAtomInit jm (map of_char (js_atom_init ! (k - 1))) (init_type k) rt = Some (rt', i) \<and>
    (i = k \<and> initialised rt' (Suc k) \<or> i = 0 \<and> \<not> generous jm)"
proof -
  let ?str = "map of_char (js_atom_init ! (k - 1)) :: bytes"
  have name: "map ucast ?str = init_name k" by (simp add: init_name_def)
  consider ctx where "js_alloc_string_rt jm (at_mem rt) (length ?str) False = (ctx, None)" "\<not> generous jm"
    | ctx q u v where "js_alloc_string_rt jm (at_mem rt) (length ?str) False = (ctx, Some q)" "blit (js_u q) 0 ?str = Some u"
       "wr u (length ?str) 0 = Some v" "js_string_ok (q\<lparr>js_u := v\<rparr>)" "js_units (q\<lparr>js_u := v\<rparr>) = init_name k"
    using NewAtomInit_string [OF mem(1), of "at_mem rt" ?str] unfolding name by blast
  then show ?thesis
  proof cases
    case 1
    then show ?thesis by (simp add: JS_NewAtomInit_def)
  next
    case (2 ctx q u v)
    let ?q = "q\<lparr>js_u := v\<rparr>"
    define rt1 where "rt1 = rt\<lparr>at_mem := ctx\<rparr>"
    have parts: "client_ok rt (\<lambda>_. 0)" "seq_free rt k" "\<And>i. 0 < i \<Longrightarrow> i < k \<Longrightarrow> predefined_at rt i" "numeric_free rt"
      using ini by (simp_all add: initialised_def)
    note core = client_core [OF parts(1)]
    have ok1: "client_ok rt1 (\<lambda>_. 0)" unfolding rt1_def client_ok_mem by (rule parts(1))
    have same: "views rt1 = views rt" "atom_at rt1 = atom_at rt" "as_fresh rt1 = as_fresh rt" by (simp_all add: rt1_def)
    obtain rt2 s where n: "struct_new (string_value ?q) rt1 = (rt2, s)" by fastforce
    note ns = new_string_ok [OF ok1 2(4) n]
    have run: "JS_NewAtomInit jm ?str (init_type k) rt = JS_NewAtom_str jm (Some s) (init_type k) rt2"
      using 2(1-3) n by (simp add: JS_NewAtomInit_def rt1_def)
    have fr: "frame rt rt2" by (rule frame_trans [OF frame_same ns(2) core]) (simp_all add: same)
    have pre: "predefined_at rt2 i" if "0 < i" "i < k" for i
      by (rule predefined_frame [OF fr core]) (use parts(3) [OF that] that k in simp_all)
    have sq: "seq_free rt2 k" using parts(2) n by (auto simp: seq_free_def struct_new_def rt1_def)
    have z: "atom_at rt2 0 \<noteq> Some s" using client_fresh(3) [OF ok1] ns(3,4) by simp
    have nw: "atom_key rt2 j \<noteq> Some (1, init_name k)" if "k < JS_ATOM_Private_brand" for j
      by (rule new_name [OF client_core [OF ns(1)] sq pre that k(1)])
    obtain rt' i where r: "JS_NewAtom_str jm (Some s) (init_type k) rt2 = Some (rt', i)" "frame rt2 rt'" "names_from rt2 rt' {init_name k}"
      "client_ok rt' (\<lambda>_. 0)" "i = k \<and> seq_free rt' (Suc k) \<and> predefined_at rt' k \<or> i = 0 \<and> \<not> generous jm"
      by (rule init_entered [OF ns(1) mem(2) k ns(8) 2(4,5) z _ sq]) (use nw in auto)
    have "predefined_at rt' i" if "0 < i" "i < k" for i
      by (rule predefined_frame [OF r(2) client_core [OF ns(1)]]) (use pre [OF that] that k in simp_all)
    moreover have "numeric_free rt'"
    proof -
      have "names_from rt rt2 {}" by (rule names_from_trans [OF names_from_same ns(9)]) (simp add: same)
      then have "names_from rt rt' {init_name k}" using names_from_trans [OF names_from_mono r(3)] by blast
      then show ?thesis by (rule numeric_free_step [OF parts(4)]) (use init_name_not_decimal [OF k] in auto)
    qed
    ultimately have "initialised rt' (Suc k)" if "i = k" using r(4,5) that k(1) by (auto simp: initialised_def less_Suc_eq)
    then show ?thesis using run r(1,5) by auto
  qed
qed

lemma init_loop_ok:
  assumes mem: "js_mem_ok jm" "array_limit jm"
  shows "initialised rt k \<Longrightarrow> 0 < k \<Longrightarrow> k + length ps = JS_ATOM_END \<Longrightarrow> ps = drop (k - 1) js_atom_init \<Longrightarrow>
    \<exists>rt' r. init_loop jm k ps rt = Some (rt', r) \<and> (r = 0 \<and> initialised rt' JS_ATOM_END \<or> r = -1 \<and> \<not> generous jm)"
proof (induction ps arbitrary: k rt)
  case (Cons p ps)
  have k: "k < JS_ATOM_END" using Cons.prems(3) by simp
  have d: "drop (k - 1) js_atom_init = p # ps" using Cons.prems(4) by simp
  have "drop (Suc (k - 1)) js_atom_init = ps" using arg_cong [OF d, of tl] by (simp only: drop_Suc tl_drop list.sel)
  then have p: "js_atom_init ! (k - 1) = p" "drop k js_atom_init = ps" using nth_via_drop [OF d] Cons.prems(2) by simp_all
  obtain rt1 i where s: "JS_NewAtomInit jm (map of_char p) (init_type k) rt = Some (rt1, i)"
    "i = k \<and> initialised rt1 (Suc k) \<or> i = 0 \<and> \<not> generous jm"
    using NewAtomInit_step [OF mem Cons.prems(1,2) k] unfolding p(1) by blast
  show ?case
  proof (cases "i = 0")
    case True
    then show ?thesis using s Cons.prems(2) by simp
  next
    case False
    then have "initialised rt1 (Suc k)" using s(2) by auto
    then have "\<exists>rt' r. init_loop jm (Suc k) ps rt1 = Some (rt', r) \<and> (r = 0 \<and> initialised rt' JS_ATOM_END \<or> r = -1 \<and> \<not> generous jm)"
      by (rule Cons.IH) (use Cons.prems(3) p(2) in simp_all)
    moreover have "init_loop jm k (p # ps) rt = init_loop jm (Suc k) ps rt1" using s(1) False by simp
    ultimately show ?thesis by (simp only:)
  qed
qed simp

text \<open>The runtime as \<open>JS_NewRuntime2\<close> clears it.\<close>

definition cleared :: "'o atom_rt \<Rightarrow> bool" where
  "cleared rt \<longleftrightarrow> as_heap rt = (\<lambda>_. None) \<and> atom_array rt = []"

lemma InitAtoms_ok:
  assumes mem: "js_mem_ok jm" "array_limit jm" and c: "cleared rt"
  shows "\<exists>rt' r. JS_InitAtoms jm rt = Some (rt', r) \<and> (r = 0 \<and> initialised rt' JS_ATOM_END \<or> r = -1 \<and> \<not> generous jm)"
proof -
  let ?rt = "rt\<lparr>atom_hash_size := 0, atom_hash := [], atom_count := 0, atom_size := 0, atom_free_index := 0\<rparr>"
  obtain rt1 b where m: "atom_malloc jm (4 * 256) ?rt = (rt1, b)" by fastforce
  obtain d where d: "rt1 = ?rt\<lparr>at_mem := d\<rparr>" using atom_malloc_cases(1) [OF m] by blast
  show ?thesis
  proof (cases b)
    case False
    then have "JS_ResizeAtomHash jm 256 ?rt = Some (rt1, -1)" using m by (simp add: JS_ResizeAtomHash_def assert_c_def)
    then show ?thesis using atom_malloc_cases(2) [OF m False] by (simp add: JS_InitAtoms_def)
  next
    case True
    define rt2 where "rt2 = rt1\<lparr>atom_hash := replicate 256 0, atom_hash_size := 256, atom_count_resize := 512\<rparr>"
    have run: "JS_ResizeAtomHash jm 256 ?rt = Some (rt2, 0)"
      using m True d by (simp add: JS_ResizeAtomHash_def assert_c_def rt2_def)
    have f: "as_heap rt2 = (\<lambda>_. None)" "atom_array rt2 = []" "atom_size rt2 = 0" "atom_free_index rt2 = 0" "atom_count rt2 = 0"
      "atom_hash rt2 = replicate 256 0" "atom_hash_size rt2 = 256" "atom_count_resize rt2 = 512"
      using c by (simp_all add: rt2_def d cleared_def)
    have at: "atom_at rt2 = (\<lambda>_. None)" "struct_at rt2 = (\<lambda>_. None)" "views rt2 = (\<lambda>_. None)"
      by (simp_all add: fun_eq_iff atom_at_def struct_at_def views_def rd_def f)
    have "atoms_core rt2" by (simp add: atoms_core_def slots_inj_def keys_unique_def at f)
    moreover have "atoms_free rt2 []" by (simp add: atoms_free_def f)
    moreover have "hash_size_ok rt2" using f by (auto simp: hash_size_ok_def intro!: exI [of _ 8])
    moreover have "atoms_hash rt2 (\<lambda>b. [])" using table_empty [of "hash_next rt2" 256] by (simp add: atoms_hash_def at f)
    ultimately have "atoms_ok rt2" by (auto simp: atoms_ok_def)
    then have "client_ok rt2 (\<lambda>_. 0)" by (simp add: client_ok_def ref_ok_def at)
    then have "initialised rt2 1" by (simp add: initialised_def seq_free_def numeric_free_def at f)
    then show ?thesis using init_loop_ok [OF mem, of rt2 1 js_atom_init] run
      by (simp add: JS_InitAtoms_def length_js_atom_init JS_ATOM_END_def)
  qed
qed
end
