(* ===== verification/Js_Atom_Client.thy ===== *)
theory Js_Atom_Client
  imports Js_Atom_Init
begin

text \<open>
  Clients of the atom interface.  A client owns references, to strings and to atoms, and gives up
  only what it owns.  In every state that such a client can reach each of its calls returns, an
  atom identifies its name, and the string of an atom is the name it was made of.
\<close>

section \<open>Atoms as words\<close>

lemma tag_bits: "bit JS_ATOM_TAG_INT n \<longleftrightarrow> n = 31"
  unfolding JS_ATOM_TAG_INT_def bit_push_bit_iff by (auto simp: bit_1_iff dest: bit_imp_le_length)

lemma tagged_bit: "AtomIsTaggedInt v \<longleftrightarrow> bit v 31"
proof -
  have "AtomIsTaggedInt v \<longleftrightarrow> (\<exists>n < 32. bit (v AND JS_ATOM_TAG_INT) n)" by (auto simp: AtomIsTaggedInt_def bit_eq_iff dest: bit_imp_le_length)
  then show ?thesis by (auto simp: bit_and_iff tag_bits)
qed

lemma tagged_unat: "AtomIsTaggedInt v \<longleftrightarrow> 2 ^ 31 \<le> unat v"
proof -
  have "bit v 31 \<longleftrightarrow> bit (unat v) 31" by (simp add: bit_unsigned_iff)
  moreover have "unat v div 2 ^ 31 < 2" using unsigned_less [of v, where ?'a = nat] by (simp add: div_less_iff_less_mult)
  ultimately show ?thesis unfolding tagged_bit bit_iff_odd
    by (cases "unat v div 2 ^ 31 = 0") (auto simp: div_eq_0_iff less_2_cases_iff)
qed

lemma const_unat: "AtomIsConst v \<longleftrightarrow> AtomIsTaggedInt v \<or> unat v < JS_ATOM_END"
proof -
  have "sint v = (if bit v 31 then uint v - 2 ^ 32 else uint v)"
    using unsigned_less [of v, where ?'a = int] by (simp add: sint_uint signed_take_bit_eq_take_bit_minus take_bit_int_eq_self bit_unsigned_iff)
  moreover have "uint v = int (unat v)" by simp
  ultimately show ?thesis using unsigned_less [of v, where ?'a = nat] by (auto simp: AtomIsConst_def tagged_bit JS_ATOM_END_def simp del: int_nat_eq of_nat_unat)
qed

lemma from_to_uint32:
  assumes "n \<le> JS_ATOM_MAX_INT"
  shows "AtomIsTaggedInt (AtomFromUInt32 n)" "AtomToUInt32 (AtomFromUInt32 n) = n" "unat n < 2 ^ 31"
proof -
  show u: "unat n < 2 ^ 31" using assms by (simp add: JS_ATOM_MAX_INT_def JS_ATOM_TAG_INT_def word_le_nat_alt)
  show "AtomIsTaggedInt (AtomFromUInt32 n)" by (simp add: tagged_bit AtomFromUInt32_def bit_or_iff tag_bits)
  have "\<not> bit n 31" using tagged_unat [of n] u by (simp add: tagged_bit)
  then show "AtomToUInt32 (AtomFromUInt32 n) = n"
    by (intro bit_word_eqI) (auto simp: AtomToUInt32_def AtomFromUInt32_def bit_and_iff bit_or_iff bit_not_iff tag_bits)
qed

lemma index_word:
  assumes "i \<le> atom_size_limit"
  shows "unat (word_of_nat i :: u32) = i" "\<not> AtomIsTaggedInt (word_of_nat i)"
proof -
  show u: "unat (word_of_nat i :: u32) = i" using assms by (simp add: unsigned_of_nat take_bit_nat_eq_self atom_size_limit_def)
  show "\<not> AtomIsTaggedInt (word_of_nat i)" unfolding tagged_unat u using assms by (simp add: atom_size_limit_def)
qed

section \<open>The state of a client\<close>

definition installed :: "'o atom_rt \<Rightarrow> (nat \<Rightarrow> nat) \<Rightarrow> bool" where
  "installed rt held \<longleftrightarrow> client_ok rt held \<and> (\<exists>p. atom_at rt 0 = Some p \<and> held p = 0) \<and>
     (\<forall>i. 0 < i \<longrightarrow> i < JS_ATOM_END \<longrightarrow> predefined_at rt i) \<and> numeric_free rt"

lemma installedD:
  assumes "installed rt held"
  shows "client_ok rt held" "atoms_core rt" "0 < i \<Longrightarrow> i < JS_ATOM_END \<Longrightarrow> predefined_at rt i" "numeric_free rt"
    "i < JS_ATOM_END \<Longrightarrow> atom_at rt i \<noteq> None" "0 < held s \<Longrightarrow> atom_at rt 0 \<noteq> Some s"
proof -
  show "client_ok rt held" "0 < i \<Longrightarrow> i < JS_ATOM_END \<Longrightarrow> predefined_at rt i" "numeric_free rt" "0 < held s \<Longrightarrow> atom_at rt 0 \<noteq> Some s"
    using assms by (auto simp: installed_def)
  then show "atoms_core rt" using client_core by blast
  show "i < JS_ATOM_END \<Longrightarrow> atom_at rt i \<noteq> None"
    using assms by (cases "i = 0") (auto simp: installed_def predefined_at_def)
qed

lemma initialised_installed:
  assumes "initialised rt JS_ATOM_END"
  shows "installed rt (\<lambda>_. 0)"
proof -
  have "0 < atom_size rt" "client_ok rt (\<lambda>_. 0)" using assms by (auto simp: initialised_def seq_free_def JS_ATOM_END_def split: if_splits)
  moreover from this have "atom_at rt 0 \<noteq> None" using client_core by (auto simp: atoms_core_def)
  ultimately show ?thesis using assms by (auto simp: installed_def initialised_def)
qed

text \<open>The names that a call may add.\<close>

definition not_small :: "u16 list set \<Rightarrow> bool" where
  "not_small N \<longleftrightarrow> (\<forall>us \<in> N. \<forall>m < 2 ^ 31. us \<noteq> decimal_units m)"

lemma not_small_empty [simp]: "not_small {}"
  by (simp add: not_small_def)

lemma installed_step:
  assumes i: "installed rt held" and ok: "client_ok rt' held'" and f: "frame rt rt'" and n: "names_from rt rt' N" "not_small N"
    and z: "\<And>p. atom_at rt' 0 = Some p \<Longrightarrow> held p = 0 \<Longrightarrow> held' p = 0"
  shows "installed rt' held'"
proof -
  note d = installedD [OF i]
  obtain p where p: "atom_at rt 0 = Some p" "held p = 0" using i by (auto simp: installed_def)
  have p': "atom_at rt' 0 = Some p" by (rule pinned_entry [OF f d(2) _ p(1)]) (simp add: JS_ATOM_END_def)
  have "numeric_free rt'" by (rule numeric_free_step [OF d(4) n(1)]) (use n(2) in \<open>auto simp: not_small_def\<close>)
  moreover have "predefined_at rt' i" if "0 < i" "i < JS_ATOM_END" for i
    by (rule predefined_frame [OF f d(2)]) (use d(3) that in simp_all)
  ultimately show ?thesis using ok p' p(2) z by (auto simp: installed_def)
qed

lemma atom_index_limit: "atoms_core rt \<Longrightarrow> atom_at rt i = Some p \<Longrightarrow> i < atom_size_limit"
  by (auto simp: atoms_core_def atom_at_Some)

text \<open>The reference that an atom stands for.\<close>

definition take_word :: "'o atom_rt \<Rightarrow> JSAtom \<Rightarrow> (nat \<Rightarrow> nat) \<Rightarrow> nat \<Rightarrow> nat" where
  "take_word rt v held = (if AtomIsConst v then held else take_ref (the (atom_at rt (unat v))) held)"

definition give_word :: "'o atom_rt \<Rightarrow> JSAtom \<Rightarrow> (nat \<Rightarrow> nat) \<Rightarrow> nat \<Rightarrow> nat" where
  "give_word rt v held = (if AtomIsConst v then held else give_ref (the (atom_at rt (unat v))) held)"

lemma give_word_index:
  assumes "i \<le> atom_size_limit"
  shows "give_word rt (word_of_nat i) held = give_atom rt i held"
  using index_word [OF assms] by (simp add: give_word_def give_atom_def const_unat)

lemma give_word_tagged: "AtomIsTaggedInt v \<Longrightarrow> give_word rt v held = held"
  by (simp add: give_word_def const_unat)

lemma null_give_atom:
  assumes core: "atoms_core rt" and i: "i \<noteq> 0 \<longrightarrow> atom_at rt i \<noteq> None" and z: "atom_at rt 0 = Some p"
  shows "give_atom rt i held p = held p"
proof (cases "i = 0")
  case False
  then obtain q where q: "atom_at rt i = Some q" using i by auto
  have "q \<noteq> p" using slots_injD [OF core_inj [OF core] q] z False by auto
  then show ?thesis using q by (simp add: give_atom_def give_ref_def)
qed simp

section \<open>What a call promises\<close>

text \<open>The name of an atom; symbols have none.\<close>

definition atom_name :: "'o atom_rt \<Rightarrow> JSAtom \<Rightarrow> u16 list option" where
  "atom_name rt v =
     (if AtomIsTaggedInt v then Some (decimal_units (unat (AtomToUInt32 v)))
      else (case atom_key rt (unat v) of
              Some (t, us) \<Rightarrow> if t = JS_ATOM_TYPE_STRING then Some us else None
            | None \<Rightarrow> None))"

definition owns_atom :: "'o atom_rt \<Rightarrow> (nat \<Rightarrow> nat) \<Rightarrow> JSAtom \<Rightarrow> bool" where
  "owns_atom rt held v \<longleftrightarrow> AtomIsTaggedInt v \<or> 0 < unat v \<and> unat v < JS_ATOM_END \<or>
     (\<exists>p. atom_at rt (unat v) = Some p \<and> 0 < held p)"

text \<open>The call returns, leaves the client with the references \<open>H\<close> and promises \<open>P\<close>.\<close>

definition returns :: "'o atom_rt \<Rightarrow> ('o atom_rt \<times> 'r) option \<Rightarrow> ('o atom_rt \<Rightarrow> 'r \<Rightarrow> nat \<Rightarrow> nat) \<Rightarrow>
    ('o atom_rt \<Rightarrow> 'r \<Rightarrow> bool) \<Rightarrow> bool" where
  "returns rt res H P \<longleftrightarrow> (\<exists>rt' r. res = Some (rt', r) \<and> installed rt' (H rt' r) \<and> frame rt rt' \<and> P rt' r)"

lemma returnsI: "res = Some (rt', r) \<Longrightarrow> installed rt' (H rt' r) \<Longrightarrow> frame rt rt' \<Longrightarrow> P rt' r \<Longrightarrow> returns rt res H P"
  unfolding returns_def by blast

lemma returns_from:
  assumes r: "returns rt1 res H P" and f: "frame rt rt1" "atoms_core rt"
    and w: "\<And>rt' r. frame rt1 rt' \<Longrightarrow> P rt' r \<Longrightarrow> Q rt' r"
  shows "returns rt res H Q"
proof -
  obtain rt' r where "res = Some (rt', r)" "installed rt' (H rt' r)" "frame rt1 rt'" "P rt' r" using r by (auto simp: returns_def)
  then show ?thesis using frame_trans [OF f(1) _ f(2)] w unfolding returns_def by blast
qed

lemma owned_live:
  assumes i: "installed rt held" and o: "owns_atom rt held v" "\<not> AtomIsTaggedInt v"
  obtains p where "atom_at rt (unat v) = Some p" "unat v \<noteq> 0" "unat v < atom_size rt" "unat v < JS_ATOM_END \<or> 0 < held p"
proof -
  obtain p where p: "atom_at rt (unat v) = Some p" "unat v \<noteq> 0" "unat v < JS_ATOM_END \<or> 0 < held p"
    using o(1)
  proof (elim owns_atom_def [THEN iffD1, elim_format] disjE)
    assume "0 < unat v \<and> unat v < JS_ATOM_END"
    then show thesis using that installedD(5) [OF i, of "unat v"] by auto
  next
    assume "\<exists>p. atom_at rt (unat v) = Some p \<and> 0 < held p"
    then obtain p where p: "atom_at rt (unat v) = Some p" "0 < held p" by blast
    then have "unat v \<noteq> 0" using installedD(6) [OF i p(2)] by metis
    then show thesis using that p by blast
  qed (use o(2) in simp)
  moreover have "unat v < atom_size rt" using p(1) installedD(2) [OF i] by (simp add: atom_at_Some atoms_core_def)
  ultimately show thesis using that by blast
qed

section \<open>References\<close>

lemma installed_dup:
  assumes i: "installed rt held" and at: "atom_at rt k = Some p" "k \<noteq> 0"
  obtains rt' where "dup_struct rt k = Some rt'" "installed rt' (give_ref p held)" "frame rt rt'" "atom_at rt' = atom_at rt"
    "\<And>q. q \<noteq> p \<Longrightarrow> views rt' q = views rt q"
proof -
  note d = installedD [OF i]
  obtain rt' where r: "dup_struct rt k = Some rt'" "client_ok rt' (give_ref p held)" "frame rt rt'" "atom_at rt' = atom_at rt"
    "\<forall>q. q \<noteq> p \<longrightarrow> views rt' q = views rt q" "names_from rt rt' {}"
    using dup_struct_ok [OF d(1) at(1)] unfolding give_ref_def by blast
  have "installed rt' (give_ref p held)"
  proof (rule installed_step [OF i r(2,3,6)])
    show "give_ref p held q = 0" if "atom_at rt' 0 = Some q" "held q = 0" for q
      using that at slots_injD [OF core_inj [OF d(2)] at(1), of 0] r(4) by (auto simp: give_ref_def)
  qed simp
  then show thesis using that r by blast
qed

lemma installed_release:
  assumes i: "installed rt held" and s: "0 < held s"
  obtains rt' where "js_free_string rt s = Some rt'" "installed rt' (take_ref s held)" "frame rt rt'"
    "\<And>q. q \<noteq> s \<Longrightarrow> views rt' q = views rt q" "names_from rt rt' {}"
proof -
  obtain rt' where r: "js_free_string rt s = Some rt'" "client_ok rt' (take_ref s held)" "frame rt rt'"
    "\<forall>q. q \<noteq> s \<longrightarrow> views rt' q = views rt q" "names_from rt rt' {}"
    using free_string_ok [OF installedD(1) [OF i] s] unfolding take_ref_def by blast
  have "installed rt' (take_ref s held)" by (rule installed_step [OF i r(2,3,5)]) (auto simp: take_ref_def)
  then show thesis using that r by blast
qed

lemma DupAtom_ok:
  assumes i: "installed rt held" and o: "owns_atom rt held v"
  shows "\<exists>rt'. JS_DupAtom rt v = Some rt' \<and> installed rt' (give_word rt' v held) \<and> frame rt rt'"
proof (cases "AtomIsConst v")
  case True
  then show ?thesis using i by (simp add: JS_DupAtom_def give_word_def)
next
  case False
  then have "\<not> AtomIsTaggedInt v" by (simp add: const_unat)
  then obtain p where p: "atom_at rt (unat v) = Some p" "unat v \<noteq> 0" by (rule owned_live [OF i o])
  obtain rt' where "dup_struct rt (unat v) = Some rt'" "installed rt' (give_ref p held)" "frame rt rt'" "atom_at rt' = atom_at rt"
    by (rule installed_dup [OF i p])
  then show ?thesis using False p(1) by (simp add: JS_DupAtom_def give_word_def)
qed

text \<open>\<open>JS_FreeAtom\<close> on an atom is \<open>JS_FreeValue\<close> on its string.\<close>

lemma FreeAtom_string:
  assumes core: "atoms_core rt" and at: "atom_at rt k = Some p"
  shows "JS_FreeAtom_internal rt k = js_free_string rt p"
proof -
  obtain a where a: "as_heap rt p = Some a" "struct_ok rt p a" by (rule core_slot [OF core at])
  then have "as_atom_type a \<noteq> 0" using at by (auto simp: struct_ok_def)
  then show ?thesis using at a(1) by (simp add: JS_FreeAtom_internal_def js_free_string_def Let_def)
qed

lemma FreeAtom_ok:
  assumes i: "installed rt held" and o: "owns_atom rt held v"
  shows "\<exists>rt'. JS_FreeAtom rt v = Some rt' \<and> installed rt' (take_word rt v held) \<and> frame rt rt'"
proof (cases "AtomIsConst v")
  case True
  then show ?thesis using i by (simp add: JS_FreeAtom_def take_word_def)
next
  case False
  then have t: "\<not> AtomIsTaggedInt v" "\<not> unat v < JS_ATOM_END" by (simp_all add: const_unat)
  obtain p where p: "atom_at rt (unat v) = Some p" "unat v < JS_ATOM_END \<or> 0 < held p" by (rule owned_live [OF i o t(1)])
  then have "0 < held p" using t(2) by simp
  from i this obtain rt' where "js_free_string rt p = Some rt'" "installed rt' (take_ref p held)" "frame rt rt'" by (rule installed_release)
  then show ?thesis using False p(1) FreeAtom_string [OF installedD(2) [OF i] p(1)] by (simp add: JS_FreeAtom_def take_word_def)
qed
end
