(* ===== verification/Js_Atom_Create.thy ===== *)
theory Js_Atom_Create
  imports Js_Atom_Client
begin

text \<open>
  The calls that make atoms, strings and symbols, for a client in an installed runtime.
\<close>

section \<open>Interning a string\<close>

lemma decimal_units_inj: "decimal_units m = decimal_units n \<longleftrightarrow> m = n"
  using decimal_units_value by metis

lemma atom_name_index:
  assumes "i \<le> atom_size_limit"
  shows "atom_name rt (word_of_nat i) = Some us \<longleftrightarrow> atom_key rt i = Some (JS_ATOM_TYPE_STRING, us)"
  using index_word [OF assms] by (auto simp: atom_name_def split: option.splits if_splits)

lemma atom_name_Some:
  "atom_name rt v = Some us \<longleftrightarrow>
   (if AtomIsTaggedInt v then us = decimal_units (unat (AtomToUInt32 v)) else atom_key rt (unat v) = Some (JS_ATOM_TYPE_STRING, us))"
  by (auto simp: atom_name_def split: option.splits if_splits)

lemma tagged_small: "unat (AtomToUInt32 v) < 2 ^ 31"
proof -
  have "\<not> AtomIsTaggedInt (AtomToUInt32 v)" by (simp add: tagged_bit AtomToUInt32_def bit_and_iff bit_not_iff tag_bits)
  then show ?thesis by (simp add: tagged_unat)
qed

lemma key_live: "atom_key rt i = Some k \<Longrightarrow> \<exists>p. atom_at rt i = Some p"
  by (cases k) (auto simp: atom_key_Some struct_at_Some)

text \<open>The promise of a call that is asked for the atom of a name.\<close>

definition name_answer :: "'o atom_rt \<Rightarrow> u16 list \<Rightarrow> 'o atom_rt \<Rightarrow> JSAtom \<Rightarrow> bool" where
  "name_answer rt us rt' v \<longleftrightarrow> (if v = 0 then \<forall>w. atom_name rt w \<noteq> Some us else atom_name rt' v = Some us)"

lemma intern_word:
  assumes i: "installed rt held" and lim: "array_limit jm" and s: "0 < held s"
    and n: "not_small {arg_units rt (Some s)}"
  shows "returns rt (map_option (\<lambda>(rt, i). (rt, word_of_nat i)) (JS_NewAtom_str jm (Some s) JS_ATOM_TYPE_STRING rt))
    (\<lambda>rt' v. give_word rt' v (take_ref s held)) (name_answer rt (arg_units rt (Some s)))"
proof -
  note d = installedD [OF i]
  let ?us = "arg_units rt (Some s)"
  obtain rt' k where r: "JS_NewAtom_str jm (Some s) 1 rt = Some (rt', k)" "client_ok rt' (give_atom rt' k (take_ref s held))" "frame rt rt'"
    "names_from rt rt' {?us}" "if k = 0 then \<forall>j. atom_key rt j \<noteq> Some (1, ?us) else atom_key rt' k = Some (1, ?us)"
    using NewAtom_interns [OF d(1) lim s d(6) [OF s], of 1] unfolding interned_def by (auto simp: name_of_type_def)
  note core' = client_core [OF r(2)]
  have live: "k \<noteq> 0 \<longrightarrow> atom_at rt' k \<noteq> None" using r(5) key_live [of rt' k] by auto
  then have k: "k \<le> atom_size_limit" using atom_index_limit [OF core', of k] by (cases "k = 0") auto
  have "installed rt' (give_word rt' (word_of_nat k) (take_ref s held))" unfolding give_word_index [OF k]
    by (rule installed_step [OF i r(2,3,4) n]) (use null_give_atom [OF core' live] in \<open>auto simp: take_ref_def\<close>)
  moreover have "name_answer rt ?us rt' (word_of_nat k)"
  proof (cases "k = 0")
    case True
    have "atom_name rt w \<noteq> Some ?us" for w
    proof
      assume "atom_name rt w = Some ?us"
      moreover have "?us \<noteq> decimal_units (unat (AtomToUInt32 w))" using n tagged_small [of w] by (auto simp: not_small_def)
      ultimately have "atom_key rt (unat w) = Some (1, ?us)" by (auto simp: atom_name_Some split: if_splits)
      then show False using r(5) True by simp
    qed
    then show ?thesis using True by (simp add: name_answer_def)
  next
    case False
    then have "(word_of_nat k :: u32) \<noteq> 0" using index_word(1) [OF k] by (metis unat_0)
    then show ?thesis using r(5) False atom_name_index [OF k, of rt' ?us] by (simp add: name_answer_def)
  qed
  ultimately show ?thesis using r(1,3) unfolding returns_def by auto
qed

lemma NewAtomStr_ok:
  assumes i: "installed rt held" and lim: "array_limit jm" and s: "0 < held s"
  shows "returns rt (JS_NewAtomStr jm s rt) (\<lambda>rt' v. give_word rt' v (take_ref s held)) (name_answer rt (arg_units rt (Some s)))"
proof -
  note d = installedD [OF i]
  let ?us = "arg_units rt (Some s)"
  obtain a where a: "as_heap rt s = Some a" "js_string_ok (as_string a)" by (rule client_string [OF d(1) s d(6) [OF s]])
  have us: "?us = js_units (as_string a)" using a(1) by (simp add: arg_units_def atom_units_def)
  note num = is_num_string_Some [OF a(2)]
  obtain r where r: "is_num_string (as_string a) = Some r" using num(2) by blast
  show ?thesis
  proof (cases "\<exists>n. r = Some n \<and> n \<le> JS_ATOM_MAX_INT")
    case True
    then obtain n where n: "r = Some n" "n \<le> JS_ATOM_MAX_INT" by blast
    note tg = from_to_uint32 [OF n(2)]
    obtain rt' where f: "js_free_string rt s = Some rt'" "installed rt' (take_ref s held)" "frame rt rt'" by (rule installed_release [OF i s])
    have run: "JS_NewAtomStr jm s rt = Some (rt', AtomFromUInt32 n)" using a(1) r n f(1) by (simp add: JS_NewAtomStr_def)
    have "AtomFromUInt32 n \<noteq> 0" using tg(1) by (auto simp: tagged_bit)
    moreover have "?us = decimal_units (unat n)" using num(1) [of n] r n(1) us by simp
    ultimately have "name_answer rt ?us rt' (AtomFromUInt32 n)" using tg by (simp add: name_answer_def atom_name_def)
    then show ?thesis using f(2,3) by (intro returnsI [OF run]) (simp_all add: give_word_tagged [OF tg(1)])
  next
    case False
    have "?us \<noteq> decimal_units m" if m: "m < 2 ^ 31" for m
    proof
      assume e: "?us = decimal_units m"
      have u: "unat (word_of_nat m :: u32) = m" using m by (simp add: unsigned_of_nat take_bit_nat_eq_self)
      then have "is_num_string (as_string a) = Some (Some (word_of_nat m))" using num(1) e us by simp
      moreover have "(word_of_nat m :: u32) \<le> JS_ATOM_MAX_INT" using m u by (simp add: JS_ATOM_MAX_INT_def JS_ATOM_TAG_INT_def word_le_nat_alt)
      ultimately show False using False r by simp
    qed
    then have n: "not_small {?us}" by (simp add: not_small_def)
    have "JS_NewAtomStr jm s rt = map_option (\<lambda>(rt, i). (rt, word_of_nat i)) (JS_NewAtom_str jm (Some s) 1 rt)"
      using a(1) r False by (cases r) (simp_all add: JS_NewAtomStr_def)
    then show ?thesis using intern_word [OF i lim s n] by simp
  qed
qed

section \<open>Strings from bytes\<close>

lemma empty_string_atom:
  assumes "installed rt held"
  obtains p n q h where "atom_at rt JS_ATOM_empty_string = Some p" "views rt p = Some (n, q, JS_ATOM_TYPE_STRING, h)" "js_units q = []"
proof -
  have "predefined_at rt JS_ATOM_empty_string" using installedD(3) [OF assms] by (simp add: JS_ATOM_empty_string_def JS_ATOM_END_def)
  moreover have "init_name JS_ATOM_empty_string = []" by (simp add: init_name_def JS_ATOM_empty_string_def js_atom_init_def)
  moreover have "init_kind JS_ATOM_empty_string = 1" by (simp add: init_kind_def JS_ATOM_empty_string_def JS_ATOM_Private_brand_def)
  ultimately show thesis using that by (auto simp: predefined_at_def)
qed

lemma arg_units_views: "views rt p = Some (n, q, t, h) \<Longrightarrow> arg_units rt (Some p) = js_units q"
  by (auto simp: arg_units_def views_Some atom_units_def)

lemma decode_units_Nil [simp]: "decode_units [] 0 = []"
  by (simp add: decode_units.simps)

lemma decode_units_ascii:
  assumes "list_all (\<lambda>b. b < 128) buf"
  shows "decode_units buf 0 = map ucast buf"
proof -
  have "ascii_prefix buf = length buf" using assms by (simp add: ascii_prefix_def list_all_iff takeWhile_eq_all_conv [THEN iffD2])
  then show ?thesis using decode_ascii_prefix [of "length buf" buf 0] by (simp add: decode_units.simps [of buf "length buf"])
qed

text \<open>The references after a call that may fail to give a string.\<close>

definition give_opt :: "nat option \<Rightarrow> (nat \<Rightarrow> nat) \<Rightarrow> nat \<Rightarrow> nat" where
  "give_opt v held = (case v of Some p \<Rightarrow> give_ref p held | None \<Rightarrow> held)"

lemma installed_mem: "installed (rt\<lparr>at_mem := c\<rparr>) held = installed rt held"
  by (simp add: installed_def client_ok_mem predefined_at_def numeric_free_def)

lemma installed_new_string:
  assumes i: "installed rt held" and q: "js_string_ok q" and n: "struct_new (string_value q) rt = (rt', p)"
  shows "installed rt' (give_ref p held)" "frame rt rt'" "arg_units rt' (Some p) = js_units q"
proof -
  note ns = new_string_ok [OF installedD(1) [OF i] q n]
  show "installed rt' (give_ref p held)"
    by (rule installed_step [OF i ns(1,2,9)]) (use client_fresh(3) [OF installedD(1) [OF i], of 0] ns(3,4) in \<open>auto simp: give_ref_def\<close>)
  show "frame rt rt'" by (rule ns(2))
  show "arg_units rt' (Some p) = js_units q" using ns(8) by (simp add: arg_units_def atom_units_def string_value_def)
qed

lemma new_string_value_ok:
  assumes i: "installed rt held" and mem: "js_mem_ok jm"
  shows "returns rt (new_string_value jm buf rt) (\<lambda>rt' v. give_opt v held)
    (\<lambda>rt' v. case v of Some p \<Rightarrow> arg_units rt' (Some p) = decode_units buf 0 | None \<Rightarrow> True)"
proof (cases "buf = []")
  case True
  obtain p n q h where p: "atom_at rt JS_ATOM_empty_string = Some p" "views rt p = Some (n, q, 1, h)" "js_units q = []"
    by (rule empty_string_atom [OF i])
  have nz: "JS_ATOM_empty_string \<noteq> 0" by (simp add: JS_ATOM_empty_string_def)
  obtain rt' where r: "dup_struct rt JS_ATOM_empty_string = Some rt'" "installed rt' (give_ref p held)" "frame rt rt'" "atom_at rt' = atom_at rt"
    by (rule installed_dup [OF i p(1) nz])
  have "views rt' p \<noteq> None"
  proof -
    have "atom_at rt' JS_ATOM_empty_string = Some p" using r(4) p(1) by simp
    then obtain c where "as_heap rt' p = Some c" by (rule core_slot [OF installedD(2) [OF r(2)]])
    then show ?thesis by (simp add: views_None)
  qed
  then have "arg_units rt' (Some p) = []" using frameD(3) [OF r(3) p(2)] p(3) by (auto dest: arg_units_views)
  then show ?thesis using True r(1-3) p(1) by (intro returnsI [where r = "Some p" and rt' = rt']) (simp_all add: new_string_value_def give_opt_def)
next
  case False
  obtain ctx res where g: "JS_NewStringLen jm (at_mem rt) buf = Some (ctx, res)"
    "res = JS_EXCEPTION \<or> (\<exists>q. res = JS_STRING q \<and> js_string_ok q \<and> js_units q = decode_units buf 0)"
    using JS_NewStringLen_gives [OF mem, of buf "at_mem rt"] by (auto simp: gives_def)
  define rt1 where "rt1 = rt\<lparr>at_mem := ctx\<rparr>"
  have i1: "installed rt1 held" unfolding rt1_def installed_mem by (rule i)
  have f1: "frame rt rt1" by (rule frame_same) (simp_all add: rt1_def)
  from g(2) show ?thesis
  proof (elim disjE exE conjE)
    assume "res = JS_EXCEPTION"
    then show ?thesis using False g(1) i1 f1 by (intro returnsI [where r = None and rt' = rt1]) (simp_all add: new_string_value_def give_opt_def rt1_def)
  next
    fix q assume q: "res = JS_STRING q" "js_string_ok q" "js_units q = decode_units buf 0"
    obtain rt' p where n: "struct_new (string_value q) rt1 = (rt', p)" by fastforce
    note ns = installed_new_string [OF i1 q(2) n]
    show ?thesis
    proof (rule returnsI [where r = "Some p" and rt' = rt'])
      show "new_string_value jm buf rt = Some (rt', Some p)" using False g(1) q(1) n by (simp add: new_string_value_def rt1_def)
    qed (use ns q(3) frame_trans [OF f1 ns(2) installedD(2) [OF i]] in \<open>simp_all add: give_opt_def\<close>)
  qed
qed
section \<open>Atoms from C strings and numbers\<close>

lemma give_word_null [simp]: "give_word rt 0 held = held"
  by (simp add: give_word_def const_unat JS_ATOM_END_def)

lemma take_give [simp]: "take_ref p (give_ref p held) = held"
  by (simp add: take_ref_def give_ref_def)

lemma string_then:
  assumes i: "installed rt held" and mem: "js_mem_ok jm"
    and call: "\<And>rt1 p. installed rt1 (give_ref p held) \<Longrightarrow> arg_units rt1 (Some p) = decode_units buf 0 \<Longrightarrow>
      returns rt1 (f p rt1) (\<lambda>rt' v. give_word rt' v (take_ref p (give_ref p held))) (name_answer rt1 (arg_units rt1 (Some p)))"
  shows "returns rt (do { (rt, v) \<leftarrow> new_string_value jm buf rt; (case v of None \<Rightarrow> Some (rt, 0) | Some p \<Rightarrow> f p rt) })
    (\<lambda>rt' v. give_word rt' v held) (\<lambda>rt' v. v \<noteq> 0 \<longrightarrow> atom_name rt' v = Some (decode_units buf 0))"
proof -
  obtain rt1 v where n: "new_string_value jm buf rt = Some (rt1, v)" "installed rt1 (give_opt v held)" "frame rt rt1"
    "case v of Some p \<Rightarrow> arg_units rt1 (Some p) = decode_units buf 0 | None \<Rightarrow> True"
    using new_string_value_ok [OF i mem, of buf] unfolding returns_def by blast
  show ?thesis
  proof (cases v)
    case None
    then show ?thesis using n by (intro returnsI [where rt' = rt1 and r = 0]) (simp_all add: give_opt_def)
  next
    case (Some p)
    have "returns rt (f p rt1) (\<lambda>rt' v. give_word rt' v held) (\<lambda>rt' v. v \<noteq> 0 \<longrightarrow> atom_name rt' v = Some (decode_units buf 0))"
      by (rule returns_from [OF call [of rt1 p, unfolded take_give] n(3) installedD(2) [OF i]])
        (use n Some in \<open>auto simp: give_opt_def name_answer_def\<close>)
    then show ?thesis using n(1) Some by simp
  qed
qed

lemma bytes_test_units:
  assumes "js_string_ok (as_string a)"
  shows "\<exists>b. bytes_test h str a = Some b" "bytes_test h str a = Some True \<Longrightarrow> as_atom_type a = JS_ATOM_TYPE_STRING \<and> atom_units a = map ucast str"
  using assms by (auto simp: bytes_test_def js_string_ok_def payload_size_def rd_block_def atom_units_def js_units_def units8_def split: if_splits)

lemma bytes_test_hit:
  assumes "js_string_ok (as_string a)" "as_hash a = h" "as_atom_type a = JS_ATOM_TYPE_STRING" "\<not> js_wide (as_string a)" "atom_units a = map ucast str"
  shows "bytes_test h str a = Some True"
proof -
  have u: "map ucast (take (js_len (as_string a)) (js_u (as_string a))) = (map ucast str :: u16 list)" "js_len (as_string a) < length (js_u (as_string a))"
    using assms by (simp_all add: atom_units_def js_units_def units8_def js_string_ok_def payload_size_def)
  have "inj (ucast :: u8 \<Rightarrow> u16)" by (rule injI) (metis unat_byte word_unat_eq_iff)
  then have e: "take (js_len (as_string a)) (js_u (as_string a)) = str" using u(1) by (simp add: inj_map_eq_map)
  then have "length str = js_len (as_string a)" using u(2) by auto
  then show ?thesis using assms(2-4) e u(2) by (simp add: bytes_test_def rd_block_def)
qed

text \<open>An atom whose string is stored as bytes.\<close>

definition latin1_atom :: "'o atom_rt \<Rightarrow> bytes \<Rightarrow> bool" where
  "latin1_atom rt str \<longleftrightarrow>
     (\<exists>i a. struct_at rt i = Some a \<and> as_atom_type a = JS_ATOM_TYPE_STRING \<and> \<not> js_wide (as_string a) \<and> atom_units a = map ucast str)"

lemma FindAtom_ok:
  assumes i: "installed rt held"
  shows "\<exists>rt' k. JS_FindAtom rt str = Some (rt', k) \<and> installed rt' (give_atom rt' k held) \<and> frame rt rt' \<and> k \<le> atom_size_limit \<and>
    (if k = 0 then rt' = rt \<and> \<not> latin1_atom rt str else atom_key rt' k = Some (JS_ATOM_TYPE_STRING, map ucast str))"
proof -
  note d = installedD [OF i]
  have aok: "atoms_ok rt" using d(1) by (simp add: client_ok_def)
  define h where "h = units_hash (map ucast str) (word_of_nat JS_ATOM_TYPE_STRING) AND JS_ATOM_HASH_MASK"
  have hs: "hash_string8 str (length str) 0 (word_of_nat JS_ATOM_TYPE_STRING) = Some (units_hash (map ucast str) (word_of_nat JS_ATOM_TYPE_STRING))"
    by (simp add: hash_string8_units units8_def)
  obtain js where js: "rd (atom_hash rt) (hash_place rt h) = Some (atom_hash rt ! hash_place rt h)"
    "chain (hash_next rt) (atom_hash rt ! hash_place rt h) js"
    "set js = {i. \<exists>a. struct_at rt i = Some a \<and> hashed a \<and> hash_place rt (as_hash a) = hash_place rt h}" by (rule bucket_chain [OF aok])
  have test: "\<exists>a. struct_at rt j = Some a \<and> bytes_test h str a \<noteq> None" if "j \<in> set js" for j
    using that js(3) bytes_test_units(1) hashed_string_ok(1) [OF d(2)] by fastforce
  obtain r where r: "find_bytes_loop rt h str (atom_hash rt ! hash_place rt h) = Some r"
    "case r of Some j \<Rightarrow> j \<in> set js \<and> (\<exists>a. struct_at rt j = Some a \<and> bytes_test h str a = Some True)
     | None \<Rightarrow> (\<forall>j \<in> set js. \<exists>a. struct_at rt j = Some a \<and> bytes_test h str a = Some False)"
    using fb.search [OF js(2), of h str] test by blast
  have run: "JS_FindAtom rt str = (case r of
      Some i \<Rightarrow> do { rt \<leftarrow> (if i < JS_ATOM_END then Some rt else dup_struct rt i); Some (rt, i) } | None \<Rightarrow> Some (rt, 0))"
    using hs js(1) r(1) by (simp add: JS_FindAtom_def Let_def h_def)
  show ?thesis
  proof (cases r)
    case None
    have "\<not> latin1_atom rt str"
    proof
      assume "latin1_atom rt str"
      then obtain j a where a: "struct_at rt j = Some a" "as_atom_type a = 1" "\<not> js_wide (as_string a)" "atom_units a = map ucast str"
        unfolding latin1_atom_def by blast
      have ha: "hashed a" using a(2) by (simp add: hashed_def)
      note so = hashed_string_ok [OF d(2) a(1) ha]
      have h: "as_hash a = h" using so(2) a(2,4) by (simp add: h_def atom_hash_of_def)
      then have "j \<in> set js" using js(3) a(1) ha by auto
      then show False using r(2) None a(1) bytes_test_hit [OF so(1) h a(2-4)] by fastforce
    qed
    then show ?thesis using run i None by simp
  next
    case (Some k)
    then obtain a where a: "k \<in> set js" "struct_at rt k = Some a" "bytes_test h str a = Some True" "hashed a" using r(2) js(3) by auto
    have k0: "k \<noteq> 0" using chain_nonzero [OF js(2)] a(1) by metis
    note bt = bytes_test_units(2) [OF hashed_string_ok(1) [OF d(2) a(2,4)] a(3)]
    obtain p where p: "atom_at rt k = Some p" "as_heap rt p = Some a" using a(2) by (auto simp: struct_at_Some)
    have lim: "k \<le> atom_size_limit" using atom_index_limit [OF d(2) p(1)] by simp
    show ?thesis
    proof (cases "k < JS_ATOM_END")
      case True
      have "atom_key rt k = Some (1, map ucast str)" using a(2,4) bt by (auto simp: atom_key_Some)
      then show ?thesis using run Some True i k0 lim by (simp add: give_atom_def)
    next
      case False
      obtain rt' where u: "dup_struct rt k = Some rt'" "installed rt' (give_ref p held)" "frame rt rt'" "atom_at rt' = atom_at rt"
        by (rule installed_dup [OF i p(1) k0])
      have at: "atom_at rt' k = Some p" using u(4) p(1) by simp
      then obtain c where "as_heap rt' p = Some c" by (rule core_slot [OF installedD(2) [OF u(2)]])
      then have "views rt' p \<noteq> None" by (simp add: views_None)
      then obtain n' where "views rt' p = Some (n', as_string a, 1, as_hash a)"
        using frameD(3) [OF u(3) views_heap [OF p(2)]] bt by (elim disjE) auto
      then have "atom_key rt' k = Some (1, map ucast str)" using key_views [OF at] bt by (simp add: atom_units_def)
      then show ?thesis using run Some False u at k0 lim by (simp add: give_atom_def)
    qed
  qed
qed

text \<open>\<open>JS_NewAtomLen\<close> reads its argument as Latin-1 when it looks for an existing atom and as UTF-8
  when it makes a new one.\<close>

lemma NewAtomLen_ok:
  assumes i: "installed rt held" and mem: "js_mem_ok jm" "array_limit jm"
  shows "returns rt (JS_NewAtomLen jm str rt) (\<lambda>rt' v. give_word rt' v held)
    (\<lambda>rt' v. (v \<noteq> 0 \<longrightarrow> atom_name rt' v = Some (map ucast str) \<or> atom_name rt' v = Some (decode_units str 0)) \<and>
       (latin1_atom rt str \<and> (str = [] \<or> \<not> is_digit8 (hd str)) \<longrightarrow> atom_name rt' v = Some (map ucast str)))"
proof -
  let ?new = "do { (rt, v) \<leftarrow> new_string_value jm str rt; (case v of None \<Rightarrow> Some (rt, 0) | Some p \<Rightarrow> JS_NewAtomStr jm p rt) }"
  let ?P = "\<lambda>rt' v. v \<noteq> 0 \<longrightarrow> atom_name rt' v = Some (map ucast str) \<or> atom_name rt' v = Some (decode_units str 0)"
  have call: "returns rt1 (JS_NewAtomStr jm p rt1) (\<lambda>rt' v. give_word rt' v (take_ref p (give_ref p held))) (name_answer rt1 (arg_units rt1 (Some p)))"
    if "installed rt1 (give_ref p held)" for rt1 p
    by (rule NewAtomStr_ok [OF that mem(2)]) (simp add: give_ref_def)
  let ?Q = "\<lambda>rt' v. latin1_atom rt str \<and> (str = [] \<or> \<not> is_digit8 (hd str)) \<longrightarrow> atom_name rt' v = Some (map ucast str)"
  have new: "returns rt ?new (\<lambda>rt' v. give_word rt' v held) ?P"
    by (rule returns_from [OF string_then [OF i mem(1) call] frame_refl installedD(2) [OF i]]) simp_all
  show ?thesis
  proof (cases "str = [] \<or> \<not> is_digit8 (hd str)")
    case False
    then have "returns rt ?new (\<lambda>rt' v. give_word rt' v held) (\<lambda>rt' v. ?P rt' v \<and> ?Q rt' v)"
      by (intro returns_from [OF new frame_refl installedD(2) [OF i]]) auto
    then show ?thesis using False by (simp add: JS_NewAtomLen_def)
  next
    case True
    obtain rt' k where f: "JS_FindAtom rt str = Some (rt', k)" "installed rt' (give_atom rt' k held)" "frame rt rt'" "k \<le> atom_size_limit"
      "if k = 0 then rt' = rt \<and> \<not> latin1_atom rt str else atom_key rt' k = Some (1, map ucast str)" using FindAtom_ok [OF i] by blast
    show ?thesis
    proof (cases "k = 0")
      case zero: True
      then have "returns rt ?new (\<lambda>rt' v. give_word rt' v held) (\<lambda>rt' v. ?P rt' v \<and> ?Q rt' v)"
        using f(5) by (intro returns_from [OF new frame_refl installedD(2) [OF i]]) auto
      then show ?thesis using f zero True by (simp add: JS_NewAtomLen_def)
    next
      case False
      show ?thesis
      proof (rule returnsI [where rt' = rt' and r = "word_of_nat k"])
        show "JS_NewAtomLen jm str rt = Some (rt', word_of_nat k)" using f(1) True False by (simp add: JS_NewAtomLen_def)
      qed (use f False atom_name_index [OF f(4), of rt'] in \<open>simp_all add: give_word_index\<close>)
    qed
  qed
qed

lemma decimal_ascii: "list_all (\<lambda>b. b < 128) (decimal n)"
proof (induction n rule: less_induct)
  case (less n)
  have d: "(0x30 + word_of_nat k :: u8) < 128" if "k < 10" for k
  proof -
    have "unat (word_of_nat k :: u8) = k" using that by (simp add: unsigned_of_nat take_bit_nat_eq_self)
    then have "unat (0x30 + word_of_nat k :: u8) = 48 + k" using that by (subst unat_add_lem [THEN iffD1]) simp_all
    then show ?thesis using that by (simp add: word_less_nat_alt)
  qed
  show ?case
  proof (cases "n < 10")
    case False
    then show ?thesis using less [of "n div 10"] d [of "n mod 10"] by (simp add: decimal.simps [of n])
  qed (simp add: decimal.simps [of n] d)
qed

lemma decode_decimal: "decode_units (decimal n) 0 = decimal_units n"
  using decode_units_ascii [OF decimal_ascii] by (simp add: decimal_units_def)

lemma not_small_decimal: "2 ^ 31 \<le> n \<Longrightarrow> not_small {decimal_units n}"
  by (auto simp: not_small_def decimal_units_inj)

lemma intern_decimal:
  assumes i: "installed rt held" and mem: "js_mem_ok jm" "array_limit jm" and n: "not_small {decode_units buf 0}"
  shows "returns rt (do { (rt, v) \<leftarrow> new_string_value jm buf rt;
      (case v of None \<Rightarrow> Some (rt, 0)
       | Some p \<Rightarrow> map_option (\<lambda>(rt, i). (rt, word_of_nat i)) (JS_NewAtom_str jm (Some p) JS_ATOM_TYPE_STRING rt)) })
    (\<lambda>rt' v. give_word rt' v held) (\<lambda>rt' v. v \<noteq> 0 \<longrightarrow> atom_name rt' v = Some (decode_units buf 0))"
  by (rule string_then [OF i mem(1)], rule intern_word [OF _ mem(2)]) (use n in \<open>simp_all add: give_ref_def\<close>)

lemma NewAtomUInt32_ok:
  assumes i: "installed rt held" and mem: "js_mem_ok jm" "array_limit jm"
  shows "returns rt (JS_NewAtomUInt32 jm n rt) (\<lambda>rt' v. give_word rt' v held)
    (\<lambda>rt' v. v \<noteq> 0 \<longrightarrow> atom_name rt' v = Some (decimal_units (unat n)))"
proof (cases "n \<le> JS_ATOM_MAX_INT")
  case True
  then show ?thesis using i from_to_uint32 [OF True]
    by (intro returnsI [where rt' = rt and r = "AtomFromUInt32 n"]) (simp_all add: JS_NewAtomUInt32_def give_word_tagged atom_name_def)
next
  case False
  then have "2 ^ 31 \<le> unat n" by (simp add: JS_ATOM_MAX_INT_def JS_ATOM_TAG_INT_def word_le_nat_alt)
  then have "not_small {decode_units (decimal (unat n)) 0}" unfolding decode_decimal by (rule not_small_decimal)
  from intern_decimal [OF i mem this] show ?thesis unfolding JS_NewAtomUInt32_def if_not_P [OF False] decode_decimal .
qed

definition int_units :: "int \<Rightarrow> u16 list" where
  "int_units z = (if z < 0 then 0x2d # decimal_units (nat (- z)) else decimal_units (nat z))"

lemma int64_units:
  fixes n :: u64
  shows "decode_units (if sint n < 0 then 0x2d # decimal (nat (- sint n)) else decimal (nat (sint n))) 0 = int_units (sint n)"
proof -
  have "decode_units (0x2d # decimal k) 0 = 0x2d # decimal_units k" for k
    using decimal_ascii [of k] by (subst decode_units_ascii) (simp_all add: decimal_units_def)
  then show ?thesis by (simp add: int_units_def decode_decimal)
qed

lemma int64_small:
  fixes n :: u64
  shows "n \<le> ucast JS_ATOM_MAX_INT \<longleftrightarrow> 0 \<le> sint n \<and> sint n < 2 ^ 31" "n \<le> ucast JS_ATOM_MAX_INT \<Longrightarrow> int (unat (ucast n :: u32)) = sint n"
proof -
  have max: "unat (ucast JS_ATOM_MAX_INT :: u64) = 2 ^ 31 - 1" by (simp add: JS_ATOM_MAX_INT_def JS_ATOM_TAG_INT_def)
  have s: "sint n = (if bit n 63 then int (unat n) - 2 ^ 64 else int (unat n))"
    using unsigned_less [of n, where ?'a = int] by (simp add: sint_uint signed_take_bit_eq_take_bit_minus take_bit_int_eq_self bit_unsigned_iff)
  have b: "bit n 63 \<longleftrightarrow> 2 ^ 63 \<le> unat n"
  proof -
    have "bit n 63 \<longleftrightarrow> bit (unat n) 63" by (simp add: bit_unsigned_iff)
    moreover have "unat n div 2 ^ 63 < 2" using unsigned_less [of n, where ?'a = nat] by (simp add: div_less_iff_less_mult)
    ultimately show ?thesis unfolding bit_iff_odd by (cases "unat n div 2 ^ 63 = 0") (auto simp: div_eq_0_iff less_2_cases_iff)
  qed
  have u: "unat n < 2 ^ 64" using unsigned_less [of n, where ?'a = nat] by simp
  show iff: "n \<le> ucast JS_ATOM_MAX_INT \<longleftrightarrow> 0 \<le> sint n \<and> sint n < 2 ^ 31"
    unfolding word_le_nat_alt max s b using u by (auto simp del: of_nat_unat)
  show "int (unat (ucast n :: u32)) = sint n" if "n \<le> ucast JS_ATOM_MAX_INT"
  proof -
    have "unat n < 2 ^ 31" using that by (simp add: word_le_nat_alt max)
    then have "unat (ucast n :: u32) = unat n" by (intro unat_ucast_small) simp
    then show ?thesis using \<open>unat n < 2 ^ 31\<close> by (simp add: s b del: of_nat_unat)
  qed
qed

lemma NewAtomInt64_ok:
  assumes i: "installed rt held" and mem: "js_mem_ok jm" "array_limit jm"
  shows "returns rt (JS_NewAtomInt64 jm n rt) (\<lambda>rt' v. give_word rt' v held)
    (\<lambda>rt' v. v \<noteq> 0 \<longrightarrow> atom_name rt' v = Some (int_units (sint n)))"
proof (cases "n \<le> ucast JS_ATOM_MAX_INT")
  case True
  note small = int64_small(2) [OF True] int64_small(1) [of n]
  have u: "unat (ucast n :: u32) = nat (sint n)" using small(1) by (metis nat_int)
  have "nat (sint n) \<le> 2147483647" using small(2) True by (simp add: nat_le_iff)
  then have m: "(ucast n :: u32) \<le> JS_ATOM_MAX_INT"
    using u by (simp add: word_le_nat_alt JS_ATOM_MAX_INT_def JS_ATOM_TAG_INT_def)
  have "atom_name rt (AtomFromUInt32 (ucast n)) = Some (int_units (sint n))"
    using from_to_uint32 [OF m] u small True by (simp add: atom_name_def int_units_def)
  then show ?thesis using True i from_to_uint32(1) [OF m]
    by (intro returnsI [where rt' = rt and r = "AtomFromUInt32 (ucast n)"]) (simp_all add: JS_NewAtomInt64_def give_word_tagged)
next
  case False
  have "not_small {int_units (sint n)}"
  proof (cases "sint n < 0")
    case True
    have "(0x2d :: u16) # us \<noteq> decimal_units m" for us m
    proof
      assume "(0x2d :: u16) # us = decimal_units m"
      then have "is_num 0x2d" using decimal_units_value [of m] by (metis list.pred_inject(2))
      then show False by (simp add: is_num_def)
    qed
    then show ?thesis using True by (simp add: not_small_def int_units_def)
  next
    case nn: False
    then have "2 ^ 31 \<le> nat (sint n)" using False int64_small(1) [of n] by simp
    then show ?thesis using nn not_small_decimal by (simp add: int_units_def)
  qed
  then have "not_small {decode_units (if sint n < 0 then 0x2d # decimal (nat (- sint n)) else decimal (nat (sint n))) 0}"
    unfolding int64_units .
  from intern_decimal [OF i mem this] show ?thesis unfolding JS_NewAtomInt64_def if_not_P [OF False] int64_units .
qed

section \<open>The value of an atom\<close>

definition atom_text :: "'o atom_rt \<Rightarrow> JSAtom \<Rightarrow> u16 list" where
  "atom_text rt v =
     (if AtomIsTaggedInt v then decimal_units (unat (AtomToUInt32 v))
      else (case struct_at rt (unat v) of Some a \<Rightarrow> atom_units a | None \<Rightarrow> []))"

lemma atom_name_text: "atom_name rt v = Some us \<Longrightarrow> atom_text rt v = us"
  by (auto simp: atom_name_Some atom_text_def atom_key_Some split: if_splits)

definition give_value :: "atom_value option \<Rightarrow> (nat \<Rightarrow> nat) \<Rightarrow> nat \<Rightarrow> nat" where
  "give_value r held = (case r of Some (Value_string p) \<Rightarrow> give_ref p held | Some (Value_symbol p) \<Rightarrow> give_ref p held | None \<Rightarrow> held)"

definition value_answer :: "'o atom_rt \<Rightarrow> JSAtom \<Rightarrow> bool \<Rightarrow> 'o atom_rt \<Rightarrow> atom_value option \<Rightarrow> bool" where
  "value_answer rt v force rt' r \<longleftrightarrow>
     (case r of
        None \<Rightarrow> AtomIsTaggedInt v
      | Some (Value_string p) \<Rightarrow> arg_units rt' (Some p) = atom_text rt v \<and> (force \<or> atom_name rt v \<noteq> None)
      | Some (Value_symbol p) \<Rightarrow> \<not> force \<and> atom_name rt v = None \<and> atom_at rt (unat v) = Some p)"

lemma units_after_dup:
  assumes i: "installed rt held" and at: "atom_at rt k = Some p" "k \<noteq> 0" and r: "dup_struct rt k = Some rt'"
  shows "arg_units rt' (Some p) = arg_units rt (Some p)"
proof -
  obtain a where a: "as_heap rt p = Some a" by (rule core_slot [OF installedD(2) [OF i] at(1)])
  then show ?thesis using r at(1) by (auto simp: dup_struct_def arg_units_def atom_units_def)
qed

lemma AtomToValue_ok:
  assumes i: "installed rt held" and mem: "js_mem_ok jm" and o: "owns_atom rt held v"
  shows "returns rt (JS_AtomToValue_internal jm v force rt) (\<lambda>rt' r. give_value r held) (value_answer rt v force)"
proof (cases "AtomIsTaggedInt v")
  case True
  let ?n = "unat (AtomToUInt32 v)"
  obtain rt' r where n: "new_string_value jm (decimal ?n) rt = Some (rt', r)" "installed rt' (give_opt r held)" "frame rt rt'"
    "case r of Some p \<Rightarrow> arg_units rt' (Some p) = decode_units (decimal ?n) 0 | None \<Rightarrow> True"
    using new_string_value_ok [OF i mem] unfolding returns_def by blast
  have "JS_AtomToValue_internal jm v force rt = Some (rt', map_option Value_string r)"
    using True n(1) by (simp add: JS_AtomToValue_internal_def)
  then show ?thesis using n True by (intro returnsI) (auto simp: give_value_def give_opt_def value_answer_def atom_text_def atom_name_def decode_decimal split: option.splits)
next
  case False
  obtain p where p: "atom_at rt (unat v) = Some p" "unat v \<noteq> 0" "unat v < atom_size rt" by (rule owned_live [OF i o False])
  obtain a where a: "as_heap rt p = Some a" by (rule core_slot [OF installedD(2) [OF i] p(1)])
  have st: "struct_at rt (unat v) = Some a" using p(1) a by (simp add: struct_at_def)
  have txt_v: "atom_text rt v = atom_units a" using False st by (simp add: atom_text_def)
  have name: "atom_name rt v \<noteq> None \<longleftrightarrow> as_atom_type a = 1" using False st by (auto simp: atom_name_def atom_key_def hashed_def)
  let ?nodesc = "as_atom_type a \<noteq> 1 \<and> force \<and> js_len (as_string a) = 0 \<and> js_wide (as_string a)"
  obtain k q where k: "k = (if ?nodesc then JS_ATOM_empty_string else unat v)" "k \<noteq> 0" "atom_at rt k = Some q" "arg_units rt (Some q) = atom_units a"
    "\<not> ?nodesc \<Longrightarrow> q = p"
  proof (cases ?nodesc)
    case True
    then have "atom_units a = []" by (simp add: atom_units_def js_units_def units16_def)
    moreover obtain q n s h where "atom_at rt JS_ATOM_empty_string = Some q" "views rt q = Some (n, s, 1, h)" "js_units s = []"
      by (rule empty_string_atom [OF i])
    ultimately show thesis using that [of JS_ATOM_empty_string q] True arg_units_views [of rt q] by (simp add: JS_ATOM_empty_string_def)
  next
    case False
    show thesis by (rule that [of "unat v" p], rule if_not_P [OF False, symmetric]) (use p a in \<open>simp_all add: arg_units_def\<close>)
  qed
  obtain rt' where r: "dup_struct rt k = Some rt'" "installed rt' (give_ref q held)" "frame rt rt'" by (rule installed_dup [OF i k(3,2)])
  let ?val = "if as_atom_type a = 1 \<or> force then Value_string q else Value_symbol q"
  have run: "JS_AtomToValue_internal jm v force rt = Some (rt', Some ?val)"
    using False p(3) st k(1,3) r(1) by (simp add: JS_AtomToValue_internal_def Let_def assert_c_def)
  have "arg_units rt' (Some q) = atom_units a" using units_after_dup [OF i k(3,2) r(1)] k(4) by simp
  then have "value_answer rt v force rt' (Some ?val)" using txt_v name p(1) k(5) by (auto simp: value_answer_def)
  then show ?thesis using r(2,3) by (intro returnsI [OF run]) (auto simp: give_value_def)
qed

section \<open>Symbols\<close>

definition symbol_answer :: "'o atom_rt \<Rightarrow> nat option \<Rightarrow> nat \<Rightarrow> 'o atom_rt \<Rightarrow> nat option \<Rightarrow> bool" where
  "symbol_answer rt str t rt' r \<longleftrightarrow>
     (case r of None \<Rightarrow> True
      | Some q \<Rightarrow> (\<exists>n s h. views rt' q = Some (n, s, if t = JS_ATOM_TYPE_GLOBAL_SYMBOL then t else JS_ATOM_TYPE_SYMBOL, h) \<and>
          js_units s = arg_units rt str))"

lemma symbol_result:
  assumes i: "installed rt held" and r: "JS_NewAtom_str jm str t rt = Some (rt', k)" "client_ok rt' (give_atom rt' k (take_opt str held))"
    "frame rt rt'" "names_from rt rt' {}" and k: "k = 0 \<or> \<not> k < JS_ATOM_END"
    and a: "k = 0 \<or> (\<exists>p n q h. atom_at rt' k = Some p \<and> views rt' p = Some (n, q, if t = 2 then 2 else 3, h) \<and> js_units q = arg_units rt str)"
  shows "returns rt (JS_NewSymbol jm str t rt) (\<lambda>rt' r. give_opt r (take_opt str held)) (symbol_answer rt str t)"
proof -
  have live: "k \<noteq> 0 \<longrightarrow> atom_at rt' k \<noteq> None" using a by auto
  have ins: "installed rt' (give_atom rt' k (take_opt str held))"
    by (rule installed_step [OF i r(2,3,4)])
      (use null_give_atom [OF client_core [OF r(2)] live] in \<open>auto simp: take_opt_def take_ref_def split: option.splits\<close>)
  show ?thesis
  proof (cases "k = 0")
    case True
    then have run: "JS_NewSymbol jm str t rt = Some (rt', None)" using r(1) by (simp add: JS_NewSymbol_def)
    show ?thesis using ins True r(3) by (intro returnsI [OF run]) (simp_all add: give_opt_def symbol_answer_def)
  next
    case False
    then obtain p n q h where p: "atom_at rt' k = Some p" "views rt' p = Some (n, q, if t = 2 then 2 else 3, h)" "js_units q = arg_units rt str"
      using a by blast
    have run: "JS_NewSymbol jm str t rt = Some (rt', Some p)" using r(1) False p(1) by (simp add: JS_NewSymbol_def)
    show ?thesis using ins k False p r(3) by (intro returnsI [OF run]) (auto simp: give_opt_def give_atom_def symbol_answer_def)
  qed
qed

lemma NewSymbol_ok:
  assumes i: "installed rt held" and lim: "array_limit jm" and str: "case str of Some s \<Rightarrow> 0 < held s | None \<Rightarrow> t \<noteq> JS_ATOM_TYPE_GLOBAL_SYMBOL"
    and t: "t = JS_ATOM_TYPE_GLOBAL_SYMBOL \<or> t = JS_ATOM_TYPE_SYMBOL \<or> t = JS_ATOM_TYPE_PRIVATE"
  shows "returns rt (JS_NewSymbol jm str t rt) (\<lambda>rt' r. give_opt r (take_opt str held)) (symbol_answer rt str t)"
proof (cases "t = 2")
  case True
  note d = installedD [OF i]
  obtain s where s: "str = Some s" "0 < held s" using str True by (auto split: option.splits)
  obtain rt' k where r: "JS_NewAtom_str jm (Some s) 2 rt = Some (rt', k)" "client_ok rt' (give_atom rt' k (take_ref s held))" "frame rt rt'"
    "names_from rt rt' {}" "k \<noteq> 0 \<longrightarrow> atom_key rt' k = Some (2, arg_units rt (Some s))"
    using NewAtom_interns [OF d(1) lim s(2) d(6) [OF s(2)], of 2] unfolding interned_def by (auto simp: name_of_type_def split: if_splits)
  have a: "k = 0 \<or> (\<exists>p n q h. atom_at rt' k = Some p \<and> views rt' p = Some (n, q, 2, h) \<and> js_units q = arg_units rt (Some s))"
    using r(5) by (fastforce simp: atom_key_Some struct_at_Some views_def atom_units_def)
  have "predefined_at rt' k" if "0 < k" "k < JS_ATOM_END"
    by (rule predefined_frame [OF r(3) d(2)]) (use d(3) that in simp_all)
  then have "k = 0 \<or> \<not> k < JS_ATOM_END" using a by (fastforce simp: predefined_at_def init_kind_def split: if_splits)
  then show ?thesis using symbol_result [OF i _ _ r(3,4), of jm str t k] r(1,2) a s(1) True by (simp add: take_opt_def)
next
  case False
  note d = installedD [OF i]
  define h :: u32 where "h = (if t = 3 then 0 else 1)"
  have run: "JS_NewAtom_str jm str t rt = atom_register jm str 3 h 0 rt" using t False by (auto simp: JS_NewAtom_str_def h_def)
  have "may_register rt held str 3 h" using str d(6) by (auto simp: may_register_def h_def split: option.splits)
  then obtain rt' k where r: "atom_register jm str 3 h 0 rt = Some (rt', k)" "client_ok rt' (give_atom rt' k (take_opt str held))" "frame rt rt'"
    "names_from rt rt' {}" "k < JS_ATOM_END \<longrightarrow> k = 0 \<or> atom_at rt k = None"
    "k = 0 \<or> (\<exists>p n q. atom_at rt' k = Some p \<and> views rt' p = Some (n, q, 3, h) \<and> js_units q = arg_units rt str)"
    using register_ok [OF d(1) lim, of str 3 h 0] unfolding registered_def by (auto simp: name_of_type_def)
  have "k = 0 \<or> \<not> k < JS_ATOM_END" using r(5) d(5) [of k] by auto
  then show ?thesis using symbol_result [OF i _ r(2,3,4), of jm t] r(1,6) run False by auto
qed

lemma NewSymbolFromAtom_ok:
  assumes i: "installed rt held" and lim: "array_limit jm" and o: "owns_atom rt held v" "\<not> AtomIsTaggedInt v"
    and t: "t = JS_ATOM_TYPE_GLOBAL_SYMBOL \<or> t = JS_ATOM_TYPE_SYMBOL \<or> t = JS_ATOM_TYPE_PRIVATE"
  shows "returns rt (JS_NewSymbolFromAtom jm v t rt) (\<lambda>rt' r. give_opt r held) (symbol_answer rt (atom_at rt (unat v)) t)"
proof -
  obtain p where p: "atom_at rt (unat v) = Some p" "unat v \<noteq> 0" "unat v < atom_size rt" by (rule owned_live [OF i o])
  obtain rt1 where r: "dup_struct rt (unat v) = Some rt1" "installed rt1 (give_ref p held)" "frame rt rt1" by (rule installed_dup [OF i p(1,2)])
  have u: "arg_units rt1 (Some p) = arg_units rt (Some p)" by (rule units_after_dup [OF i p(1,2) r(1)])
  have s: "symbol_answer rt1 (Some p) t = symbol_answer rt (Some p) t" unfolding symbol_answer_def u ..
  have "returns rt1 (JS_NewSymbol jm (Some p) t rt1) (\<lambda>rt' r. give_opt r (take_opt (Some p) (give_ref p held))) (symbol_answer rt1 (Some p) t)"
    by (rule NewSymbol_ok [OF r(2) lim _ t]) (simp add: give_ref_def)
  then have "returns rt1 (JS_NewSymbol jm (Some p) t rt1) (\<lambda>rt' r. give_opt r held) (symbol_answer rt (Some p) t)"
    unfolding s take_opt_def option.case take_give .
  from returns_from [OF this r(3) installedD(2) [OF i]]
  have "returns rt (JS_NewSymbol jm (Some p) t rt1) (\<lambda>rt' r. give_opt r held) (symbol_answer rt (Some p) t)" .
  then show ?thesis using p r(1) o(2) by (simp add: JS_NewSymbolFromAtom_def assert_c_def)
qed
end
