(* ===== verification/Js_Atom_Reach.thy ===== *)
theory Js_Atom_Reach
  imports Js_Atom_Create
begin

text \<open>
  Sequences of calls.  The states of the atom table that a client can reach after
  \<open>JS_InitAtoms\<close> with calls it is entitled to, and what holds in them.
\<close>

section \<open>Calls\<close>

text \<open>\<open>New_string\<close> is a string that another part of the engine has made; \<open>Free_string\<close> is
  \<open>JS_FreeValue\<close> on a string or a symbol.\<close>

datatype atom_call =
    New_string JSString
  | New_atom_str nat
  | New_atom_len bytes
  | New_atom_uint32 u32
  | New_atom_int64 u64
  | New_symbol "nat option" nat
  | New_symbol_from JSAtom nat
  | Dup_atom JSAtom
  | Free_atom JSAtom
  | Free_string nat
  | Atom_to_value JSAtom bool

datatype atom_answer = Ans_done | Ans_atom JSAtom | Ans_string "nat option" | Ans_value "atom_value option"

definition atom_call :: "'o js_mem \<Rightarrow> atom_call \<Rightarrow> 'o atom_rt \<Rightarrow> ('o atom_rt \<times> atom_answer) option" where
  "atom_call jm c rt =
     (case c of
        New_string q \<Rightarrow> (case struct_new (string_value q) rt of (rt, p) \<Rightarrow> Some (rt, Ans_string (Some p)))
      | New_atom_str s \<Rightarrow> map_option (map_prod id Ans_atom) (JS_NewAtomStr jm s rt)
      | New_atom_len str \<Rightarrow> map_option (map_prod id Ans_atom) (JS_NewAtomLen jm str rt)
      | New_atom_uint32 n \<Rightarrow> map_option (map_prod id Ans_atom) (JS_NewAtomUInt32 jm n rt)
      | New_atom_int64 n \<Rightarrow> map_option (map_prod id Ans_atom) (JS_NewAtomInt64 jm n rt)
      | New_symbol str t \<Rightarrow> map_option (map_prod id Ans_string) (JS_NewSymbol jm str t rt)
      | New_symbol_from v t \<Rightarrow> map_option (map_prod id Ans_string) (JS_NewSymbolFromAtom jm v t rt)
      | Dup_atom v \<Rightarrow> map_option (\<lambda>rt. (rt, Ans_atom v)) (JS_DupAtom rt v)
      | Free_atom v \<Rightarrow> map_option (\<lambda>rt. (rt, Ans_done)) (JS_FreeAtom rt v)
      | Free_string s \<Rightarrow> map_option (\<lambda>rt. (rt, Ans_done)) (js_free_string rt s)
      | Atom_to_value v force \<Rightarrow> map_option (map_prod id Ans_value) (JS_AtomToValue_internal jm v force rt))"

text \<open>What entitles a client to a call: the references it passes are its own, and symbols have a
  type of symbols.\<close>

definition symbol_type :: "nat \<Rightarrow> bool" where
  "symbol_type t \<longleftrightarrow> t = JS_ATOM_TYPE_GLOBAL_SYMBOL \<or> t = JS_ATOM_TYPE_SYMBOL \<or> t = JS_ATOM_TYPE_PRIVATE"

definition entitled :: "'o atom_rt \<Rightarrow> (nat \<Rightarrow> nat) \<Rightarrow> atom_call \<Rightarrow> bool" where
  "entitled rt held c =
     (case c of
        New_string q \<Rightarrow> js_string_ok q
      | New_atom_str s \<Rightarrow> 0 < held s
      | New_symbol str t \<Rightarrow> symbol_type t \<and> (case str of Some s \<Rightarrow> 0 < held s | None \<Rightarrow> t \<noteq> JS_ATOM_TYPE_GLOBAL_SYMBOL)
      | New_symbol_from v t \<Rightarrow> symbol_type t \<and> owns_atom rt held v \<and> \<not> AtomIsTaggedInt v
      | Dup_atom v \<Rightarrow> owns_atom rt held v
      | Free_atom v \<Rightarrow> owns_atom rt held v
      | Free_string s \<Rightarrow> 0 < held s
      | Atom_to_value v _ \<Rightarrow> owns_atom rt held v
      | _ \<Rightarrow> True)"

text \<open>The references of the client after a call: it loses those it passed and gets the answer.\<close>

definition passed :: "'o atom_rt \<Rightarrow> atom_call \<Rightarrow> (nat \<Rightarrow> nat) \<Rightarrow> nat \<Rightarrow> nat" where
  "passed rt c held =
     (case c of
        New_atom_str s \<Rightarrow> take_ref s held
      | New_symbol str _ \<Rightarrow> take_opt str held
      | Free_atom v \<Rightarrow> take_word rt v held
      | Free_string s \<Rightarrow> take_ref s held
      | _ \<Rightarrow> held)"

definition received :: "'o atom_rt \<Rightarrow> atom_answer \<Rightarrow> (nat \<Rightarrow> nat) \<Rightarrow> nat \<Rightarrow> nat" where
  "received rt r held =
     (case r of
        Ans_done \<Rightarrow> held
      | Ans_atom v \<Rightarrow> give_word rt v held
      | Ans_string p \<Rightarrow> give_opt p held
      | Ans_value v \<Rightarrow> give_value v held)"

inductive reach :: "'o js_mem \<Rightarrow> 'o atom_rt \<Rightarrow> (nat \<Rightarrow> nat) \<Rightarrow> bool" for jm where
  reach_init: "cleared rt \<Longrightarrow> JS_InitAtoms jm rt = Some (rt', 0) \<Longrightarrow> reach jm rt' (\<lambda>_. 0)"
| reach_call: "reach jm rt held \<Longrightarrow> entitled rt held c \<Longrightarrow> atom_call jm c rt = Some (rt', r) \<Longrightarrow>
    reach jm rt' (received rt' r (passed rt c held))"

lemma returns_map:
  assumes "returns rt res H P" "\<And>rt' r. H rt' r = received rt' (f r) held"
  shows "returns rt (map_option (map_prod id f) res) (\<lambda>rt' r. received rt' r held) (\<lambda>rt' r. True)"
  using assms unfolding returns_def by fastforce

lemma call_returns:
  assumes i: "installed rt held" and mem: "js_mem_ok jm" "array_limit jm" and e: "entitled rt held c"
  shows "returns rt (atom_call jm c rt) (\<lambda>rt' r. received rt' r (passed rt c held)) (\<lambda>rt' r. True)"
proof (cases c)
  case (New_string q)
  obtain rt' p where n: "struct_new (string_value q) rt = (rt', p)" by fastforce
  have "js_string_ok q" using e New_string by (simp add: entitled_def)
  from installed_new_string [OF i this n] show ?thesis
    using New_string n by (intro returnsI [where rt' = rt' and r = "Ans_string (Some p)"]) (simp_all add: atom_call_def received_def passed_def give_opt_def)
next
  case (New_atom_str s)
  then have "0 < held s" using e by (simp add: entitled_def)
  from returns_map [OF NewAtomStr_ok [OF i mem(2) this], of Ans_atom] show ?thesis
    using New_atom_str by (simp add: atom_call_def received_def passed_def)
next
  case (New_atom_len str)
  from returns_map [OF NewAtomLen_ok [OF i mem], of Ans_atom] show ?thesis
    using New_atom_len by (simp add: atom_call_def received_def passed_def)
next
  case (New_atom_uint32 n)
  from returns_map [OF NewAtomUInt32_ok [OF i mem], of Ans_atom] show ?thesis
    using New_atom_uint32 by (simp add: atom_call_def received_def passed_def)
next
  case (New_atom_int64 n)
  from returns_map [OF NewAtomInt64_ok [OF i mem], of Ans_atom] show ?thesis
    using New_atom_int64 by (simp add: atom_call_def received_def passed_def)
next
  case (New_symbol str t)
  then have "symbol_type t" "case str of Some s \<Rightarrow> 0 < held s | None \<Rightarrow> t \<noteq> 2" using e by (simp_all add: entitled_def)
  from returns_map [OF NewSymbol_ok [OF i mem(2) this(2) this(1) [unfolded symbol_type_def]], of Ans_string] show ?thesis
    using New_symbol by (simp add: atom_call_def received_def passed_def)
next
  case (New_symbol_from v t)
  then have "symbol_type t" "owns_atom rt held v" "\<not> AtomIsTaggedInt v" using e by (simp_all add: entitled_def)
  from returns_map [OF NewSymbolFromAtom_ok [OF i mem(2) this(2,3) this(1) [unfolded symbol_type_def]], of Ans_string] show ?thesis
    using New_symbol_from by (simp add: atom_call_def received_def passed_def)
next
  case (Dup_atom v)
  then have "owns_atom rt held v" using e by (simp add: entitled_def)
  from DupAtom_ok [OF i this] show ?thesis using Dup_atom by (auto simp: returns_def atom_call_def received_def passed_def)
next
  case (Free_atom v)
  then have "owns_atom rt held v" using e by (simp add: entitled_def)
  from FreeAtom_ok [OF i this] show ?thesis using Free_atom by (auto simp: returns_def atom_call_def received_def passed_def)
next
  case (Free_string s)
  then have "0 < held s" using e by (simp add: entitled_def)
  from i this obtain rt' where "js_free_string rt s = Some rt'" "installed rt' (take_ref s held)" "frame rt rt'" by (rule installed_release)
  then show ?thesis using Free_string by (auto simp: returns_def atom_call_def received_def passed_def)
next
  case (Atom_to_value v force)
  then have "owns_atom rt held v" using e by (simp add: entitled_def)
  from returns_map [OF AtomToValue_ok [OF i mem(1) this], of Ans_value] show ?thesis
    using Atom_to_value by (simp add: atom_call_def received_def passed_def)
qed

lemma reach_installed:
  assumes mem: "js_mem_ok jm" "array_limit jm" and r: "reach jm rt held"
  shows "installed rt held"
  using r
proof (induction rule: reach.induct)
  case (reach_init rt rt')
  then show ?case using InitAtoms_ok [OF mem reach_init(1)] initialised_installed by auto
next
  case (reach_call rt held c rt' r)
  then show ?case using call_returns [OF reach_call.IH mem reach_call.hyps(2)] by (auto simp: returns_def)
qed

section \<open>Names identify atoms\<close>

lemma tagged_atom_eq:
  assumes "AtomIsTaggedInt v" "AtomIsTaggedInt w" "AtomToUInt32 v = AtomToUInt32 w"
  shows "v = w"
proof (rule bit_word_eqI)
  fix n
  have "bit (AtomToUInt32 v) n = bit (AtomToUInt32 w) n" using assms(3) by simp
  then show "bit v n = bit w n" if "n < LENGTH(32)"
    using assms(1,2) that by (cases "n = 31") (simp_all add: tagged_bit AtomToUInt32_def bit_and_iff bit_not_iff tag_bits)
qed

lemma tagged_not_interned:
  assumes "installed rt held" "atom_key rt i = Some (JS_ATOM_TYPE_STRING, us)"
  shows "us \<noteq> decimal_units (unat (AtomToUInt32 v))"
proof -
  obtain a p where "as_heap rt p = Some a" "as_atom_type a = 1" "atom_units a = us" using assms(2) by (auto simp: atom_key_Some struct_at_Some)
  then have "views rt p = Some (as_ref_count a, as_string a, 1, as_hash a)" "js_units (as_string a) = us" by (simp_all add: views_def atom_units_def)
  then show ?thesis using installedD(4) [OF assms(1)] tagged_small [of v] unfolding numeric_free_def by blast
qed

lemma key_unique:
  assumes core: "atoms_core rt" and k: "atom_key rt i = Some k" "atom_key rt j = Some k"
  shows "i = j"
proof -
  have live: "\<exists>a p. atom_at rt i = Some p \<and> as_heap rt p = Some a \<and> hashed a \<and> k = (as_atom_type a, atom_units a)" if "atom_key rt i = Some k" for i
    using that by (cases k) (auto simp: atom_key_Some struct_at_Some)
  obtain a p where a: "atom_at rt i = Some p" "as_heap rt p = Some a" "hashed a" "k = (as_atom_type a, atom_units a)" using live [OF k(1)] by blast
  obtain b q where b: "atom_at rt j = Some q" "as_heap rt q = Some b" "k = (as_atom_type b, atom_units b)" using live [OF k(2)] by blast
  have "keys_unique rt" using core by (simp add: atoms_core_def)
  then have "p = q" using a b unfolding keys_unique_def by (metis prod.inject)
  then show ?thesis using slots_injD [OF core_inj [OF core] a(1)] b(1) by simp
qed

lemma name_unique:
  assumes i: "installed rt held" and n: "atom_name rt v = Some us" "atom_name rt w = Some us"
  shows "v = w"
proof -
  consider "AtomIsTaggedInt v" "AtomIsTaggedInt w" | "AtomIsTaggedInt v \<noteq> AtomIsTaggedInt w" | "\<not> AtomIsTaggedInt v" "\<not> AtomIsTaggedInt w" by blast
  then show ?thesis
  proof cases
    case 1
    then have "unat (AtomToUInt32 v) = unat (AtomToUInt32 w)" using n decimal_units_inj by (auto simp: atom_name_def)
    then show ?thesis by (intro tagged_atom_eq [OF 1]) (simp add: word_unat_eq_iff)
  next
    case 2
    then show ?thesis using n tagged_not_interned [OF i] by (auto simp: atom_name_Some split: if_splits)
  next
    case 3
    then have "unat v = unat w" using n key_unique [OF installedD(2) [OF i]] by (auto simp: atom_name_Some)
    then show ?thesis by (simp add: word_unat_eq_iff)
  qed
qed

section \<open>A sample runtime\<close>

definition limited_mem :: "unit js_mem" where
  "limited_mem = sample_mem\<lparr>jm_realloc := (\<lambda>c p n. if n \<le> 8 * atom_size_limit then jm_realloc sample_mem c p n else (c, None))\<rparr>"

definition blank :: "unit atom_rt" where
  "blank = \<lparr>as_heap = (\<lambda>_. None), as_fresh = 0, atom_hash_size = 0, atom_count = 0, atom_size = 0, atom_count_resize = 0,
     atom_hash = [], atom_array = [], atom_free_index = 0, at_mem = ()\<rparr>"

lemma limited_mem_ok: "js_mem_ok limited_mem" "array_limit limited_mem" "generous limited_mem"
proof -
  show "js_mem_ok limited_mem" using sample_mem_ok by (auto simp: js_mem_ok_def limited_mem_def split: if_splits)
  show "array_limit limited_mem" by (simp add: array_limit_def limited_mem_def)
  show "generous limited_mem" by (simp add: generous_def limited_mem_def sample_mem_def)
qed

lemma sample_reach: "\<exists>rt. JS_InitAtoms limited_mem blank = Some (rt, 0) \<and> reach limited_mem rt (\<lambda>_. 0)"
proof -
  have c: "cleared blank" by (simp add: cleared_def blank_def)
  obtain rt where "JS_InitAtoms limited_mem blank = Some (rt, 0)"
    using InitAtoms_ok [OF limited_mem_ok(1,2) c] limited_mem_ok(3) by auto
  then show ?thesis using reach_init [OF c] by blast
qed

section \<open>Properties\<close>

text \<open>C8: in every state that a client reaches after \<open>JS_InitAtoms\<close> by calls it is entitled to, each
  further call it is entitled to returns: no released string is used, no free entry is taken for
  a pointer, no access leaves a table, no assertion fails and no search is endless; the table
  stays consistent (chains, free list, counters and hashes), whether or not memory runs out.\<close>

theorem atom_calls_safe:
  assumes "js_mem_ok jm" "array_limit jm" "reach jm rt held" "entitled rt held c"
  shows "\<exists>rt' r. atom_call jm c rt = Some (rt', r) \<and> reach jm rt' (received rt' r (passed rt c held)) \<and> atoms_ok rt'"
proof -
  have i: "installed rt held" by (rule reach_installed [OF assms(1-3)])
  obtain rt' r where r: "atom_call jm c rt = Some (rt', r)" "installed rt' (received rt' r (passed rt c held))"
    using call_returns [OF i assms(1,2,4)] by (auto simp: returns_def)
  then have "atoms_ok rt'" using installedD(1) by (auto simp: client_ok_def)
  then show ?thesis using r(1) reach_call [OF assms(3,4) r(1)] by blast
qed

theorem atom_calls_safe_witness:
  "\<exists>rt rt' r. reach limited_mem rt (\<lambda>_. 0) \<and> entitled rt (\<lambda>_. 0) (New_atom_len [0x66, 0x6f, 0x6f]) \<and>
     atom_call limited_mem (New_atom_len [0x66, 0x6f, 0x6f]) rt = Some (rt', r) \<and> atoms_ok rt'"
proof -
  obtain rt where r: "reach limited_mem rt (\<lambda>_. 0)" using sample_reach by blast
  have e: "entitled rt (\<lambda>_. 0) (New_atom_len [0x66, 0x6f, 0x6f])" by (simp add: entitled_def)
  show ?thesis using atom_calls_safe [OF limited_mem_ok(1,2) r e] r e by blast
qed

text \<open>C9: an atom identifies its name.  Two atoms with the same name are the same word, whether
  tagged integers or entries of the table; and the call that asks for the atom of a string
  gives the atom with that name, or no atom when there was none and memory ran out.\<close>

theorem atom_identifies_name:
  assumes "js_mem_ok jm" "array_limit jm" "reach jm rt held" "0 < held s"
  shows "\<exists>rt' v. JS_NewAtomStr jm s rt = Some (rt', v) \<and>
    (if v = 0 then \<forall>w. atom_name rt w \<noteq> Some (arg_units rt (Some s))
     else \<forall>w. atom_name rt' w = Some (arg_units rt (Some s)) \<longleftrightarrow> w = v)"
proof -
  have i: "installed rt held" by (rule reach_installed [OF assms(1-3)])
  obtain rt' v where r: "JS_NewAtomStr jm s rt = Some (rt', v)" "installed rt' (give_word rt' v (take_ref s held))"
    "name_answer rt (arg_units rt (Some s)) rt' v" using NewAtomStr_ok [OF i assms(2,4)] by (auto simp: returns_def)
  then show ?thesis using name_unique [OF r(2)] by (auto simp: name_answer_def split: if_splits)
qed

text \<open>A string of the sample runtime: the digits of 42.\<close>

definition forty_two :: JSString where
  "forty_two = \<lparr>js_len = 2, js_wide = False, js_u = [0x34, 0x32, 0]\<rparr>"

lemma sample_string:
  obtains rt s where "reach limited_mem rt (give_ref s (\<lambda>_. 0))" "arg_units rt (Some s) = [0x34, 0x32]"
proof -
  obtain rt where r: "reach limited_mem rt (\<lambda>_. 0)" using sample_reach by blast
  have q: "js_string_ok forty_two" "js_units forty_two = [0x34, 0x32]"
    by (simp_all add: forty_two_def js_string_ok_def payload_size_def js_units_def units8_def)
  obtain rt' s where n: "struct_new (string_value forty_two) rt = (rt', s)" by fastforce
  have "atom_call limited_mem (New_string forty_two) rt = Some (rt', Ans_string (Some s))" using n by (simp add: atom_call_def)
  moreover have "entitled rt (\<lambda>_. 0) (New_string forty_two)" using q(1) by (simp add: entitled_def)
  ultimately have "reach limited_mem rt' (received rt' (Ans_string (Some s)) (passed rt (New_string forty_two) (\<lambda>_. 0)))"
    using reach_call [OF r] by blast
  then have "reach limited_mem rt' (give_ref s (\<lambda>_. 0))" by (simp add: received_def passed_def give_opt_def)
  moreover have "arg_units rt' (Some s) = [0x34, 0x32]"
    using installed_new_string(3) [OF reach_installed [OF limited_mem_ok(1,2) r] q(1) n] q(2) by simp
  ultimately show thesis using that by blast
qed

theorem atom_identifies_name_witness:
  "\<exists>rt s rt' v. arg_units rt (Some s) = [0x34, 0x32] \<and> JS_NewAtomStr limited_mem s rt = Some (rt', v) \<and>
     (if v = 0 then \<forall>w. atom_name rt w \<noteq> Some [0x34, 0x32] else \<forall>w. atom_name rt' w = Some [0x34, 0x32] \<longleftrightarrow> w = v)"
proof -
  obtain rt s where s: "reach limited_mem rt (give_ref s (\<lambda>_. 0))" "arg_units rt (Some s) = [0x34, 0x32]" by (rule sample_string)
  have "0 < give_ref s (\<lambda>_. 0) s" by (simp add: give_ref_def)
  from atom_identifies_name [OF limited_mem_ok(1,2) s(1) this] show ?thesis using s(2) by metis
qed

text \<open>C10: the string of an atom is the string it was made of: \<open>JS_AtomToString\<close> after
  \<open>JS_NewAtomStr\<close> gives back the units, for tagged integers by printing the number, and fails
  only there and only when memory runs out.\<close>

theorem atom_string_roundtrip:
  assumes "js_mem_ok jm" "array_limit jm" "reach jm rt held" "0 < held s" "JS_NewAtomStr jm s rt = Some (rt1, v)" "v \<noteq> 0"
  shows "\<exists>rt2 r. JS_AtomToString jm v rt1 = Some (rt2, r) \<and>
    (r = None \<and> AtomIsTaggedInt v \<or> (\<exists>p. r = Some (Value_string p) \<and> arg_units rt2 (Some p) = arg_units rt (Some s)))"
proof -
  let ?us = "arg_units rt (Some s)"
  have i: "installed rt held" by (rule reach_installed [OF assms(1-3)])
  have r: "installed rt1 (give_word rt1 v (take_ref s held))" "atom_name rt1 v = Some ?us"
    using NewAtomStr_ok [OF i assms(2,4)] assms(5,6) by (auto simp: returns_def name_answer_def)
  have "owns_atom rt1 (give_word rt1 v (take_ref s held)) v"
  proof (cases "AtomIsConst v")
    case True
    then show ?thesis using assms(6) by (auto simp: owns_atom_def const_unat unat_gt_0)
  next
    case False
    then have "atom_key rt1 (unat v) = Some (1, ?us)" using r(2) by (auto simp: atom_name_Some const_unat split: if_splits)
    then obtain p where "atom_at rt1 (unat v) = Some p" using key_live by blast
    then show ?thesis using False by (auto simp: owns_atom_def give_word_def give_ref_def)
  qed
  from AtomToValue_ok [OF r(1) assms(1) this, of True]
  obtain rt2 x where x: "JS_AtomToString jm v rt1 = Some (rt2, x)" "value_answer rt1 v True rt2 x"
    by (auto simp: returns_def JS_AtomToString_def)
  then show ?thesis using atom_name_text [OF r(2)]
    by (auto simp: value_answer_def split: option.splits atom_value.splits)
qed

theorem atom_string_roundtrip_witness:
  "\<exists>rt s rt1 v. arg_units rt (Some s) = [0x34, 0x32] \<and> JS_NewAtomStr limited_mem s rt = Some (rt1, v) \<and>
     (v \<noteq> 0 \<longrightarrow> (\<exists>rt2 r. JS_AtomToString limited_mem v rt1 = Some (rt2, r) \<and>
       (r = None \<and> AtomIsTaggedInt v \<or> (\<exists>p. r = Some (Value_string p) \<and> arg_units rt2 (Some p) = [0x34, 0x32]))))"
proof -
  obtain rt s where s: "reach limited_mem rt (give_ref s (\<lambda>_. 0))" "arg_units rt (Some s) = [0x34, 0x32]" by (rule sample_string)
  have h: "0 < give_ref s (\<lambda>_. 0) s" by (simp add: give_ref_def)
  obtain rt1 v where "JS_NewAtomStr limited_mem s rt = Some (rt1, v)"
    using NewAtomStr_ok [OF reach_installed [OF limited_mem_ok(1,2) s(1)] limited_mem_ok(2) h] by (auto simp: returns_def)
  then show ?thesis using atom_string_roundtrip [OF limited_mem_ok(1,2) s(1) h] s(2) by metis
qed

text \<open>C12: the names that are array indices are exactly the decimal forms of the numbers below
  \<open>2 ^ 32 - 1\<close>; for other names, such as one with a leading zero, and for symbols the answer is
  no.\<close>

theorem atom_array_index:
  assumes "js_mem_ok jm" "array_limit jm" "reach jm rt held" "owns_atom rt held v"
  shows "\<exists>r. JS_AtomIsArrayIndex rt v = Some r \<and>
    (\<forall>n. r = Some n \<longleftrightarrow> unat n < 2 ^ 32 - 1 \<and> atom_name rt v = Some (decimal_units (unat n)))"
proof -
  have i: "installed rt held" by (rule reach_installed [OF assms(1-3)])
  have max: "unat n < 2 ^ 32 - 1 \<longleftrightarrow> n \<noteq> -1" for n :: u32
  proof -
    have "unat (-1 :: u32) = 2 ^ 32 - 1" by (simp add: unsigned_minus_1_eq_mask mask_eq_exp_minus_1)
    then have "n = -1 \<longleftrightarrow> unat n = 2 ^ 32 - 1" by (metis word_unat_eq_iff)
    then show ?thesis using unsigned_less [of n, where ?'a = nat] by auto
  qed
  show ?thesis unfolding max
  proof (cases "AtomIsTaggedInt v")
    case True
    have "AtomToUInt32 v \<noteq> -1" using tagged_small [of v] max [of "AtomToUInt32 v"] by simp
    moreover have "decimal_units (unat (AtomToUInt32 v)) = decimal_units (unat n) \<longleftrightarrow> AtomToUInt32 v = n" for n
      unfolding decimal_units_inj by (auto simp: word_unat_eq_iff)
    ultimately show "\<exists>r. JS_AtomIsArrayIndex rt v = Some r \<and> (\<forall>n. r = Some n \<longleftrightarrow> n \<noteq> -1 \<and> atom_name rt v = Some (decimal_units (unat n)))"
      using True by (auto simp: JS_AtomIsArrayIndex_def atom_name_def)
  next
    case False
    obtain p where p: "atom_at rt (unat v) = Some p" "unat v \<noteq> 0" "unat v < atom_size rt" by (rule owned_live [OF i assms(4) False])
    obtain a where a: "as_heap rt p = Some a" "struct_ok rt p a" by (rule core_slot [OF installedD(2) [OF i] p(1)])
    have st: "struct_at rt (unat v) = Some a" using p(1) a(1) by (simp add: struct_at_def)
    have name: "atom_name rt v = Some us \<longleftrightarrow> as_atom_type a = 1 \<and> atom_units a = us" for us
      using False st by (auto simp: atom_name_Some atom_key_Some hashed_def)
    have "atom_at rt 0 \<noteq> Some p" using slots_injD [OF core_inj [OF installedD(2) [OF i]] p(1)] p(2) by auto
    then have ok: "js_string_ok (as_string a)" using a(2) by (simp add: struct_ok_def)
    obtain x where x: "is_num_string (as_string a) = Some x" using is_num_string_Some(2) [OF ok] by blast
    define r where "r = (if as_atom_type a = 1 then case x of Some val \<Rightarrow> if val \<noteq> -1 then Some val else None | None \<Rightarrow> None else None)"
    have run: "JS_AtomIsArrayIndex rt v = Some r" using False p(3) st x by (simp add: JS_AtomIsArrayIndex_def assert_c_def r_def)
    have "r = Some n \<longleftrightarrow> as_atom_type a = 1 \<and> x = Some n \<and> n \<noteq> -1" for n by (auto simp: r_def split: option.splits)
    moreover have "x = Some n \<longleftrightarrow> atom_units a = decimal_units (unat n)" for n using is_num_string_Some(1) [OF ok, of n] x by (simp add: atom_units_def)
    ultimately show "\<exists>r. JS_AtomIsArrayIndex rt v = Some r \<and> (\<forall>n. r = Some n \<longleftrightarrow> n \<noteq> -1 \<and> atom_name rt v = Some (decimal_units (unat n)))"
      using run name by blast
  qed
qed

theorem atom_array_index_witness:
  "\<exists>rt r. reach limited_mem rt (\<lambda>_. 0) \<and> JS_AtomIsArrayIndex rt (AtomFromUInt32 7) = Some r \<and>
     (\<forall>n. r = Some n \<longleftrightarrow> unat n < 2 ^ 32 - 1 \<and> atom_name rt (AtomFromUInt32 7) = Some (decimal_units (unat n)))"
proof -
  obtain rt where r: "reach limited_mem rt (\<lambda>_. 0)" using sample_reach by blast
  have "(7 :: u32) \<le> JS_ATOM_MAX_INT" by (simp add: JS_ATOM_MAX_INT_def JS_ATOM_TAG_INT_def)
  then have "owns_atom rt (\<lambda>_. 0) (AtomFromUInt32 7)" using from_to_uint32(1) by (simp add: owns_atom_def)
  from atom_array_index [OF limited_mem_ok(1,2) r this] show ?thesis using r by blast
qed



text \<open>C11: the predefined atoms.  \<open>JS_InitAtoms\<close> returns; unless the allocator refuses memory it
  succeeds, and then every index of the enumeration of \<open>quickjs-atom.h\<close> is the atom with the
  name and the kind listed there.\<close>

theorem init_atoms_enum:
  assumes "js_mem_ok jm" "array_limit jm" "cleared rt"
  shows "\<exists>rt' r. JS_InitAtoms jm rt = Some (rt', r) \<and> (r = 0 \<or> \<not> generous jm) \<and>
    (r = 0 \<longrightarrow> (\<forall>i. 0 < i \<longrightarrow> i < JS_ATOM_END \<longrightarrow>
       atom_text rt' (word_of_nat i) = map (\<lambda>c. ucast (of_char c :: u8)) (js_atom_init ! (i - 1)) \<and>
       JS_AtomGetKind rt' (word_of_nat i) =
         Some (if i < JS_ATOM_Private_brand then JS_ATOM_KIND_STRING
               else if i = JS_ATOM_Private_brand then JS_ATOM_KIND_PRIVATE else JS_ATOM_KIND_SYMBOL)))"
proof -
  obtain rt' r where r: "JS_InitAtoms jm rt = Some (rt', r)" "r = 0 \<and> initialised rt' JS_ATOM_END \<or> r = -1 \<and> \<not> generous jm"
    using InitAtoms_ok [OF assms] by blast
  have "atom_text rt' (word_of_nat i) = init_name i \<and> JS_AtomGetKind rt' (word_of_nat i) =
      Some (if i < JS_ATOM_Private_brand then JS_ATOM_KIND_STRING
            else if i = JS_ATOM_Private_brand then JS_ATOM_KIND_PRIVATE else JS_ATOM_KIND_SYMBOL)"
    if i: "0 < i" "i < JS_ATOM_END" and z: "r = 0" for i
  proof -
    have "predefined_at rt' i" using r(2) z i by (simp add: initialised_def)
    then obtain p n q h where p: "atom_at rt' i = Some p" "views rt' p = Some (n, q, init_kind i, h)" "js_units q = init_name i"
      "init_kind i = 3 \<longrightarrow> h = (if i = JS_ATOM_Private_brand then JS_ATOM_HASH_PRIVATE else JS_ATOM_HASH_SYMBOL)"
      by (auto simp: predefined_at_def)
    then obtain a where a: "struct_at rt' i = Some a" "as_string a = q" "as_atom_type a = init_kind i" "as_hash a = h"
      by (auto simp: views_Some struct_at_def)
    have "i \<le> atom_size_limit" using i(2) by (simp add: JS_ATOM_END_def atom_size_limit_def)
    note iw = index_word [OF this]
    show ?thesis using a p(3,4) iw by (auto simp: atom_text_def atom_units_def JS_AtomGetKind_def init_kind_def)
  qed
  then show ?thesis using r by (auto simp: init_name_def)
qed

theorem init_atoms_enum_witness:
  "\<exists>rt. JS_InitAtoms limited_mem blank = Some (rt, 0) \<and>
     atom_text rt 48 = [0x6c, 0x65, 0x6e, 0x67, 0x74, 0x68] \<and> JS_AtomGetKind rt 210 = Some JS_ATOM_KIND_PRIVATE"
proof -
  have c: "cleared blank" by (simp add: cleared_def blank_def)
  obtain rt where r: "JS_InitAtoms limited_mem blank = Some (rt, 0)"
    "\<And>i. 0 < i \<Longrightarrow> i < JS_ATOM_END \<Longrightarrow> atom_text rt (word_of_nat i) = map (\<lambda>c. ucast (of_char c :: u8)) (js_atom_init ! (i - 1)) \<and>
       JS_AtomGetKind rt (word_of_nat i) =
         Some (if i < JS_ATOM_Private_brand then JS_ATOM_KIND_STRING
               else if i = JS_ATOM_Private_brand then JS_ATOM_KIND_PRIVATE else JS_ATOM_KIND_SYMBOL)"
    using init_atoms_enum [OF limited_mem_ok(1,2) c] limited_mem_ok(3) by blast
  have "js_atom_init ! 47 = ''length''" by (simp add: js_atom_init_def)
  then show ?thesis using r(1) r(2) [of 48] r(2) [of 210] by (simp add: JS_ATOM_END_def JS_ATOM_Private_brand_def)
qed
end
