(* ===== verification/Spec2Isabelle.thy ===== *)
theory Spec2Isabelle
  imports Pc2line Unicode_Char_Range Cutils_Utf8 Cutils_Sort Regexp_Safety Js_String_Utf8 Gc_Cycles
    List_Links Js_Map_Refine Js_Uri Js_Atom_Reach
begin

text \<open>
  A verification development for the QuickJS engine of this repository (\<open>src/quickjs.c\<close> and the
  libraries it is built from).

  \<^bold>\<open>The program.\<close>  The engine compiles JavaScript to bytecode and interprets it.  Around the
  interpreter stand the parts that keep its state: values with reference counts, strings, the
  table of property names (atoms), objects with shapes, the cycle collector, and the builtins.
  Below them are three libraries: \<open>cutils.c\<close> (byte buffers, UTF-8, sorting), \<open>libunicode.c\<close>
  (character sets) and \<open>libregexp.c\<close> (regular expressions).  The development models the libraries
  and the state-keeping parts bottom-up, one theory or a small group of theories for each.

  \<^bold>\<open>Reading conventions\<close> (\<open>Qjs_Prelude\<close>).  A C object is the list of its elements and a pointer into
  it an index; a heap of objects is a partial function from addresses.  An access outside an
  object, the use of a released object, a failed \<open>assert\<close> and a call of \<open>abort\<close> are the value
  \<open>None\<close> of an outer option type, so that a theorem of the form \<open>f x = Some y\<close> includes memory
  safety and the absence of undefined behaviour.  Error returns of the C code are values inside
  it.  Machine integers are words where wrap-around matters, and numbers with the range written
  out otherwise.  Loops are structural recursion, functions with a termination proof,
  \<open>partial_function (option)\<close>, or recursion with fuel; the theorems show that they return.

  \<^bold>\<open>Libraries.\<close>
  \<^item> \<open>Cutils_Bytes\<close>, \<open>Cutils_Dbuf\<close>: loads and stores of \<open>cutils.h\<close> and the \<open>DynBuf\<close> of
    \<open>cutils.c\<close> with its growth and its error flag.  Every operation appends, inserts or copies
    exactly the bytes it is asked for or sets the flag; the allocator is a function of the buffer
    as in C.  \<open>Leb128\<close> and \<open>Pc2line\<close> (\<open>quickjs.c\<close>) write and read variable-length integers
    and the table of line numbers on top of it: round trips, and safety of the readers on any bytes.
  \<^item> \<open>Cutils_Utf8\<close>: encoder and decoder of up to six bytes; round trip and uniqueness.
  \<^item> \<open>Cutils_Exchange\<close>, \<open>Cutils_Sort\<close>: the exchange functions at the level of bytes, \<open>heapsortx\<close>
    and \<open>rqsort\<close> with its explicit stack of 50 segments and its depth limit.  For any comparison
    function the sort ends in bounds with a permutation; for a total preorder it sorts.
  \<^item> \<open>Unicode_Char_Range\<close>: \<open>CharRange\<close> of \<open>libunicode.c\<close> and the classes of \<open>libregexp.c\<close>; each
    operation computes the set operation and keeps the canonical form.
  \<^item> \<open>Regexp_Chars\<close>, \<open>Regexp_Exec\<close>, \<open>Regexp_Safety\<close>: \<open>lre_exec_backtrack\<close> with every instruction
    of \<open>libregexp-opcode.h\<close>.  The checker of \<open>Regexp_Safety\<close> states what bytecode has to satisfy;
    for checked bytecode the interpreter reaches no undefined behaviour on any subject.  The
    fuel bounds the steps of a match, which may be exponential; the loops of simple quantifiers
    are shown to end.
  \<^item> \<open>List_Links\<close>: the circular lists of \<open>list.h\<close>, refined to lists of cells.

  \<^bold>\<open>State of the engine\<close> (\<open>quickjs.c\<close>).
  \<^item> \<open>Js_String\<close>, \<open>Js_String_Buffer\<close>, \<open>Js_String_Utf8\<close>, \<open>Js_Uri\<close>: strings of one or two bytes per
    unit in one block of memory, refined to lists of 16-bit units; comparison, concatenation,
    substrings, the string buffer with widening in place, conversion from and to UTF-8, and the
    URI functions with their round trips.  \<open>malloc\<close> and \<open>realloc\<close> are the parameter \<open>js_mem\<close>, with
    \<open>js_mem_ok\<close> for their documented behaviour; an allocation may fail at any point.
  \<^item> \<open>Js_Atom\<close> defines the atom table, its interning, its symbols and the predefined atoms of
    \<open>quickjs-atom.h\<close>.  \<open>Js_Atom_Table\<close> states the invariant (threaded hash chains, free list inside
    the array, counters) and its preservation by growth and release; \<open>Js_Atom_Intern\<close> and
    \<open>Js_Atom_Calls\<close> add the reference counts and the promise of \<open>__JS_NewAtom\<close>; \<open>Js_Atom_Names\<close>
    treats decimal names; \<open>Js_Atom_Init\<close> the predefined atoms; \<open>Js_Atom_Client\<close>, \<open>Js_Atom_Create\<close>
    and \<open>Js_Atom_Reach\<close> any sequence of calls of a client that releases only what it owns.
  \<^item> \<open>Js_Value\<close>, \<open>Js_Map\<close>, \<open>Js_Map_Refine\<close>: equality and hashing of values, doubles being bit
    patterns; maps, sets, their weak variants and iterators with deferred deletion of records,
    refined to lists of entries in order of insertion.
  \<^item> \<open>Gc_Cycles\<close>: the passes of the cycle collector that find the garbage; they restore the
    counts and separate what is reachable from outside.

  \<^bold>\<open>Interaction.\<close>  Strings are used by the URI functions, by atoms and by map keys; the buffer
  grows through \<open>DynBuf\<close> or \<open>js_mem\<close>; classes of regular expressions are character ranges, and the
  range instructions of the interpreter decide membership in them.  Where one part relies on
  another through a contract, the contract is a locale that is interpreted on the definitions of
  the provider: comparison functions for the sorts, searches along hash chains for atoms and
  others.

  \<^bold>\<open>Bounds.\<close>  Fuel of the collector passes is one more than the number of objects and is shown to be
  enough; fuel of the iteration over a map is the number of its records; \<open>forEach\<close> and the
  regular expression interpreter have fuel because the loops may not end, and their theorems
  say what holds at every point.  \<open>array_limit\<close> says that the allocator gives no array of more than
  715827882 pointers, beyond which \<open>atom_size * 3\<close> leaves the range of \<open>int\<close> in the C code.
  Reference counts and the lengths of lists are unbounded numbers; the C counters have 32 bits.

  \<^bold>\<open>Not modelled.\<close>  The lexer, parser and bytecode generator, the bytecode interpreter, property
  access through prototypes, getters and proxies, and the destruction of objects: they depend on
  each other and on user code at every step.  The regular expression compiler: its output is
  characterised by the checker instead.  The Unicode tables and normalization (generated data),
  multi-precision arithmetic (\<open>libbf.c\<close>), serialization, the event loop and operating system calls
  (\<open>quickjs-libc.c\<close>), the C++ bindings and the command line tools.
\<close>

end
